(* ===== verification/Fw_Prelude.thy ===== *)
theory Fw_Prelude
  imports Main "HOL-Library.Word"
begin

text \<open>
  Shared vocabulary of the development: the machine integers of the firmware, the return
  codes of the TuyaOS adapter, C memory blocks as byte lists with the two effects
  \<open>memcpy\<close> has on them, and the generic list, word and ring-index lemmas the component
  theories rest on.
\<close>

unbundle bit_operations_syntax

section \<open>Machine integers and pointers\<close>

type_synonym u8 = "8 word"
type_synonym u16 = "16 word"
type_synonym u32 = "32 word"

text \<open>
  A heap address. Address \<open>0\<close> is \<open>NULL\<close>.
\<close>

type_synonym addr = nat

abbreviation (input) NULL :: addr where "NULL \<equiv> 0"

text \<open>
  The return codes \<open>OPERATE_RET\<close> that the modelled functions use. The numeric values are in
  a header of another repository; only their being distinct matters.
\<close>

datatype oprt =
    OPRT_OK
  | OPRT_COM_ERROR
  | OPRT_INVALID_PARM
  | OPRT_MALLOC_FAILED
  | OPRT_NOT_SUPPORTED
  | OPRT_NOT_FOUND
  | OPRT_EXCEED_UPPER_LIMIT
  | OPRT_BASE_TIMEQ_TIMERID_UNVALID
  | OPRT_BASE_TIMEQ_TIMERID_NOT_FOUND
  | OPRT_OS_ADAPTER_OTA_PKT_SIZE_FAILED
  | OPRT_OS_ADAPTER_OTA_START_INFORM_FAILED
  | OPRT_OS_ADAPTER_OTA_PROCESS_FAILED
  | OPRT_OS_ADAPTER_OTA_END_INFORM_FAILED

named_theorems mem_simps \<open>rewrite rules for blocks of bytes\<close>
named_theorems heap_simps \<open>rewrite rules for field updates of linked structures\<close>
named_theorems unat_simps \<open>rules that move word arithmetic to natural numbers\<close>

section \<open>Blocks of bytes\<close>

text \<open>
  \<open>mem_get b o n\<close> is what \<open>memcpy(dst, &b[o], n)\<close> reads, \<open>mem_put b o bs\<close> is the block
  after \<open>memcpy(&b[o], bs, length bs)\<close>.
\<close>

definition mem_get :: "'a list \<Rightarrow> nat \<Rightarrow> nat \<Rightarrow> 'a list" where
  "mem_get b off n = take n (drop off b)"

definition mem_put :: "'a list \<Rightarrow> nat \<Rightarrow> 'a list \<Rightarrow> 'a list" where
  "mem_put b off bs = take off b @ bs @ drop (off + length bs) b"

lemma length_mem_get [mem_simps]: "length (mem_get b off n) = min n (length b - off)"
  by (simp add: mem_get_def min.commute)

lemma length_mem_put [mem_simps]:
  "off + length bs \<le> length b \<Longrightarrow> length (mem_put b off bs) = length b"
  by (simp add: mem_put_def)

lemma mem_put_Nil [mem_simps]: "off \<le> length b \<Longrightarrow> mem_put b off [] = b"
  by (simp add: mem_put_def)

lemma nth_mem_get [mem_simps]:
  "i < n \<Longrightarrow> off + i < length b \<Longrightarrow> mem_get b off n ! i = b ! (off + i)"
  by (simp add: mem_get_def)

lemma nth_mem_put [mem_simps]:
  assumes "off + length bs \<le> length b" and "i < length b"
  shows "mem_put b off bs ! i =
    (if off \<le> i \<and> i < off + length bs then bs ! (i - off) else b ! i)"
  using assms by (auto simp: mem_put_def nth_append)

lemma mem_get_all [mem_simps]: "mem_get b 0 (length b) = b"
  by (simp add: mem_get_def)

lemma mem_get_put_same [mem_simps]:
  assumes "off + length bs \<le> length b"
  shows "mem_get (mem_put b off bs) off (length bs) = bs"
  using assms by (simp add: mem_get_def mem_put_def)

lemma mem_get_append:
  assumes "off + m \<le> length b"
  shows "mem_get b off (m + n) = mem_get b off m @ mem_get b (off + m) n"
  by (simp add: mem_get_def take_add drop_drop add.commute)

text \<open>
  \<open>memcpy(&dst[d], &src[s], n)\<close>.
\<close>

definition memcpy :: "'a list \<Rightarrow> nat \<Rightarrow> 'a list \<Rightarrow> nat \<Rightarrow> nat \<Rightarrow> 'a list" where
  "memcpy dst d src s n = mem_put dst d (mem_get src s n)"

text \<open>
  The macro \<open>GET_MIN\<close>.
\<close>

definition GET_MIN :: "('a::len) word \<Rightarrow> 'a word \<Rightarrow> 'a word" where
  "GET_MIN x y = (if x < y then x else y)"

lemma unat_GET_MIN [unat_simps]: "unat (GET_MIN x y) = min (unat x) (unat y)"
  by (auto simp: GET_MIN_def word_less_nat_alt)

lemma GET_MIN_commute: "GET_MIN x y = GET_MIN y x"
  by (auto simp: GET_MIN_def)

lemma unat_sub_le [unat_simps]: "y \<le> x \<Longrightarrow> unat (x - y) = unat x - unat y"
  by (rule unat_sub)

lemma unat_bound: "unat x < 2 ^ LENGTH('a)" for x :: "'a::len word"
  by (rule unsigned_less)

lemma unat_bound32: "unat x < 4294967296" for x :: u32
  using unat_bound [of x] by simp

lemma unat_of_nat_small:
  "n < 2 ^ LENGTH('a) \<Longrightarrow> unat (of_nat n :: 'a::len word) = n"
  by (simp add: unat_of_nat take_bit_nat_eq_self)

lemma word_eqI_unat: "unat x = n \<Longrightarrow> x = of_nat n" for x :: "'a::len word"
  by auto

lemma unat_of_nat_mod:
  assumes "0 < m" and "m \<le> 2 ^ LENGTH('a)"
  shows "unat (of_nat (n mod m) :: 'a::len word) = n mod m"
  using assms mod_less_divisor [of m n] by (intro unat_of_nat_small) linarith

lemma unat_add_small:
  fixes x y :: "'a::len word"
  assumes "unat x + unat y < 2 ^ LENGTH('a)"
  shows "unat (x + y) = unat x + unat y"
  using assms by (simp add: unat_word_ariths)

lemma sint_small:
  assumes "k < 2 ^ 31"
  shows "sint (of_nat k :: u32) = int k"
proof -
  have "uint (of_nat k :: u32) = int k"
    using assms by (simp add: unsigned_of_nat take_bit_nat_eq_self)
  then show ?thesis
    using assms by (simp add: sint_uint signed_take_bit_int_eq_self)
qed

lemma unat_less_take_bit: "unat x < 2 ^ n \<longleftrightarrow> take_bit n x = x" for x :: "'a::len word"
proof -
  have "unat x < 2 ^ n \<longleftrightarrow> take_bit n (unat x) = unat x"
    by (simp add: take_bit_nat_eq_self_iff)
  also have "\<dots> \<longleftrightarrow> unat (take_bit n x) = unat x" by (simp add: unsigned_take_bit_eq)
  finally show ?thesis by (simp add: word_unat_eq_iff)
qed

lemma word_eq_0_unat: "x = 0 \<longleftrightarrow> unat x = 0" for x :: "'a::len word"
  by (simp add: unat_eq_0)

lemmas word_to_nat = word_le_nat_alt word_less_nat_alt word_eq_0_unat

section \<open>Circular reads and writes\<close>

text \<open>
  \<open>ring_slice b o n\<close> is the run of \<open>n\<close> cells of the block \<open>b\<close> that starts at index \<open>o\<close> and
  wraps at the end of the block. Two-piece copies at the wrap-around, which both buffer
  implementations do, read and write exactly such runs.
\<close>

definition ring_slice :: "'a list \<Rightarrow> nat \<Rightarrow> nat \<Rightarrow> 'a list" where
  "ring_slice b st n = map (\<lambda>i. b ! ((st + i) mod length b)) [0..<n]"

lemma length_ring_slice [simp]: "length (ring_slice b st n) = n"
  by (simp add: ring_slice_def)

lemma ring_slice_0 [simp]: "ring_slice b st 0 = []"
  by (simp add: ring_slice_def)

lemma nth_ring_slice [simp]: "i < n \<Longrightarrow> ring_slice b st n ! i = b ! ((st + i) mod length b)"
  by (simp add: ring_slice_def)

lemma ring_slice_append:
  "ring_slice b st (m + n) = ring_slice b st m @ ring_slice b ((st + m) mod length b) n"
proof -
  have "[0..<m + n] = [0..<m] @ map (\<lambda>i. i + m) [0..<n]"
    using upt_add_eq_append [of 0 m n] map_add_upt [of m n] by (simp add: add.commute [of n m])
  then show ?thesis
    by (simp add: ring_slice_def comp_def mod_simps ac_simps)
qed

lemma take_ring_slice: "m \<le> n \<Longrightarrow> take m (ring_slice b st n) = ring_slice b st m"
  by (rule nth_equalityI) auto

lemma drop_ring_slice:
  "m \<le> n \<Longrightarrow> drop m (ring_slice b st n) = ring_slice b ((st + m) mod length b) (n - m)"
  using ring_slice_append [of b st m "n - m"] by simp

lemma ring_slice_linear:
  assumes "st + n \<le> length b"
  shows "mem_get b st n = ring_slice b st n"
  using assms by (intro nth_equalityI) (auto simp: mem_simps)

lemma ring_slice_wrap:
  assumes "st < length b" and "length b < st + n" and "n \<le> length b"
  shows "mem_get b st (length b - st) @ mem_get b 0 (n - (length b - st)) = ring_slice b st n"
proof -
  have "ring_slice b st (length b - st + (n - (length b - st))) =
      ring_slice b st (length b - st) @ ring_slice b 0 (n - (length b - st))"
    using assms by (subst ring_slice_append) simp
  moreover have "length b - st + (n - (length b - st)) = n"
    using assms by simp
  ultimately show ?thesis
    using assms by (simp add: ring_slice_linear)
qed

text \<open>
  Storing a run of bytes from index \<open>st\<close> on, wrapping at the end.
\<close>

definition ring_put :: "'a list \<Rightarrow> nat \<Rightarrow> 'a list \<Rightarrow> 'a list" where
  "ring_put b st bs =
     (if st + length bs \<le> length b then mem_put b st bs
      else mem_put (mem_put b st (take (length b - st) bs)) 0 (drop (length b - st) bs))"

lemma length_ring_put [simp]:
  assumes "st \<le> length b" and "length bs \<le> length b"
  shows "length (ring_put b st bs) = length b"
  using assms by (auto simp: ring_put_def mem_simps)

lemma mod_ge_once: "n \<le> x \<Longrightarrow> x < 2 * n \<Longrightarrow> x mod n = x - n" for n x :: nat
  by (simp add: le_mod_geq)

lemma nth_ring_put:
  assumes "st < length b" and "length bs \<le> length b" and "j < length b"
  shows "ring_put b st bs ! j =
    (let k = (j + length b - st) mod length b in if k < length bs then bs ! k else b ! j)"
proof -
  have "(j + length b - st) mod length b = (if st \<le> j then j - st else j + length b - st)"
    using assms by (auto simp: mod_ge_once)
  then show ?thesis
    using assms by (auto simp: ring_put_def nth_mem_put length_mem_put Let_def add.commute)
qed

lemma ring_index_back:
  fixes st i n :: nat
  assumes "st < n" and "i < n"
  shows "((st + i) mod n + n - st) mod n = i"
  using assms by (cases "st + i < n") (auto simp: mod_ge_once)

text \<open>
  Appending at the end of the occupied run: the run of \<open>m\<close> cells at \<open>st\<close> is kept and the
  new bytes follow it.
\<close>

lemma ring_slice_put:
  assumes st: "st < length b" and fit: "m + length bs \<le> length b"
  shows "ring_slice (ring_put b ((st + m) mod length b) bs) st (m + length bs)
       = ring_slice b st m @ bs"
proof (rule nth_equalityI)
  show "length (ring_slice (ring_put b ((st + m) mod length b) bs) st (m + length bs)) =
      length (ring_slice b st m @ bs)"
    by simp
next
  fix i
  let ?L = "length b" and ?w = "(st + m) mod length b"
  assume "i < length (ring_slice (ring_put b ?w bs) st (m + length bs))"
  then have i: "i < m + length bs" by simp
  have w: "?w < ?L"
    using st by (intro mod_less_divisor) linarith
  have L: "length (ring_put b ?w bs) = ?L"
    using w fit by (intro length_ring_put) linarith+
  have k: "((st + i) mod ?L + ?L - ?w) mod ?L = (if m \<le> i then i - m else i + ?L - m)"
    using i st fit by (cases "st + i < ?L"; cases "st + m < ?L") (auto simp: mod_ge_once)
  have "(st + i) mod ?L < ?L" "length bs \<le> ?L"
    using st fit by (auto intro: mod_less_divisor)
  note put = nth_ring_put [OF w this(2,1)]
  show "ring_slice (ring_put b ?w bs) st (m + length bs) ! i = (ring_slice b st m @ bs) ! i"
    using i fit by (auto simp: L put k nth_append Let_def)
qed

lemma ring_put_Nil [simp]: "st \<le> length b \<Longrightarrow> ring_put b st [] = b"
  by (simp add: ring_put_def mem_put_Nil)

text \<open>
  The two-piece copy out of the buffer reads a circular run.
\<close>

lemma ring_copy_out:
  assumes "st < length b" and "n < length b" and "n \<le> length d"
  shows "(if length b < st + n
          then memcpy (memcpy d 0 b st (length b - st)) (length b - st) b 0 (n - (length b - st))
          else memcpy d 0 b st n) = ring_slice b st n @ drop n d"
proof (cases "length b < st + n")
  case True
  then show ?thesis
    using assms ring_slice_wrap [of st b n, symmetric]
    by (simp add: memcpy_def mem_put_def mem_get_def)
next
  case False
  then show ?thesis
    using assms ring_slice_linear [of st n b, symmetric]
    by (simp add: memcpy_def mem_put_def mem_get_def)
qed

text \<open>
  The two-piece copy into the buffer stores a circular run.
\<close>

lemma ring_copy_in:
  assumes "st < length b" and "n < length b" and "n \<le> length d"
  shows "(if length b < st + n
          then memcpy (memcpy b st d 0 (length b - st)) 0 d (length b - st) (n - (length b - st))
          else memcpy b st d 0 n) = ring_put b st (take n d)"
  using assms by (auto simp: ring_put_def memcpy_def mem_get_def take_drop min_absorb1)

section \<open>Byte order\<close>

text \<open>
  The target is little endian.
\<close>

definition le16 :: "u16 \<Rightarrow> u8 list" where "le16 w = [ucast w, ucast (drop_bit 8 w)]"

definition le32 :: "u32 \<Rightarrow> u8 list" where
  "le32 w = [ucast w, ucast (drop_bit 8 w), ucast (drop_bit 16 w), ucast (drop_bit 24 w)]"

definition get16 :: "u8 list \<Rightarrow> nat \<Rightarrow> u16" where
  "get16 b i = ucast (b ! i) OR push_bit 8 (ucast (b ! (i + 1)))"

definition get32 :: "u8 list \<Rightarrow> nat \<Rightarrow> u32" where
  "get32 b i = ucast (b ! i) OR push_bit 8 (ucast (b ! (i + 1))) OR
     push_bit 16 (ucast (b ! (i + 2))) OR push_bit 24 (ucast (b ! (i + 3)))"

lemma length_le [simp]: "length (le16 w) = 2" "length (le32 v) = 4"
  by (simp_all add: le16_def le32_def)

lemma ucast_parts16: "(ucast (ucast w :: u8) :: u16) OR push_bit 8 (ucast (ucast (drop_bit 8 w) :: u8)) = w"
  for w :: u16
  by (rule bit_word_eqI) (auto simp: bit_simps)

lemma ucast_parts32:
  "(ucast (ucast w :: u8) :: u32) OR push_bit 8 (ucast (ucast (drop_bit 8 w) :: u8)) OR
     push_bit 16 (ucast (ucast (drop_bit 16 w) :: u8)) OR push_bit 24 (ucast (ucast (drop_bit 24 w) :: u8)) = w"
  for w :: u32
proof (rule bit_word_eqI)
  fix n assume n: "n < LENGTH(32)"
  then consider "n < 8" | "8 \<le> n" "n < 16" | "16 \<le> n" "n < 24" | "24 \<le> n" by linarith
  then show "bit ((ucast (ucast w :: u8) :: u32) OR push_bit 8 (ucast (ucast (drop_bit 8 w) :: u8)) OR
     push_bit 16 (ucast (ucast (drop_bit 16 w) :: u8)) OR push_bit 24 (ucast (ucast (drop_bit 24 w) :: u8))) n
     \<longleftrightarrow> bit w n"
    using n by cases (auto simp: bit_simps)
qed

lemma get16_le16: "get16 (xs @ le16 w @ ys) (length xs) = w"
  by (simp add: get16_def le16_def nth_append ucast_parts16)

lemma get32_le32: "get32 (xs @ le32 w @ ys) (length xs) = w"
  by (simp add: get32_def le32_def nth_append ucast_parts32)

end
