(* ===== verification/Byte_Fifo.thy ===== *)
theory Byte_Fifo
  imports Fw_Prelude
begin

text \<open>
  The contract that a bounded first-in first-out buffer of bytes offers its clients, as a
  locale, and what any client may conclude from it about an arbitrary interleaving of
  writes and reads. The ring buffer of the TuyaOS utilities and the cyclic buffer of the
  GigaDevice SDK both provide it.
\<close>

datatype fifo_op = Push "u8 list" | Pop nat

text \<open>
  A run of a client: the bytes the buffer accepted, the bytes it delivered, both in order,
  and the buffer at the end. \<open>push\<close> returns the accepted bytes, \<open>pop\<close> the delivered ones.
\<close>

fun fifo_run :: "('s \<Rightarrow> u8 list \<Rightarrow> u8 list \<times> 's) \<Rightarrow> ('s \<Rightarrow> nat \<Rightarrow> u8 list \<times> 's)
    \<Rightarrow> 's \<Rightarrow> fifo_op list \<Rightarrow> u8 list \<times> u8 list \<times> 's" where
  "fifo_run push pop s [] = ([], [], s)"
| "fifo_run push pop s (Push bs # ops) =
     (let (acc, s1) = push s bs; (ins, outs, s2) = fifo_run push pop s1 ops
      in (acc @ ins, outs, s2))"
| "fifo_run push pop s (Pop n # ops) =
     (let (got, s1) = pop s n; (ins, outs, s2) = fifo_run push pop s1 ops
      in (ins, got @ outs, s2))"

locale byte_fifo =
  fixes inv :: "'s \<Rightarrow> bool"
    and contents :: "'s \<Rightarrow> u8 list"
    and capacity :: "'s \<Rightarrow> nat"
    and push :: "'s \<Rightarrow> u8 list \<Rightarrow> u8 list \<times> 's"
    and pop :: "'s \<Rightarrow> nat \<Rightarrow> u8 list \<times> 's"
  assumes within_capacity: "inv s \<Longrightarrow> length (contents s) \<le> capacity s"
    and push_inv: "inv s \<Longrightarrow> push s bs = (acc, s') \<Longrightarrow> inv s' \<and> capacity s' = capacity s"
    and push_contents: "inv s \<Longrightarrow> push s bs = (acc, s') \<Longrightarrow> contents s' = contents s @ acc"
    and push_accepts: "inv s \<Longrightarrow> push s bs = (acc, s') \<Longrightarrow> \<exists>k. acc = take k bs"
    and pop_inv: "inv s \<Longrightarrow> pop s n = (got, s') \<Longrightarrow> inv s' \<and> capacity s' = capacity s"
    and pop_contents: "inv s \<Longrightarrow> pop s n = (got, s') \<Longrightarrow> contents s = got @ contents s'"
    and pop_at_most: "inv s \<Longrightarrow> pop s n = (got, s') \<Longrightarrow> length got \<le> n"
begin

text \<open>
  No byte is lost, duplicated or reordered: what was in the buffer followed by what was
  accepted is what was delivered followed by what is still there.
\<close>

lemma run_stream:
  "inv s \<Longrightarrow> fifo_run push pop s ops = (ins, outs, s') \<Longrightarrow>
   inv s' \<and> capacity s' = capacity s \<and> contents s @ ins = outs @ contents s'"
proof (induction ops arbitrary: s ins outs s')
  case Nil
  then show ?case by auto
next
  case (Cons x ops)
  show ?case
  proof (cases x)
    case (Push bs)
    obtain acc s1 where p: "push s bs = (acc, s1)" by force
    obtain ins' outs' s2 where r: "fifo_run push pop s1 ops = (ins', outs', s2)"
      by (metis prod_cases3)
    have eq: "ins = acc @ ins'" "outs = outs'" "s' = s2"
      using Cons.prems(2) Push p r by auto
    have s1: "inv s1" "capacity s1 = capacity s" "contents s1 = contents s @ acc"
      using push_inv push_contents Cons.prems(1) p by auto
    show ?thesis
      using Cons.IH [OF s1(1) r] s1 eq by simp
  next
    case (Pop n)
    obtain got s1 where p: "pop s n = (got, s1)" by force
    obtain ins' outs' s2 where r: "fifo_run push pop s1 ops = (ins', outs', s2)"
      by (metis prod_cases3)
    have eq: "ins = ins'" "outs = got @ outs'" "s' = s2"
      using Cons.prems(2) Pop p r by auto
    have s1: "inv s1" "capacity s1 = capacity s" "contents s = got @ contents s1"
      using pop_inv pop_contents Cons.prems(1) p by auto
    show ?thesis
      using Cons.IH [OF s1(1) r] s1 eq by simp
  qed
qed

text \<open>
  A reader that started on an empty buffer has seen a prefix of what was written, and lags
  behind the writer by at most the capacity.
\<close>

lemma run_from_empty:
  assumes "inv s" and "contents s = []" and "fifo_run push pop s ops = (ins, outs, s')"
  shows "\<exists>rest. ins = outs @ rest \<and> length rest \<le> capacity s"
proof -
  from run_stream [OF assms(1,3)] assms(2)
  have "inv s'" "capacity s' = capacity s" "ins = outs @ contents s'"
    by simp_all
  then show ?thesis
    using within_capacity [of s'] by auto
qed

end

end
