(* ===== verification/Ring_Buffer.thy ===== *)
theory Ring_Buffer
  imports Byte_Fifo
begin

text \<open>
  The byte ring buffer of \<open>tuya_ringbuf.c\<close>: its control block, all of its operations, the
  invariant they keep and the refinement to a bounded queue of bytes. A handle that is
  \<open>NULL\<close> and a data pointer that is \<open>NULL\<close> are \<open>None\<close>; an operation returns its C result
  and the buffer after the call.
\<close>

section \<open>Model of tuya_ringbuf.c\<close>

datatype ringbuff_type = OVERFLOW_STOP_TYPE | OVERFLOW_COVERAGE_TYPE

text \<open>
  \<open>rb_buff\<close> is the flexible array member \<open>buff[]\<close> that the allocation leaves behind the
  header.
\<close>

record ringbuff =
  rb_type :: ringbuff_type
  rb_in :: u32
  rb_out :: u32
  rb_len :: u32
  rb_buff :: "u8 list"

abbreviation RINGBUFF_SIZE :: u32 where "RINGBUFF_SIZE \<equiv> 16"

definition ringbuff_init :: "ringbuff \<Rightarrow> u32 \<Rightarrow> ringbuff" where
  "ringbuff_init r len = r\<lparr>rb_in := 0, rb_out := 0, rb_len := len\<rparr>"

text \<open>
  \<open>malloc n\<close> is the block of memory that \<open>RINGBUFF_MALLOC\<close> returns for a request of \<open>n\<close>
  bytes, \<open>None\<close> when it fails. The second argument says whether the out parameter is
  \<open>NULL\<close>; the second result is the value stored through it, \<open>None\<close> when nothing is.
\<close>

definition tuya_ring_buff_create ::
    "(u32 \<Rightarrow> u8 list option) \<Rightarrow> bool \<Rightarrow> u32 \<Rightarrow> ringbuff_type \<Rightarrow> oprt \<times> ringbuff option" where
  "tuya_ring_buff_create malloc out_null len type =
     (if type = OVERFLOW_COVERAGE_TYPE then (OPRT_NOT_SUPPORTED, None)
      else if out_null \<or> len = 0 then (OPRT_INVALID_PARM, None)
      else (case malloc (RINGBUFF_SIZE + len) of
              None \<Rightarrow> (OPRT_MALLOC_FAILED, None)
            | Some mem \<Rightarrow>
                (OPRT_OK, Some (ringbuff_init
                   \<lparr>rb_type = type, rb_in = 0, rb_out = 0, rb_len = 0,
                    rb_buff = drop (unat RINGBUFF_SIZE) mem\<rparr> len))))"

definition tuya_ring_buff_free :: "ringbuff option \<Rightarrow> oprt \<times> ringbuff option" where
  "tuya_ring_buff_free rbuff =
     (case rbuff of None \<Rightarrow> (OPRT_INVALID_PARM, None) | Some r \<Rightarrow> (OPRT_OK, None))"

definition tuya_ring_buff_reset :: "ringbuff option \<Rightarrow> oprt \<times> ringbuff option" where
  "tuya_ring_buff_reset rbuff =
     (case rbuff of None \<Rightarrow> (OPRT_INVALID_PARM, None)
      | Some r \<Rightarrow> (OPRT_OK, Some (ringbuff_init r (rb_len r))))"

definition tuya_ring_buff_free_size_get :: "ringbuff option \<Rightarrow> u32" where
  "tuya_ring_buff_free_size_get rbuff =
     (case rbuff of None \<Rightarrow> 0
      | Some r \<Rightarrow>
          (if rb_in r = rb_out r then rb_len r
           else if rb_in r < rb_out r then rb_out r - rb_in r
           else rb_len r - (rb_in r - rb_out r)) - 1)"

definition tuya_ring_buff_used_size_get :: "ringbuff option \<Rightarrow> u32" where
  "tuya_ring_buff_used_size_get rbuff =
     (case rbuff of None \<Rightarrow> 0
      | Some r \<Rightarrow>
          (if rb_in r = rb_out r then 0
           else if rb_out r < rb_in r then rb_in r - rb_out r
           else rb_len r - (rb_out r - rb_in r)))"

definition tuya_ring_buff_write ::
    "ringbuff option \<Rightarrow> u8 list option \<Rightarrow> u32 \<Rightarrow> u32 \<times> ringbuff option" where
  "tuya_ring_buff_write rbuff data len0 =
     (case (rbuff, data) of
        (Some r0, Some pdata) \<Rightarrow>
          (if len0 = 0 then (0, rbuff)
           else
             let len1 = GET_MIN (tuya_ring_buff_free_size_get rbuff) len0 in
             if len1 = 0 then (0, rbuff)
             else
               let tmp_len = GET_MIN (rb_len r0 - rb_in r0) len1;
                   r1 = r0\<lparr>rb_buff := memcpy (rb_buff r0) (unat (rb_in r0)) pdata 0 (unat tmp_len),
                           rb_in := rb_in r0 + tmp_len\<rparr>;
                   len2 = len1 - tmp_len;
                   r2 = (if len2 > 0
                         then r1\<lparr>rb_buff := memcpy (rb_buff r1) 0 pdata (unat tmp_len) (unat len2),
                                 rb_in := len2\<rparr>
                         else r1);
                   r3 = (if rb_in r2 \<ge> rb_len r2 then r2\<lparr>rb_in := 0\<rparr> else r2)
               in (tmp_len + len2, Some r3))
      | _ \<Rightarrow> (0, rbuff))"

definition tuya_ring_buff_read ::
    "ringbuff option \<Rightarrow> u8 list option \<Rightarrow> u32 \<Rightarrow> u32 \<times> u8 list option \<times> ringbuff option" where
  "tuya_ring_buff_read rbuff data len0 =
     (case (rbuff, data) of
        (Some r0, Some pdata) \<Rightarrow>
          (if len0 = 0 then (0, data, rbuff)
           else
             let len1 = GET_MIN (tuya_ring_buff_used_size_get rbuff) len0 in
             if len1 = 0 then (0, data, rbuff)
             else
               let tmp_len = GET_MIN (rb_len r0 - rb_out r0) len1;
                   d1 = memcpy pdata 0 (rb_buff r0) (unat (rb_out r0)) (unat tmp_len);
                   r1 = r0\<lparr>rb_out := rb_out r0 + tmp_len\<rparr>;
                   len2 = len1 - tmp_len;
                   d2 = (if len2 > 0
                         then memcpy d1 (unat tmp_len) (rb_buff r1) 0 (unat len2) else d1);
                   r2 = (if len2 > 0 then r1\<lparr>rb_out := len2\<rparr> else r1);
                   r3 = (if rb_out r2 \<ge> rb_len r2 then r2\<lparr>rb_out := 0\<rparr> else r2)
               in (tmp_len + len2, Some d2, Some r3))
      | _ \<Rightarrow> (0, data, rbuff))"

definition tuya_ring_buff_discard :: "ringbuff option \<Rightarrow> u32 \<Rightarrow> u32 \<times> ringbuff option" where
  "tuya_ring_buff_discard rbuff len0 =
     (case rbuff of
        Some r0 \<Rightarrow>
          (if len0 = 0 then (0, rbuff)
           else
             let len1 = GET_MIN (tuya_ring_buff_used_size_get rbuff) len0 in
             if len1 = 0 then (0, rbuff)
             else
               let tmp_len = GET_MIN (rb_len r0 - rb_out r0) len1;
                   r1 = r0\<lparr>rb_out := rb_out r0 + tmp_len\<rparr>;
                   len2 = len1 - tmp_len;
                   r2 = (if len2 > 0 then r1\<lparr>rb_out := len2\<rparr> else r1);
                   r3 = (if rb_out r2 \<ge> rb_len r2 then r2\<lparr>rb_out := 0\<rparr> else r2)
               in (tmp_len + len2, Some r3))
      | None \<Rightarrow> (0, rbuff))"

definition tuya_ring_buff_peek ::
    "ringbuff option \<Rightarrow> u8 list option \<Rightarrow> u32 \<Rightarrow> u32 \<times> u8 list option" where
  "tuya_ring_buff_peek rbuff data len0 =
     (case (rbuff, data) of
        (Some r0, Some pdata) \<Rightarrow>
          (if len0 = 0 then (0, data)
           else
             let len1 = GET_MIN len0 (tuya_ring_buff_used_size_get rbuff) in
             if len1 = 0 then (0, data)
             else
               let tmp_len = GET_MIN (rb_len r0 - rb_out r0) len1;
                   d1 = memcpy pdata 0 (rb_buff r0) (unat (rb_out r0)) (unat tmp_len);
                   len2 = len1 - tmp_len;
                   d2 = (if len2 > 0
                         then memcpy d1 (unat tmp_len) (rb_buff r0) 0 (unat len2) else d1)
               in (tmp_len + len2, Some d2))
      | _ \<Rightarrow> (0, data))"

section \<open>Invariant and abstraction\<close>

text \<open>
  Both positions lie inside the buffer and the buffer has exactly \<open>rb_len\<close> bytes, so no
  copy of an operation leaves it.
\<close>

definition rb_inv :: "ringbuff \<Rightarrow> bool" where
  "rb_inv r \<longleftrightarrow> rb_in r < rb_len r \<and> rb_out r < rb_len r \<and> length (rb_buff r) = unat (rb_len r)"

definition rb_used :: "ringbuff \<Rightarrow> nat" where
  "rb_used r = (unat (rb_in r) + unat (rb_len r) - unat (rb_out r)) mod unat (rb_len r)"

definition rb_contents :: "ringbuff \<Rightarrow> u8 list" where
  "rb_contents r = ring_slice (rb_buff r) (unat (rb_out r)) (rb_used r)"

lemma length_rb_contents [simp]: "length (rb_contents r) = rb_used r"
  by (simp add: rb_contents_def)

lemma rb_used_less: "rb_inv r \<Longrightarrow> rb_used r < unat (rb_len r)"
  by (simp add: rb_inv_def rb_used_def word_less_nat_alt)

lemma unat_used_size:
  "rb_inv r \<Longrightarrow> unat (tuya_ring_buff_used_size_get (Some r)) = rb_used r"
  by (auto simp: tuya_ring_buff_used_size_get_def rb_used_def rb_inv_def word_to_nat unat_simps
      mod_ge_once word_unat_eq_iff)

lemma unat_free_size:
  assumes "rb_inv r"
  shows "unat (tuya_ring_buff_free_size_get (Some r)) = unat (rb_len r) - 1 - rb_used r"
proof -
  have 1: "unat (x - 1) = unat x - 1" if "0 < unat x" for x :: u32
    using that by (subst unat_sub) (auto simp: word_le_nat_alt)
  show ?thesis
    using assms
    by (auto simp: tuya_ring_buff_free_size_get_def rb_used_def rb_inv_def word_to_nat unat_simps
        mod_ge_once word_unat_eq_iff 1)
qed


section \<open>What the operations compute\<close>

text \<open>
  The position arithmetic shared by write, read and discard: \<open>w\<close> cells from position \<open>p\<close>
  on, split at the end of a buffer of \<open>L\<close> cells.
\<close>

lemma ring_advance:
  fixes L p w :: u32
  assumes p: "p < L" and w: "unat w < unat L"
  defines "tmp \<equiv> GET_MIN (L - p) w"
  shows "unat tmp = min (unat L - unat p) (unat w)"
    and "unat (w - tmp) = unat w - (unat L - unat p)"
    and "0 < w - tmp \<longleftrightarrow> unat L < unat p + unat w"
    and "(if L \<le> (if 0 < w - tmp then w - tmp else p + tmp) then 0
          else (if 0 < w - tmp then w - tmp else p + tmp)) = of_nat ((unat p + unat w) mod unat L)"
proof -
  show 1: "unat tmp = min (unat L - unat p) (unat w)"
    using p by (simp add: tmp_def unat_simps)
  then show 2: "unat (w - tmp) = unat w - (unat L - unat p)"
    by (simp add: unat_sub word_le_nat_alt)
  show 3: "0 < w - tmp \<longleftrightarrow> unat L < unat p + unat w"
    using 2 p by (auto simp: word_less_nat_alt)
  have 4: "unat (p + tmp) = unat p + unat tmp"
    using 1 p unat_bound32 [of L] by (intro unat_add_small) (auto simp: word_less_nat_alt)
  let ?q = "if 0 < w - tmp then w - tmp else p + tmp"
  have "unat (if L \<le> ?q then 0 else ?q) = (unat p + unat w) mod unat L"
    using 1 2 4 p w unfolding 3 by (auto simp: word_to_nat mod_ge_once)
  then show "(if L \<le> ?q then 0 else ?q) = of_nat ((unat p + unat w) mod unat L)"
    by (rule word_eqI_unat)
qed

lemma rb_write_eq:
  assumes inv: "rb_inv r" and d: "unat len \<le> length data"
    and n: "n = min (unat len) (unat (rb_len r) - 1 - rb_used r)"
  shows "tuya_ring_buff_write (Some r) (Some data) len =
    (of_nat n, Some (r\<lparr>rb_buff := ring_put (rb_buff r) (unat (rb_in r)) (take n data),
                       rb_in := of_nat ((unat (rb_in r) + n) mod unat (rb_len r))\<rparr>))"
proof -
  define len1 where "len1 = GET_MIN (tuya_ring_buff_free_size_get (Some r)) len"
  let ?L = "unat (rb_len r)" and ?i = "unat (rb_in r)"
  have i: "rb_in r < rb_len r" "?i < ?L" and lb: "length (rb_buff r) = ?L"
    using inv by (auto simp: rb_inv_def word_less_nat_alt)
  have len1: "n = unat len1"
    using inv n by (simp add: len1_def unat_simps unat_free_size min.commute)
  have nl: "unat len1 < ?L" "n \<le> length data"
    using n i d by (auto simp flip: len1)
  note adv = ring_advance [OF i(1) nl(1)]
  show ?thesis
  proof (cases "n = 0")
    case True
    then have "len1 = 0" using len1 by (simp add: word_eq_0_unat)
    with True i lb show ?thesis
      by (auto simp: tuya_ring_buff_write_def len1_def [symmetric] Let_def)
  next
    case False
    then have nz: "len \<noteq> 0" "len1 \<noteq> 0" using len1 n by auto
    have put: "ring_put (rb_buff r) ?i (take n data) =
        (if ?L < ?i + n
         then mem_put (mem_put (rb_buff r) ?i (take (?L - ?i) data)) 0
            (take (n - (?L - ?i)) (drop (?L - ?i) data))
         else mem_put (rb_buff r) ?i (take n data))"
      using lb nl i by (auto simp: ring_put_def take_drop min_absorb1)
    show ?thesis
      unfolding put unfolding len1 adv(4) [symmetric]
      using i
      by (simp add: tuya_ring_buff_write_def len1_def [symmetric] Let_def nz adv(1-3)
          memcpy_def mem_get_def)
  qed
qed


lemma rb_read_eq:
  assumes inv: "rb_inv r" and n: "n = min (unat len) (rb_used r)" and d: "n \<le> length data"
  shows "tuya_ring_buff_read (Some r) (Some data) len =
    (of_nat n, Some (ring_slice (rb_buff r) (unat (rb_out r)) n @ drop n data),
     Some (r\<lparr>rb_out := of_nat ((unat (rb_out r) + n) mod unat (rb_len r))\<rparr>))"
proof -
  define len1 where "len1 = GET_MIN (tuya_ring_buff_used_size_get (Some r)) len"
  let ?L = "unat (rb_len r)" and ?o = "unat (rb_out r)"
  have o: "rb_out r < rb_len r" "?o < ?L" and lb: "length (rb_buff r) = ?L"
    using inv by (auto simp: rb_inv_def word_less_nat_alt)
  have len1: "n = unat len1"
    using inv n by (simp add: len1_def unat_simps unat_used_size min.commute)
  have nl: "unat len1 < ?L"
    using n rb_used_less [OF inv] by (auto simp flip: len1)
  note adv = ring_advance [OF o(1) nl]
  show ?thesis
  proof (cases "n = 0")
    case True
    then have "len1 = 0" using len1 by (simp add: word_eq_0_unat)
    with True o show ?thesis
      by (auto simp: tuya_ring_buff_read_def len1_def [symmetric] Let_def)
  next
    case False
    then have nz: "len \<noteq> 0" "len1 \<noteq> 0" using len1 n by auto
    have out: "ring_slice (rb_buff r) ?o n @ drop n data =
        (if ?L < ?o + n
         then memcpy (memcpy data 0 (rb_buff r) ?o (?L - ?o)) (?L - ?o) (rb_buff r) 0 (n - (?L - ?o))
         else memcpy data 0 (rb_buff r) ?o n)"
      by (rule ring_copy_out [of ?o "rb_buff r" n data, unfolded lb, symmetric])
        (use nl o d len1 in auto)
    show ?thesis
      unfolding out unfolding len1 adv(4) [symmetric]
      using o
      by (simp add: tuya_ring_buff_read_def len1_def [symmetric] Let_def nz adv(1-3))
  qed
qed

text \<open>
  Reading is peeking and then discarding.
\<close>

lemma rb_read_peek_discard:
  assumes "tuya_ring_buff_peek rbuff (Some d) len = (n, d')"
    and "tuya_ring_buff_discard rbuff len = (m, r')"
  shows "tuya_ring_buff_read rbuff (Some d) len = (n, d', r') \<and> n = m"
  using assms
  by (cases rbuff)
    (auto simp: tuya_ring_buff_peek_def tuya_ring_buff_discard_def tuya_ring_buff_read_def Let_def
      GET_MIN_commute [of len] split: if_splits)


section \<open>Refinement to a bounded queue of bytes\<close>

lemma rb_used_after_write:
  assumes inv: "rb_inv r" and n: "n \<le> unat (rb_len r) - 1 - rb_used r"
    and r': "r' = r\<lparr>rb_buff := b, rb_in := of_nat ((unat (rb_in r) + n) mod unat (rb_len r))\<rparr>"
  shows "rb_used r' = rb_used r + n" and "rb_in r' < rb_len r'"
    and "unat (rb_in r) = (unat (rb_out r) + rb_used r) mod unat (rb_len r)"
proof -
  let ?L = "unat (rb_len r)" and ?i = "unat (rb_in r)" and ?o = "unat (rb_out r)"
  have io: "?i < ?L" "?o < ?L"
    using inv by (auto simp: rb_inv_def word_less_nat_alt)
  have used: "rb_used r = (if ?o \<le> ?i then ?i - ?o else ?i + ?L - ?o)"
    using io by (auto simp: rb_used_def mod_ge_once)
  have i': "unat (rb_in r') = (?i + n) mod ?L"
    using r' io unat_bound32 [of "rb_len r"] by (simp add: unat_of_nat_mod del: of_nat_add)
  show "rb_used r' = rb_used r + n"
    using i' io n r' used
    by (cases "?i + n < ?L") (auto simp: rb_used_def mod_ge_once split: if_splits)
  show "rb_in r' < rb_len r'"
    using i' io r' by (simp add: word_less_nat_alt)
  show "?i = (?o + rb_used r) mod ?L"
    using io by (auto simp: used mod_ge_once)
qed

lemma rb_used_after_read:
  assumes inv: "rb_inv r" and n: "n \<le> rb_used r"
    and r': "r' = r\<lparr>rb_out := of_nat ((unat (rb_out r) + n) mod unat (rb_len r))\<rparr>"
  shows "rb_used r' = rb_used r - n" and "rb_out r' < rb_len r'"
    and "unat (rb_out r') = (unat (rb_out r) + n) mod unat (rb_len r)"
proof -
  let ?L = "unat (rb_len r)" and ?i = "unat (rb_in r)" and ?o = "unat (rb_out r)"
  have io: "?i < ?L" "?o < ?L"
    using inv by (auto simp: rb_inv_def word_less_nat_alt)
  have used: "rb_used r = (if ?o \<le> ?i then ?i - ?o else ?i + ?L - ?o)"
    using io by (auto simp: rb_used_def mod_ge_once)
  show o': "unat (rb_out r') = (?o + n) mod ?L"
    using r' io unat_bound32 [of "rb_len r"] by (simp add: unat_of_nat_mod del: of_nat_add)
  show "rb_used r' = rb_used r - n"
    using o' io n r' used
    by (cases "?o + n < ?L") (auto simp: rb_used_def mod_ge_once split: if_splits)
  show "rb_out r' < rb_len r'"
    using o' io r' by (simp add: word_less_nat_alt)
qed

lemma rb_write_refines:
  assumes inv: "rb_inv r" and d: "unat len \<le> length data"
    and n: "n = min (unat len) (unat (rb_len r) - 1 - length (rb_contents r))"
  shows "\<exists>r'. tuya_ring_buff_write (Some r) (Some data) len = (of_nat n, Some r') \<and>
    rb_inv r' \<and> rb_len r' = rb_len r \<and> rb_contents r' = rb_contents r @ take n data"
proof -
  let ?r = "r\<lparr>rb_buff := ring_put (rb_buff r) (unat (rb_in r)) (take n data),
              rb_in := of_nat ((unat (rb_in r) + n) mod unat (rb_len r))\<rparr>"
  have io: "unat (rb_in r) < unat (rb_len r)" "unat (rb_out r) < unat (rb_len r)"
      "length (rb_buff r) = unat (rb_len r)"
    using inv by (auto simp: rb_inv_def word_less_nat_alt)
  have nb: "n \<le> unat (rb_len r) - 1 - rb_used r" "n \<le> length data"
    using n d by auto
  note upd = rb_used_after_write [OF inv nb(1) refl]
  have put: "length (ring_put (rb_buff r) (unat (rb_in r)) (take n data)) = unat (rb_len r)"
    using io nb by (subst length_ring_put) auto
  have "rb_inv ?r"
    using upd(2) [of "ring_put (rb_buff r) (unat (rb_in r)) (take n data)"] put io
    by (simp add: rb_inv_def word_less_nat_alt)
  moreover have "rb_contents ?r = rb_contents r @ take n data"
  proof -
    have "rb_used r + length (take n data) \<le> length (rb_buff r)"
      using nb io rb_used_less [OF inv] by simp
    from ring_slice_put [OF _ this, of "unat (rb_out r)"] io
    show ?thesis
      by (simp add: rb_contents_def upd(1) nb(2) flip: upd(3))
  qed
  ultimately show ?thesis
    using rb_write_eq [OF inv d, of n] n by auto
qed

lemma rb_read_refines:
  assumes inv: "rb_inv r" and d: "unat len \<le> length data"
    and n: "n = min (unat len) (length (rb_contents r))"
  shows "\<exists>r'. tuya_ring_buff_read (Some r) (Some data) len =
      (of_nat n, Some (take n (rb_contents r) @ drop n data), Some r') \<and>
    rb_inv r' \<and> rb_len r' = rb_len r \<and> rb_contents r = take n (rb_contents r) @ rb_contents r'"
proof -
  let ?r = "r\<lparr>rb_out := of_nat ((unat (rb_out r) + n) mod unat (rb_len r))\<rparr>"
  have nb: "n \<le> rb_used r" "n \<le> length data" using n d by auto
  note upd = rb_used_after_read [OF inv nb(1) refl]
  have lb: "length (rb_buff r) = unat (rb_len r)"
    using inv by (simp add: rb_inv_def)
  have inv': "rb_inv ?r"
    using upd(2) inv by (simp add: rb_inv_def)
  have "take n (rb_contents r) = ring_slice (rb_buff r) (unat (rb_out r)) n"
    using nb by (simp add: rb_contents_def take_ring_slice)
  then have read: "tuya_ring_buff_read (Some r) (Some data) len =
      (of_nat n, Some (take n (rb_contents r) @ drop n data), Some ?r)"
    using rb_read_eq [OF inv, of n len data] n nb by simp
  have "rb_contents ?r = drop n (rb_contents r)"
    using nb upd lb by (simp add: rb_contents_def drop_ring_slice del: of_nat_add)
  then have cont: "rb_contents r = take n (rb_contents r) @ rb_contents ?r"
    by simp
  show ?thesis
    by (rule exI [of _ ?r]) (intro conjI read inv' cont, simp)
qed


section \<open>The ring buffer provides the byte queue contract\<close>

definition rb_push :: "ringbuff \<Rightarrow> u8 list \<Rightarrow> u8 list \<times> ringbuff" where
  "rb_push r bs = (let (n, r') = tuya_ring_buff_write (Some r) (Some bs) (of_nat (length bs))
     in (take (unat n) bs, the r'))"

definition rb_pop :: "ringbuff \<Rightarrow> nat \<Rightarrow> u8 list \<times> ringbuff" where
  "rb_pop r n = (let (k, d, r') = tuya_ring_buff_read (Some r) (Some (replicate n 0)) (of_nat n)
     in (take (unat k) (the d), the r'))"

lemma rb_push_refines:
  assumes "rb_inv r" and "rb_push r bs = (acc, r')"
  shows "rb_inv r' \<and> rb_len r' = rb_len r \<and> rb_contents r' = rb_contents r @ acc \<and>
    (\<exists>k. acc = take k bs)"
proof -
  define m where "m = min (unat (of_nat (length bs) :: u32))
    (unat (rb_len r) - 1 - length (rb_contents r))"
  have len: "unat (of_nat (length bs) :: u32) \<le> length bs"
    by (simp add: unat_of_nat)
  have "m < 2 ^ LENGTH(32)"
    unfolding m_def using unat_bound [of "of_nat (length bs) :: u32"] by linarith
  then have "unat (of_nat m :: u32) = m"
    by (rule unat_of_nat_small)
  with rb_write_refines [OF assms(1) len m_def] assms(2) show ?thesis
    by (auto simp: rb_push_def)
qed

lemma rb_pop_refines:
  assumes "rb_inv r" and "rb_pop r n = (got, r')"
  shows "rb_inv r' \<and> rb_len r' = rb_len r \<and> rb_contents r = got @ rb_contents r' \<and>
    length got \<le> n"
proof -
  define m where "m = min (unat (of_nat n :: u32)) (length (rb_contents r))"
  have le: "unat (of_nat n :: u32) \<le> n"
    by (simp add: unat_of_nat)
  then have len: "unat (of_nat n :: u32) \<le> length (replicate n (0 :: u8))"
    by simp
  have "m < 2 ^ LENGTH(32)"
    unfolding m_def using unat_bound [of "of_nat n :: u32"] by linarith
  then have m: "unat (of_nat m :: u32) = m"
    by (rule unat_of_nat_small)
  obtain r1 where r1: "tuya_ring_buff_read (Some r) (Some (replicate n 0)) (of_nat n) =
      (of_nat m, Some (take m (rb_contents r) @ drop m (replicate n 0)), Some r1)"
      "rb_inv r1" "rb_len r1 = rb_len r" "rb_contents r = take m (rb_contents r) @ rb_contents r1"
    using rb_read_refines [OF assms(1) len m_def] by blast
  have mu: "m \<le> rb_used r" "m \<le> n"
    using le by (auto simp: m_def)
  have "got = take m (rb_contents r)" "r' = r1"
    using assms(2) r1(1) m mu by (auto simp: rb_pop_def)
  with r1 mu show ?thesis
    by simp
qed

interpretation ring: byte_fifo rb_inv rb_contents "\<lambda>r. unat (rb_len r) - 1" rb_push rb_pop
proof
  fix s :: ringbuff
  assume "rb_inv s"
  then show "length (rb_contents s) \<le> unat (rb_len s) - 1"
    using rb_used_less [of s] by simp
qed (metis rb_push_refines rb_pop_refines)+


section \<open>Properties\<close>

lemma rb_create_ok:
  assumes "tuya_ring_buff_create malloc out_null len type = (ret, out)"
    and "\<And>k m. malloc k = Some m \<Longrightarrow> length m = unat k"
    and "unat len + 16 < 2 ^ 32"
  shows "(ret = OPRT_OK \<longleftrightarrow> out \<noteq> None) \<and>
    (\<forall>r. out = Some r \<longrightarrow> rb_inv r \<and> rb_contents r = [] \<and> rb_len r = len)"
proof -
  have 16: "unat (16 + len) = 16 + unat len"
    using assms(3) by (subst unat_add_small) auto
  have rbi: "rb_inv (ringbuff_init r len) \<and> rb_contents (ringbuff_init r len) = [] \<and>
      rb_len (ringbuff_init r len) = len" if "len \<noteq> 0" "length (rb_buff r) = unat len" for r
    using that by (auto simp: ringbuff_init_def rb_inv_def rb_contents_def rb_used_def word_neq_0_conv)
  show ?thesis
  proof (cases "malloc (16 + len)")
    case None
    then show ?thesis
      using assms(1) by (auto simp: tuya_ring_buff_create_def split: if_splits)
  next
    case (Some mem)
    then have "length mem = 16 + unat len"
      using assms(2) 16 by simp
    then show ?thesis
      using assms(1) Some by (auto simp: tuya_ring_buff_create_def rbi split: if_splits)
  qed
qed

text \<open>
  A write on a well-formed ring buffer accepts as many leading bytes as fit into
  the free space (one cell always stays unused), appends exactly those to the queue of
  unread bytes, returns their number and keeps the buffer well-formed; in particular no
  copy leaves the buffer and no unread byte is overwritten.
\<close>

theorem ring_write_appends:
  assumes "rb_inv r" and "unat len \<le> length data"
    and "n = min (unat len) (unat (rb_len r) - 1 - length (rb_contents r))"
  shows "\<exists>r'. tuya_ring_buff_write (Some r) (Some data) len = (of_nat n, Some r') \<and>
    rb_inv r' \<and> rb_len r' = rb_len r \<and> rb_contents r' = rb_contents r @ take n data"
  using assms by (rule rb_write_refines)

definition ring_example :: ringbuff where
  "ring_example = \<lparr>rb_type = OVERFLOW_STOP_TYPE, rb_in = 3, rb_out = 2, rb_len = 5,
                   rb_buff = [10, 11, 12, 13, 14]\<rparr>"

theorem ring_write_appends_witness:
  "rb_inv ring_example \<and>
   (\<exists>r'. tuya_ring_buff_write (Some ring_example) (Some [1, 2, 3, 4]) 4 = (3, Some r') \<and>
     rb_inv r' \<and> rb_len r' = 5 \<and> rb_contents r' = [12, 1, 2, 3])"
proof -
  have inv: "rb_inv ring_example" and c: "rb_contents ring_example = [12]"
    by (simp_all add: ring_example_def rb_inv_def rb_contents_def rb_used_def ring_slice_def)
  have n: "3 = min (unat (4 :: u32)) (unat (rb_len ring_example) - 1 - length (rb_contents ring_example))"
    unfolding c by (simp add: ring_example_def)
  have d: "unat (4 :: u32) \<le> length [1, 2, 3, 4 :: u8]" by simp
  from ring_write_appends [OF inv d n] inv c show ?thesis
    by (simp add: numeral_eq_Suc ring_example_def)
qed

text \<open>
  A read delivers the oldest unread bytes in order, as many as were asked for
  or as there are, leaves the rest of the destination untouched and removes exactly the
  delivered bytes from the queue.
\<close>

theorem ring_read_delivers:
  assumes "rb_inv r" and "unat len \<le> length data"
    and "n = min (unat len) (length (rb_contents r))"
  shows "\<exists>r'. tuya_ring_buff_read (Some r) (Some data) len =
      (of_nat n, Some (take n (rb_contents r) @ drop n data), Some r') \<and>
    rb_inv r' \<and> rb_len r' = rb_len r \<and> rb_contents r = take n (rb_contents r) @ rb_contents r'"
  using assms by (rule rb_read_refines)

theorem ring_read_delivers_witness:
  "\<exists>r'. tuya_ring_buff_read (Some ring_example) (Some [0, 0]) 2 = (1, Some [12, 0], Some r') \<and>
     rb_inv r' \<and> rb_contents r' = []"
proof -
  have inv: "rb_inv ring_example" and c: "rb_contents ring_example = [12]"
    by (simp_all add: ring_example_def rb_inv_def rb_contents_def rb_used_def ring_slice_def)
  have n: "1 = min (unat (2 :: u32)) (length (rb_contents ring_example))"
    unfolding c by simp
  have d: "unat (2 :: u32) \<le> length [0, 0 :: u8]" by simp
  from ring_read_delivers [OF inv d n] show ?thesis
    unfolding c by auto
qed

text \<open>
  Property C9: over any interleaving of writes and reads on a ring buffer that started
  empty, the bytes delivered are a prefix of the bytes accepted, in order and without
  loss, and the reader is never more than the capacity behind.
\<close>

theorem ring_fifo_stream:
  assumes "rb_inv r" and "rb_contents r = []" and "fifo_run rb_push rb_pop r ops = (ins, outs, r')"
  shows "\<exists>rest. ins = outs @ rest \<and> length rest \<le> unat (rb_len r) - 1"
  using assms by (rule ring.run_from_empty)

theorem ring_fifo_stream_witness:
  "let r = \<lparr>rb_type = OVERFLOW_STOP_TYPE, rb_in = 2, rb_out = 2, rb_len = 3, rb_buff = [0, 0, 0]\<rparr>;
       (ins, outs, r') = fifo_run rb_push rb_pop r [Push [7, 8, 9], Pop 1, Push [5], Pop 4]
   in ins = [7, 8, 5] \<and> outs = [7, 8, 5] \<and> (\<exists>rest. ins = outs @ rest \<and> length rest \<le> 2)"
proof -
  let ?r = "\<lparr>rb_type = OVERFLOW_STOP_TYPE, rb_in = 2, rb_out = 2, rb_len = 3, rb_buff = [0, 0, 0]\<rparr>"
  have inv: "rb_inv ?r" "rb_contents ?r = []"
    by (simp_all add: rb_inv_def rb_contents_def rb_used_def)
  have run: "fifo_run rb_push rb_pop ?r [Push [7, 8, 9], Pop 1, Push [5], Pop 4] = ([7, 8, 5], [7, 8, 5],
      \<lparr>rb_type = OVERFLOW_STOP_TYPE, rb_in = 2, rb_out = 2, rb_len = 3, rb_buff = [8, 5, 7]\<rparr>)"
    by code_simp
  show ?thesis
    using ring_fifo_stream [OF inv run] unfolding Let_def run by simp
qed

text \<open>
  Creating a ring buffer stores a handle exactly when it returns
  \<open>OPRT_OK\<close>, and the new buffer is well-formed, empty and of the requested length,
  provided header and data together fit into a 32-bit size.
\<close>

theorem ring_create_well_formed:
  assumes "tuya_ring_buff_create malloc out_null len type = (ret, out)"
    and "\<And>k m. malloc k = Some m \<Longrightarrow> length m = unat k"
    and "unat len + 16 < 2 ^ 32"
  shows "(ret = OPRT_OK \<longleftrightarrow> out \<noteq> None) \<and>
    (\<forall>r. out = Some r \<longrightarrow> rb_inv r \<and> rb_contents r = [] \<and> rb_len r = len)"
  using assms by (rule rb_create_ok)

theorem ring_create_well_formed_witness:
  "\<exists>r. tuya_ring_buff_create (\<lambda>k. Some (replicate (unat k) 0)) False 8 OVERFLOW_STOP_TYPE =
      (OPRT_OK, Some r) \<and> rb_inv r \<and> rb_contents r = [] \<and> rb_len r = 8"
proof -
  obtain ret out where cr: "tuya_ring_buff_create (\<lambda>k. Some (replicate (unat k) 0)) False 8
      OVERFLOW_STOP_TYPE = (ret, out)" by force
  then have "ret = OPRT_OK"
    by (simp add: tuya_ring_buff_create_def)
  then show ?thesis
    using ring_create_well_formed [OF cr] cr by auto
qed

text \<open>
  Near the top of the 32-bit range the requested size wraps around, the
  allocation succeeds with a few bytes only, and the handle claims a buffer that is not
  there.
\<close>

theorem ring_create_size_wraps:
  "\<exists>r. tuya_ring_buff_create (\<lambda>k. Some (replicate (unat k) 0)) False 0xFFFFFFF4 OVERFLOW_STOP_TYPE =
      (OPRT_OK, Some r) \<and> unat (rb_len r) = 4294967284 \<and> length (rb_buff r) = 0 \<and> \<not> rb_inv r"
  by (simp add: tuya_ring_buff_create_def ringbuff_init_def rb_inv_def)

end
