(* ===== verification/Cyclic_Buffer.thy ===== *)
theory Cyclic_Buffer
  imports Byte_Fifo "HOL-Library.Signed_Division"
begin

text \<open>
  The cyclic buffer of the GigaDevice SDK (\<open>cyclic_buffer.c\<close>). In contrast to the TuyaOS
  ring buffer its indices have 16 bits, the index expressions are evaluated in \<open>int\<close> and
  truncated when they are stored, and a write or a read either transfers everything or
  nothing. It provides the same byte queue contract.
\<close>

section \<open>Model of cyclic_buffer.c\<close>

record cyclic_buf =
  cb_read_idx :: u16
  cb_write_idx :: u16
  cb_len :: u16
  cb_buf :: "u8 list option"

text \<open>
  The remainder of C truncates towards zero, hence \<open>smod\<close>. \<open>zalloc n\<close> is the zeroed block
  of \<open>n\<close> bytes of \<open>sys_zalloc\<close>, \<open>None\<close> when memory is exhausted.
\<close>

definition cyclic_buf_init ::
    "(u16 \<Rightarrow> u8 list option) \<Rightarrow> cyclic_buf option \<Rightarrow> u16 \<Rightarrow> bool \<times> cyclic_buf option" where
  "cyclic_buf_init zalloc cyclic len =
     (case cyclic of
        None \<Rightarrow> (False, None)
      | Some c \<Rightarrow>
          let c1 = c\<lparr>cb_read_idx := 0, cb_write_idx := 0, cb_len := len\<rparr>;
              c2 = c1\<lparr>cb_buf := zalloc (cb_len c1)\<rparr>
          in (cb_buf c2 \<noteq> None, Some c2))"

definition cyclic_buf_free :: "cyclic_buf option \<Rightarrow> cyclic_buf option" where
  "cyclic_buf_free cyclic =
     map_option (\<lambda>c. c\<lparr>cb_read_idx := 0, cb_write_idx := 0, cb_len := 0, cb_buf := None\<rparr>) cyclic"

definition cyclic_buf_count :: "cyclic_buf option \<Rightarrow> u16" where
  "cyclic_buf_count cyclic =
     (case cyclic of None \<Rightarrow> 0
      | Some c \<Rightarrow>
          (if cb_buf c = None then 0
           else word_of_int ((uint (cb_write_idx c) + uint (cb_len c) - uint (cb_read_idx c))
                  smod uint (cb_len c))))"

definition cyclic_buf_room :: "cyclic_buf option \<Rightarrow> u16" where
  "cyclic_buf_room cyclic =
     (case cyclic of None \<Rightarrow> 0
      | Some c \<Rightarrow>
          (if cb_buf c = None then 0
           else word_of_int ((uint (cb_read_idx c) + uint (cb_len c) - (uint (cb_write_idx c) + 1))
                  smod uint (cb_len c))))"

text \<open>
  The two-piece copy into the caller's buffer that peek and read share.
\<close>

definition cyclic_copy_out :: "cyclic_buf \<Rightarrow> u8 list \<Rightarrow> u8 list \<Rightarrow> u16 \<Rightarrow> u8 list" where
  "cyclic_copy_out c cbuf buf len =
     (if uint (cb_read_idx c) + uint len \<le> uint (cb_len c)
      then memcpy buf 0 cbuf (unat (cb_read_idx c)) (unat len)
      else
        let tlen = cb_len c - cb_read_idx c
        in memcpy (memcpy buf 0 cbuf (unat (cb_read_idx c)) (unat tlen))
             (unat tlen) cbuf 0 (unat len - unat tlen))"

definition cyclic_buf_peek :: "cyclic_buf option \<Rightarrow> u8 list \<Rightarrow> u16 \<Rightarrow> bool \<times> u8 list" where
  "cyclic_buf_peek cyclic buf len =
     (case cyclic of None \<Rightarrow> (False, buf)
      | Some c \<Rightarrow>
        (case cb_buf c of None \<Rightarrow> (False, buf)
         | Some cbuf \<Rightarrow>
             if len > cyclic_buf_count cyclic then (False, buf)
             else (True, cyclic_copy_out c cbuf buf len)))"

text \<open>
  Advancing an index by \<open>len\<close>: the two branches and the final remainder, common to read,
  drop and write.
\<close>

definition cyclic_advance :: "cyclic_buf \<Rightarrow> u16 \<Rightarrow> u16 \<Rightarrow> u16" where
  "cyclic_advance c idx len =
     (let idx1 = (if uint idx + uint len \<le> uint (cb_len c) then idx + len
                  else let tlen = cb_len c - idx in len - tlen)
      in idx1 mod cb_len c)"

definition cyclic_buf_read ::
    "cyclic_buf option \<Rightarrow> u8 list \<Rightarrow> u16 \<Rightarrow> bool \<times> u8 list \<times> cyclic_buf option" where
  "cyclic_buf_read cyclic buf len =
     (case cyclic of None \<Rightarrow> (False, buf, cyclic)
      | Some c \<Rightarrow>
        (case cb_buf c of None \<Rightarrow> (False, buf, cyclic)
         | Some cbuf \<Rightarrow>
             if len > cyclic_buf_count cyclic then (False, buf, cyclic)
             else (True, cyclic_copy_out c cbuf buf len,
                   Some (c\<lparr>cb_read_idx := cyclic_advance c (cb_read_idx c) len\<rparr>))))"

definition cyclic_buf_drop :: "cyclic_buf option \<Rightarrow> u16 \<Rightarrow> bool \<times> cyclic_buf option" where
  "cyclic_buf_drop cyclic len =
     (case cyclic of None \<Rightarrow> (False, cyclic)
      | Some c \<Rightarrow>
        (case cb_buf c of None \<Rightarrow> (False, cyclic)
         | Some cbuf \<Rightarrow>
             if len > cyclic_buf_count cyclic then (False, cyclic)
             else (True, Some (c\<lparr>cb_read_idx := cyclic_advance c (cb_read_idx c) len\<rparr>))))"

definition cyclic_buf_clear :: "cyclic_buf option \<Rightarrow> bool \<times> cyclic_buf option" where
  "cyclic_buf_clear cyclic =
     (case cyclic of None \<Rightarrow> (False, cyclic)
      | Some c \<Rightarrow>
        (case cb_buf c of None \<Rightarrow> (False, cyclic)
         | Some cbuf \<Rightarrow>
             (True, Some (c\<lparr>cb_buf := Some (mem_put cbuf 0 (replicate (unat (cb_len c)) 0)),
                            cb_read_idx := 0, cb_write_idx := 0\<rparr>))))"

definition cyclic_buf_write ::
    "cyclic_buf option \<Rightarrow> u8 list \<Rightarrow> u16 \<Rightarrow> bool \<times> cyclic_buf option" where
  "cyclic_buf_write cyclic buf len =
     (case cyclic of None \<Rightarrow> (False, cyclic)
      | Some c \<Rightarrow>
        (case cb_buf c of None \<Rightarrow> (False, cyclic)
         | Some cbuf \<Rightarrow>
             if cyclic_buf_room cyclic < len then (False, cyclic)
             else
               let cbuf' =
                 (if uint (cb_write_idx c) + uint len \<le> uint (cb_len c)
                  then memcpy cbuf (unat (cb_write_idx c)) buf 0 (unat len)
                  else
                    let tlen = cb_len c - cb_write_idx c
                    in memcpy (memcpy cbuf (unat (cb_write_idx c)) buf 0 (unat tlen))
                         0 buf (unat tlen) (unat len - unat tlen))
               in (True, Some (c\<lparr>cb_buf := Some cbuf',
                                 cb_write_idx := cyclic_advance c (cb_write_idx c) len\<rparr>))))"

section \<open>Invariant and abstraction\<close>

definition cb_inv :: "cyclic_buf \<Rightarrow> bool" where
  "cb_inv c \<longleftrightarrow> cb_read_idx c < cb_len c \<and> cb_write_idx c < cb_len c \<and>
     (\<exists>b. cb_buf c = Some b \<and> length b = unat (cb_len c))"

definition cb_used :: "cyclic_buf \<Rightarrow> nat" where
  "cb_used c = (unat (cb_write_idx c) + unat (cb_len c) - unat (cb_read_idx c)) mod unat (cb_len c)"

definition cb_contents :: "cyclic_buf \<Rightarrow> u8 list" where
  "cb_contents c = ring_slice (the (cb_buf c)) (unat (cb_read_idx c)) (cb_used c)"

lemma length_cb_contents [simp]: "length (cb_contents c) = cb_used c"
  by (simp add: cb_contents_def)

lemma cb_used_less: "cb_inv c \<Longrightarrow> cb_used c < unat (cb_len c)"
  by (simp add: cb_inv_def cb_used_def word_less_nat_alt)

lemma uint_add_le_iff: "uint x + uint y \<le> uint z \<longleftrightarrow> unat x + unat y \<le> unat z"
  for x y z :: u16
  by (simp only: uint_nat of_nat_le_iff flip: of_nat_add)

lemma unat_smod_store:
  fixes L :: u16
  assumes "0 < L"
  shows "unat (word_of_int (int n smod uint L) :: u16) = n mod unat L"
proof -
  have "int n smod uint L = int (n mod unat L)"
    using assms
    by (cases "n = 0") (simp_all add: smod_int_alt_def zmod_int uint_nat [symmetric] word_less_def)
  moreover have "n mod unat L < unat L"
    using assms by (simp add: word_less_nat_alt)
  then have "n mod unat L < 2 ^ LENGTH(16)"
    using unat_bound [of L] by linarith
  ultimately show ?thesis
    by (simp add: unat_of_nat_small)
qed

lemma unat_count:
  assumes "cb_inv c"
  shows "unat (cyclic_buf_count (Some c)) = cb_used c"
proof -
  have lt: "0 < cb_len c" "unat (cb_read_idx c) < unat (cb_len c)"
    using assms by (auto simp: cb_inv_def word_less_nat_alt)
  have "uint (cb_write_idx c) + uint (cb_len c) - uint (cb_read_idx c) =
      int (unat (cb_write_idx c) + unat (cb_len c) - unat (cb_read_idx c))"
    using lt by (simp add: of_nat_diff)
  with unat_smod_store [OF lt(1)] assms show ?thesis
    by (auto simp: cyclic_buf_count_def cb_used_def cb_inv_def)
qed

lemma unat_room:
  assumes "cb_inv c"
  shows "unat (cyclic_buf_room (Some c)) = unat (cb_len c) - 1 - cb_used c"
proof -
  have lt: "0 < cb_len c" "unat (cb_read_idx c) < unat (cb_len c)"
      "unat (cb_write_idx c) < unat (cb_len c)"
    using assms by (auto simp: cb_inv_def word_less_nat_alt)
  have "uint (cb_read_idx c) + uint (cb_len c) - (uint (cb_write_idx c) + 1) =
      int (unat (cb_read_idx c) + unat (cb_len c) - (unat (cb_write_idx c) + 1))"
    using lt by (simp add: of_nat_diff)
  with unat_smod_store [OF lt(1)] assms
  have "unat (cyclic_buf_room (Some c)) =
      (unat (cb_read_idx c) + unat (cb_len c) - (unat (cb_write_idx c) + 1)) mod unat (cb_len c)"
    by (auto simp: cyclic_buf_room_def cb_inv_def)
  also have "\<dots> = unat (cb_len c) - 1 - cb_used c"
    using lt by (cases "unat (cb_read_idx c) \<le> unat (cb_write_idx c)")
      (auto simp: cb_used_def mod_ge_once)
  finally show ?thesis .
qed

lemma unat_advance:
  assumes "idx < cb_len c" and "unat len < unat (cb_len c)"
  shows "unat (cyclic_advance c idx len) = (unat idx + unat len) mod unat (cb_len c)"
proof (cases "unat idx + unat len \<le> unat (cb_len c)")
  case True
  then have "unat (idx + len) = unat idx + unat len"
    using unat_bound [of "cb_len c"] by (intro unat_add_small) linarith
  moreover have "uint idx + uint len \<le> uint (cb_len c)"
    using True by (simp add: uint_add_le_iff)
  ultimately show ?thesis
    by (simp add: cyclic_advance_def unat_mod_distrib)
next
  case False
  then have "\<not> uint idx + uint len \<le> uint (cb_len c)"
    by (simp add: uint_add_le_iff)
  moreover have "unat (len - (cb_len c - idx)) = unat idx + unat len - unat (cb_len c)"
    using False assms by (simp add: unat_sub word_le_nat_alt word_less_nat_alt)
  ultimately show ?thesis
    using False assms by (simp add: cyclic_advance_def unat_mod_distrib mod_ge_once word_less_nat_alt)
qed

section \<open>Refinement to a bounded queue of bytes\<close>

lemma cyclic_copy_out_eq:
  assumes "cb_inv c" and "cb_buf c = Some b" and "unat len < unat (cb_len c)"
    and "unat len \<le> length buf"
  shows "cyclic_copy_out c b buf len =
    ring_slice b (unat (cb_read_idx c)) (unat len) @ drop (unat len) buf"
proof -
  have lb: "length b = unat (cb_len c)" and r: "unat (cb_read_idx c) < unat (cb_len c)"
    using assms by (auto simp: cb_inv_def word_less_nat_alt)
  have t: "unat (cb_len c - cb_read_idx c) = length b - unat (cb_read_idx c)"
    using r lb by (simp add: unat_sub word_le_nat_alt)
  have if_eq: "uint (cb_read_idx c) + uint len \<le> uint (cb_len c) \<longleftrightarrow>
      \<not> length b < unat (cb_read_idx c) + unat len"
    using lb by (simp add: uint_add_le_iff not_less)
  show ?thesis
    unfolding cyclic_copy_out_def if_eq Let_def t
    using ring_copy_out [of "unat (cb_read_idx c)" b "unat len" buf] assms(3,4) r lb
    by (simp split: if_splits)
qed

lemma cb_write_refines:
  assumes inv: "cb_inv c" and room: "unat len \<le> unat (cb_len c) - 1 - length (cb_contents c)"
    and d: "unat len \<le> length buf"
  shows "\<exists>c'. cyclic_buf_write (Some c) buf len = (True, Some c') \<and> cb_inv c' \<and>
    cb_len c' = cb_len c \<and> cb_contents c' = cb_contents c @ take (unat len) buf"
proof -
  obtain b where b: "cb_buf c = Some b" "length b = unat (cb_len c)"
    using inv by (auto simp: cb_inv_def)
  have io: "unat (cb_read_idx c) < unat (cb_len c)" "unat (cb_write_idx c) < unat (cb_len c)"
      "cb_write_idx c < cb_len c"
    using inv by (auto simp: cb_inv_def word_less_nat_alt)
  have n: "unat len < unat (cb_len c)" "cb_used c + unat len < unat (cb_len c)"
    using room io cb_used_less [OF inv] by auto
  let ?b = "ring_put b (unat (cb_write_idx c)) (take (unat len) buf)"
  let ?c = "c\<lparr>cb_buf := Some ?b, cb_write_idx := cyclic_advance c (cb_write_idx c) len\<rparr>"
  have t: "unat (cb_len c - cb_write_idx c) = length b - unat (cb_write_idx c)"
    using io b by (simp add: unat_sub word_le_nat_alt)
  have if_eq: "uint (cb_write_idx c) + uint len \<le> uint (cb_len c) \<longleftrightarrow>
      \<not> length b < unat (cb_write_idx c) + unat len"
    using b by (simp add: uint_add_le_iff not_less)
  have "\<not> cyclic_buf_room (Some c) < len"
    using room by (simp add: word_less_nat_alt unat_room [OF inv])
  then have wr: "cyclic_buf_write (Some c) buf len = (True, Some ?c)"
    using b ring_copy_in [of "unat (cb_write_idx c)" b "unat len" buf] d io n
    by (simp add: cyclic_buf_write_def if_eq t split: if_splits)
  have adv: "unat (cb_write_idx ?c) = (unat (cb_write_idx c) + unat len) mod unat (cb_len c)"
    using unat_advance [OF io(3) n(1)] by simp
  have w: "unat (cb_write_idx c) = (unat (cb_read_idx c) + cb_used c) mod unat (cb_len c)"
    using io by (cases "unat (cb_read_idx c) \<le> unat (cb_write_idx c)")
      (auto simp: cb_used_def mod_ge_once)
  have used: "cb_used ?c = cb_used c + unat len"
    unfolding cb_used_def adv using io n
    by (cases "unat (cb_write_idx c) + unat len < unat (cb_len c)";
        cases "unat (cb_read_idx c) \<le> unat (cb_write_idx c)")
      (auto simp: cb_used_def mod_ge_once)
  have inv': "cb_inv ?c"
    using inv b adv io n d by (simp add: cb_inv_def word_less_nat_alt)
  have fit: "cb_used c + length (take (unat len) buf) \<le> length b"
    using n b d by simp
  have "cb_contents ?c = cb_contents c @ take (unat len) buf"
    using ring_slice_put [OF _ fit, of "unat (cb_read_idx c)"] io b d w used
    by (simp add: cb_contents_def)
  with wr inv' show ?thesis by auto
qed

lemma cb_read_refines:
  assumes inv: "cb_inv c" and avail: "unat len \<le> length (cb_contents c)"
    and d: "unat len \<le> length buf"
  shows "\<exists>c'. cyclic_buf_read (Some c) buf len =
      (True, take (unat len) (cb_contents c) @ drop (unat len) buf, Some c') \<and> cb_inv c' \<and>
    cb_len c' = cb_len c \<and> cb_contents c = take (unat len) (cb_contents c) @ cb_contents c'"
proof -
  obtain b where b: "cb_buf c = Some b" "length b = unat (cb_len c)"
    using inv by (auto simp: cb_inv_def)
  have io: "unat (cb_read_idx c) < unat (cb_len c)" "unat (cb_write_idx c) < unat (cb_len c)"
      "cb_read_idx c < cb_len c"
    using inv by (auto simp: cb_inv_def word_less_nat_alt)
  have n: "unat len < unat (cb_len c)"
    using avail cb_used_less [OF inv] by simp
  let ?c = "c\<lparr>cb_read_idx := cyclic_advance c (cb_read_idx c) len\<rparr>"
  have "\<not> cyclic_buf_count (Some c) < len"
    using avail by (simp add: word_less_nat_alt unat_count [OF inv])
  then have read: "cyclic_buf_read (Some c) buf len =
      (True, take (unat len) (cb_contents c) @ drop (unat len) buf, Some ?c)"
    using b avail cyclic_copy_out_eq [OF inv b(1) n d]
    by (simp add: cyclic_buf_read_def cb_contents_def take_ring_slice)
  have adv: "unat (cb_read_idx ?c) = (unat (cb_read_idx c) + unat len) mod unat (cb_len c)"
    using unat_advance [OF io(3) n] by simp
  have used: "cb_used ?c = cb_used c - unat len"
    unfolding cb_used_def adv using io n avail
    by (cases "unat (cb_read_idx c) + unat len < unat (cb_len c)";
        cases "unat (cb_read_idx c) \<le> unat (cb_write_idx c)")
      (auto simp: cb_used_def mod_ge_once)
  have inv': "cb_inv ?c"
    using inv adv io by (simp add: cb_inv_def word_less_nat_alt)
  have "cb_contents ?c = drop (unat len) (cb_contents c)"
    using avail used adv b by (simp add: cb_contents_def drop_ring_slice)
  then have cont: "cb_contents c = take (unat len) (cb_contents c) @ cb_contents ?c"
    by simp
  show ?thesis
    by (rule exI [of _ ?c]) (intro conjI read inv' cont, simp)
qed

text \<open>
  When there is not enough room, or not enough data, nothing happens.
\<close>

lemma cb_write_full:
  assumes "cb_inv c" and "unat (cb_len c) - 1 - length (cb_contents c) < unat len"
  shows "cyclic_buf_write (Some c) buf len = (False, Some c)"
  using assms
  by (auto simp: cyclic_buf_write_def word_less_nat_alt unat_room split: option.splits)

lemma cb_read_short:
  assumes "cb_inv c" and "length (cb_contents c) < unat len"
  shows "cyclic_buf_read (Some c) buf len = (False, buf, Some c)"
  using assms
  by (auto simp: cyclic_buf_read_def word_less_nat_alt unat_count split: option.splits)

lemma cb_read_peek_drop:
  assumes "cyclic_buf_peek cyclic buf len = (ok, buf')" and "cyclic_buf_drop cyclic len = (ok', c')"
  shows "cyclic_buf_read cyclic buf len = (ok, buf', c') \<and> ok' = ok"
  using assms
  by (auto simp: cyclic_buf_read_def cyclic_buf_peek_def cyclic_buf_drop_def
      split: option.splits if_splits)

section \<open>The cyclic buffer provides the byte queue contract\<close>

definition cb_push :: "cyclic_buf \<Rightarrow> u8 list \<Rightarrow> u8 list \<times> cyclic_buf" where
  "cb_push c bs = (let len = of_nat (length bs); (ok, c') = cyclic_buf_write (Some c) bs len
     in (if ok then take (unat len) bs else [], the c'))"

definition cb_pop :: "cyclic_buf \<Rightarrow> nat \<Rightarrow> u8 list \<times> cyclic_buf" where
  "cb_pop c n = (let len = of_nat n; (ok, d, c') = cyclic_buf_read (Some c) (replicate n 0) len
     in (if ok then take (unat len) d else [], the c'))"

lemma cb_push_refines:
  assumes inv: "cb_inv c" and p: "cb_push c bs = (acc, c')"
  shows "cb_inv c' \<and> cb_len c' = cb_len c \<and> cb_contents c' = cb_contents c @ acc \<and>
    (\<exists>k. acc = take k bs)"
proof -
  let ?len = "of_nat (length bs) :: u16"
  have len: "unat ?len \<le> length bs"
    by (simp add: unat_of_nat)
  show ?thesis
  proof (cases "unat ?len \<le> unat (cb_len c) - 1 - length (cb_contents c)")
    case True
    from cb_write_refines [OF inv True len] p show ?thesis
      by (auto simp: cb_push_def Let_def)
  next
    case False
    then have "cyclic_buf_write (Some c) bs ?len = (False, Some c)"
      by (intro cb_write_full [OF inv]) simp
    with inv p show ?thesis
      by (auto simp: cb_push_def intro: exI [of _ 0])
  qed
qed

lemma cb_pop_refines:
  assumes inv: "cb_inv c" and p: "cb_pop c n = (got, c')"
  shows "cb_inv c' \<and> cb_len c' = cb_len c \<and> cb_contents c = got @ cb_contents c' \<and>
    length got \<le> n"
proof -
  let ?len = "of_nat n :: u16"
  have len: "unat ?len \<le> length (replicate n (0 :: u8))" "unat ?len \<le> n"
    by (simp_all add: unat_of_nat)
  show ?thesis
  proof (cases "unat ?len \<le> length (cb_contents c)")
    case True
    obtain c1 where c1: "cyclic_buf_read (Some c) (replicate n 0) ?len =
        (True, take (unat ?len) (cb_contents c) @ drop (unat ?len) (replicate n 0), Some c1)"
        "cb_inv c1" "cb_len c1 = cb_len c"
        "cb_contents c = take (unat ?len) (cb_contents c) @ cb_contents c1"
      using cb_read_refines [OF inv True len(1)] by blast
    have "got = take (unat ?len) (cb_contents c)" "c' = c1"
      using p c1(1) True by (auto simp: cb_pop_def)
    with c1 len(2) show ?thesis
      by simp
  next
    case False
    then have "cyclic_buf_read (Some c) (replicate n 0) ?len = (False, replicate n 0, Some c)"
      by (intro cb_read_short [OF inv]) simp
    with inv p show ?thesis
      by (auto simp: cb_pop_def)
  qed
qed

interpretation cyclic: byte_fifo cb_inv cb_contents "\<lambda>c. unat (cb_len c) - 1" cb_push cb_pop
proof
  fix s :: cyclic_buf
  assume "cb_inv s"
  then show "length (cb_contents s) \<le> unat (cb_len s) - 1"
    using cb_used_less [of s] by simp
qed (metis cb_push_refines cb_pop_refines)+

lemma cb_init_ok:
  assumes "\<And>n b. zalloc n = Some b \<Longrightarrow> b = replicate (unat n) 0" and "0 < len"
    and "cyclic_buf_init zalloc (Some c0) len = (True, c)"
  shows "\<exists>c1. c = Some c1 \<and> cb_inv c1 \<and> cb_contents c1 = [] \<and> cb_len c1 = len"
  using assms(1) [of len] assms(2,3)
  by (auto simp: cyclic_buf_init_def cb_inv_def cb_contents_def cb_used_def Let_def)

section \<open>Properties\<close>

text \<open>
  Property C14: a cyclic buffer that was initialised with a positive length carries the
  bytes of any sequence of writes and reads from writer to reader in order, without loss
  or duplication, and at most \<open>len - 1\<close> bytes are under way.
\<close>

theorem cyclic_fifo_stream:
  assumes "\<And>n b. zalloc n = Some b \<Longrightarrow> b = replicate (unat n) 0" and "0 < len"
    and "cyclic_buf_init zalloc (Some c0) len = (True, Some c)"
    and "fifo_run cb_push cb_pop c ops = (ins, outs, c')"
  shows "\<exists>rest. ins = outs @ rest \<and> length rest \<le> unat len - 1"
  using cb_init_ok [OF assms(1-3)] assms(4) cyclic.run_from_empty [of c ops ins outs c'] by auto

theorem cyclic_fifo_stream_witness:
  "\<exists>c c'. cyclic_buf_init (\<lambda>n. Some (replicate (unat n) 0))
       (Some \<lparr>cb_read_idx = 9, cb_write_idx = 9, cb_len = 9, cb_buf = None\<rparr>) 4 = (True, Some c) \<and>
     fifo_run cb_push cb_pop c [Push [7, 8], Pop 1, Push [5, 6, 4], Push [5, 6], Pop 4, Pop 3] =
       ([7, 8, 5, 6], [7, 8, 5, 6], c') \<and>
     (\<exists>rest. [7, 8, 5, 6] = [7, 8, 5, 6 :: u8] @ rest \<and> length rest \<le> 3)"
proof -
  let ?old = "\<lparr>cb_read_idx = 9, cb_write_idx = 9, cb_len = 9, cb_buf = None\<rparr>"
  let ?z = "\<lambda>n :: u16. Some (replicate (unat n) (0 :: u8))"
  let ?c = "\<lparr>cb_read_idx = 0, cb_write_idx = 0, cb_len = 4, cb_buf = Some [0, 0, 0, 0]\<rparr>"
  have init: "cyclic_buf_init ?z (Some ?old) 4 = (True, Some ?c)"
    by code_simp
  have run: "fifo_run cb_push cb_pop ?c [Push [7, 8], Pop 1, Push [5, 6, 4], Push [5, 6], Pop 4, Pop 3]
    = ([7, 8, 5, 6], [7, 8, 5, 6],
       \<lparr>cb_read_idx = 0, cb_write_idx = 0, cb_len = 4, cb_buf = Some [7, 8, 5, 6]\<rparr>)"
    by code_simp
  have z: "b = replicate (unat n) 0" if "?z n = Some b" for n b
    using that by simp
  show ?thesis
    by (rule exI [of _ ?c], rule exI, rule conjI [OF init], rule conjI [OF run])
      (use cyclic_fifo_stream [OF z _ init run] in simp)
qed

text \<open>
  The cyclic buffer transfers all or nothing. A write of \<open>len\<close> bytes succeeds
  exactly when they fit and then appends them, a read of \<open>len\<close> bytes succeeds exactly when
  they are there and then delivers and removes them; a transfer that fails changes
  neither the buffer nor the destination.
\<close>

theorem cyclic_all_or_nothing:
  assumes "cb_inv c" and "unat len \<le> length buf"
  shows "(case cyclic_buf_write (Some c) buf len of (ok, c') \<Rightarrow>
       if unat len + length (cb_contents c) < unat (cb_len c)
       then ok \<and> (\<exists>c1. c' = Some c1 \<and> cb_inv c1 \<and>
              cb_contents c1 = cb_contents c @ take (unat len) buf)
       else \<not> ok \<and> c' = Some c) \<and>
    (case cyclic_buf_read (Some c) buf len of (ok, buf', c') \<Rightarrow>
       if unat len \<le> length (cb_contents c)
       then ok \<and> buf' = take (unat len) (cb_contents c) @ drop (unat len) buf \<and>
            (\<exists>c1. c' = Some c1 \<and> cb_inv c1 \<and>
              cb_contents c = take (unat len) (cb_contents c) @ cb_contents c1)
       else \<not> ok \<and> buf' = buf \<and> c' = Some c)"
proof (intro conjI)
  have "length (cb_contents c) < unat (cb_len c)"
    using cb_used_less [OF assms(1)] by simp
  then show "case cyclic_buf_write (Some c) buf len of (ok, c') \<Rightarrow>
       if unat len + length (cb_contents c) < unat (cb_len c)
       then ok \<and> (\<exists>c1. c' = Some c1 \<and> cb_inv c1 \<and>
              cb_contents c1 = cb_contents c @ take (unat len) buf)
       else \<not> ok \<and> c' = Some c"
    using cb_write_refines [OF assms(1) _ assms(2)] cb_write_full [OF assms(1), of len buf]
    by fastforce
  show "case cyclic_buf_read (Some c) buf len of (ok, buf', c') \<Rightarrow>
       if unat len \<le> length (cb_contents c)
       then ok \<and> buf' = take (unat len) (cb_contents c) @ drop (unat len) buf \<and>
            (\<exists>c1. c' = Some c1 \<and> cb_inv c1 \<and>
              cb_contents c = take (unat len) (cb_contents c) @ cb_contents c1)
       else \<not> ok \<and> buf' = buf \<and> c' = Some c"
  proof (cases "unat len \<le> length (cb_contents c)")
    case True
    from cb_read_refines [OF assms(1) this assms(2)] True show ?thesis
      by (elim exE conjE) (simp only: prod.case if_True simp_thms, blast)
  next
    case False
    then show ?thesis
      using cb_read_short [OF assms(1), of len buf] by simp
  qed
qed

theorem cyclic_all_or_nothing_witness:
  "\<exists>c1. cyclic_buf_write (Some \<lparr>cb_read_idx = 2, cb_write_idx = 3, cb_len = 4,
        cb_buf = Some [1, 2, 3, 4]\<rparr>) [8, 9] 2 = (True, Some c1) \<and> cb_contents c1 = [3, 8, 9]"
proof -
  let ?c = "\<lparr>cb_read_idx = 2, cb_write_idx = 3, cb_len = 4, cb_buf = Some [1, 2, 3, 4 :: u8]\<rparr>"
  have inv: "cb_inv ?c" and c: "cb_contents ?c = [3]"
    by (simp_all add: cb_inv_def cb_contents_def cb_used_def ring_slice_def)
  from cyclic_all_or_nothing [OF inv, of 2 "[8, 9]"] c show ?thesis
    by (auto split: prod.splits)
qed

end
