(* ===== verification/Link_List.thy ===== *)
theory Link_List
  imports Fw_Prelude
begin

text \<open>
  The circular doubly linked lists of the firmware: \<open>tuya_list.c\<close> of the TuyaOS utilities
  and \<open>dlist.c\<close> of the SDK. Both are pointer programs on nodes with a \<open>next\<close> and a \<open>prev\<close>
  field; the heap is the pair of these two fields as functions of the node address, in an
  extensible record so that clients can add the other fields of the structures the nodes
  are embedded in.
\<close>

section \<open>Model of tuya_list.c\<close>

record list_heap =
  lh_next :: "addr \<Rightarrow> addr"
  lh_prev :: "addr \<Rightarrow> addr"

definition set_next :: "addr \<Rightarrow> addr \<Rightarrow> 'a list_heap_scheme \<Rightarrow> 'a list_heap_scheme" where
  "set_next p v h = h\<lparr>lh_next := (lh_next h)(p := v)\<rparr>"

definition set_prev :: "addr \<Rightarrow> addr \<Rightarrow> 'a list_heap_scheme \<Rightarrow> 'a list_heap_scheme" where
  "set_prev p v h = h\<lparr>lh_prev := (lh_prev h)(p := v)\<rparr>"

definition INIT_LIST_HEAD :: "addr \<Rightarrow> 'a list_heap_scheme \<Rightarrow> 'a list_heap_scheme" where
  "INIT_LIST_HEAD ptr h = set_prev ptr ptr (set_next ptr ptr h)"

definition list_add_between ::
    "addr \<Rightarrow> addr \<Rightarrow> addr \<Rightarrow> 'a list_heap_scheme \<Rightarrow> 'a list_heap_scheme" where
  "list_add_between pNew pPrev pNext h =
     (let h = set_prev pNext pNew h;
          h = set_next pNew pNext h;
          h = set_prev pNew pPrev h
      in set_next pPrev pNew h)"

definition list_del_between :: "addr \<Rightarrow> addr \<Rightarrow> 'a list_heap_scheme \<Rightarrow> 'a list_heap_scheme" where
  "list_del_between pPrev pNext h = set_next pPrev pNext (set_prev pNext pPrev h)"

definition tuya_list_empty :: "'a list_heap_scheme \<Rightarrow> addr \<Rightarrow> bool" where
  "tuya_list_empty h pHead \<longleftrightarrow> lh_next h pHead = pHead"

definition tuya_list_add :: "addr \<Rightarrow> addr \<Rightarrow> 'a list_heap_scheme \<Rightarrow> 'a list_heap_scheme" where
  "tuya_list_add pNew pHead h = list_add_between pNew pHead (lh_next h pHead) h"

definition tuya_list_add_tail :: "addr \<Rightarrow> addr \<Rightarrow> 'a list_heap_scheme \<Rightarrow> 'a list_heap_scheme" where
  "tuya_list_add_tail pNew pHead h = list_add_between pNew (lh_prev h pHead) pHead h"

definition tuya_list_splice :: "addr \<Rightarrow> addr \<Rightarrow> 'a list_heap_scheme \<Rightarrow> 'a list_heap_scheme" where
  "tuya_list_splice pList pHead h =
     (let pFirst = lh_next h pList in
      if pFirst \<noteq> pList then
        let pLast = lh_prev h pList;
            pAt = lh_next h pHead;
            h = set_prev pFirst pHead h;
            h = set_next pHead pFirst h;
            h = set_next pLast pAt h
        in set_prev pAt pLast h
      else h)"

definition tuya_list_del :: "addr \<Rightarrow> 'a list_heap_scheme \<Rightarrow> 'a list_heap_scheme" where
  "tuya_list_del pEntry h = list_del_between (lh_prev h pEntry) (lh_next h pEntry) h"

definition tuya_list_del_init :: "addr \<Rightarrow> 'a list_heap_scheme \<Rightarrow> 'a list_heap_scheme" where
  "tuya_list_del_init pEntry h =
     INIT_LIST_HEAD pEntry (list_del_between (lh_prev h pEntry) (lh_next h pEntry) h)"

text \<open>
  The two traversal macros as loops. The body returns whether the loop goes on (\<open>False\<close> is a
  \<open>break\<close>) and the state it leaves; the loop need not end on a damaged list, hence the
  option monad. In \<open>tuya_list_for_each\<close> the body does not change the list. In the safe
  variant the successor is read before the body runs.
\<close>

partial_function (option) tuya_list_for_each ::
    "'a list_heap_scheme \<Rightarrow> (addr \<Rightarrow> 's \<Rightarrow> bool \<times> 's) \<Rightarrow> addr \<Rightarrow> addr \<Rightarrow> 's \<Rightarrow> 's option" where
  "tuya_list_for_each h body head pos s =
     (if pos \<noteq> NULL \<and> pos \<noteq> head
      then (case body pos s of (go, s') \<Rightarrow>
              if go then tuya_list_for_each h body head (lh_next h pos) s' else Some s')
      else Some s)"

partial_function (option) tuya_list_for_each_safe ::
    "(addr \<Rightarrow> 'a list_heap_scheme \<Rightarrow> 'a list_heap_scheme) \<Rightarrow> addr \<Rightarrow> addr
      \<Rightarrow> 'a list_heap_scheme \<Rightarrow> 'a list_heap_scheme option" where
  "tuya_list_for_each_safe body head p h =
     (let n = lh_next h p in
      if p \<noteq> head then tuya_list_for_each_safe body head n (body p h) else Some h)"

section \<open>Model of dlist.c\<close>

definition INIT_DLIST_HEAD :: "addr \<Rightarrow> 'a list_heap_scheme \<Rightarrow> 'a list_heap_scheme" where
  "INIT_DLIST_HEAD ptr h = set_prev ptr ptr (set_next ptr ptr h)"

definition list_add :: "addr \<Rightarrow> addr \<Rightarrow> 'a list_heap_scheme \<Rightarrow> 'a list_heap_scheme" where
  "list_add node head h =
     (let prev = head;
          next = lh_next h head;
          h = set_prev next node h;
          h = set_next node next h;
          h = set_prev node prev h
      in set_next prev node h)"

definition list_add_tail :: "addr \<Rightarrow> addr \<Rightarrow> 'a list_heap_scheme \<Rightarrow> 'a list_heap_scheme" where
  "list_add_tail node head h =
     (let prev = lh_prev h head;
          next = head;
          h = set_prev next node h;
          h = set_next node next h;
          h = set_prev node prev h
      in set_next prev node h)"

definition list_del :: "addr \<Rightarrow> 'a list_heap_scheme \<Rightarrow> 'a list_heap_scheme" where
  "list_del entry h =
     (let prev = lh_prev h entry;
          next = lh_next h entry;
          h = set_prev next prev h
      in set_next prev next h)"

definition list_del_init :: "addr \<Rightarrow> 'a list_heap_scheme \<Rightarrow> 'a list_heap_scheme" where
  "list_del_init entry h = INIT_DLIST_HEAD entry (list_del entry h)"

definition list_empty :: "'a list_heap_scheme \<Rightarrow> addr \<Rightarrow> bool" where
  "list_empty h head = (if lh_next h head = head then True else False)"

definition list_splice :: "addr \<Rightarrow> addr \<Rightarrow> 'a list_heap_scheme \<Rightarrow> 'a list_heap_scheme" where
  "list_splice lst head h =
     (let first = lh_next h lst in
      if first \<noteq> lst then
        let last = lh_prev h lst;
            at = lh_next h head;
            h = set_prev first head h;
            h = set_next head first h;
            h = set_next last at h
        in set_prev at last h
      else h)"

partial_function (option) list_len_loop ::
    "'a list_heap_scheme \<Rightarrow> addr \<Rightarrow> addr \<Rightarrow> u32 \<Rightarrow> u32 option" where
  "list_len_loop h head pos count =
     (if pos \<noteq> head then list_len_loop h head (lh_next h pos) (count + 1) else Some count)"

definition list_len :: "'a list_heap_scheme \<Rightarrow> addr \<Rightarrow> u32 option" where
  "list_len h head = list_len_loop h head (lh_next h head) 0"

section \<open>Circular lists\<close>

text \<open>
  \<open>links h ps\<close>: consecutive nodes of \<open>ps\<close> are linked in both directions. \<open>dll h head xs\<close>: the
  head and the nodes \<open>xs\<close> form a circle in this order.
\<close>

fun links :: "'a list_heap_scheme \<Rightarrow> addr list \<Rightarrow> bool" where
  "links h (x # y # zs) \<longleftrightarrow> lh_next h x = y \<and> lh_prev h y = x \<and> links h (y # zs)"
| "links h _ \<longleftrightarrow> True"

definition dll :: "'a list_heap_scheme \<Rightarrow> addr \<Rightarrow> addr list \<Rightarrow> bool" where
  "dll h head xs \<longleftrightarrow> distinct (head # xs) \<and> links h (head # xs @ [head])"

lemma set_next_simps [heap_simps]:
  "lh_next (set_next p v h) = (lh_next h)(p := v)"
  "lh_prev (set_next p v h) = lh_prev h"
  "lh_next (set_prev p v h) = lh_next h"
  "lh_prev (set_prev p v h) = (lh_prev h)(p := v)"
  "list_heap.more (set_next p v h) = list_heap.more h"
  "list_heap.more (set_prev p v h) = list_heap.more h"
  by (simp_all add: set_next_def set_prev_def)

lemmas list_ops_def =
  tuya_list_add_def tuya_list_add_tail_def tuya_list_del_def tuya_list_del_init_def
  list_add_between_def list_del_between_def INIT_LIST_HEAD_def Let_def

lemmas dlist_ops_def =
  list_add_def list_add_tail_def list_del_def list_del_init_def INIT_DLIST_HEAD_def Let_def

lemma in_set_tlD: "x \<in> set (tl ys) \<Longrightarrow> x \<in> set ys"
  by (cases ys) auto

lemma links_append:
  "links h (xs @ y # ys) \<longleftrightarrow> links h (xs @ [y]) \<and> links h (y # ys)"
proof (induction xs)
  case (Cons x xs)
  then show ?case
    by (cases xs) auto
qed simp

lemma links_cong:
  assumes "\<And>p. p \<in> set (butlast ps) \<Longrightarrow> lh_next h' p = lh_next h p"
    and "\<And>p. p \<in> set (tl ps) \<Longrightarrow> lh_prev h' p = lh_prev h p"
  shows "links h' ps \<longleftrightarrow> links h ps"
  using assms
proof (induction ps)
  case (Cons x ps)
  then show ?case
    by (cases ps) (auto split: if_splits)
qed simp

text \<open>
  A node can be linked in between any two neighbours, and unlinked again.
\<close>

lemma links_insert:
  assumes "links h (as @ p # q # bs)" and "n \<notin> set (as @ p # q # bs)"
    and "p \<notin> set as" "p \<notin> set (butlast (q # bs))" "q \<notin> set bs" "q \<notin> set (tl (as @ [p]))"
  shows "links (list_add_between n p q h) (as @ p # n # q # bs)"
proof -
  let ?h = "list_add_between n p q h"
  have 1: "links h (as @ [p])" and 2: "links h (q # bs)"
    using assms(1) links_append [of h as p "q # bs"] by auto
  have "links ?h (as @ [p])"
    using 1 assms(2-) by (subst links_cong [where h = h])
      (auto simp: list_add_between_def Let_def heap_simps butlast_append dest: in_set_tlD)
  moreover have "links ?h (q # bs)"
    using 2 assms(2-) by (subst links_cong [where h = h])
      (auto simp: list_add_between_def Let_def heap_simps dest: in_set_butlastD in_set_tlD split: if_splits)
  moreover have "links ?h [p, n, q]"
    using assms(2) by (auto simp: list_add_between_def Let_def heap_simps)
  ultimately show ?thesis
    by (subst links_append) simp
qed

lemma links_remove:
  assumes "links h (as @ p # n # q # bs)"
    and "p \<notin> set as" "p \<notin> set (butlast (q # bs))" "q \<notin> set bs" "q \<notin> set (tl (as @ [p]))"
  shows "links (list_del_between p q h) (as @ p # q # bs)"
proof -
  let ?h = "list_del_between p q h"
  have 1: "links h (as @ [p])" and 2: "links h (q # bs)"
    using assms(1) links_append [of h as p "n # q # bs"] by auto
  have "links ?h (as @ [p])"
    using 1 assms(2-) by (subst links_cong [where h = h])
      (auto simp: list_del_between_def heap_simps butlast_append dest: in_set_tlD)
  moreover have "links ?h (q # bs)"
    using 2 assms(2-) by (subst links_cong [where h = h])
      (auto simp: list_del_between_def heap_simps dest: in_set_butlastD in_set_tlD split: if_splits)
  moreover have "links ?h [p, q]"
    by (auto simp: list_del_between_def heap_simps)
  ultimately show ?thesis
    by (subst links_append) simp
qed

lemma links_middle: "links h (as @ p # q # bs) \<Longrightarrow> lh_next h p = q \<and> lh_prev h q = p"
  using links_append [of h as p "q # bs"] by auto

lemma dll_next_head: "dll h head xs \<Longrightarrow> lh_next h head = hd (xs @ [head])"
  by (cases xs) (auto simp: dll_def)

lemma dll_prev_head: "dll h head xs \<Longrightarrow> lh_prev h head = last (head # xs)"
  using links_middle [of h "butlast (head # xs)" "last (head # xs)" head "[]"]
  by (cases xs rule: rev_cases) (auto simp: dll_def)

lemma circle_split:
  assumes d: "distinct (head # xs @ ys)"
  obtains as p q bs where "head # xs = as @ [p]" "ys @ [head] = q # bs"
    "p \<notin> set as" "p \<notin> set (butlast (q # bs))" "q \<notin> set bs" "q \<notin> set (tl (as @ [p]))"
    "set (as @ p # q # bs) = set (head # xs @ ys)"
proof -
  obtain as p where ap: "head # xs = as @ [p]"
    by (meson list.discI rev_exhaust)
  obtain q bs where qb: "ys @ [head] = q # bs"
    by (cases "ys @ [head]") auto
  have sets: "set (butlast (q # bs)) = set ys" "set (tl (as @ [p])) = set xs"
      "set (as @ [p]) = set (head # xs)" "set (q # bs) = set (ys @ [head])"
    by (simp_all flip: ap qb)
  have "distinct (head # xs)" "distinct (ys @ [head])"
    using d by auto
  then have dist: "distinct (as @ [p])" "distinct (q # bs)"
    by (simp_all only: ap qb)
  have "p \<in> set (as @ [p])" "q \<in> set (q # bs)"
    by simp_all
  then have mem: "p \<in> set (head # xs)" "q \<in> set (ys @ [head])"
    by (simp_all only: sets)
  show thesis
  proof (rule that [OF ap qb])
    show "p \<notin> set as" "q \<notin> set bs"
      using dist by auto
    show "p \<notin> set (butlast (q # bs))" "q \<notin> set (tl (as @ [p]))"
      unfolding sets using d mem by auto
    show "set (as @ p # q # bs) = set (head # xs @ ys)"
      using sets(3,4) by auto
  qed
qed

lemma dll_insert_between:
  assumes d: "dll h head (xs @ ys)" and n: "n \<notin> set (head # xs @ ys)"
  shows "dll (list_add_between n (last (head # xs)) (hd (ys @ [head])) h) head (xs @ n # ys)"
proof -
  have dist: "distinct (head # xs @ ys)" using d by (simp add: dll_def)
  obtain as p q bs where s: "head # xs = as @ [p]" "ys @ [head] = q # bs"
    and notin: "p \<notin> set as" "p \<notin> set (butlast (q # bs))" "q \<notin> set bs" "q \<notin> set (tl (as @ [p]))"
    and sets: "set (as @ p # q # bs) = set (head # xs @ ys)"
    using circle_split [OF dist] by metis
  have L: "as @ p # q # bs = head # (xs @ ys) @ [head]" "as @ p # n # q # bs = head # (xs @ n # ys) @ [head]"
    unfolding s(2) [symmetric] using s(1) by simp_all
  have "links h (as @ p # q # bs)"
    using d by (simp only: L dll_def)
  from links_insert [OF this _ notin] n
  have "links (list_add_between n p q h) (as @ p # n # q # bs)"
    by (simp only: sets not_False_eq_True)
  moreover have "last (head # xs) = p" "hd (ys @ [head]) = q"
    by (simp_all only: s) simp_all
  ultimately show ?thesis
    using d n by (simp add: dll_def L)
qed

lemma dll_remove_between:
  assumes d: "dll h head (xs @ n # ys)"
  shows "dll (list_del_between (last (head # xs)) (hd (ys @ [head])) h) head (xs @ ys)"
    and "lh_prev h n = last (head # xs)" and "lh_next h n = hd (ys @ [head])"
proof -
  have dist: "distinct (head # xs @ ys)" using d by (simp add: dll_def)
  obtain as p q bs where s: "head # xs = as @ [p]" "ys @ [head] = q # bs"
    and notin: "p \<notin> set as" "p \<notin> set (butlast (q # bs))" "q \<notin> set bs" "q \<notin> set (tl (as @ [p]))"
    using circle_split [OF dist] by metis
  have L: "as @ p # q # bs = head # (xs @ ys) @ [head]" "as @ p # n # q # bs = head # (xs @ n # ys) @ [head]"
    unfolding s(2) [symmetric] using s(1) by simp_all
  have links: "links h (as @ p # n # q # bs)"
    using d by (simp only: L dll_def)
  have pq: "last (head # xs) = p" "hd (ys @ [head]) = q"
    by (simp_all only: s) simp_all
  show "dll (list_del_between (last (head # xs)) (hd (ys @ [head])) h) head (xs @ ys)"
    using links_remove [OF links notin] d pq by (simp add: dll_def L)
  show "lh_prev h n = last (head # xs)" "lh_next h n = hd (ys @ [head])"
    using links_middle [OF links] links_middle [of h "as @ [p]" n q bs] links pq by simp_all
qed

text \<open>
  Lists with disjoint nodes do not interfere.
\<close>

definition same_node :: "'a list_heap_scheme \<Rightarrow> 'b list_heap_scheme \<Rightarrow> addr \<Rightarrow> bool" where
  "same_node h' h p \<longleftrightarrow> lh_next h' p = lh_next h p \<and> lh_prev h' p = lh_prev h p"

lemma dll_cong:
  "lh_next h' = lh_next h \<Longrightarrow> lh_prev h' = lh_prev h \<Longrightarrow> dll h' head xs = dll h head xs"
  by (simp add: dll_def links_cong [of _ h' h])

lemma dll_frame:
  assumes "dll h head xs" and "\<And>p. p \<in> set (head # xs) \<Longrightarrow> same_node h' h p"
  shows "dll h' head xs"
proof -
  have "links h' (head # xs @ [head]) \<longleftrightarrow> links h (head # xs @ [head])"
    by (rule links_cong) (use assms(2) in \<open>auto simp: same_node_def butlast_append\<close>)
  with assms(1) show ?thesis
    by (simp add: dll_def)
qed

lemma same_node_add:
  "q \<noteq> n \<Longrightarrow> q \<noteq> p \<Longrightarrow> q \<noteq> r \<Longrightarrow> same_node (list_add_between n p r h) h q"
  by (simp add: same_node_def list_add_between_def Let_def heap_simps)

lemma same_node_del: "q \<noteq> p \<Longrightarrow> q \<noteq> r \<Longrightarrow> same_node (list_del_between p r h) h q"
  by (simp add: same_node_def list_del_between_def heap_simps)

section \<open>The contract of a circular list and its clients\<close>

text \<open>
  What both implementations promise: the effect of each operation on the list, that it
  touches no node outside the list and no other field of the heap.
\<close>

locale circular_list =
  fixes init :: "addr \<Rightarrow> 'a list_heap_scheme \<Rightarrow> 'a list_heap_scheme"
    and add :: "addr \<Rightarrow> addr \<Rightarrow> 'a list_heap_scheme \<Rightarrow> 'a list_heap_scheme"
    and add_tail :: "addr \<Rightarrow> addr \<Rightarrow> 'a list_heap_scheme \<Rightarrow> 'a list_heap_scheme"
    and del :: "addr \<Rightarrow> 'a list_heap_scheme \<Rightarrow> 'a list_heap_scheme"
  assumes init_dll: "dll (init p h) p []"
    and init_frame: "q \<noteq> p \<Longrightarrow> same_node (init p h) h q"
    and add_dll: "dll h head xs \<Longrightarrow> n \<notin> set (head # xs) \<Longrightarrow> dll (add n head h) head (n # xs)"
    and add_frame: "dll h head xs \<Longrightarrow> q \<notin> set (n # head # xs) \<Longrightarrow> same_node (add n head h) h q"
    and add_tail_dll:
      "dll h head xs \<Longrightarrow> n \<notin> set (head # xs) \<Longrightarrow> dll (add_tail n head h) head (xs @ [n])"
    and add_tail_frame:
      "dll h head xs \<Longrightarrow> q \<notin> set (n # head # xs) \<Longrightarrow> same_node (add_tail n head h) h q"
    and del_dll: "dll h head (xs @ n # ys) \<Longrightarrow> dll (del n h) head (xs @ ys)"
    and del_frame:
      "dll h head (xs @ n # ys) \<Longrightarrow> q \<notin> set (head # xs @ n # ys) \<Longrightarrow> same_node (del n h) h q"
    and more_kept: "list_heap.more (init p h) = list_heap.more h"
      "list_heap.more (add n head h) = list_heap.more h"
      "list_heap.more (add_tail n head h) = list_heap.more h"
      "list_heap.more (del n h) = list_heap.more h"
begin

text \<open>
  Another list with disjoint nodes is not disturbed.
\<close>

lemma add_other:
  assumes "dll h head xs" and "dll h head' ys" and "set (head' # ys) \<inter> set (n # head # xs) = {}"
  shows "dll (add n head h) head' ys"
  using assms(3) by (intro dll_frame [OF assms(2)] add_frame [OF assms(1)]) auto

lemma add_tail_other:
  assumes "dll h head xs" and "dll h head' ys" and "set (head' # ys) \<inter> set (n # head # xs) = {}"
  shows "dll (add_tail n head h) head' ys"
  using assms(3) by (intro dll_frame [OF assms(2)] add_tail_frame [OF assms(1)]) auto

lemma del_other:
  assumes "dll h head (xs @ n # zs)" and "dll h head' ys"
    and "set (head' # ys) \<inter> set (head # xs @ n # zs) = {}"
  shows "dll (del n h) head' ys"
  using assms(3) by (intro dll_frame [OF assms(2)] del_frame [OF assms(1)]) auto

text \<open>
  A client that moves a node from one list to the tail of another: both lists end up as
  expected, whatever the position of the node was.
\<close>

lemma move_tail:
  assumes a: "dll h ha (xs @ n # zs)" and b: "dll h hb ys"
    and disj: "set (ha # xs @ n # zs) \<inter> set (hb # ys) = {}"
  defines "h' \<equiv> add_tail n hb (del n h)"
  shows "dll h' ha (xs @ zs)" and "dll h' hb (ys @ [n])"
proof -
  have d: "dll (del n h) ha (xs @ zs)" "dll (del n h) hb ys"
    using del_dll [OF a] del_other [OF a b] disj by auto
  have "n \<notin> set (ha # xs @ zs)"
    using a by (auto simp: dll_def)
  then show "dll h' ha (xs @ zs)"
    unfolding h'_def using disj by (intro add_tail_other [OF d(2,1)]) auto
  show "dll h' hb (ys @ [n])"
    unfolding h'_def using disj by (intro add_tail_dll [OF d(2)]) auto
qed

text \<open>
  Initialising a head and appending nodes one by one builds the list in that order, and
  deleting the nodes one by one in any order empties it.
\<close>

lemma build:
  "dll h head xs \<Longrightarrow> distinct ns \<Longrightarrow> set ns \<inter> set (head # xs) = {} \<Longrightarrow>
   dll (fold (\<lambda>n. add_tail n head) ns h) head (xs @ ns)"
proof (induction ns arbitrary: h xs)
  case (Cons n ns)
  then have "dll (add_tail n head h) head (xs @ [n])"
    by (intro add_tail_dll) auto
  from Cons.IH [OF this] Cons.prems show ?case by auto
qed simp

lemma drain:
  "dll h head xs \<Longrightarrow> distinct ns \<Longrightarrow> set ns = set xs \<Longrightarrow> dll (fold del ns h) head []"
proof (induction ns arbitrary: h xs)
  case (Cons n ns)
  then obtain as bs where xs: "xs = as @ n # bs"
    by (metis list.set_intros(1) split_list)
  have "dll (del n h) head (as @ bs)"
    using Cons.prems(1) xs del_dll by simp
  moreover have "set ns = set (as @ bs)"
    using Cons.prems xs by (auto simp: dll_def)
  ultimately show ?case
    using Cons.IH [of "del n h" "as @ bs"] Cons.prems(2) by simp
qed simp

end

interpretation tuya: circular_list INIT_LIST_HEAD tuya_list_add tuya_list_add_tail tuya_list_del
proof
  fix p q n head :: addr and h :: "'a list_heap_scheme" and xs ys :: "addr list"
  show "dll (INIT_LIST_HEAD p h) p []"
    by (simp add: dll_def INIT_LIST_HEAD_def heap_simps)
  show "q \<noteq> p \<Longrightarrow> same_node (INIT_LIST_HEAD p h) h q"
    by (simp add: same_node_def INIT_LIST_HEAD_def heap_simps)
  show "list_heap.more (INIT_LIST_HEAD p h) = list_heap.more h"
    "list_heap.more (tuya_list_add n head h) = list_heap.more h"
    "list_heap.more (tuya_list_add_tail n head h) = list_heap.more h"
    "list_heap.more (tuya_list_del n h) = list_heap.more h"
    by (simp_all add: list_ops_def heap_simps)
  {
    assume d: "dll h head xs"
    note eqs = dll_next_head [OF d] dll_prev_head [OF d]
    show "n \<notin> set (head # xs) \<Longrightarrow> dll (tuya_list_add n head h) head (n # xs)"
      using dll_insert_between [of h head "[]" xs n] d eqs by (simp add: tuya_list_add_def)
    show "n \<notin> set (head # xs) \<Longrightarrow> dll (tuya_list_add_tail n head h) head (xs @ [n])"
      using dll_insert_between [of h head xs "[]" n] d eqs by (simp add: tuya_list_add_tail_def)
    show "q \<notin> set (n # head # xs) \<Longrightarrow> same_node (tuya_list_add n head h) h q"
      using eqs by (cases xs) (auto simp: tuya_list_add_def intro!: same_node_add)
    show "q \<notin> set (n # head # xs) \<Longrightarrow> same_node (tuya_list_add_tail n head h) h q"
      using eqs by (cases xs rule: rev_cases) (auto simp: tuya_list_add_tail_def intro!: same_node_add)
  }
  assume d: "dll h head (xs @ n # ys)"
  note rem = dll_remove_between [OF d]
  show "dll (tuya_list_del n h) head (xs @ ys)"
    using rem by (simp add: tuya_list_del_def)
  show "q \<notin> set (head # xs @ n # ys) \<Longrightarrow> same_node (tuya_list_del n h) h q"
    using rem(2,3) by (cases xs rule: rev_cases; cases ys)
      (auto simp: tuya_list_del_def intro!: same_node_del)
qed

text \<open>
  The SDK's list operations are the same pointer assignments.
\<close>

lemma dlist_ops_eq:
  "INIT_DLIST_HEAD = INIT_LIST_HEAD" "list_add = tuya_list_add"
  "list_add_tail = tuya_list_add_tail" "list_del = tuya_list_del"
  "list_del_init = tuya_list_del_init" "list_splice = tuya_list_splice"
  by (rule ext | simp add: list_ops_def dlist_ops_def list_splice_def tuya_list_splice_def)+

interpretation dlist: circular_list INIT_DLIST_HEAD list_add list_add_tail list_del
  unfolding dlist_ops_eq by (rule tuya.circular_list_axioms)

section \<open>Splicing and traversal\<close>

lemma links_join:
  assumes "us \<noteq> []" and "vs \<noteq> []"
  shows "links h (us @ vs) \<longleftrightarrow>
    links h us \<and> links h vs \<and> lh_next h (last us) = hd vs \<and> lh_prev h (hd vs) = last us"
proof -
  obtain as p q bs where "us = as @ [p]" "vs = q # bs"
    using assms by (metis rev_exhaust neq_Nil_conv)
  then show ?thesis
    using links_append [of h as p "q # bs"] by auto
qed

lemma splice_dll:
  assumes l: "dll h lst ys" and x: "dll h head xs" and disj: "set (lst # ys) \<inter> set (head # xs) = {}"
  shows "dll (tuya_list_splice lst head h) head (ys @ xs)"
proof (cases "ys = []")
  case True
  then show ?thesis
    using x dll_next_head [OF l] by (simp add: tuya_list_splice_def)
next
  case False
  let ?h = "tuya_list_splice lst head h" and ?at = "hd (xs @ [head])"
  have eqs: "lh_next h lst = hd ys" "lh_prev h lst = last ys" "lh_next h head = ?at"
    using dll_next_head [OF l] dll_prev_head [OF l] dll_next_head [OF x] False by auto
  have ne: "hd ys \<noteq> lst"
    using l False by (cases ys) (auto simp: dll_def)
  have nx: "lh_next ?h = (lh_next h)(head := hd ys, last ys := ?at)"
    and pv: "lh_prev ?h = (lh_prev h)(hd ys := head, ?at := last ys)"
    using ne by (simp_all add: tuya_list_splice_def Let_def eqs heap_simps)
  have dist: "distinct ys" "distinct (xs @ [head])"
    using l x by (auto simp: dll_def)
  have at: "?at \<in> set (xs @ [head])"
    by (rule hd_in_set) simp
  have edges: "last ys \<notin> set (butlast ys)" "hd ys \<notin> set (tl ys)" "?at \<notin> set (tl (xs @ [head]))"
    using dist False by (metis append_butlast_last_id distinct_butlast not_distinct_conv_prefix)
      (use dist False in \<open>cases ys; auto\<close>, use dist in \<open>cases xs; auto\<close>)
  have "hd ys \<in> set ys" "last ys \<in> set ys"
    using False by auto
  then have apart: "hd ys \<notin> set (xs @ [head])" "last ys \<notin> set (xs @ [head])"
    using disj by auto
  have "links h ys" "links h (xs @ [head])"
    using l x False links_join [of "[lst]" "ys @ [lst]" h] links_join [of ys "[lst]" h]
      links_join [of "[head]" "xs @ [head]" h] by (auto simp: dll_def)
  moreover have "links ?h ys \<longleftrightarrow> links h ys"
    by (rule links_cong) (use edges at disj in \<open>auto simp: nx pv dest: in_set_butlastD in_set_tlD\<close>)
  moreover have "links ?h (xs @ [head]) \<longleftrightarrow> links h (xs @ [head])"
    by (rule links_cong) (use edges dist apart in
      \<open>auto simp: nx pv butlast_append dest: in_set_tlD split: if_splits\<close>)
  moreover have "lh_next ?h head = hd ys" "lh_prev ?h (hd ys) = head"
      "lh_next ?h (last ys) = ?at" "lh_prev ?h ?at = last ys"
    using disj at apart by (auto simp: nx pv)
  ultimately have "links ?h (head # ys @ xs @ [head])"
    using False links_join [of "[head]" "ys @ xs @ [head]" ?h] links_join [of ys "xs @ [head]" ?h]
    by simp
  then show ?thesis
    using dist x l disj by (auto simp: dll_def)
qed

text \<open>
  A traversal whose body does not change the list visits its nodes in order until the
  body breaks, and ends.
\<close>

fun iter_until :: "('b \<Rightarrow> 's \<Rightarrow> bool \<times> 's) \<Rightarrow> 'b list \<Rightarrow> 's \<Rightarrow> 's" where
  "iter_until body [] s = s"
| "iter_until body (x # xs) s =
     (case body x s of (go, s') \<Rightarrow> if go then iter_until body xs s' else s')"

lemma for_each_suffix:
  "links h (ys @ [head]) \<Longrightarrow> head \<notin> set ys \<Longrightarrow> NULL \<notin> set ys \<Longrightarrow>
   tuya_list_for_each h body head (hd (ys @ [head])) s = Some (iter_until body ys s)"
proof (induction ys arbitrary: s)
  case Nil
  then show ?case
    by (simp add: tuya_list_for_each.simps)
next
  case (Cons y ys)
  have "lh_next h y = hd (ys @ [head])" and "links h (ys @ [head])"
    using Cons.prems(1) by (cases ys; simp)+
  then show ?case
    using Cons by (subst tuya_list_for_each.simps) (auto split: prod.split)
qed

lemma dll_links_suffix: "dll h head xs \<Longrightarrow> links h (xs @ [head])"
  using links_join [of "[head]" "xs @ [head]" h] by (simp add: dll_def)

lemma for_each_dll:
  assumes "dll h head xs" and "NULL \<notin> set xs"
  shows "tuya_list_for_each h body head (lh_next h head) s = Some (iter_until body xs s)"
  unfolding dll_next_head [OF assms(1)]
  using assms by (intro for_each_suffix dll_links_suffix) (auto simp: dll_def)

text \<open>
  A safe traversal whose body unlinks the node it visits empties the list.
\<close>

lemma for_each_safe_dll:
  assumes body: "\<And>p rest h. dll h head (p # rest) \<Longrightarrow> dll (body p h) head rest"
    and "dll h head xs"
  shows "tuya_list_for_each_safe body head (lh_next h head) h = Some (fold body xs h)"
    and "dll (fold body xs h) head []"
proof -
  have "tuya_list_for_each_safe body head (hd (xs @ [head])) h = Some (fold body xs h) \<and>
      dll (fold body xs h) head []" if "dll h head xs" for xs h
    using that
  proof (induction xs arbitrary: h)
    case Nil
    then show ?case
      by (subst tuya_list_for_each_safe.simps) simp
  next
    case (Cons x xs)
    have "lh_next h x = hd (xs @ [head])" "x \<noteq> head"
      using dll_remove_between(3) [of h head "[]" x xs] Cons.prems by (auto simp: dll_def)
    with Cons.IH [OF body [OF Cons.prems]] show ?case
      by (subst tuya_list_for_each_safe.simps) simp
  qed
  from this [OF assms(2)] show
    "tuya_list_for_each_safe body head (lh_next h head) h = Some (fold body xs h)"
    "dll (fold body xs h) head []"
    by (simp_all add: dll_next_head [OF assms(2)])
qed

lemma list_len_suffix:
  "links h (ys @ [head]) \<Longrightarrow> head \<notin> set ys \<Longrightarrow>
   list_len_loop h head (hd (ys @ [head])) n = Some (n + of_nat (length ys))"
proof (induction ys arbitrary: n)
  case Nil
  then show ?case
    by (simp add: list_len_loop.simps)
next
  case (Cons y ys)
  have "lh_next h y = hd (ys @ [head])" and "links h (ys @ [head])"
    using Cons.prems(1) by (cases ys; simp)+
  then show ?case
    using Cons by (subst list_len_loop.simps) auto
qed

lemma list_len_dll: "dll h head xs \<Longrightarrow> list_len h head = Some (of_nat (length xs))"
  using list_len_suffix [OF dll_links_suffix, of h head xs 0] dll_next_head [of h head xs]
  by (auto simp: list_len_def dll_def)

lemma list_empty_dll: "dll h head xs \<Longrightarrow> tuya_list_empty h head \<longleftrightarrow> xs = []"
  using dll_next_head [of h head xs] by (cases xs) (auto simp: tuya_list_empty_def dll_def)

section \<open>Properties\<close>

text \<open>
  Property C30: on a circular list the operations of \<open>tuya_list.c\<close> have the effect their
  names promise on the sequence of nodes: insertion at the front and at the tail, removal
  of a node at any position, and splicing of a whole list at the front.
\<close>

theorem tuya_list_functional:
  assumes "dll h head xs"
  shows "(n \<notin> set (head # xs) \<longrightarrow>
       dll (tuya_list_add n head h) head (n # xs) \<and>
       dll (tuya_list_add_tail n head h) head (xs @ [n])) \<and>
    (n \<in> set xs \<longrightarrow> dll (tuya_list_del n h) head (remove1 n xs)) \<and>
    (dll h lst ys \<and> set (lst # ys) \<inter> set (head # xs) = {} \<longrightarrow>
       dll (tuya_list_splice lst head h) head (ys @ xs)) \<and>
    (tuya_list_empty h head \<longleftrightarrow> xs = [])"
proof -
  have "dll (tuya_list_del n h) head (remove1 n xs)" if "n \<in> set xs"
  proof -
    from that obtain as bs where xs: "xs = as @ n # bs" "n \<notin> set as"
      by (meson split_list_first)
    then show ?thesis
      using tuya.del_dll [of h head as n bs] assms by (simp add: remove1_append)
  qed
  then show ?thesis
    using assms tuya.add_dll tuya.add_tail_dll splice_dll list_empty_dll by blast
qed

text \<open>
  In the heap in which every node points to itself, every node is an empty list.
\<close>

definition fresh_heap :: list_heap where
  "fresh_heap = \<lparr>lh_next = (\<lambda>p. p), lh_prev = (\<lambda>p. p)\<rparr>"

lemma fresh_heap_dll: "dll fresh_heap p []"
  by (simp add: dll_def fresh_heap_def)

definition list_example :: list_heap where
  "list_example = tuya_list_add_tail 20 1 (tuya_list_add_tail 10 1 fresh_heap)"

lemma list_example_dll: "dll list_example 1 [10, 20]" "dll list_example 2 []"
  using tuya.build [OF fresh_heap_dll, of "[10, 20]" 1]
  by (simp_all add: list_example_def dll_def list_ops_def heap_simps fresh_heap_def)

theorem tuya_list_functional_witness:
  "dll list_example 1 [10, 20] \<and>
   dll (tuya_list_add 30 1 list_example) 1 [30, 10, 20] \<and>
   dll (tuya_list_del 10 list_example) 1 [20] \<and>
   dll (tuya_list_splice 1 2 list_example) 2 [10, 20]"
  using list_example_dll
    tuya_list_functional [OF list_example_dll(1), of 30]
    tuya_list_functional [OF list_example_dll(1), of 10]
    tuya_list_functional [OF list_example_dll(2), of 0 1 "[10, 20]"] by simp

text \<open>
  Unlinking a node from one list and appending it to another, the way the
  schedulers of the firmware move entries, leaves both lists intact and in order.
\<close>

theorem tuya_list_move:
  assumes "dll h ha (xs @ n # zs)" and "dll h hb ys"
    and "set (ha # xs @ n # zs) \<inter> set (hb # ys) = {}"
  shows "dll (tuya_list_add_tail n hb (tuya_list_del n h)) ha (xs @ zs) \<and>
    dll (tuya_list_add_tail n hb (tuya_list_del n h)) hb (ys @ [n])"
  using tuya.move_tail [OF assms] by simp

theorem tuya_list_move_witness:
  "dll (tuya_list_add_tail 10 2 (tuya_list_del 10 list_example)) 1 [20] \<and>
   dll (tuya_list_add_tail 10 2 (tuya_list_del 10 list_example)) 2 [10]"
  using tuya_list_move [of list_example 1 "[]" 10 "[20]" 2 "[]"] list_example_dll by simp

text \<open>
  The loop of \<open>list_len\<close> in \<open>dlist.c\<close> ends on every well-formed list and
  returns the number of its nodes; this holds in particular for a list that was built by
  appending nodes and from which others were deleted again.
\<close>

theorem dlist_len_terminates:
  assumes "dll h head xs" and "distinct ns" and "set ns \<inter> set (head # xs) = {}" and "n \<in> set (xs @ ns)"
  shows "list_len (list_del n (fold (\<lambda>n. list_add_tail n head) ns h)) head =
    Some (of_nat (length xs + length ns - 1))"
proof -
  from assms(4) obtain as bs where s: "xs @ ns = as @ n # bs"
    by (meson split_list)
  have "dll (list_del n (fold (\<lambda>n. list_add_tail n head) ns h)) head (as @ bs)"
    using dlist.del_dll [of _ head as n bs] dlist.build [OF assms(1-3)] s by simp
  from list_len_dll [OF this] s show ?thesis
    by (metis add_Suc_right diff_Suc_1 length_Cons length_append)
qed

theorem dlist_len_terminates_witness:
  "list_len (list_del 10 (fold (\<lambda>n. list_add_tail n 1) [10, 20, 30] fresh_heap)) 1 = Some 2"
  using dlist_len_terminates [OF fresh_heap_dll, of "[10, 20, 30]" 1 10] by simp

end
