(* ===== verification/Tuya_Queue.thy ===== *)
theory Tuya_Queue
  imports Link_List
begin

text \<open>
  The queue of \<open>tuya_queue.c\<close>: items of a fixed size are copied into heap blocks that are
  linked on a circular list. The heap holds the list nodes, the data of the items, the
  queue control blocks and the list of allocated blocks, so that allocation and release
  are visible. The result of \<open>tkl_system_malloc\<close> is an argument of the operations that
  call it (\<open>NULL\<close> when it fails), as are the results of creating and releasing the mutex.
\<close>

section \<open>Model of tuya_queue.c\<close>

datatype enqueue_policy = POLICY_SEND_TO_BACK | POLICY_SEND_TO_FRONT | POLICY_MAX

record tuya_queue =
  tq_locked :: bool
  tq_item_size :: u32
  tq_queue_len :: u32
  tq_queue_free :: u32

text \<open>
  \<open>qh_fault\<close> records that a block was freed that is not allocated.
\<close>

record queue_heap = list_heap +
  qh_data :: "addr \<Rightarrow> u8 list"
  qh_queue :: "addr \<Rightarrow> tuya_queue"
  qh_blocks :: "(addr \<times> nat) list"
  qh_fault :: bool

text \<open>
  Layout on the 32-bit target: the list node is the first member of an item, the list head
  follows the mutex handle and three words in the control block.
\<close>

abbreviation QUEUE_ITEM_SIZE :: u32 where "QUEUE_ITEM_SIZE \<equiv> 8"
abbreviation TUYA_QUEUE_SIZE :: nat where "TUYA_QUEUE_SIZE \<equiv> 24"

definition queue_head :: "addr \<Rightarrow> addr" where "queue_head q = q + 16"

definition system_alloc :: "addr \<Rightarrow> nat \<Rightarrow> queue_heap \<Rightarrow> queue_heap" where
  "system_alloc p n h = h\<lparr>qh_blocks := (p, n) # qh_blocks h\<rparr>"

definition system_free :: "addr \<Rightarrow> queue_heap \<Rightarrow> queue_heap" where
  "system_free p h =
     (if p \<in> fst ` set (qh_blocks h)
      then h\<lparr>qh_blocks := filter (\<lambda>b. fst b \<noteq> p) (qh_blocks h)\<rparr>
      else h\<lparr>qh_fault := True\<rparr>)"

definition set_queue :: "addr \<Rightarrow> (tuya_queue \<Rightarrow> tuya_queue) \<Rightarrow> queue_heap \<Rightarrow> queue_heap" where
  "set_queue q f h = h\<lparr>qh_queue := (qh_queue h)(q := f (qh_queue h q))\<rparr>"

definition set_data :: "addr \<Rightarrow> u8 list \<Rightarrow> queue_heap \<Rightarrow> queue_heap" where
  "set_data p d h = h\<lparr>qh_data := (qh_data h)(p := d)\<rparr>"

definition QUEUE_LOCK :: "addr \<Rightarrow> queue_heap \<Rightarrow> queue_heap" where
  "QUEUE_LOCK q = set_queue q (\<lambda>c. c\<lparr>tq_locked := True\<rparr>)"

definition QUEUE_UNLOCK :: "addr \<Rightarrow> queue_heap \<Rightarrow> queue_heap" where
  "QUEUE_UNLOCK q = set_queue q (\<lambda>c. c\<lparr>tq_locked := False\<rparr>)"

definition enqueue ::
    "addr \<Rightarrow> addr \<Rightarrow> u8 list option \<Rightarrow> enqueue_policy \<Rightarrow> queue_heap \<Rightarrow> oprt \<times> queue_heap" where
  "enqueue mem handle item policy h =
     (if handle = NULL \<or> item = None \<or> policy = POLICY_MAX then (OPRT_INVALID_PARM, h)
      else if mem = NULL then (OPRT_MALLOC_FAILED, h)
      else
        let queue_item = mem;
            size = tq_item_size (qh_queue h handle);
            h = system_alloc queue_item (unat (QUEUE_ITEM_SIZE + size)) h;
            h = INIT_LIST_HEAD queue_item h;
            h = set_data queue_item (mem_get (the item) 0 (unat size)) h;
            h = QUEUE_LOCK handle h;
            (op_ret, h) =
              (if tq_queue_free (qh_queue h handle) > 0 then
                 let h = (case policy of
                            POLICY_SEND_TO_BACK \<Rightarrow> tuya_list_add_tail queue_item (queue_head handle) h
                          | POLICY_SEND_TO_FRONT \<Rightarrow> tuya_list_add queue_item (queue_head handle) h
                          | POLICY_MAX \<Rightarrow> h)
                 in (OPRT_OK, set_queue handle (\<lambda>c. c\<lparr>tq_queue_free := tq_queue_free c - 1\<rparr>) h)
               else (OPRT_EXCEED_UPPER_LIMIT, system_free queue_item h))
        in (op_ret, QUEUE_UNLOCK handle h))"

text \<open>
  The first argument of \<open>tuya_queue_create\<close> is the result of the allocation, the second that
  of creating the mutex, \<open>out_null\<close> says whether the out parameter is \<open>NULL\<close>. The second
  result is the handle stored, \<open>None\<close> if none is.
\<close>

definition tuya_queue_create ::
    "addr \<Rightarrow> oprt \<Rightarrow> u32 \<Rightarrow> u32 \<Rightarrow> bool \<Rightarrow> queue_heap \<Rightarrow> oprt \<times> addr option \<times> queue_heap" where
  "tuya_queue_create mem mutex_ret queue_len item_size out_null h =
     (if out_null \<or> queue_len = 0 \<or> item_size = 0 then (OPRT_INVALID_PARM, None, h)
      else if mem = NULL then (OPRT_MALLOC_FAILED, None, h)
      else
        let queue = mem; h = system_alloc queue TUYA_QUEUE_SIZE h in
        if mutex_ret \<noteq> OPRT_OK then (OPRT_COM_ERROR, None, system_free queue h)
        else
          let h = set_queue queue (\<lambda>_. \<lparr>tq_locked = False, tq_item_size = item_size,
                    tq_queue_len = queue_len, tq_queue_free = queue_len\<rparr>) h;
              h = INIT_LIST_HEAD (queue_head queue) h
          in (OPRT_OK, Some queue, h))"

definition tuya_queue_input ::
    "addr \<Rightarrow> addr \<Rightarrow> u8 list option \<Rightarrow> queue_heap \<Rightarrow> oprt \<times> queue_heap" where
  "tuya_queue_input mem handle item h = enqueue mem handle item POLICY_SEND_TO_BACK h"

definition tuya_queue_input_instant ::
    "addr \<Rightarrow> addr \<Rightarrow> u8 list option \<Rightarrow> queue_heap \<Rightarrow> oprt \<times> queue_heap" where
  "tuya_queue_input_instant mem handle item h = enqueue mem handle item POLICY_SEND_TO_FRONT h"

definition tuya_queue_output ::
    "addr \<Rightarrow> u8 list option \<Rightarrow> queue_heap \<Rightarrow> oprt \<times> u8 list option \<times> queue_heap" where
  "tuya_queue_output handle item h =
     (if handle = NULL then (OPRT_INVALID_PARM, item, h)
      else
        let h = QUEUE_LOCK handle h; queue = qh_queue h handle;
            (op_ret, item, h) =
              (if tq_queue_free queue < tq_queue_len queue then
                 let queue_item = lh_next h (queue_head handle);
                     item = map_option (\<lambda>buf. memcpy buf 0 (qh_data h queue_item) 0
                              (unat (tq_item_size queue))) item;
                     h = tuya_list_del queue_item h;
                     h = system_free queue_item h
                 in (OPRT_OK, item,
                     set_queue handle (\<lambda>c. c\<lparr>tq_queue_free := tq_queue_free c + 1\<rparr>) h)
               else (OPRT_NOT_FOUND, item, h))
        in (op_ret, item, QUEUE_UNLOCK handle h))"

definition tuya_queue_peek ::
    "addr \<Rightarrow> u8 list option \<Rightarrow> queue_heap \<Rightarrow> oprt \<times> u8 list option \<times> queue_heap" where
  "tuya_queue_peek handle item h =
     (if handle = NULL \<or> item = None then (OPRT_INVALID_PARM, item, h)
      else
        let h = QUEUE_LOCK handle h; queue = qh_queue h handle;
            (op_ret, item) =
              (if tq_queue_free queue < tq_queue_len queue then
                 let queue_item = lh_next h (queue_head handle)
                 in (OPRT_OK, Some (memcpy (the item) 0 (qh_data h queue_item) 0
                                (unat (tq_item_size queue))))
               else (OPRT_NOT_FOUND, item))
        in (op_ret, item, QUEUE_UNLOCK handle h))"

text \<open>
  The callback of a traversal gets a pointer to the data of the item: it returns whether to
  go on, the new context and the data it leaves. \<open>None\<close> is a traversal that does not end.
\<close>

definition tuya_queue_traverse ::
    "addr \<Rightarrow> (u8 list \<Rightarrow> 'c \<Rightarrow> bool \<times> 'c \<times> u8 list) option \<Rightarrow> 'c \<Rightarrow> queue_heap
      \<Rightarrow> (oprt \<times> 'c \<times> queue_heap) option" where
  "tuya_queue_traverse handle cb ctx h =
     (if handle = NULL \<or> cb = None then Some (OPRT_INVALID_PARM, ctx, h)
      else
        let h = QUEUE_LOCK handle h;
            head = queue_head handle;
            body = (\<lambda>p (ctx, h). case the cb (qh_data h p) ctx of
                      (go, ctx', d) \<Rightarrow> (go, ctx', set_data p d h))
        in map_option (\<lambda>(ctx, h). (OPRT_OK, ctx, QUEUE_UNLOCK handle h))
             (tuya_list_for_each h body head (lh_next h head) (ctx, h)))"

definition tuya_queue_clear :: "addr \<Rightarrow> queue_heap \<Rightarrow> (oprt \<times> queue_heap) option" where
  "tuya_queue_clear handle h =
     (if handle = NULL then Some (OPRT_INVALID_PARM, h)
      else
        let h = QUEUE_LOCK handle h;
            head = queue_head handle;
            body = (\<lambda>p h. system_free p (tuya_list_del p h))
        in map_option (\<lambda>h. (OPRT_OK, QUEUE_UNLOCK handle
               (set_queue handle (\<lambda>c. c\<lparr>tq_queue_free := tq_queue_len c\<rparr>) h)))
             (tuya_list_for_each_safe body head (lh_next h head) h))"

definition tuya_queue_get_batch ::
    "addr \<Rightarrow> u32 \<Rightarrow> u8 list option \<Rightarrow> u32 \<Rightarrow> queue_heap
      \<Rightarrow> (oprt \<times> u8 list option \<times> queue_heap) option" where
  "tuya_queue_get_batch handle start items num h =
     (if handle = NULL \<or> items = None \<or> num = 0 then Some (OPRT_INVALID_PARM, items, h)
      else
        let h = QUEUE_LOCK handle h;
            head = queue_head handle;
            size = tq_item_size (qh_queue h handle);
            body = (\<lambda>p (index, count, buf).
                      if index < start then (True, index + 1, count, buf)
                      else if count \<ge> num then (False, index, count, buf)
                      else (True, index, count + 1,
                            memcpy buf (unat (count * size)) (qh_data h p) 0 (unat size)))
        in map_option (\<lambda>(index, count, buf).
               (if index \<noteq> start \<or> count \<noteq> num then OPRT_NOT_FOUND else OPRT_OK,
                Some buf, QUEUE_UNLOCK handle h))
             (tuya_list_for_each h body head (lh_next h head) (0 :: u32, 0 :: u32, the items)))"

fun delete_batch_loop :: "addr \<Rightarrow> nat \<Rightarrow> oprt \<Rightarrow> queue_heap \<Rightarrow> oprt \<times> queue_heap" where
  "delete_batch_loop handle 0 op_ret h = (op_ret, h)"
| "delete_batch_loop handle (Suc count) op_ret h =
     (if op_ret = OPRT_OK
      then let (op_ret, _, h) = tuya_queue_output handle None h
           in delete_batch_loop handle count op_ret h
      else (op_ret, h))"

definition tuya_queue_delete_batch :: "addr \<Rightarrow> u32 \<Rightarrow> queue_heap \<Rightarrow> oprt \<times> queue_heap" where
  "tuya_queue_delete_batch handle num h =
     (if handle = NULL \<or> num = 0 then (OPRT_INVALID_PARM, h)
      else delete_batch_loop handle (unat num) OPRT_OK h)"

definition tuya_queue_get_free_num :: "addr \<Rightarrow> queue_heap \<Rightarrow> u32" where
  "tuya_queue_get_free_num handle h = (if handle = NULL then 0 else tq_queue_free (qh_queue h handle))"

definition tuya_queue_get_used_num :: "addr \<Rightarrow> queue_heap \<Rightarrow> u32 \<times> queue_heap" where
  "tuya_queue_get_used_num handle h =
     (if handle = NULL then (0, h)
      else
        let h = QUEUE_LOCK handle h;
            used_num = tq_queue_len (qh_queue h handle) - tq_queue_free (qh_queue h handle)
        in (used_num, QUEUE_UNLOCK handle h))"

definition tuya_queue_get_max_num :: "addr \<Rightarrow> queue_heap \<Rightarrow> u32" where
  "tuya_queue_get_max_num handle h = (if handle = NULL then 0 else tq_queue_len (qh_queue h handle))"

definition tuya_queue_release :: "oprt \<Rightarrow> addr \<Rightarrow> queue_heap \<Rightarrow> (oprt \<times> queue_heap) option" where
  "tuya_queue_release mutex_ret handle h =
     (if handle = NULL then Some (OPRT_INVALID_PARM, h)
      else map_option (\<lambda>(_, h). (mutex_ret, system_free handle h)) (tuya_queue_clear handle h))"

section \<open>Invariant and abstraction\<close>

lemma list_ops_queue_fields [heap_simps]:
  "qh_data (INIT_LIST_HEAD p h) = qh_data h" "qh_data (tuya_list_add n p h) = qh_data h"
  "qh_data (tuya_list_add_tail n p h) = qh_data h" "qh_data (tuya_list_del n h) = qh_data h"
  "qh_queue (INIT_LIST_HEAD p h) = qh_queue h" "qh_queue (tuya_list_add n p h) = qh_queue h"
  "qh_queue (tuya_list_add_tail n p h) = qh_queue h" "qh_queue (tuya_list_del n h) = qh_queue h"
  "qh_blocks (INIT_LIST_HEAD p h) = qh_blocks h" "qh_blocks (tuya_list_add n p h) = qh_blocks h"
  "qh_blocks (tuya_list_add_tail n p h) = qh_blocks h" "qh_blocks (tuya_list_del n h) = qh_blocks h"
  "qh_fault (INIT_LIST_HEAD p h) = qh_fault h" "qh_fault (tuya_list_add n p h) = qh_fault h"
  "qh_fault (tuya_list_add_tail n p h) = qh_fault h" "qh_fault (tuya_list_del n h) = qh_fault h"
  by (simp_all add: list_ops_def set_next_def set_prev_def)

lemma queue_heap_fields [heap_simps]:
  "qh_data (set_data p d h) = (qh_data h)(p := d)" "qh_queue (set_data p d h) = qh_queue h"
  "qh_blocks (set_data p d h) = qh_blocks h" "qh_fault (set_data p d h) = qh_fault h"
  "qh_data (set_queue q f h) = qh_data h" "qh_queue (set_queue q f h) = (qh_queue h)(q := f (qh_queue h q))"
  "qh_blocks (set_queue q f h) = qh_blocks h" "qh_fault (set_queue q f h) = qh_fault h"
  "qh_data (system_alloc p n h) = qh_data h" "qh_queue (system_alloc p n h) = qh_queue h"
  "qh_blocks (system_alloc p n h) = (p, n) # qh_blocks h" "qh_fault (system_alloc p n h) = qh_fault h"
  "qh_data (system_free p h) = qh_data h" "qh_queue (system_free p h) = qh_queue h"
  by (simp_all add: set_data_def set_queue_def system_alloc_def system_free_def)

lemma queue_heap_links [heap_simps]:
  "lh_next (set_data p d h) = lh_next h" "lh_prev (set_data p d h) = lh_prev h"
  "lh_next (set_queue q f h) = lh_next h" "lh_prev (set_queue q f h) = lh_prev h"
  "lh_next (system_alloc p n h) = lh_next h" "lh_prev (system_alloc p n h) = lh_prev h"
  "lh_next (system_free p h) = lh_next h" "lh_prev (system_free p h) = lh_prev h"
  by (simp_all add: set_data_def set_queue_def system_alloc_def system_free_def)

lemma queue_heap_dll [heap_simps]:
  "dll (set_data p d h) head xs = dll h head xs" "dll (set_queue q f h) head xs = dll h head xs"
  "dll (system_alloc p n h) head xs = dll h head xs" "dll (system_free p h) head xs = dll h head xs"
  by (rule dll_cong; simp add: heap_simps)+

lemma lock_fields [heap_simps]:
  "lh_next (QUEUE_LOCK q h) = lh_next h" "qh_data (QUEUE_LOCK q h) = qh_data h"
  "qh_queue (QUEUE_LOCK q h) = (qh_queue h)(q := (qh_queue h q)\<lparr>tq_locked := True\<rparr>)"
  by (simp_all add: QUEUE_LOCK_def heap_simps)

text \<open>
  The allocated blocks do not overlap. A block is fresh when it overlaps none of them, which
  is what the allocator guarantees for the blocks it returns.
\<close>

definition apart :: "addr \<times> nat \<Rightarrow> addr \<times> nat \<Rightarrow> bool" where
  "apart b c \<longleftrightarrow> fst b + snd b \<le> fst c \<or> fst c + snd c \<le> fst b"

fun disjoint_blocks :: "(addr \<times> nat) list \<Rightarrow> bool" where
  "disjoint_blocks [] \<longleftrightarrow> True"
| "disjoint_blocks (b # bs) \<longleftrightarrow>
     fst b \<noteq> NULL \<and> 0 < snd b \<and> list_all (apart b) bs \<and> disjoint_blocks bs"

definition fresh_block :: "queue_heap \<Rightarrow> addr \<Rightarrow> nat \<Rightarrow> bool" where
  "fresh_block h p n \<longleftrightarrow> p \<noteq> NULL \<and> list_all (apart (p, n)) (qh_blocks h)"

lemma disjoint_blocks_filter: "disjoint_blocks bs \<Longrightarrow> disjoint_blocks (filter P bs)"
  by (induction bs) (auto simp: list_all_iff)

lemma disjoint_blocks_null: "disjoint_blocks bs \<Longrightarrow> (p, n) \<in> set bs \<Longrightarrow> p \<noteq> NULL \<and> 0 < n"
  by (induction bs) auto

text \<open>
  The invariant of the queue at handle \<open>q\<close> whose items are the nodes \<open>xs\<close>: the list is
  well-formed, the free count and the list account for the length of the queue, every
  item is an allocated block of the right size, the lock is free and nothing was freed
  that was not allocated.
\<close>

definition queue_inv :: "queue_heap \<Rightarrow> addr \<Rightarrow> addr list \<Rightarrow> bool" where
  "queue_inv h q xs \<longleftrightarrow>
     dll h (queue_head q) xs \<and> disjoint_blocks (qh_blocks h) \<and>
     (q, TUYA_QUEUE_SIZE) \<in> set (qh_blocks h) \<and> q \<notin> set xs \<and>
     unat (tq_queue_free (qh_queue h q)) + length xs = unat (tq_queue_len (qh_queue h q)) \<and>
     unat (tq_item_size (qh_queue h q)) + 8 < 2 ^ 32 \<and>
     (\<forall>x \<in> set xs. (x, 8 + unat (tq_item_size (qh_queue h q))) \<in> set (qh_blocks h) \<and>
        length (qh_data h x) = unat (tq_item_size (qh_queue h q))) \<and>
     \<not> tq_locked (qh_queue h q) \<and> \<not> qh_fault h"

abbreviation queue_items :: "queue_heap \<Rightarrow> addr list \<Rightarrow> u8 list list" where
  "queue_items h xs \<equiv> map (qh_data h) xs"

lemma queue_inv_nonnull: "queue_inv h q xs \<Longrightarrow> q \<noteq> NULL \<and> NULL \<notin> set xs"
  by (auto simp: queue_inv_def dest: disjoint_blocks_null)

lemma fresh_not_in_queue:
  assumes "queue_inv h q xs" and "fresh_block h p n" and "8 \<le> n"
  shows "p \<notin> set (queue_head q # q # xs)"
  using assms by (fastforce simp: queue_inv_def fresh_block_def list_all_iff apart_def queue_head_def)

lemma fresh_not_allocated:
  assumes "fresh_block h p n" and "0 < n" and "disjoint_blocks (qh_blocks h)"
  shows "p \<notin> fst ` set (qh_blocks h)"
  using assms disjoint_blocks_null [OF assms(3)]
  by (fastforce simp: fresh_block_def list_all_iff apart_def)

section \<open>Refinement of the operations\<close>

text \<open>
  The parameters of a queue that no operation changes.
\<close>

definition queue_shape :: "queue_heap \<Rightarrow> addr \<Rightarrow> nat \<times> nat" where
  "queue_shape h q = (unat (tq_queue_len (qh_queue h q)), unat (tq_item_size (qh_queue h q)))"

lemma unat_item_alloc:
  "queue_inv h q xs \<Longrightarrow>
   unat (QUEUE_ITEM_SIZE + tq_item_size (qh_queue h q)) = 8 + unat (tq_item_size (qh_queue h q))"
  by (subst unat_add_small) (auto simp: queue_inv_def)

lemma enqueue_ok:
  assumes inv: "queue_inv h q xs" and room: "length xs < fst (queue_shape h q)"
    and fresh: "fresh_block h mem (8 + snd (queue_shape h q))"
    and item: "snd (queue_shape h q) \<le> length item" and policy: "policy \<noteq> POLICY_MAX"
  defines "ys \<equiv> (if policy = POLICY_SEND_TO_BACK then xs @ [mem] else mem # xs)"
  obtains h' where "enqueue mem q (Some item) policy h = (OPRT_OK, h')" "queue_inv h' q ys"
    "queue_shape h' q = queue_shape h q"
    "qh_data h' = (qh_data h)(mem := take (snd (queue_shape h q)) item)"
    "qh_blocks h' = (mem, 8 + snd (queue_shape h q)) # qh_blocks h"
proof -
  have nn: "q \<noteq> NULL" "mem \<noteq> NULL"
    using queue_inv_nonnull [OF inv] fresh by (auto simp: fresh_block_def)
  have notin: "mem \<notin> set (queue_head q # q # xs)"
    using fresh_not_in_queue [OF inv fresh] by simp
  have free: "0 < tq_queue_free (qh_queue h q)"
    using inv room by (auto simp: queue_inv_def queue_shape_def word_less_nat_alt)
  then have dec: "unat (tq_queue_free (qh_queue h q) - 1) = unat (tq_queue_free (qh_queue h q)) - 1"
    by (subst unat_sub) (auto simp: word_to_nat)
  let ?size = "tq_item_size (qh_queue h q)"
  let ?g = "set_data mem (take (unat ?size) item) (INIT_LIST_HEAD mem
      (system_alloc mem (8 + unat ?size) h))"
  let ?g1 = "QUEUE_LOCK q ?g"
  let ?g2 = "if policy = POLICY_SEND_TO_BACK then tuya_list_add_tail mem (queue_head q) ?g1
      else tuya_list_add mem (queue_head q) ?g1"
  let ?h' = "QUEUE_UNLOCK q (set_queue q (\<lambda>c. c\<lparr>tq_queue_free := tq_queue_free c - 1\<rparr>) ?g2)"
  have "dll (INIT_LIST_HEAD mem (system_alloc mem (8 + unat ?size) h)) (queue_head q) xs"
  proof (rule dll_frame)
    show "dll (system_alloc mem (8 + unat ?size) h) (queue_head q) xs"
      using inv by (simp add: queue_inv_def heap_simps)
  qed (use notin in \<open>auto intro!: tuya.init_frame\<close>)
  then have "dll ?g1 (queue_head q) xs"
    by (simp add: QUEUE_LOCK_def heap_simps)
  then have d: "dll ?g2 (queue_head q) ys"
    unfolding ys_def using tuya.add_tail_dll [of ?g1 "queue_head q" xs mem]
      tuya.add_dll [of ?g1 "queue_head q" xs mem] notin by auto
  have fields: "qh_queue ?g2 = qh_queue ?g1" "qh_data ?g2 = qh_data ?g1"
      "qh_blocks ?g2 = qh_blocks ?g1" "qh_fault ?g2 = qh_fault ?g1"
    by (simp_all add: heap_simps)
  have eq: "enqueue mem q (Some item) policy h = (OPRT_OK, ?h')"
    using nn free policy unat_item_alloc [OF inv]
    by (cases policy) (simp_all add: enqueue_def Let_def QUEUE_LOCK_def heap_simps mem_get_def)
  have "queue_inv ?h' q ys"
    using inv d notin dec free fresh item
    by (auto simp: queue_inv_def QUEUE_UNLOCK_def QUEUE_LOCK_def heap_simps fields queue_shape_def
        fresh_block_def ys_def word_less_nat_alt)
  moreover have "queue_shape ?h' q = queue_shape h q"
    "qh_data ?h' = (qh_data h)(mem := take (snd (queue_shape h q)) item)"
    "qh_blocks ?h' = (mem, 8 + snd (queue_shape h q)) # qh_blocks h"
    by (simp_all add: queue_shape_def QUEUE_UNLOCK_def QUEUE_LOCK_def heap_simps)
  ultimately show thesis
    using that [OF eq] by blast
qed

lemma enqueue_full:
  assumes inv: "queue_inv h q xs" and full: "length xs = fst (queue_shape h q)"
    and fresh: "fresh_block h mem (8 + snd (queue_shape h q))" and policy: "policy \<noteq> POLICY_MAX"
  obtains h' where "enqueue mem q (Some item) policy h = (OPRT_EXCEED_UPPER_LIMIT, h')"
    "queue_inv h' q xs" "queue_shape h' q = queue_shape h q"
    "queue_items h' xs = queue_items h xs" "qh_blocks h' = qh_blocks h"
proof -
  have nn: "q \<noteq> NULL" "mem \<noteq> NULL"
    using queue_inv_nonnull [OF inv] fresh by (auto simp: fresh_block_def)
  have notin: "mem \<notin> set (queue_head q # q # xs)"
    using fresh_not_in_queue [OF inv fresh] by simp
  have free: "tq_queue_free (qh_queue h q) = 0"
    using inv full by (auto simp: queue_inv_def queue_shape_def word_eq_0_unat)
  let ?size = "tq_item_size (qh_queue h q)"
  let ?g = "QUEUE_LOCK q (set_data mem (mem_get item 0 (unat ?size)) (INIT_LIST_HEAD mem
      (system_alloc mem (8 + unat ?size) h)))"
  let ?h' = "QUEUE_UNLOCK q (system_free mem ?g)"
  have eq: "enqueue mem q (Some item) policy h = (OPRT_EXCEED_UPPER_LIMIT, ?h')"
    using nn free policy unat_item_alloc [OF inv]
    by (simp add: enqueue_def Let_def QUEUE_LOCK_def heap_simps)
  have "filter (\<lambda>b. fst b \<noteq> mem) (qh_blocks h) = qh_blocks h"
    using fresh_not_allocated [OF fresh] inv by (auto simp: filter_id_conv queue_inv_def)
  then have bl: "qh_blocks ?h' = qh_blocks h" "qh_fault ?h' = qh_fault h"
    by (simp_all add: system_free_def QUEUE_UNLOCK_def QUEUE_LOCK_def heap_simps)
  have "dll (INIT_LIST_HEAD mem (system_alloc mem (8 + unat ?size) h)) (queue_head q) xs"
  proof (rule dll_frame)
    show "dll (system_alloc mem (8 + unat ?size) h) (queue_head q) xs"
      using inv by (simp add: queue_inv_def heap_simps)
  qed (use notin in \<open>auto intro!: tuya.init_frame\<close>)
  then have "dll ?h' (queue_head q) xs"
    by (simp add: QUEUE_LOCK_def QUEUE_UNLOCK_def heap_simps)
  then have "queue_inv ?h' q xs"
    using inv notin bl by (auto simp: queue_inv_def QUEUE_UNLOCK_def QUEUE_LOCK_def heap_simps)
  moreover have "queue_shape ?h' q = queue_shape h q" "queue_items ?h' xs = queue_items h xs"
    using notin by (auto simp: queue_shape_def QUEUE_UNLOCK_def QUEUE_LOCK_def heap_simps)
  ultimately show thesis
    using that [OF eq] bl(1) by blast
qed

lemma output_ok:
  assumes inv: "queue_inv h q (x # xs)"
  obtains h' where
    "tuya_queue_output q item h = (OPRT_OK,
       map_option (\<lambda>buf. qh_data h x @ drop (snd (queue_shape h q)) buf) item, h')"
    "queue_inv h' q xs" "queue_shape h' q = queue_shape h q" "qh_data h' = qh_data h"
    "qh_blocks h' = filter (\<lambda>b. fst b \<noteq> x) (qh_blocks h)"
proof -
  have nn: "q \<noteq> NULL"
    using queue_inv_nonnull [OF inv] by simp
  have used: "tq_queue_free (qh_queue h q) < tq_queue_len (qh_queue h q)"
    using inv by (auto simp: queue_inv_def word_less_nat_alt)
  then have inc: "unat (tq_queue_free (qh_queue h q) + 1) = unat (tq_queue_free (qh_queue h q)) + 1"
    using unat_bound [of "tq_queue_len (qh_queue h q)"]
    by (subst unat_add_small) (auto simp: word_less_nat_alt)
  have d: "dll h (queue_head q) (x # xs)" and al: "x \<in> fst ` set (qh_blocks h)"
      "length (qh_data h x) = unat (tq_item_size (qh_queue h q))"
    using inv by (force simp: queue_inv_def)+
  have first: "lh_next h (queue_head q) = x"
    using dll_next_head [OF d] by simp
  let ?g = "system_free x (tuya_list_del x (QUEUE_LOCK q h))"
  let ?h' = "QUEUE_UNLOCK q (set_queue q (\<lambda>c. c\<lparr>tq_queue_free := tq_queue_free c + 1\<rparr>) ?g)"
  have eq: "tuya_queue_output q item h = (OPRT_OK,
      map_option (\<lambda>buf. qh_data h x @ drop (snd (queue_shape h q)) buf) item, ?h')"
    using nn used first al(2)
    by (cases item) (simp_all add: tuya_queue_output_def Let_def QUEUE_LOCK_def heap_simps
        memcpy_def mem_put_def mem_get_def queue_shape_def)
  have bl: "qh_blocks ?h' = filter (\<lambda>b. fst b \<noteq> x) (qh_blocks h)" "qh_fault ?h' = qh_fault h"
    using al(1) by (simp_all add: system_free_def QUEUE_UNLOCK_def QUEUE_LOCK_def heap_simps)
  have "dll ?h' (queue_head q) xs"
    using tuya.del_dll [of "QUEUE_LOCK q h" "queue_head q" "[]" x xs] d
    by (simp add: QUEUE_LOCK_def QUEUE_UNLOCK_def heap_simps)
  then have "queue_inv ?h' q xs"
    using inv bl inc d
    by (auto simp: queue_inv_def QUEUE_UNLOCK_def QUEUE_LOCK_def heap_simps disjoint_blocks_filter
        dll_def)
  moreover have "queue_shape ?h' q = queue_shape h q" "qh_data ?h' = qh_data h"
    by (simp_all add: queue_shape_def QUEUE_UNLOCK_def QUEUE_LOCK_def heap_simps)
  ultimately show thesis
    using that [OF eq] bl(1) by blast
qed

lemma unlock_idem:
  "\<not> tq_locked (qh_queue h q) \<Longrightarrow>
   (qh_queue h)(q := (qh_queue h q)\<lparr>tq_locked := False\<rparr>) = qh_queue h"
  by (cases "qh_queue h q") auto

lemma lock_unlock [simp]:
  "\<not> tq_locked (qh_queue h q) \<Longrightarrow> QUEUE_UNLOCK q (QUEUE_LOCK q h) = h"
  by (simp add: QUEUE_LOCK_def QUEUE_UNLOCK_def set_queue_def unlock_idem)

lemma output_empty:
  assumes "queue_inv h q []"
  shows "tuya_queue_output q item h = (OPRT_NOT_FOUND, item, h)"
proof -
  have "tq_queue_free (qh_queue h q) = tq_queue_len (qh_queue h q)" "\<not> tq_locked (qh_queue h q)"
    using assms by (auto simp: queue_inv_def word_unat_eq_iff)
  then show ?thesis
    using queue_inv_nonnull [OF assms]
    by (auto simp: tuya_queue_output_def Let_def heap_simps)
qed

text \<open>
  The blocks of the heap that belong neither to the queue nor to its items.
\<close>

definition foreign_blocks :: "queue_heap \<Rightarrow> addr \<Rightarrow> addr list \<Rightarrow> (addr \<times> nat) list" where
  "foreign_blocks h q xs = filter (\<lambda>b. fst b \<notin> set (q # xs)) (qh_blocks h)"

lemma delete_batch_loop_ok:
  assumes "queue_inv h q xs"
  obtains h' where
    "delete_batch_loop q n OPRT_OK h = (if n \<le> length xs then OPRT_OK else OPRT_NOT_FOUND, h')"
    "queue_inv h' q (drop n xs)" "queue_shape h' q = queue_shape h q" "qh_data h' = qh_data h"
    "foreign_blocks h' q (drop n xs) = foreign_blocks h q xs"
  using assms
proof (induction n arbitrary: h xs thesis)
  case 0
  then show ?case by simp
next
  case (Suc n)
  show ?case
  proof (cases xs)
    case Nil
    then have "tuya_queue_output q None h = (OPRT_NOT_FOUND, None, h)"
      using Suc.prems(2) by (simp add: output_empty)
    then have "delete_batch_loop q (Suc n) OPRT_OK h = (OPRT_NOT_FOUND, h)"
      by (cases n) simp_all
    then show ?thesis
      using Suc.prems Nil by simp
  next
    case (Cons x ys)
    obtain h1 where h1: "tuya_queue_output q None h = (OPRT_OK, None, h1)" "queue_inv h1 q ys"
        "queue_shape h1 q = queue_shape h q" "qh_data h1 = qh_data h"
        "qh_blocks h1 = filter (\<lambda>b. fst b \<noteq> x) (qh_blocks h)"
      using output_ok [of h q x ys None] Suc.prems(2) Cons by auto
    obtain h2 where h2:
        "delete_batch_loop q n OPRT_OK h1 = (if n \<le> length ys then OPRT_OK else OPRT_NOT_FOUND, h2)"
        "queue_inv h2 q (drop n ys)" "queue_shape h2 q = queue_shape h1 q" "qh_data h2 = qh_data h1"
        "foreign_blocks h2 q (drop n ys) = foreign_blocks h1 q ys"
      using Suc.IH [of h1 ys] h1(2) by blast
    have "foreign_blocks h1 q ys = foreign_blocks h q xs"
      unfolding foreign_blocks_def h1(5) Cons filter_filter by (rule filter_cong) auto
    with h1 h2 show ?thesis
      using Suc.prems(1) [of h2] Cons by simp
  qed
qed

lemma clear_fold:
  assumes "distinct xs" and "set xs \<subseteq> fst ` set (qh_blocks h)"
  defines "h' \<equiv> fold (\<lambda>p h. system_free p (tuya_list_del p h)) xs h"
  shows "qh_data h' = qh_data h \<and> qh_queue h' = qh_queue h \<and> qh_fault h' = qh_fault h \<and>
    qh_blocks h' = filter (\<lambda>b. fst b \<notin> set xs) (qh_blocks h)"
  unfolding h'_def using assms(1,2)
proof (induction xs arbitrary: h)
  case (Cons x xs)
  let ?h = "system_free x (tuya_list_del x h)"
  have h1: "qh_data ?h = qh_data h" "qh_queue ?h = qh_queue h" "qh_fault ?h = qh_fault h"
      "qh_blocks ?h = filter (\<lambda>b. fst b \<noteq> x) (qh_blocks h)"
    using Cons.prems(2) by (auto simp: system_free_def heap_simps)
  moreover have "set xs \<subseteq> fst ` set (qh_blocks ?h)"
    using Cons.prems unfolding h1(4) by fastforce
  ultimately show ?case
    using Cons.IH [of ?h] Cons.prems(1) by (auto intro: filter_cong)
qed simp

lemma clear_ok:
  assumes inv: "queue_inv h q xs"
  obtains h' where "tuya_queue_clear q h = Some (OPRT_OK, h')" "queue_inv h' q []"
    "queue_shape h' q = queue_shape h q"
    "qh_blocks h' = filter (\<lambda>b. fst b \<notin> set xs) (qh_blocks h)"
proof -
  let ?body = "\<lambda>p h. system_free p (tuya_list_del p h)"
  let ?g = "QUEUE_LOCK q h"
  let ?f = "fold ?body xs ?g"
  let ?h' = "QUEUE_UNLOCK q (set_queue q (\<lambda>c. c\<lparr>tq_queue_free := tq_queue_len c\<rparr>) ?f)"
  have d: "dll ?g (queue_head q) xs"
    using inv by (simp add: queue_inv_def QUEUE_LOCK_def heap_simps)
  then have dist: "distinct xs"
    by (simp add: dll_def)
  have body: "dll (?body p k) (queue_head q) rest" if "dll k (queue_head q) (p # rest)" for p rest k
    using tuya.del_dll [of k "queue_head q" "[]" p rest] that by (simp add: heap_simps)
  note loop = for_each_safe_dll [OF body d]
  have "set xs \<subseteq> fst ` set (qh_blocks ?g)"
    using inv by (force simp: queue_inv_def QUEUE_LOCK_def heap_simps)
  note fold = clear_fold [OF dist this]
  have eq: "tuya_queue_clear q h = Some (OPRT_OK, ?h')"
    using queue_inv_nonnull [OF inv] loop(1) by (simp add: tuya_queue_clear_def Let_def)
  have bl: "qh_blocks ?h' = filter (\<lambda>b. fst b \<notin> set xs) (qh_blocks h)"
    using fold by (simp add: QUEUE_UNLOCK_def QUEUE_LOCK_def heap_simps)
  have "queue_inv ?h' q []"
    using inv fold loop(2) bl
    by (auto simp: queue_inv_def QUEUE_UNLOCK_def QUEUE_LOCK_def heap_simps disjoint_blocks_filter)
  moreover have "queue_shape ?h' q = queue_shape h q"
    using fold by (simp add: queue_shape_def QUEUE_UNLOCK_def QUEUE_LOCK_def heap_simps)
  ultimately show thesis
    using that [OF eq] bl by blast
qed

lemma create_ok:
  assumes "disjoint_blocks (qh_blocks h)" "\<not> qh_fault h" "fresh_block h mem TUYA_QUEUE_SIZE"
    and "0 < len" "0 < isize" "unat isize + 8 < 2 ^ 32"
  obtains h' where "tuya_queue_create mem OPRT_OK len isize False h = (OPRT_OK, Some mem, h')"
    "queue_inv h' mem []" "queue_shape h' mem = (unat len, unat isize)"
    "qh_blocks h' = (mem, TUYA_QUEUE_SIZE) # qh_blocks h"
proof -
  let ?h' = "INIT_LIST_HEAD (queue_head mem) (set_queue mem (\<lambda>_. \<lparr>tq_locked = False,
     tq_item_size = isize, tq_queue_len = len, tq_queue_free = len\<rparr>) (system_alloc mem TUYA_QUEUE_SIZE h))"
  have "tuya_queue_create mem OPRT_OK len isize False h = (OPRT_OK, Some mem, ?h')"
    using assms by (auto simp: tuya_queue_create_def fresh_block_def Let_def)
  moreover have "queue_inv ?h' mem []"
    using assms tuya.init_dll by (auto simp: queue_inv_def heap_simps fresh_block_def)
  ultimately show thesis
    by (intro that [of ?h']) (simp_all add: queue_shape_def heap_simps)
qed

text \<open>
  Looking at items without removing them. A batch of \<open>num\<close> items from position \<open>start\<close> on is
  copied one behind the other.
\<close>

lemma peek_ok:
  assumes inv: "queue_inv h q (x # xs)"
  shows "tuya_queue_peek q (Some buf) h =
    (OPRT_OK, Some (qh_data h x @ drop (snd (queue_shape h q)) buf), h)"
proof -
  have "tq_queue_free (qh_queue h q) < tq_queue_len (qh_queue h q)" "\<not> tq_locked (qh_queue h q)"
      "lh_next h (queue_head q) = x" "length (qh_data h x) = unat (tq_item_size (qh_queue h q))"
    using inv dll_next_head [of h "queue_head q" "x # xs"]
    by (auto simp: queue_inv_def word_less_nat_alt)
  then show ?thesis
    using queue_inv_nonnull [OF inv]
    by (auto simp: tuya_queue_peek_def Let_def heap_simps queue_shape_def memcpy_def
        mem_put_def mem_get_def)
qed

definition batch_body :: "u32 \<Rightarrow> u32 \<Rightarrow> u32 \<Rightarrow> (addr \<Rightarrow> u8 list) \<Rightarrow> addr \<Rightarrow> u32 \<times> u32 \<times> u8 list
    \<Rightarrow> bool \<times> u32 \<times> u32 \<times> u8 list" where
  "batch_body start num sz dat = (\<lambda>p (index, count, buf).
     if index < start then (True, index + 1, count, buf)
     else if count \<ge> num then (False, index, count, buf)
     else (True, index, count + 1, memcpy buf (unat (count * sz)) (dat p) 0 (unat sz)))"

lemma batch_skip:
  assumes "unat index + n = unat start"
  shows "iter_until (batch_body start num sz dat) ys (index, count, buf) =
    (if n \<le> length ys then iter_until (batch_body start num sz dat) (drop n ys) (start, count, buf)
     else (index + of_nat (length ys), count, buf))"
  using assms
proof (induction ys arbitrary: index n)
  case Nil
  then show ?case
    by (auto simp: word_unat_eq_iff)
next
  case (Cons y ys)
  show ?case
  proof (cases n)
    case 0
    then have "index = start"
      using Cons.prems by (simp add: word_unat_eq_iff)
    with 0 show ?thesis by simp
  next
    case (Suc m)
    then have "index < start" "unat (index + 1) + m = unat start"
      using Cons.prems unat_bound [of start]
      by (simp_all add: word_less_nat_alt unat_add_small)
    with Cons.IH [of "index + 1" m] Suc show ?thesis
      by (simp add: batch_body_def ac_simps)
  qed
qed

lemma batch_copy:
  assumes "unat count + n = unat num" and "unat num * unat sz < 2 ^ 32"
    and "\<And>y. y \<in> set ys \<Longrightarrow> length (dat y) = unat sz"
    and "length pre = unat count * unat sz" and "n * unat sz \<le> length rest"
  shows "iter_until (batch_body start num sz dat) ys (start, count, pre @ rest) =
    (start, of_nat (unat count + min n (length ys)),
     pre @ concat (map dat (take n ys)) @ drop (min n (length ys) * unat sz) rest)"
  using assms
proof (induction ys arbitrary: count n pre rest)
  case Nil
  then show ?case by simp
next
  case (Cons y ys)
  show ?case
  proof (cases n)
    case 0
    then show ?thesis
      using Cons.prems by (simp add: batch_body_def word_le_nat_alt word_unat_eq_iff)
  next
    case (Suc m)
    have count: "\<not> num \<le> count" "unat (count + 1) = unat count + 1"
      using Cons.prems(1) Suc unat_bound [of num]
      by (simp_all add: word_le_nat_alt unat_add_small)
    have "unat count * unat sz \<le> unat num * unat sz"
      using Cons.prems(1) by (intro mult_le_mono1) simp
    then have "unat count * unat sz < 2 ^ 32"
      using Cons.prems(2) by linarith
    then have off: "unat (count * sz) = length pre"
      using Cons.prems(4) by (simp add: unat_word_ariths)
    have len: "length (dat y) = unat sz" "unat sz \<le> length rest"
      using Cons.prems(3,5) Suc by (auto intro: le_trans)
    let ?pre = "pre @ dat y" and ?rest = "drop (unat sz) rest"
    have cp: "memcpy (pre @ rest) (length pre) (dat y) 0 (unat sz) = ?pre @ ?rest"
      using len by (simp add: memcpy_def mem_put_def mem_get_def)
    have ih: "iter_until (batch_body start num sz dat) ys (start, count + 1, ?pre @ ?rest) =
        (start, of_nat (unat (count + 1) + min m (length ys)),
         ?pre @ concat (map dat (take m ys)) @ drop (min m (length ys) * unat sz) ?rest)"
      by (rule Cons.IH) (use Cons.prems Suc count len in \<open>auto simp: algebra_simps\<close>)
    have "iter_until (batch_body start num sz dat) (y # ys) (start, count, pre @ rest) =
        iter_until (batch_body start num sz dat) ys (start, count + 1, ?pre @ ?rest)"
      using count off cp by (simp add: batch_body_def)
    then show ?thesis
      unfolding ih Suc using count by (simp add: algebra_simps drop_drop)
  qed
qed

lemma get_batch_ok:
  assumes inv: "queue_inv h q xs" and num: "0 < num"
    and buf: "unat num * snd (queue_shape h q) \<le> length buf"
    and small: "unat num * snd (queue_shape h q) < 2 ^ 32"
    and range: "unat start + unat num \<le> length xs"
  shows "tuya_queue_get_batch q start (Some buf) num h = Some (OPRT_OK,
    Some (concat (take (unat num) (drop (unat start) (queue_items h xs))) @
          drop (unat num * snd (queue_shape h q)) buf), h)"
proof -
  let ?sz = "tq_item_size (qh_queue h q)"
  let ?b = "batch_body start num ?sz (qh_data h)"
  have d: "dll (QUEUE_LOCK q h) (queue_head q) xs"
    using inv by (simp add: queue_inv_def QUEUE_LOCK_def heap_simps)
  have nl: "q \<noteq> NULL" "NULL \<notin> set xs" "\<not> tq_locked (qh_queue h q)"
      "\<And>x. x \<in> set xs \<Longrightarrow> length (qh_data h x) = unat ?sz"
    using queue_inv_nonnull [OF inv] inv by (auto simp: queue_inv_def)
  have ys: "\<And>y. y \<in> set (drop (unat start) xs) \<Longrightarrow> length (qh_data h y) = unat ?sz"
    using nl(4) in_set_dropD by metis
  have "iter_until ?b xs (0, 0, buf) = iter_until ?b (drop (unat start) xs) (start, 0, buf)"
    using batch_skip [of 0 "unat start" start num ?sz "qh_data h" xs 0 buf] range by simp
  also have "\<dots> = (start, num, concat (map (qh_data h) (take (unat num) (drop (unat start) xs))) @
      drop (unat num * unat ?sz) buf)"
    using batch_copy [of 0 "unat num" num ?sz "drop (unat start) xs" "qh_data h" "[]" buf start] ys
      small buf range by (simp add: queue_shape_def min_absorb1)
  finally have iter: "iter_until ?b xs (0, 0, buf) = \<dots>" .
  show ?thesis
    using for_each_dll [OF d nl(2), of ?b "(0, 0, buf)"] iter nl num
    by (auto simp: tuya_queue_get_batch_def Let_def heap_simps batch_body_def
        queue_shape_def take_map drop_map cong: if_cong)
qed

text \<open>
  What a traversal does to the items: the callback sees them in order until it returns
  false.
\<close>

fun visit_items :: "('d \<Rightarrow> 'c \<Rightarrow> bool \<times> 'c \<times> 'd) \<Rightarrow> 'd list \<Rightarrow> 'c \<Rightarrow> 'c \<times> 'd list" where
  "visit_items cb [] ctx = (ctx, [])"
| "visit_items cb (d # ds) ctx =
     (case cb d ctx of (go, ctx', d') \<Rightarrow>
        if go then (case visit_items cb ds ctx' of (ctx'', ds') \<Rightarrow> (ctx'', d' # ds'))
        else (ctx', d' # ds))"

lemma visit_iter:
  assumes "distinct xs"
  shows "\<exists>dat. iter_until (\<lambda>p (ctx, h). case cb (qh_data h p) ctx of
        (go, ctx', d) \<Rightarrow> (go, ctx', set_data p d h)) xs (ctx, h) =
      (fst (visit_items cb (queue_items h xs) ctx), h\<lparr>qh_data := dat\<rparr>) \<and>
    map dat xs = snd (visit_items cb (queue_items h xs) ctx) \<and>
    (\<forall>p. p \<notin> set xs \<longrightarrow> dat p = qh_data h p)"
  using assms
proof (induction xs arbitrary: ctx h)
  case Nil
  then show ?case
    by (intro exI [of _ "qh_data h"]) simp
next
  case (Cons x xs)
  obtain go ctx' d where cb: "cb (qh_data h x) ctx = (go, ctx', d)"
    by (metis prod_cases3)
  let ?h = "set_data x d h"
  have items: "queue_items ?h xs = queue_items h xs"
    using Cons.prems by (auto simp: heap_simps)
  show ?case
  proof (cases go)
    case True
    obtain dat where dat: "iter_until (\<lambda>p (ctx, h). case cb (qh_data h p) ctx of
          (go, ctx', d) \<Rightarrow> (go, ctx', set_data p d h)) xs (ctx', ?h) =
        (fst (visit_items cb (queue_items h xs) ctx'), ?h\<lparr>qh_data := dat\<rparr>)"
        "map dat xs = snd (visit_items cb (queue_items h xs) ctx')"
        "\<forall>p. p \<notin> set xs \<longrightarrow> dat p = qh_data ?h p"
      using Cons.IH [of ctx' ?h] Cons.prems unfolding items by auto
    have "dat x = d"
      using dat(3) Cons.prems by (simp add: heap_simps)
    with dat True cb show ?thesis
      by (intro exI [of _ dat]) (auto simp: set_data_def split: prod.splits)
  next
    case False
    then show ?thesis
      using cb items by (intro exI [of _ "(qh_data h)(x := d)"]) (auto simp: set_data_def heap_simps fun_upd_def)
  qed
qed

lemma traverse_ok:
  assumes inv: "queue_inv h q xs"
    and keep: "\<And>d ctx go ctx' d'. cb d ctx = (go, ctx', d') \<Longrightarrow> length d' = length d"
  obtains h' where "tuya_queue_traverse q (Some cb) ctx h =
      Some (OPRT_OK, fst (visit_items cb (queue_items h xs) ctx), h')"
    "queue_inv h' q xs" "queue_items h' xs = snd (visit_items cb (queue_items h xs) ctx)"
proof -
  let ?body = "\<lambda>p (ctx, h). case cb (qh_data h p) ctx of (go, ctx', d) \<Rightarrow> (go, ctx', set_data p d h)"
  let ?g = "QUEUE_LOCK q h"
  have d: "dll ?g (queue_head q) xs" "NULL \<notin> set xs" "q \<noteq> NULL"
    using inv queue_inv_nonnull [OF inv] by (auto simp: queue_inv_def QUEUE_LOCK_def heap_simps)
  obtain dat where dat: "iter_until ?body xs (ctx, ?g) =
      (fst (visit_items cb (queue_items h xs) ctx), ?g\<lparr>qh_data := dat\<rparr>)"
      "map dat xs = snd (visit_items cb (queue_items h xs) ctx)"
    using visit_iter [where xs = xs and cb = cb and h = ?g and ctx = ctx] d(1) by (auto simp: dll_def heap_simps)
  have keep': "length (snd (snd (cb d c))) = length d" for d c
    by (metis keep prod.collapse)
  have vlen: "length (snd (visit_items cb ds c)) = length ds \<and>
      (\<forall>d \<in> set (snd (visit_items cb ds c)). length d \<in> length ` set ds)" for ds c
    by (induction ds arbitrary: c) (auto simp: case_prod_beta keep')
  have len: "length (dat x) = unat (tq_item_size (qh_queue h q))" if "x \<in> set xs" for x
  proof -
    have "dat x \<in> set (snd (visit_items cb (queue_items h xs) ctx))"
      using that by (simp flip: dat(2))
    with vlen have "length (dat x) \<in> length ` set (queue_items h xs)" by blast
    then show ?thesis using inv by (auto simp: queue_inv_def)
  qed
  have ug: "QUEUE_UNLOCK q (?g\<lparr>qh_data := dat\<rparr>) = h\<lparr>qh_data := dat\<rparr>"
    using unlock_idem [of h q] inv
    by (simp add: queue_inv_def QUEUE_LOCK_def QUEUE_UNLOCK_def set_queue_def)
  have eq: "tuya_queue_traverse q (Some cb) ctx h =
      Some (OPRT_OK, fst (visit_items cb (queue_items h xs) ctx), h\<lparr>qh_data := dat\<rparr>)"
    using for_each_dll [OF d(1,2), of ?body "(ctx, ?g)"] d(3) ug dat(1)
    by (simp add: tuya_queue_traverse_def Let_def)
  have "dll (h\<lparr>qh_data := dat\<rparr>) (queue_head q) xs = dll h (queue_head q) xs"
    by (rule dll_cong) simp_all
  then have "queue_inv (h\<lparr>qh_data := dat\<rparr>) q xs"
    using inv len by (simp add: queue_inv_def)
  with that [OF eq] dat(2) show thesis by simp
qed

section \<open>Runs of queue operations\<close>

text \<open>
  The specification: a bounded list of items. \<open>cap\<close> is the capacity, \<open>sz\<close> the size of an
  item; an operation returns its status and the item it delivers.
\<close>

datatype queue_op =
    Input addr "u8 list" | Instant addr "u8 list" | Output | Delete u32 | Clear

fun spec_step :: "nat \<times> nat \<Rightarrow> queue_op \<Rightarrow> u8 list list \<Rightarrow> (oprt \<times> u8 list option) \<times> u8 list list" where
  "spec_step (cap, sz) (Input mem d) items =
     (if mem = NULL then ((OPRT_MALLOC_FAILED, None), items)
      else if length items < cap then ((OPRT_OK, None), items @ [take sz d])
      else ((OPRT_EXCEED_UPPER_LIMIT, None), items))"
| "spec_step (cap, sz) (Instant mem d) items =
     (if mem = NULL then ((OPRT_MALLOC_FAILED, None), items)
      else if length items < cap then ((OPRT_OK, None), take sz d # items)
      else ((OPRT_EXCEED_UPPER_LIMIT, None), items))"
| "spec_step (cap, sz) Output items =
     (case items of [] \<Rightarrow> ((OPRT_NOT_FOUND, Some []), []) | d # ds \<Rightarrow> ((OPRT_OK, Some d), ds))"
| "spec_step (cap, sz) (Delete n) items =
     ((if n = 0 then OPRT_INVALID_PARM else if unat n \<le> length items then OPRT_OK
       else OPRT_NOT_FOUND, None), drop (unat n) items)"
| "spec_step (cap, sz) Clear items = ((OPRT_OK, None), [])"

fun spec_run :: "nat \<times> nat \<Rightarrow> queue_op list \<Rightarrow> u8 list list
    \<Rightarrow> (oprt \<times> u8 list option) list \<times> u8 list list" where
  "spec_run sh [] items = ([], items)"
| "spec_run sh (op # ops) items =
     (let (r, items1) = spec_step sh op items; (rs, items2) = spec_run sh ops items1
      in (r # rs, items2))"

text \<open>
  The same operations on the implementation. An output delivers into a buffer without bytes
  of its own, so that the delivered item is exactly what is copied.
\<close>

fun queue_step :: "addr \<Rightarrow> queue_op \<Rightarrow> queue_heap
    \<Rightarrow> ((oprt \<times> u8 list option) \<times> queue_heap) option" where
  "queue_step q (Input mem d) h =
     (let (r, h') = tuya_queue_input mem q (Some d) h in Some ((r, None), h'))"
| "queue_step q (Instant mem d) h =
     (let (r, h') = tuya_queue_input_instant mem q (Some d) h in Some ((r, None), h'))"
| "queue_step q Output h =
     (let (r, d, h') = tuya_queue_output q (Some []) h in Some ((r, d), h'))"
| "queue_step q (Delete n) h =
     (let (r, h') = tuya_queue_delete_batch q n h in Some ((r, None), h'))"
| "queue_step q Clear h = map_option (\<lambda>(r, h'). ((r, None), h')) (tuya_queue_clear q h)"

fun queue_run :: "addr \<Rightarrow> queue_op list \<Rightarrow> queue_heap
    \<Rightarrow> ((oprt \<times> u8 list option) list \<times> queue_heap) option" where
  "queue_run q [] h = Some ([], h)"
| "queue_run q (op # ops) h =
     (case queue_step q op h of None \<Rightarrow> None
      | Some (r, h1) \<Rightarrow> map_option (\<lambda>(rs, h2). (r # rs, h2)) (queue_run q ops h1))"

text \<open>
  What a run asks of its environment: an allocation fails or returns a fresh block, and the
  caller hands over items of the size it declared.
\<close>

fun op_ok :: "addr \<Rightarrow> queue_op \<Rightarrow> queue_heap \<Rightarrow> bool" where
  "op_ok q (Input mem d) h \<longleftrightarrow>
     snd (queue_shape h q) \<le> length d \<and> (mem = NULL \<or> fresh_block h mem (8 + snd (queue_shape h q)))"
| "op_ok q (Instant mem d) h \<longleftrightarrow>
     snd (queue_shape h q) \<le> length d \<and> (mem = NULL \<or> fresh_block h mem (8 + snd (queue_shape h q)))"
| "op_ok q _ h \<longleftrightarrow> True"

fun ops_ok :: "addr \<Rightarrow> queue_op list \<Rightarrow> queue_heap \<Rightarrow> bool" where
  "ops_ok q [] h \<longleftrightarrow> True"
| "ops_ok q (op # ops) h \<longleftrightarrow> op_ok q op h \<and>
     (case queue_step q op h of None \<Rightarrow> True | Some (_, h1) \<Rightarrow> ops_ok q ops h1)"

lemma enqueue_step:
  assumes inv: "queue_inv h q xs" and policy: "policy \<noteq> POLICY_MAX"
    and d: "snd (queue_shape h q) \<le> length d"
    and mem: "mem = NULL \<or> fresh_block h mem (8 + snd (queue_shape h q))"
  defines "its \<equiv> queue_items h xs" and "d' \<equiv> take (snd (queue_shape h q)) d"
  shows "\<exists>r h' ys. enqueue mem q (Some d) policy h = (r, h') \<and> queue_inv h' q ys \<and>
    queue_shape h' q = queue_shape h q \<and> foreign_blocks h' q ys = foreign_blocks h q xs \<and>
    (r, queue_items h' ys) =
      (if mem = NULL then (OPRT_MALLOC_FAILED, its)
       else if length its < fst (queue_shape h q)
       then (OPRT_OK, if policy = POLICY_SEND_TO_BACK then its @ [d'] else d' # its)
       else (OPRT_EXCEED_UPPER_LIMIT, its))"
proof -
  consider (null) "mem = NULL" | (room) "mem \<noteq> NULL" "length xs < fst (queue_shape h q)"
    | (full) "mem \<noteq> NULL" "length xs = fst (queue_shape h q)"
    using inv by (fastforce simp: queue_inv_def queue_shape_def)
  then show ?thesis
  proof cases
    case null
    then have "enqueue mem q (Some d) policy h = (OPRT_MALLOC_FAILED, h)"
      using queue_inv_nonnull [OF inv] policy by (simp add: enqueue_def)
    with null inv show ?thesis by (auto simp: its_def)
  next
    case room
    with mem have fresh: "fresh_block h mem (8 + snd (queue_shape h q))" by simp
    have notin: "mem \<notin> set (queue_head q # q # xs)"
      using fresh_not_in_queue [OF inv fresh] by simp
    let ?ys = "if policy = POLICY_SEND_TO_BACK then xs @ [mem] else mem # xs"
    obtain h' where h': "enqueue mem q (Some d) policy h = (OPRT_OK, h')" "queue_inv h' q ?ys"
      "queue_shape h' q = queue_shape h q" "qh_data h' = (qh_data h)(mem := d')"
      "qh_blocks h' = (mem, 8 + snd (queue_shape h q)) # qh_blocks h"
      unfolding d'_def using enqueue_ok [OF inv room(2) fresh d policy] by metis
    have "mem \<notin> fst ` set (qh_blocks h)"
      using fresh_not_allocated [OF fresh] inv by (auto simp: queue_inv_def)
    then have "foreign_blocks h' q ?ys = foreign_blocks h q xs"
      by (auto simp: foreign_blocks_def h'(5) intro!: filter_cong)
    moreover have "queue_items h' ?ys =
        (if policy = POLICY_SEND_TO_BACK then its @ [d'] else d' # its)"
      using notin by (auto simp: its_def h'(4))
    ultimately show ?thesis
      using h' room by (intro exI [of _ OPRT_OK] exI [of _ h'] exI [of _ ?ys]) (simp add: its_def)
  next
    case full
    with mem have fresh: "fresh_block h mem (8 + snd (queue_shape h q))" by simp
    obtain h' where "enqueue mem q (Some d) policy h = (OPRT_EXCEED_UPPER_LIMIT, h')"
      "queue_inv h' q xs" "queue_shape h' q = queue_shape h q"
      "queue_items h' xs = queue_items h xs" "qh_blocks h' = qh_blocks h"
      by (rule enqueue_full [OF inv full(2) fresh policy])
    with full show ?thesis
      by (intro exI [of _ OPRT_EXCEED_UPPER_LIMIT] exI [of _ h'] exI [of _ xs])
        (simp add: its_def foreign_blocks_def)
  qed
qed

lemma queue_step_refines:
  assumes inv: "queue_inv h q xs" and ok: "op_ok q op h"
  shows "\<exists>r h' ys. queue_step q op h = Some (r, h') \<and> queue_inv h' q ys \<and>
    queue_shape h' q = queue_shape h q \<and> foreign_blocks h' q ys = foreign_blocks h q xs \<and>
    spec_step (queue_shape h q) op (queue_items h xs) = (r, queue_items h' ys)"
proof (cases op)
  case (Input mem d)
  with enqueue_step [OF inv, of POLICY_SEND_TO_BACK d mem] ok
  obtain r h' ys where e: "enqueue mem q (Some d) POLICY_SEND_TO_BACK h = (r, h')" "queue_inv h' q ys"
      "queue_shape h' q = queue_shape h q" "foreign_blocks h' q ys = foreign_blocks h q xs"
      "spec_step (queue_shape h q) op (queue_items h xs) = ((r, None), queue_items h' ys)"
    by (cases "queue_shape h q") (auto split: if_splits)
  then show ?thesis
    by (intro exI [of _ "(r, None)"] exI [of _ h'] exI [of _ ys]) (simp add: Input tuya_queue_input_def)
next
  case (Instant mem d)
  with enqueue_step [OF inv, of POLICY_SEND_TO_FRONT d mem] ok
  obtain r h' ys where e: "enqueue mem q (Some d) POLICY_SEND_TO_FRONT h = (r, h')" "queue_inv h' q ys"
      "queue_shape h' q = queue_shape h q" "foreign_blocks h' q ys = foreign_blocks h q xs"
      "spec_step (queue_shape h q) op (queue_items h xs) = ((r, None), queue_items h' ys)"
    by (cases "queue_shape h q") (auto split: if_splits)
  then show ?thesis
    by (intro exI [of _ "(r, None)"] exI [of _ h'] exI [of _ ys]) (simp add: Instant tuya_queue_input_instant_def)
next
  case Output
  show ?thesis
  proof (cases xs)
    case Nil
    then show ?thesis
      using inv Output output_empty [of h q] by (cases "queue_shape h q") auto
  next
    case (Cons x ys)
    obtain h' where h': "tuya_queue_output q (Some []) h = (OPRT_OK, Some (qh_data h x), h')"
      "queue_inv h' q ys" "queue_shape h' q = queue_shape h q" "qh_data h' = qh_data h"
      "qh_blocks h' = filter (\<lambda>b. fst b \<noteq> x) (qh_blocks h)"
      using output_ok [of h q x ys "Some []"] inv Cons by auto
    have "foreign_blocks h' q ys = foreign_blocks h q xs"
      unfolding foreign_blocks_def h'(5) Cons filter_filter by (rule filter_cong) auto
    with h' Cons Output show ?thesis
      by (cases "queue_shape h q") auto
  qed
next
  case (Delete n)
  obtain h' where h': "delete_batch_loop q (unat n) OPRT_OK h =
      (if unat n \<le> length xs then OPRT_OK else OPRT_NOT_FOUND, h')"
    "queue_inv h' q (drop (unat n) xs)" "queue_shape h' q = queue_shape h q" "qh_data h' = qh_data h"
    "foreign_blocks h' q (drop (unat n) xs) = foreign_blocks h q xs"
    by (rule delete_batch_loop_ok [OF inv])
  then show ?thesis
    using queue_inv_nonnull [OF inv] Delete inv
    by (cases "queue_shape h q") (auto simp: tuya_queue_delete_batch_def drop_map)
next
  case Clear
  obtain h' where "tuya_queue_clear q h = Some (OPRT_OK, h')" "queue_inv h' q []"
    "queue_shape h' q = queue_shape h q"
    "qh_blocks h' = filter (\<lambda>b. fst b \<notin> set xs) (qh_blocks h)"
    by (rule clear_ok [OF inv])
  moreover from this(4) have "foreign_blocks h' q [] = foreign_blocks h q xs"
    by (auto simp: foreign_blocks_def intro!: filter_cong)
  ultimately show ?thesis
    using Clear by (cases "queue_shape h q") (auto intro!: exI [of _ "[]"])
qed

lemma queue_run_refines:
  "queue_inv h q xs \<Longrightarrow> ops_ok q ops h \<Longrightarrow>
   \<exists>rs h' ys. queue_run q ops h = Some (rs, h') \<and> queue_inv h' q ys \<and>
     queue_shape h' q = queue_shape h q \<and> foreign_blocks h' q ys = foreign_blocks h q xs \<and>
     spec_run (queue_shape h q) ops (queue_items h xs) = (rs, queue_items h' ys)"
proof (induction ops arbitrary: h xs)
  case Nil
  then show ?case by auto
next
  case (Cons op ops)
  obtain r h1 ys where s1: "queue_step q op h = Some (r, h1)" "queue_inv h1 q ys"
      "queue_shape h1 q = queue_shape h q" "foreign_blocks h1 q ys = foreign_blocks h q xs"
      "spec_step (queue_shape h q) op (queue_items h xs) = (r, queue_items h1 ys)"
    using queue_step_refines [OF Cons.prems(1), of op] Cons.prems(2) by auto
  obtain rs h2 zs where s2: "queue_run q ops h1 = Some (rs, h2)" "queue_inv h2 q zs"
      "queue_shape h2 q = queue_shape h1 q" "foreign_blocks h2 q zs = foreign_blocks h1 q ys"
      "spec_run (queue_shape h1 q) ops (queue_items h1 ys) = (rs, queue_items h2 zs)"
    using Cons.IH [OF s1(2)] Cons.prems(2) s1(1) by auto
  show ?case
    by (intro exI [of _ "r # rs"] exI [of _ h2] exI [of _ zs]) (use s1 s2 in simp)
qed

lemma release_ok:
  assumes inv: "queue_inv h q xs"
  obtains h' where "tuya_queue_release r q h = Some (r, h')"
    "qh_blocks h' = foreign_blocks h q xs" "\<not> qh_fault h'"
proof -
  obtain h1 where h1: "tuya_queue_clear q h = Some (OPRT_OK, h1)" "queue_inv h1 q []"
    "qh_blocks h1 = filter (\<lambda>b. fst b \<notin> set xs) (qh_blocks h)"
    by (rule clear_ok [OF inv])
  have al: "q \<in> fst ` set (qh_blocks h1)" "\<not> qh_fault h1"
    using h1(2) by (force simp: queue_inv_def)+
  let ?h' = "system_free q h1"
  have "tuya_queue_release r q h = Some (r, ?h')"
    using h1(1) queue_inv_nonnull [OF inv] by (simp add: tuya_queue_release_def)
  moreover have "qh_blocks ?h' = foreign_blocks h q xs" "\<not> qh_fault ?h'"
    using al by (auto simp: system_free_def h1(3) foreign_blocks_def intro: filter_cong)
  ultimately show thesis
    by (rule that)
qed

section \<open>Properties\<close>

text \<open>
  Property C5: the queue refines a bounded list of items. After any sequence of inputs,
  instant inputs, outputs, batch deletions and clears on a new queue, every operation has
  returned the status and delivered the item that the specification gives, the calls all
  return (no traversal runs forever), and the lock is free again.
\<close>

theorem queue_refines_bounded_list:
  assumes "disjoint_blocks (qh_blocks h0)" and "\<not> qh_fault h0"
    and "fresh_block h0 mem TUYA_QUEUE_SIZE" and "0 < len" and "0 < isize" and "unat isize + 8 < 2 ^ 32"
    and "tuya_queue_create mem OPRT_OK len isize False h0 = (ret, Some q, h)"
    and "ops_ok q ops h"
  shows "\<exists>rs h' xs. queue_run q ops h = Some (rs, h') \<and> queue_inv h' q xs \<and>
    \<not> tq_locked (qh_queue h' q) \<and>
    spec_run (unat len, unat isize) ops [] = (rs, map (qh_data h') xs)"
proof -
  obtain h1 where h1: "tuya_queue_create mem OPRT_OK len isize False h0 = (OPRT_OK, Some mem, h1)"
      "queue_inv h1 mem []" "queue_shape h1 mem = (unat len, unat isize)"
    by (rule create_ok [OF assms(1-6)])
  then have "q = mem" "h = h1" using assms(7) by auto
  with queue_run_refines [of h q "[]" ops] h1 assms(8) show ?thesis
    by (auto simp: queue_inv_def)
qed

definition empty_queue_heap :: queue_heap where
  "empty_queue_heap = \<lparr>lh_next = (\<lambda>p. p), lh_prev = (\<lambda>p. p), qh_data = (\<lambda>_. []),
     qh_queue = (\<lambda>_. \<lparr>tq_locked = False, tq_item_size = 0, tq_queue_len = 0, tq_queue_free = 0\<rparr>),
     qh_blocks = [(100, 50)], qh_fault = False\<rparr>"

abbreviation queue_example_ops :: "queue_op list" where
  "queue_example_ops \<equiv>
     [Input 200 [1, 2], Instant 300 [3, 4], Input 400 [5, 6], Output]"

lemma queue_example:
  "\<exists>h. tuya_queue_create 1000 OPRT_OK 2 2 False empty_queue_heap = (OPRT_OK, Some 1000, h) \<and>
     ops_ok 1000 queue_example_ops h"
  by (rule exI [of _ "snd (snd (tuya_queue_create 1000 OPRT_OK 2 2 False empty_queue_heap))"])
    (simp add: tuya_queue_create_def empty_queue_heap_def ; code_simp)

lemma empty_queue_heap_ok:
  "disjoint_blocks (qh_blocks empty_queue_heap)" "\<not> qh_fault empty_queue_heap"
  "fresh_block empty_queue_heap 1000 TUYA_QUEUE_SIZE"
  by (simp_all add: empty_queue_heap_def fresh_block_def apart_def)

theorem queue_refines_bounded_list_witness:
  "\<exists>h h' xs. tuya_queue_create 1000 OPRT_OK 2 2 False empty_queue_heap = (OPRT_OK, Some 1000, h) \<and>
     queue_run 1000 queue_example_ops h =
       Some ([(OPRT_OK, None), (OPRT_OK, None), (OPRT_EXCEED_UPPER_LIMIT, None), (OPRT_OK, Some [3, 4])], h') \<and>
     queue_inv h' 1000 xs \<and> map (qh_data h') xs = [[1, 2]]"
proof -
  obtain h where h: "tuya_queue_create 1000 OPRT_OK 2 2 False empty_queue_heap = (OPRT_OK, Some 1000, h)"
      "ops_ok 1000 queue_example_ops h"
    using queue_example by blast
  have spec: "spec_run (unat (2 :: u32), unat (2 :: u32)) queue_example_ops [] =
      ([(OPRT_OK, None), (OPRT_OK, None), (OPRT_EXCEED_UPPER_LIMIT, None), (OPRT_OK, Some [3, 4])],
       [[1, 2]])"
    by simp
  show ?thesis
    using queue_refines_bounded_list [OF empty_queue_heap_ok _ _ _ h, unfolded spec] h(1)
    by (simp del: queue_run.simps map_eq_Cons_conv) metis
qed

text \<open>
  Property C16: no leak and no invalid free. Creating a queue, using it in any way and
  releasing it gives back exactly the blocks that were allocated before; a block is never
  freed twice, and no block of another owner is touched.
\<close>

theorem queue_lifecycle_no_leak:
  assumes "disjoint_blocks (qh_blocks h0)" and "\<not> qh_fault h0"
    and "fresh_block h0 mem TUYA_QUEUE_SIZE" and "0 < len" and "0 < isize" and "unat isize + 8 < 2 ^ 32"
    and "tuya_queue_create mem OPRT_OK len isize False h0 = (ret, Some q, h)"
    and "ops_ok q ops h"
  shows "\<exists>rs h1 h2. queue_run q ops h = Some (rs, h1) \<and>
    tuya_queue_release r q h1 = Some (r, h2) \<and> qh_blocks h2 = qh_blocks h0 \<and> \<not> qh_fault h2"
proof -
  obtain k where k: "tuya_queue_create mem OPRT_OK len isize False h0 = (OPRT_OK, Some mem, k)"
      "queue_inv k mem []" "qh_blocks k = (mem, TUYA_QUEUE_SIZE) # qh_blocks h0"
    by (rule create_ok [OF assms(1-6)])
  then have eq: "q = mem" "h = k" using assms(7) by auto
  obtain rs h1 ys where h1: "queue_run q ops h = Some (rs, h1)" "queue_inv h1 q ys"
      "foreign_blocks h1 q ys = foreign_blocks h q []"
    using queue_run_refines [of h q "[]" ops] k eq assms(8) by auto
  obtain h2 where h2: "tuya_queue_release r q h1 = Some (r, h2)"
      "qh_blocks h2 = foreign_blocks h1 q ys" "\<not> qh_fault h2"
    by (rule release_ok [OF h1(2)])
  have "foreign_blocks h q [] = qh_blocks h0"
    using fresh_not_allocated [OF assms(3) _ assms(1)] eq k(3)
    by (auto simp: foreign_blocks_def filter_id_conv)
  with h1 h2 show ?thesis by auto
qed

theorem queue_lifecycle_no_leak_witness:
  "\<exists>h rs h1 h2. tuya_queue_create 1000 OPRT_OK 2 2 False empty_queue_heap = (OPRT_OK, Some 1000, h) \<and>
     queue_run 1000 queue_example_ops h = Some (rs, h1) \<and>
     tuya_queue_release OPRT_OK 1000 h1 = Some (OPRT_OK, h2) \<and>
     qh_blocks h2 = [(100, 50)] \<and> \<not> qh_fault h2"
proof -
  obtain h where h: "tuya_queue_create 1000 OPRT_OK 2 2 False empty_queue_heap = (OPRT_OK, Some 1000, h)"
      "ops_ok 1000 queue_example_ops h"
    using queue_example by blast
  from queue_lifecycle_no_leak [OF empty_queue_heap_ok _ _ _ h, of OPRT_OK] h(1) show ?thesis
    by (auto simp: empty_queue_heap_def)
qed

text \<open>
  Reading a batch copies the items \<open>start\<close>, \<dots>, \<open>start + num - 1\<close> one behind
  the other into the caller's buffer, writes nothing behind them, and leaves the queue
  as it was.
\<close>

theorem queue_get_batch_copies:
  assumes "queue_inv h q xs" and "0 < num"
    and "unat num * snd (queue_shape h q) \<le> length buf"
    and "unat num * snd (queue_shape h q) < 2 ^ 32"
    and "unat start + unat num \<le> length xs"
  shows "tuya_queue_get_batch q start (Some buf) num h = Some (OPRT_OK,
    Some (concat (take (unat num) (drop (unat start) (map (qh_data h) xs))) @
          drop (unat num * snd (queue_shape h q)) buf), h)"
  using assms by (rule get_batch_ok)

definition queue_example_heap :: queue_heap where
  "queue_example_heap = \<lparr>lh_next = (\<lambda>p. p)(116 := 200, 200 := 300, 300 := 116),
     lh_prev = (\<lambda>p. p)(116 := 300, 200 := 116, 300 := 200),
     qh_data = (\<lambda>_. [])(200 := [1, 2], 300 := [3, 4]),
     qh_queue = (\<lambda>_. \<lparr>tq_locked = False, tq_item_size = 2, tq_queue_len = 4, tq_queue_free = 2\<rparr>),
     qh_blocks = [(100, 24), (200, 10), (300, 10)], qh_fault = False\<rparr>"

lemma queue_example_inv: "queue_inv queue_example_heap 100 [200, 300]"
  by (simp add: queue_inv_def queue_example_heap_def dll_def queue_head_def apart_def)

theorem queue_get_batch_copies_witness:
  "queue_inv queue_example_heap 100 [200, 300] \<and>
   tuya_queue_get_batch 100 1 (Some [9, 9, 9]) 1 queue_example_heap =
     Some (OPRT_OK, Some [3, 4, 9], queue_example_heap)"
proof -
  have sh: "snd (queue_shape queue_example_heap 100) = 2"
      "map (qh_data queue_example_heap) [200, 300] = [[1, 2], [3, 4]]"
    by (simp_all add: queue_shape_def queue_example_heap_def)
  show ?thesis
    using queue_get_batch_copies [OF queue_example_inv, of 1 "[9, 9, 9]" 1, unfolded sh]
      queue_example_inv by simp
qed

text \<open>
  Property C32: a traversal ends, shows the items to the callback from the oldest to the
  newest until the callback returns false, and keeps the queue well-formed even when the
  callback changes the items in place.
\<close>

theorem queue_traverse_visits:
  assumes "queue_inv h q xs"
    and "\<And>d ctx go ctx' d'. cb d ctx = (go, ctx', d') \<Longrightarrow> length d' = length d"
  shows "\<exists>h'. tuya_queue_traverse q (Some cb) ctx h =
      Some (OPRT_OK, fst (visit_items cb (map (qh_data h) xs) ctx), h') \<and>
    queue_inv h' q xs \<and> map (qh_data h') xs = snd (visit_items cb (map (qh_data h) xs) ctx)"
  by (rule traverse_ok [of h q xs cb ctx]) (use assms in blast)+

theorem queue_traverse_visits_witness:
  "\<exists>h'. tuya_queue_traverse 100 (Some (\<lambda>d n. (hd d < 3, n + (1 :: nat), map (\<lambda>b. b + 1) d))) 0
       queue_example_heap = Some (OPRT_OK, 2, h') \<and>
     queue_inv h' 100 [200, 300] \<and> map (qh_data h') [200, 300] = [[2, 3], [4, 5]]"
proof -
  let ?cb = "\<lambda>d n. (hd d < (3 :: u8), n + (1 :: nat), map (\<lambda>b. b + 1) d)"
  have items: "map (qh_data queue_example_heap) [200, 300] = [[1, 2], [3, 4]]"
    by (simp add: queue_example_heap_def)
  have visit: "visit_items ?cb [[1, 2], [3, 4]] 0 = (2, [[2, 3], [4, 5]])"
    by simp
  have len: "length d' = length d" if "?cb d ctx = (go, ctx', d')" for d ctx go ctx' d'
    using that by auto
  from queue_traverse_visits [where cb = ?cb and ctx = 0, OF queue_example_inv len] show ?thesis
    unfolding items visit by simp
qed

end
