(* ===== verification/Hlist.thy ===== *)
theory Hlist
  imports Fw_Prelude
begin

text \<open>
  The hash list of \<open>tuya_hlist.h\<close>: a singly ended list whose nodes hold, instead of a pointer
  to the predecessor, the address \<open>pprev\<close> of the pointer that points to them. That address
  is a value of the datatype \<open>hl_cell\<close>: the \<open>first\<close> field of a head or the \<open>next\<close> field of a
  node. The locale \<open>bucket_list\<close> states what a hash table needs of such lists.
\<close>

section \<open>Model of tuya_hlist.h\<close>

datatype hl_cell = Null_cell | First addr | Next addr

record hlist_heap =
  hl_next :: "addr \<Rightarrow> addr"
  hl_pprev :: "addr \<Rightarrow> hl_cell"
  hl_first :: "addr \<Rightarrow> addr"

text \<open>
  Reading and writing through a \<open>pprev\<close> pointer. No operation is called with a node that is
  not on a list, so the null cell is never written.
\<close>

definition deref :: "'a hlist_heap_scheme \<Rightarrow> hl_cell \<Rightarrow> addr" where
  "deref h c = (case c of Null_cell \<Rightarrow> NULL | First i \<Rightarrow> hl_first h i | Next n \<Rightarrow> hl_next h n)"

definition set_hl_next :: "addr \<Rightarrow> addr \<Rightarrow> 'a hlist_heap_scheme \<Rightarrow> 'a hlist_heap_scheme" where
  "set_hl_next n v h = h\<lparr>hl_next := (hl_next h)(n := v)\<rparr>"

definition set_pprev :: "addr \<Rightarrow> hl_cell \<Rightarrow> 'a hlist_heap_scheme \<Rightarrow> 'a hlist_heap_scheme" where
  "set_pprev n c h = h\<lparr>hl_pprev := (hl_pprev h)(n := c)\<rparr>"

definition set_first :: "addr \<Rightarrow> addr \<Rightarrow> 'a hlist_heap_scheme \<Rightarrow> 'a hlist_heap_scheme" where
  "set_first i v h = h\<lparr>hl_first := (hl_first h)(i := v)\<rparr>"

definition store :: "hl_cell \<Rightarrow> addr \<Rightarrow> 'a hlist_heap_scheme \<Rightarrow> 'a hlist_heap_scheme" where
  "store c v h = (case c of Null_cell \<Rightarrow> h | First i \<Rightarrow> set_first i v h | Next n \<Rightarrow> set_hl_next n v h)"

definition INIT_HLIST_HEAD :: "addr \<Rightarrow> 'a hlist_heap_scheme \<Rightarrow> 'a hlist_heap_scheme" where
  "INIT_HLIST_HEAD i h = set_first i NULL h"

definition tuya_init_hlist_node :: "addr \<Rightarrow> 'a hlist_heap_scheme \<Rightarrow> 'a hlist_heap_scheme" where
  "tuya_init_hlist_node n h = set_pprev n Null_cell (set_hl_next n NULL h)"

definition tuya_hlist_empty :: "'a hlist_heap_scheme \<Rightarrow> addr \<Rightarrow> bool" where
  "tuya_hlist_empty h i \<longleftrightarrow> hl_first h i = NULL"

definition tuya_hlist_unhashed :: "'a hlist_heap_scheme \<Rightarrow> addr \<Rightarrow> bool" where
  "tuya_hlist_unhashed h n \<longleftrightarrow> hl_pprev h n = Null_cell"

text \<open>
  \<open>__tuya_hlist_del\<close> and its alias \<open>tuya_hlist_del\<close>.
\<close>

definition hlist_del_raw :: "addr \<Rightarrow> 'a hlist_heap_scheme \<Rightarrow> 'a hlist_heap_scheme" where
  "hlist_del_raw n h =
     (let nxt = hl_next h n; pprev = hl_pprev h n; h = store pprev nxt h
      in if nxt \<noteq> NULL then set_pprev nxt pprev h else h)"

definition tuya_hlist_del :: "addr \<Rightarrow> 'a hlist_heap_scheme \<Rightarrow> 'a hlist_heap_scheme" where
  "tuya_hlist_del n h = hlist_del_raw n h"

definition tuya_hlist_del_init :: "addr \<Rightarrow> 'a hlist_heap_scheme \<Rightarrow> 'a hlist_heap_scheme" where
  "tuya_hlist_del_init n h =
     (if \<not> tuya_hlist_unhashed h n then tuya_init_hlist_node n (hlist_del_raw n h) else h)"

definition tuya_hlist_add_head :: "addr \<Rightarrow> addr \<Rightarrow> 'a hlist_heap_scheme \<Rightarrow> 'a hlist_heap_scheme" where
  "tuya_hlist_add_head n i h =
     (let first = hl_first h i;
          h = set_hl_next n first h;
          h = (if first \<noteq> NULL then set_pprev first (Next n) h else h);
          h = set_first i n h
      in set_pprev n (First i) h)"

definition tuya_hlist_add_before :: "addr \<Rightarrow> addr \<Rightarrow> 'a hlist_heap_scheme \<Rightarrow> 'a hlist_heap_scheme" where
  "tuya_hlist_add_before n nxt h =
     (let h = set_pprev n (hl_pprev h nxt) h;
          h = set_hl_next n nxt h;
          h = set_pprev nxt (Next n) h
      in store (hl_pprev h n) n h)"

definition tuya_hlist_add_after :: "addr \<Rightarrow> addr \<Rightarrow> 'a hlist_heap_scheme \<Rightarrow> 'a hlist_heap_scheme" where
  "tuya_hlist_add_after n nxt h =
     (let h = set_hl_next nxt (hl_next h n) h;
          h = set_hl_next n nxt h;
          h = set_pprev nxt (Next n) h
      in if hl_next h nxt \<noteq> NULL then set_pprev (hl_next h nxt) (Next nxt) h else h)"

section \<open>Well-formed lists\<close>

text \<open>
  \<open>hseg h c ns c'\<close>: following the pointer stored in \<open>c\<close> the nodes \<open>ns\<close> come in this order, each
  knows the cell that points to it, and \<open>c'\<close> is the cell behind the last of them.
\<close>

fun hseg :: "'a hlist_heap_scheme \<Rightarrow> hl_cell \<Rightarrow> addr list \<Rightarrow> hl_cell \<Rightarrow> bool" where
  "hseg h c [] c' \<longleftrightarrow> c = c'"
| "hseg h c (n # ns) c' \<longleftrightarrow> n \<noteq> NULL \<and> deref h c = n \<and> hl_pprev h n = c \<and> hseg h (Next n) ns c'"

definition end_cell :: "hl_cell \<Rightarrow> addr list \<Rightarrow> hl_cell" where
  "end_cell c ns = last (c # map Next ns)"

definition hlist :: "'a hlist_heap_scheme \<Rightarrow> addr \<Rightarrow> addr list \<Rightarrow> bool" where
  "hlist h i ns \<longleftrightarrow> distinct ns \<and> hseg h (First i) ns (end_cell (First i) ns) \<and>
     deref h (end_cell (First i) ns) = NULL"

lemma end_cell_simps [simp]:
  "end_cell c [] = c" "end_cell c (n # ns) = end_cell (Next n) ns"
  "end_cell c (ns @ ms) = end_cell (end_cell c ns) ms"
  by (simp_all add: end_cell_def last_append)

lemma end_cell_cases: "end_cell c ns \<in> set (c # map Next ns)"
  by (induction ns arbitrary: c) auto

lemma end_cell_not_next [simp]:
  "n \<notin> set xs \<Longrightarrow> end_cell (First i) xs \<noteq> Next n"
  "n \<notin> set xs \<Longrightarrow> Next n \<noteq> end_cell (First i) xs"
  using end_cell_cases [of "First i" xs] by auto

lemma end_cell_nonnull [simp]: "end_cell (First i) xs \<noteq> Null_cell"
  using end_cell_cases [of "First i" xs] by auto

lemma hl_fields [heap_simps]:
  "hl_next (set_hl_next n v h) = (hl_next h)(n := v)" "hl_pprev (set_hl_next n v h) = hl_pprev h"
  "hl_first (set_hl_next n v h) = hl_first h"
  "hl_next (set_pprev n c h) = hl_next h" "hl_pprev (set_pprev n c h) = (hl_pprev h)(n := c)"
  "hl_first (set_pprev n c h) = hl_first h"
  "hl_next (set_first i v h) = hl_next h" "hl_pprev (set_first i v h) = hl_pprev h"
  "hl_first (set_first i v h) = (hl_first h)(i := v)"
  by (simp_all add: set_hl_next_def set_pprev_def set_first_def)

lemma hl_pprev_store [heap_simps]: "hl_pprev (store c v h) = hl_pprev h"
  by (simp add: store_def heap_simps split: hl_cell.split)

lemma deref_simps [heap_simps]:
  "deref (set_pprev n c h) d = deref h d"
  "deref (set_hl_next n v h) d = (if d = Next n then v else deref h d)"
  "deref (set_first i v h) d = (if d = First i then v else deref h d)"
  "deref (store c v h) d = (if d = c \<and> c \<noteq> Null_cell then v else deref h d)"
  by (auto simp: deref_def store_def heap_simps split: hl_cell.split)

lemma hseg_append:
  "hseg h c (xs @ ys) c' \<longleftrightarrow> hseg h c xs (end_cell c xs) \<and> hseg h (end_cell c xs) ys c'"
  by (induction xs arbitrary: c) auto

lemma hseg_frame:
  assumes "hseg h c ns c'"
    and "\<And>d. d \<in> set (butlast (c # map Next ns)) \<Longrightarrow> deref h' d = deref h d"
    and "\<And>n. n \<in> set ns \<Longrightarrow> hl_pprev h' n = hl_pprev h n"
  shows "hseg h' c ns c'"
  using assms
proof (induction ns arbitrary: c)
  case (Cons n ns)
  have "deref h' c = deref h c" using Cons.prems(2) [of c] by simp
  moreover have "hseg h' (Next n) ns c'"
    using Cons.prems by (intro Cons.IH) auto
  ultimately show ?case using Cons.prems(1,3) by simp
qed simp

lemma hseg_nonnull: "hseg h c ns c' \<Longrightarrow> NULL \<notin> set ns"
  by (induction ns arbitrary: c) auto

lemma hlist_nonnull: "hlist h i ns \<Longrightarrow> NULL \<notin> set ns"
  by (auto simp: hlist_def dest: hseg_nonnull)

lemma hlist_frame:
  assumes "hlist h i ns"
    and "hl_first h' i = hl_first h i"
    and "\<And>n. n \<in> set ns \<Longrightarrow> hl_next h' n = hl_next h n \<and> hl_pprev h' n = hl_pprev h n"
  shows "hlist h' i ns"
proof -
  have "deref h' d = deref h d" if "d \<in> set (First i # map Next ns)" for d
    using that assms(2,3) by (auto simp: deref_def)
  moreover note end_cell_cases [of "First i" ns]
  ultimately show ?thesis
    using assms(1) unfolding hlist_def
    by (metis (no_types, lifting) assms(3) hseg_frame in_set_butlastD)
qed

lemma hlist_Nil: "hlist h i [] \<longleftrightarrow> hl_first h i = NULL"
  by (simp add: hlist_def deref_def)

lemma hlist_empty_iff: "hlist h i ns \<Longrightarrow> tuya_hlist_empty h i \<longleftrightarrow> ns = []"
  by (cases ns) (auto simp: hlist_def tuya_hlist_empty_def deref_def)

lemma hlist_first: "hlist h i ns \<Longrightarrow> hl_first h i = (if ns = [] then NULL else hd ns)"
  by (cases ns) (auto simp: hlist_def deref_def)

lemma hlist_next:
  assumes "hlist h i (xs @ n # ys)"
  shows "hl_next h n = (if ys = [] then NULL else hd ys)" and "hl_pprev h n = end_cell (First i) xs"
  using assms by (cases ys; auto simp: hlist_def hseg_append deref_def)+

text \<open>
  The part of a list behind a cell.
\<close>

fun hend :: "'a hlist_heap_scheme \<Rightarrow> hl_cell \<Rightarrow> addr list \<Rightarrow> bool" where
  "hend h c [] \<longleftrightarrow> deref h c = NULL"
| "hend h c (n # ns) \<longleftrightarrow> n \<noteq> NULL \<and> deref h c = n \<and> hl_pprev h n = c \<and> hend h (Next n) ns"

lemma hend_hseg: "hend h c ns \<longleftrightarrow> hseg h c ns (end_cell c ns) \<and> deref h (end_cell c ns) = NULL"
  by (induction ns arbitrary: c) auto

lemma hlist_append:
  "hlist h i (xs @ ys) \<longleftrightarrow> distinct (xs @ ys) \<and> hseg h (First i) xs (end_cell (First i) xs) \<and>
     hend h (end_cell (First i) xs) ys"
  by (auto simp: hlist_def hend_hseg hseg_append last_append)

lemma hend_frame:
  assumes "hend h c ns"
    and "\<And>d. d \<in> set (c # map Next ns) \<Longrightarrow> deref h' d = deref h d"
    and "\<And>n. n \<in> set ns \<Longrightarrow> hl_pprev h' n = hl_pprev h n"
  shows "hend h' c ns"
  using assms by (induction ns arbitrary: c) auto

lemma end_cell_fresh:
  "distinct xs \<Longrightarrow> d \<in> set (butlast (First i # map Next xs)) \<Longrightarrow> d \<noteq> end_cell (First i) xs"
  by (cases xs rule: rev_cases) (auto simp: butlast_append split: if_splits)

text \<open>
  It suffices to know what an operation does to the cell behind \<open>xs\<close>, to the nodes of \<open>ys\<close>
  and to no other cell and node of the list.
\<close>

lemma hseg_keep:
  assumes "hseg h (First i) xs (end_cell (First i) xs)" and "distinct xs"
    and "\<And>d. d \<in> set (First i # map Next xs) \<Longrightarrow> d \<noteq> end_cell (First i) xs \<Longrightarrow> deref h' d = deref h d"
    and "\<And>n. n \<in> set xs \<Longrightarrow> hl_pprev h' n = hl_pprev h n"
  shows "hseg h' (First i) xs (end_cell (First i) xs)"
  by (rule hseg_frame [OF assms(1)]) (use assms(2-4) end_cell_fresh in_set_butlastD in metis)+

lemmas hl_ops = hlist_del_raw_def tuya_hlist_add_head_def tuya_hlist_add_before_def
  tuya_hlist_add_after_def tuya_hlist_del_init_def tuya_hlist_del_def tuya_init_hlist_node_def
  INIT_HLIST_HEAD_def Let_def

lemma del_effect [heap_simps]:
  "deref (hlist_del_raw n h) d =
     (if d = hl_pprev h n \<and> d \<noteq> Null_cell then hl_next h n else deref h d)"
  "hl_pprev (hlist_del_raw n h) m =
     (if m = hl_next h n \<and> m \<noteq> NULL then hl_pprev h n else hl_pprev h m)"
  by (auto simp: hl_ops heap_simps)

lemma add_head_effect [heap_simps]:
  "deref (tuya_hlist_add_head n i h) d =
     (if d = First i then n else if d = Next n then hl_first h i else deref h d)"
  "hl_pprev (tuya_hlist_add_head n i h) m =
     (if m = n then First i else if m = hl_first h i \<and> m \<noteq> NULL then Next n else hl_pprev h m)"
  by (auto simp: hl_ops heap_simps)

lemma add_before_effect [heap_simps]:
  "n \<noteq> y \<Longrightarrow> deref (tuya_hlist_add_before n y h) d =
     (if d = hl_pprev h y \<and> d \<noteq> Null_cell then n else if d = Next n then y else deref h d)"
  "n \<noteq> y \<Longrightarrow> hl_pprev (tuya_hlist_add_before n y h) m =
     (if m = y then Next n else if m = n then hl_pprev h y else hl_pprev h m)"
  by (auto simp: hl_ops heap_simps)

lemma add_after_effect [heap_simps]:
  "n \<noteq> y \<Longrightarrow> deref (tuya_hlist_add_after n y h) d =
     (if d = Next n then y else if d = Next y then hl_next h n else deref h d)"
  "n \<noteq> y \<Longrightarrow> hl_pprev (tuya_hlist_add_after n y h) m =
     (if m = hl_next h n \<and> m \<noteq> NULL then Next y else if m = y then Next n else hl_pprev h m)"
  by (auto simp: hl_ops heap_simps)

lemma hlist_splitD:
  assumes "hlist h i (xs @ n # ys)"
  shows "distinct (xs @ n # ys)" "n \<noteq> NULL" "hseg h (First i) xs (end_cell (First i) xs)"
    "deref h (end_cell (First i) xs) = n" "hl_pprev h n = end_cell (First i) xs" "hend h (Next n) ys"
    "hl_next h n = (if ys = [] then NULL else hd ys)" "NULL \<notin> set (xs @ n # ys)"
    "\<forall>z \<in> set ys. Next z \<noteq> end_cell (First i) xs"
proof -
  show d: "distinct (xs @ n # ys)" using assms by (simp add: hlist_def)
  show "\<forall>z \<in> set ys. Next z \<noteq> end_cell (First i) xs"
    using d by (intro ballI end_cell_not_next(2)) auto
qed (use assms hlist_next(1) [OF assms] hlist_nonnull [OF assms] in
    \<open>auto simp: hlist_append\<close>)

lemma hlist_del:
  assumes L: "hlist h i (xs @ n # ys)"
  shows "hlist (hlist_del_raw n h) i (xs @ ys)"
proof -
  note H = hlist_splitD [OF L]
  let ?c = "end_cell (First i) xs" and ?h = "hlist_del_raw n h"
  have "hseg ?h (First i) xs ?c"
    by (rule hseg_keep [OF H(3)]) (use H(1) in \<open>cases ys; auto simp: heap_simps H(5,7)\<close>)+
  moreover have "hend ?h ?c ys"
  proof (cases ys)
    case Nil
    then show ?thesis using H by (simp add: heap_simps)
  next
    case (Cons y zs)
    have "hend ?h (Next y) zs"
    proof (rule hend_frame [of h])
      show "hend h (Next y) zs" using H(6) Cons by simp
      show "deref ?h d = deref h d" if "d \<in> set (Next y # map Next zs)" for d
        using that H(9) Cons by (auto simp: heap_simps H(5))
      show "hl_pprev ?h m = hl_pprev h m" if "m \<in> set zs" for m
        using that H(1) Cons by (auto simp: heap_simps H(7))
    qed
    then show ?thesis using H(6,7) Cons by (simp add: heap_simps H(5))
  qed
  ultimately show ?thesis using H(1) unfolding hlist_append by simp
qed

lemma hlist_insert_before:
  assumes L: "hlist h i (xs @ y # ys)" and n: "n \<notin> set (NULL # xs @ y # ys)"
  shows "hlist (tuya_hlist_add_before n y h) i (xs @ n # y # ys)"
proof -
  note H = hlist_splitD [OF L]
  let ?c = "end_cell (First i) xs" and ?h = "tuya_hlist_add_before n y h"
  have ny: "n \<noteq> y" "y \<noteq> n" "?c \<noteq> Next n" "?c \<noteq> Next y" using n H(1) by auto
  have "hseg ?h (First i) xs ?c"
    by (rule hseg_keep [OF H(3)]) (use H(1) n in \<open>auto simp: heap_simps ny H(5)\<close>)
  moreover have "hend ?h (Next y) ys"
  proof (rule hend_frame [OF H(6)])
    show "deref ?h d = deref h d" if "d \<in> set (Next y # map Next ys)" for d
      using that H(9) n ny(3) ny(4) [symmetric] by (auto simp: heap_simps ny H(5))
    show "hl_pprev ?h m = hl_pprev h m" if "m \<in> set ys" for m
      using that H(1) n by (auto simp: heap_simps ny)
  qed
  ultimately show ?thesis
    using H(1,2) n ny unfolding hlist_append by (auto simp: heap_simps H(5))
qed

lemma hlist_insert_after:
  assumes L: "hlist h i (xs @ n # ys)" and y: "y \<notin> set (NULL # xs @ n # ys)"
  shows "hlist (tuya_hlist_add_after n y h) i (xs @ n # y # ys)"
proof -
  note H = hlist_splitD [OF L]
  let ?c = "end_cell (First i) xs" and ?h = "tuya_hlist_add_after n y h"
  have ny: "n \<noteq> y" "y \<noteq> n" "?c \<noteq> Next n" "?c \<noteq> Next y" using y H(1) by auto
  have nx: "hl_next h n = NULL \<or> hl_next h n \<in> set ys" using H(7) by (cases ys) auto
  have "hseg ?h (First i) xs ?c"
    by (rule hseg_keep [OF H(3)]) (use H(1) y nx in \<open>auto simp: heap_simps ny\<close>)
  moreover have "hend ?h (Next y) ys"
  proof (cases ys)
    case Nil
    then show ?thesis using H(7) by (simp add: heap_simps ny)
  next
    case (Cons z zs)
    have "hend ?h (Next z) zs"
    proof (rule hend_frame [of h])
      show "hend h (Next z) zs" using H(6) Cons by simp
      show "deref ?h d = deref h d" if "d \<in> set (Next z # map Next zs)" for d
        using that H(1) y Cons by (auto simp: heap_simps ny)
      show "hl_pprev ?h m = hl_pprev h m" if "m \<in> set zs" for m
        using that H(1,7) y Cons by (auto simp: heap_simps ny)
    qed
    then show ?thesis using H(6,7) y ny Cons by (auto simp: heap_simps)
  qed
  moreover have "n \<noteq> hl_next h n" "y \<noteq> hl_next h n" using nx H(1,2) y by auto
  ultimately show ?thesis
    using H(1,2,4,5) y ny unfolding hlist_append by (auto simp: heap_simps)
qed

lemma hlist_add_head:
  assumes L: "hlist h i ns" and n: "n \<notin> set (NULL # ns)"
  shows "hlist (tuya_hlist_add_head n i h) i (n # ns)"
proof -
  let ?h = "tuya_hlist_add_head n i h"
  have e: "hend h (First i) ns" and d: "distinct ns"
    using L hlist_append [of h i "[]" ns] by auto
  have "hend ?h (Next n) ns"
  proof (cases ns)
    case Nil
    then show ?thesis using e by (simp add: heap_simps) (simp add: deref_def)
  next
    case (Cons y ys)
    have f: "hl_first h i = y" using e Cons by (simp add: deref_def)
    have "hend ?h (Next y) ys"
    proof (rule hend_frame [of h])
      show "hend h (Next y) ys" using e Cons by simp
      show "deref ?h d = deref h d" if "d \<in> set (Next y # map Next ys)" for d
        using that n Cons by (auto simp: heap_simps)
      show "hl_pprev ?h m = hl_pprev h m" if "m \<in> set ys" for m
        using that d n Cons by (auto simp: heap_simps f)
    qed
    then show ?thesis using e n Cons by (auto simp: heap_simps f)
  qed
  then show ?thesis
    using d n hlist_append [of ?h i "[]" "n # ns"] by (auto simp: heap_simps)
qed

section \<open>The contract of a bucket and families of buckets\<close>

text \<open>
  A table of \<open>T\<close> buckets with the node lists \<open>B\<close>.
\<close>

definition hash_table :: "'a hlist_heap_scheme \<Rightarrow> nat \<Rightarrow> (nat \<Rightarrow> addr list) \<Rightarrow> bool" where
  "hash_table h T B \<longleftrightarrow> (\<forall>i < T. hlist h i (B i)) \<and>
     (\<forall>i < T. \<forall>j < T. i \<noteq> j \<longrightarrow> set (B i) \<inter> set (B j) = {})"

text \<open>
  What a hash table needs: insertion at the head and removal, their effect on the list, and
  that lists with other heads and nodes are not disturbed.
\<close>

locale bucket_list =
  fixes add :: "addr \<Rightarrow> addr \<Rightarrow> 'a hlist_heap_scheme \<Rightarrow> 'a hlist_heap_scheme"
    and del :: "addr \<Rightarrow> 'a hlist_heap_scheme \<Rightarrow> 'a hlist_heap_scheme"
  assumes add_hlist: "hlist h i ns \<Longrightarrow> n \<notin> set (NULL # ns) \<Longrightarrow> hlist (add n i h) i (n # ns)"
    and add_other: "hlist h i ns \<Longrightarrow> hlist h j ms \<Longrightarrow> j \<noteq> i \<Longrightarrow> set ms \<inter> set (n # ns) = {}
      \<Longrightarrow> hlist (add n i h) j ms"
    and del_hlist: "hlist h i (xs @ n # ys) \<Longrightarrow> hlist (del n h) i (xs @ ys)"
    and del_other: "hlist h i (xs @ n # ys) \<Longrightarrow> hlist h j ms \<Longrightarrow> j \<noteq> i
      \<Longrightarrow> set ms \<inter> set (xs @ n # ys) = {} \<Longrightarrow> hlist (del n h) j ms"
begin

lemma table_add:
  assumes "hash_table h T B" and "i < T" and "n \<noteq> NULL" and "\<And>j. j < T \<Longrightarrow> n \<notin> set (B j)"
  shows "hash_table (add n i h) T (B(i := n # B i))"
  unfolding hash_table_def
proof (intro conjI allI impI)
  have B: "\<And>j. j < T \<Longrightarrow> hlist h j (B j)" and
    D: "\<And>j k. j < T \<Longrightarrow> k < T \<Longrightarrow> j \<noteq> k \<Longrightarrow> set (B j) \<inter> set (B k) = {}"
    using assms(1) by (auto simp: hash_table_def)
  fix j assume j: "j < T"
  show "hlist (add n i h) j ((B(i := n # B i)) j)"
  proof (cases "j = i")
    case True
    then show ?thesis using add_hlist [OF B [OF j]] assms j by simp
  next
    case False
    then show ?thesis
      using add_other [OF B [OF assms(2)] B [OF j] False] D [OF j assms(2) False] assms(4) [OF j] by simp
  qed
  fix k assume "k < T" "j \<noteq> k"
  then show "set ((B(i := n # B i)) j) \<inter> set ((B(i := n # B i)) k) = {}"
    using D [OF j] assms(4) j by auto
qed

lemma table_del:
  assumes "hash_table h T B" and "i < T" and s: "B i = xs @ n # ys"
  shows "hash_table (del n h) T (B(i := xs @ ys))"
  unfolding hash_table_def
proof (intro conjI allI impI)
  have B: "\<And>j. j < T \<Longrightarrow> hlist h j (B j)" and
    D: "\<And>j k. j < T \<Longrightarrow> k < T \<Longrightarrow> j \<noteq> k \<Longrightarrow> set (B j) \<inter> set (B k) = {}"
    using assms(1) by (auto simp: hash_table_def)
  have Bi: "hlist h i (xs @ n # ys)" using B [OF assms(2)] s by simp
  fix j assume j: "j < T"
  show "hlist (del n h) j ((B(i := xs @ ys)) j)"
  proof (cases "j = i")
    case True
    then show ?thesis using del_hlist [OF Bi] by simp
  next
    case False
    then show ?thesis
      using del_other [OF Bi B [OF j] False] D [OF j assms(2) False] s by simp
  qed
  fix k assume "k < T" "j \<noteq> k"
  then show "set ((B(i := xs @ ys)) j) \<inter> set ((B(i := xs @ ys)) k) = {}"
    using D [OF j, of k] s by auto
qed

end

lemma hl_next_deref: "hl_next h n = deref h (Next n)"
  by (simp add: deref_def)

lemma hl_first_deref: "hl_first h i = deref h (First i)"
  by (simp add: deref_def)

interpretation hl: bucket_list tuya_hlist_add_head hlist_del_raw
proof
  fix h :: "'a hlist_heap_scheme" and i n j ns ms xs ys
  show "hlist h i ns \<Longrightarrow> n \<notin> set (NULL # ns) \<Longrightarrow> hlist (tuya_hlist_add_head n i h) i (n # ns)"
    by (rule hlist_add_head)
  show "hlist h i (xs @ n # ys) \<Longrightarrow> hlist (hlist_del_raw n h) i (xs @ ys)"
    by (rule hlist_del)
  show "hlist (tuya_hlist_add_head n i h) j ms"
    if "hlist h i ns" "hlist h j ms" "j \<noteq> i" "set ms \<inter> set (n # ns) = {}"
  proof (rule hlist_frame [OF that(2)])
    have "hl_first h i = NULL \<or> hl_first h i \<in> set ns" using hlist_first [OF that(1)] by simp
    then show "hl_next (tuya_hlist_add_head n i h) m = hl_next h m \<and>
        hl_pprev (tuya_hlist_add_head n i h) m = hl_pprev h m" if "m \<in> set ms" for m
      using that \<open>set ms \<inter> set (n # ns) = {}\<close> by (auto simp: hl_next_deref heap_simps)
  qed (use that in \<open>simp add: hl_first_deref heap_simps\<close>)
  show "hlist (hlist_del_raw n h) j ms"
    if L: "hlist h i (xs @ n # ys)" and "hlist h j ms" "j \<noteq> i" "set ms \<inter> set (xs @ n # ys) = {}"
  proof (rule hlist_frame [OF that(2)])
    note H = hlist_splitD [OF L]
    have "end_cell (First i) xs \<in> set (First i # map Next xs)" by (rule end_cell_cases)
    moreover have "hl_next h n = NULL \<or> hl_next h n \<in> set ys" using H(7) by simp
    ultimately show "hl_next (hlist_del_raw n h) m = hl_next h m \<and>
        hl_pprev (hlist_del_raw n h) m = hl_pprev h m" if "m \<in> set ms" for m
      using that \<open>set ms \<inter> set (xs @ n # ys) = {}\<close> by (auto simp: hl_next_deref heap_simps H(5))
    show "hl_first (hlist_del_raw n h) j = hl_first h j"
      using end_cell_cases [of "First i" xs] \<open>j \<noteq> i\<close> by (auto simp: hl_first_deref heap_simps H(5))
  qed
qed

text \<open>
  Property C29: what the operations of the hash list do to the sequence of nodes: insertion at
  the head, insertion before and behind any node, and removal of any node (with or without
  reinitialising it). Of the two insertions next to a node, \<open>tuya_hlist_add_before\<close> inserts its
  first argument before the second one, as its comment says; \<open>tuya_hlist_add_after\<close> inserts its
  second argument behind the first one, while its comment names them the other way round: called
  in the documented order, it does not insert the new node behind the old one.
\<close>

theorem hlist_functional:
  assumes "hlist h i (xs @ n # ys)" and "y \<notin> set (NULL # xs @ n # ys)"
  shows "hlist (tuya_hlist_add_head y i h) i (y # xs @ n # ys) \<and>
    hlist (tuya_hlist_add_before y n h) i (xs @ y # n # ys) \<and>
    hlist (tuya_hlist_add_after n y h) i (xs @ n # y # ys) \<and>
    (hl_next h y \<noteq> y \<longrightarrow> \<not> hlist (tuya_hlist_add_after y n h) i (xs @ n # y # ys)) \<and>
    hlist (tuya_hlist_del n h) i (xs @ ys) \<and>
    hlist (tuya_hlist_del_init n h) i (xs @ ys) \<and> tuya_hlist_unhashed (tuya_hlist_del_init n h) n"
proof (intro conjI)
  have u: "\<not> tuya_hlist_unhashed h n"
    using hlist_splitD(5) [OF assms(1)] by (simp add: tuya_hlist_unhashed_def)
  have "n \<notin> set (xs @ ys)" using hlist_splitD(1) [OF assms(1)] by auto
  then show "hlist (tuya_hlist_del_init n h) i (xs @ ys)"
    using u hlist_del [OF assms(1)]
    by (auto simp: tuya_hlist_del_init_def tuya_init_hlist_node_def heap_simps elim!: hlist_frame)
  show "tuya_hlist_unhashed (tuya_hlist_del_init n h) n"
    using u by (simp add: tuya_hlist_del_init_def tuya_init_hlist_node_def tuya_hlist_unhashed_def heap_simps)
  show "hlist (tuya_hlist_add_head y i h) i (y # xs @ n # ys)"
    "hlist (tuya_hlist_add_before y n h) i (xs @ y # n # ys)"
    "hlist (tuya_hlist_add_after n y h) i (xs @ n # y # ys)"
    by (rule hlist_add_head hlist_insert_before hlist_insert_after; fact assms)+
  show "hl_next h y \<noteq> y \<longrightarrow> \<not> hlist (tuya_hlist_add_after y n h) i (xs @ n # y # ys)"
    using assms(2) hlist_next(1) [of "tuya_hlist_add_after y n h" i xs n "y # ys"]
    by (auto simp: hl_next_deref heap_simps)
  show "hlist (tuya_hlist_del n h) i (xs @ ys)"
    unfolding tuya_hlist_del_def by (rule hlist_del) (fact assms(1))
qed

definition hlist_example :: hlist_heap where
  "hlist_example = tuya_hlist_add_head 8 0 (tuya_hlist_add_head 16 0
     \<lparr>hl_next = (\<lambda>_. 0), hl_pprev = (\<lambda>_. Null_cell), hl_first = (\<lambda>_. 0)\<rparr>)"

theorem hlist_functional_witness:
  "hlist hlist_example 0 ([8] @ 16 # []) \<and> hlist (tuya_hlist_add_before 24 16 hlist_example) 0 [8, 24, 16] \<and>
     \<not> hlist (tuya_hlist_add_after 24 16 hlist_example) 0 [8, 16, 24]"
proof -
  have "hlist hlist_example 0 ([8] @ 16 # [])"
    unfolding hlist_example_def append.simps by (intro hlist_add_head) (simp_all add: hlist_Nil)
  moreover have "hl_next hlist_example 24 \<noteq> 24" by code_simp
  ultimately show ?thesis using hlist_functional [of hlist_example 0 "[8]" 16 "[]" 24] by simp
qed

end
