(* ===== verification/Crc.thy ===== *)
theory Crc
  imports Fw_Prelude
begin

text \<open>
  The cyclic redundancy checks of the firmware: the routines of
  \<open>gd32_os/MSDK/util/src/crc.c\<close> and the private CRC-32 of \<open>tuya_hashmap.c\<close>. The tables are
  the literal tables of the sources. The locale \<open>reflected_crc\<close> states what a feedback
  table of a reflected CRC has to hold; in it the table step is proved equal to the bit by
  bit division, and the injectivity that error detection rests on is derived. It is
  interpreted on the three tables of the code.
\<close>

section \<open>The tables and routines\<close>

definition crc_table :: "u32 list" where
  "crc_table = [
    0x00000000, 0x77073096, 0xEE0E612C, 0x990951BA, 0x076DC419, 0x706AF48F, 0xE963A535, 0x9E6495A3,
    0x0EDB8832, 0x79DCB8A4, 0xE0D5E91E, 0x97D2D988, 0x09B64C2B, 0x7EB17CBD, 0xE7B82D07, 0x90BF1D91,
    0x1DB71064, 0x6AB020F2, 0xF3B97148, 0x84BE41DE, 0x1ADAD47D, 0x6DDDE4EB, 0xF4D4B551, 0x83D385C7,
    0x136C9856, 0x646BA8C0, 0xFD62F97A, 0x8A65C9EC, 0x14015C4F, 0x63066CD9, 0xFA0F3D63, 0x8D080DF5,
    0x3B6E20C8, 0x4C69105E, 0xD56041E4, 0xA2677172, 0x3C03E4D1, 0x4B04D447, 0xD20D85FD, 0xA50AB56B,
    0x35B5A8FA, 0x42B2986C, 0xDBBBC9D6, 0xACBCF940, 0x32D86CE3, 0x45DF5C75, 0xDCD60DCF, 0xABD13D59,
    0x26D930AC, 0x51DE003A, 0xC8D75180, 0xBFD06116, 0x21B4F4B5, 0x56B3C423, 0xCFBA9599, 0xB8BDA50F,
    0x2802B89E, 0x5F058808, 0xC60CD9B2, 0xB10BE924, 0x2F6F7C87, 0x58684C11, 0xC1611DAB, 0xB6662D3D,
    0x76DC4190, 0x01DB7106, 0x98D220BC, 0xEFD5102A, 0x71B18589, 0x06B6B51F, 0x9FBFE4A5, 0xE8B8D433,
    0x7807C9A2, 0x0F00F934, 0x9609A88E, 0xE10E9818, 0x7F6A0DBB, 0x086D3D2D, 0x91646C97, 0xE6635C01,
    0x6B6B51F4, 0x1C6C6162, 0x856530D8, 0xF262004E, 0x6C0695ED, 0x1B01A57B, 0x8208F4C1, 0xF50FC457,
    0x65B0D9C6, 0x12B7E950, 0x8BBEB8EA, 0xFCB9887C, 0x62DD1DDF, 0x15DA2D49, 0x8CD37CF3, 0xFBD44C65,
    0x4DB26158, 0x3AB551CE, 0xA3BC0074, 0xD4BB30E2, 0x4ADFA541, 0x3DD895D7, 0xA4D1C46D, 0xD3D6F4FB,
    0x4369E96A, 0x346ED9FC, 0xAD678846, 0xDA60B8D0, 0x44042D73, 0x33031DE5, 0xAA0A4C5F, 0xDD0D7CC9,
    0x5005713C, 0x270241AA, 0xBE0B1010, 0xC90C2086, 0x5768B525, 0x206F85B3, 0xB966D409, 0xCE61E49F,
    0x5EDEF90E, 0x29D9C998, 0xB0D09822, 0xC7D7A8B4, 0x59B33D17, 0x2EB40D81, 0xB7BD5C3B, 0xC0BA6CAD,
    0xEDB88320, 0x9ABFB3B6, 0x03B6E20C, 0x74B1D29A, 0xEAD54739, 0x9DD277AF, 0x04DB2615, 0x73DC1683,
    0xE3630B12, 0x94643B84, 0x0D6D6A3E, 0x7A6A5AA8, 0xE40ECF0B, 0x9309FF9D, 0x0A00AE27, 0x7D079EB1,
    0xF00F9344, 0x8708A3D2, 0x1E01F268, 0x6906C2FE, 0xF762575D, 0x806567CB, 0x196C3671, 0x6E6B06E7,
    0xFED41B76, 0x89D32BE0, 0x10DA7A5A, 0x67DD4ACC, 0xF9B9DF6F, 0x8EBEEFF9, 0x17B7BE43, 0x60B08ED5,
    0xD6D6A3E8, 0xA1D1937E, 0x38D8C2C4, 0x4FDFF252, 0xD1BB67F1, 0xA6BC5767, 0x3FB506DD, 0x48B2364B,
    0xD80D2BDA, 0xAF0A1B4C, 0x36034AF6, 0x41047A60, 0xDF60EFC3, 0xA867DF55, 0x316E8EEF, 0x4669BE79,
    0xCB61B38C, 0xBC66831A, 0x256FD2A0, 0x5268E236, 0xCC0C7795, 0xBB0B4703, 0x220216B9, 0x5505262F,
    0xC5BA3BBE, 0xB2BD0B28, 0x2BB45A92, 0x5CB36A04, 0xC2D7FFA7, 0xB5D0CF31, 0x2CD99E8B, 0x5BDEAE1D,
    0x9B64C2B0, 0xEC63F226, 0x756AA39C, 0x026D930A, 0x9C0906A9, 0xEB0E363F, 0x72076785, 0x05005713,
    0x95BF4A82, 0xE2B87A14, 0x7BB12BAE, 0x0CB61B38, 0x92D28E9B, 0xE5D5BE0D, 0x7CDCEFB7, 0x0BDBDF21,
    0x86D3D2D4, 0xF1D4E242, 0x68DDB3F8, 0x1FDA836E, 0x81BE16CD, 0xF6B9265B, 0x6FB077E1, 0x18B74777,
    0x88085AE6, 0xFF0F6A70, 0x66063BCA, 0x11010B5C, 0x8F659EFF, 0xF862AE69, 0x616BFFD3, 0x166CCF45,
    0xA00AE278, 0xD70DD2EE, 0x4E048354, 0x3903B3C2, 0xA7672661, 0xD06016F7, 0x4969474D, 0x3E6E77DB,
    0xAED16A4A, 0xD9D65ADC, 0x40DF0B66, 0x37D83BF0, 0xA9BCAE53, 0xDEBB9EC5, 0x47B2CF7F, 0x30B5FFE9,
    0xBDBDF21C, 0xCABAC28A, 0x53B39330, 0x24B4A3A6, 0xBAD03605, 0xCDD70693, 0x54DE5729, 0x23D967BF,
    0xB3667A2E, 0xC4614AB8, 0x5D681B02, 0x2A6F2B94, 0xB40BBE37, 0xC30C8EA1, 0x5A05DF1B, 0x2D02EF8D]"

definition crc16_table :: "u16 list" where
  "crc16_table = [
    0x0000, 0xCC01, 0xD801, 0x1400, 0xF001, 0x3C00, 0x2800, 0xE401,
    0xA001, 0x6C00, 0x7800, 0xB401, 0x5000, 0x9C01, 0x8801, 0x4400]"

text \<open>
  One round of the loop of \<open>crc16\<close>: two nibble steps. The operands of \<open>^\<close> and \<open>&\<close> are
  promoted to a wider type in C, which neither operation can observe.
\<close>

definition crc16_step :: "u16 \<Rightarrow> u8 \<Rightarrow> u16" where
  "crc16_step crc tmp =
    (let crc1 = crc16_table ! unat ((ucast tmp XOR crc) AND 0xF) XOR drop_bit 4 crc
     in crc16_table ! unat ((ucast (drop_bit 4 tmp) XOR crc1) AND 0xF) XOR drop_bit 4 crc1)"

fun crc16 :: "u8 list \<Rightarrow> u16 \<Rightarrow> u16" where
  "crc16 [] crc = crc"
| "crc16 (tmp # rest) crc = crc16 rest (crc16_step crc tmp)"

fun crc32 :: "u8 list \<Rightarrow> u32 \<Rightarrow> u32" where
  "crc32 [] crc = crc"
| "crc32 (b # rest) crc =
     crc32 rest (push_bit 8 crc XOR crc_table ! unat (drop_bit 24 crc XOR ucast b))"

definition crc32_tab :: "u32 list" where
  "crc32_tab = [
    0x00000000, 0x77073096, 0xee0e612c, 0x990951ba, 0x076dc419, 0x706af48f, 0xe963a535, 0x9e6495a3, 0x0edb8832,
    0x79dcb8a4, 0xe0d5e91e, 0x97d2d988, 0x09b64c2b, 0x7eb17cbd, 0xe7b82d07, 0x90bf1d91, 0x1db71064, 0x6ab020f2,
    0xf3b97148, 0x84be41de, 0x1adad47d, 0x6ddde4eb, 0xf4d4b551, 0x83d385c7, 0x136c9856, 0x646ba8c0, 0xfd62f97a,
    0x8a65c9ec, 0x14015c4f, 0x63066cd9, 0xfa0f3d63, 0x8d080df5, 0x3b6e20c8, 0x4c69105e, 0xd56041e4, 0xa2677172,
    0x3c03e4d1, 0x4b04d447, 0xd20d85fd, 0xa50ab56b, 0x35b5a8fa, 0x42b2986c, 0xdbbbc9d6, 0xacbcf940, 0x32d86ce3,
    0x45df5c75, 0xdcd60dcf, 0xabd13d59, 0x26d930ac, 0x51de003a, 0xc8d75180, 0xbfd06116, 0x21b4f4b5, 0x56b3c423,
    0xcfba9599, 0xb8bda50f, 0x2802b89e, 0x5f058808, 0xc60cd9b2, 0xb10be924, 0x2f6f7c87, 0x58684c11, 0xc1611dab,
    0xb6662d3d, 0x76dc4190, 0x01db7106, 0x98d220bc, 0xefd5102a, 0x71b18589, 0x06b6b51f, 0x9fbfe4a5, 0xe8b8d433,
    0x7807c9a2, 0x0f00f934, 0x9609a88e, 0xe10e9818, 0x7f6a0dbb, 0x086d3d2d, 0x91646c97, 0xe6635c01, 0x6b6b51f4,
    0x1c6c6162, 0x856530d8, 0xf262004e, 0x6c0695ed, 0x1b01a57b, 0x8208f4c1, 0xf50fc457, 0x65b0d9c6, 0x12b7e950,
    0x8bbeb8ea, 0xfcb9887c, 0x62dd1ddf, 0x15da2d49, 0x8cd37cf3, 0xfbd44c65, 0x4db26158, 0x3ab551ce, 0xa3bc0074,
    0xd4bb30e2, 0x4adfa541, 0x3dd895d7, 0xa4d1c46d, 0xd3d6f4fb, 0x4369e96a, 0x346ed9fc, 0xad678846, 0xda60b8d0,
    0x44042d73, 0x33031de5, 0xaa0a4c5f, 0xdd0d7cc9, 0x5005713c, 0x270241aa, 0xbe0b1010, 0xc90c2086, 0x5768b525,
    0x206f85b3, 0xb966d409, 0xce61e49f, 0x5edef90e, 0x29d9c998, 0xb0d09822, 0xc7d7a8b4, 0x59b33d17, 0x2eb40d81,
    0xb7bd5c3b, 0xc0ba6cad, 0xedb88320, 0x9abfb3b6, 0x03b6e20c, 0x74b1d29a, 0xead54739, 0x9dd277af, 0x04db2615,
    0x73dc1683, 0xe3630b12, 0x94643b84, 0x0d6d6a3e, 0x7a6a5aa8, 0xe40ecf0b, 0x9309ff9d, 0x0a00ae27, 0x7d079eb1,
    0xf00f9344, 0x8708a3d2, 0x1e01f268, 0x6906c2fe, 0xf762575d, 0x806567cb, 0x196c3671, 0x6e6b06e7, 0xfed41b76,
    0x89d32be0, 0x10da7a5a, 0x67dd4acc, 0xf9b9df6f, 0x8ebeeff9, 0x17b7be43, 0x60b08ed5, 0xd6d6a3e8, 0xa1d1937e,
    0x38d8c2c4, 0x4fdff252, 0xd1bb67f1, 0xa6bc5767, 0x3fb506dd, 0x48b2364b, 0xd80d2bda, 0xaf0a1b4c, 0x36034af6,
    0x41047a60, 0xdf60efc3, 0xa867df55, 0x316e8eef, 0x4669be79, 0xcb61b38c, 0xbc66831a, 0x256fd2a0, 0x5268e236,
    0xcc0c7795, 0xbb0b4703, 0x220216b9, 0x5505262f, 0xc5ba3bbe, 0xb2bd0b28, 0x2bb45a92, 0x5cb36a04, 0xc2d7ffa7,
    0xb5d0cf31, 0x2cd99e8b, 0x5bdeae1d, 0x9b64c2b0, 0xec63f226, 0x756aa39c, 0x026d930a, 0x9c0906a9, 0xeb0e363f,
    0x72076785, 0x05005713, 0x95bf4a82, 0xe2b87a14, 0x7bb12bae, 0x0cb61b38, 0x92d28e9b, 0xe5d5be0d, 0x7cdcefb7,
    0x0bdbdf21, 0x86d3d2d4, 0xf1d4e242, 0x68ddb3f8, 0x1fda836e, 0x81be16cd, 0xf6b9265b, 0x6fb077e1, 0x18b74777,
    0x88085ae6, 0xff0f6a70, 0x66063bca, 0x11010b5c, 0x8f659eff, 0xf862ae69, 0x616bffd3, 0x166ccf45, 0xa00ae278,
    0xd70dd2ee, 0x4e048354, 0x3903b3c2, 0xa7672661, 0xd06016f7, 0x4969474d, 0x3e6e77db, 0xaed16a4a, 0xd9d65adc,
    0x40df0b66, 0x37d83bf0, 0xa9bcae53, 0xdebb9ec5, 0x47b2cf7f, 0x30b5ffe9, 0xbdbdf21c, 0xcabac28a, 0x53b39330,
    0x24b4a3a6, 0xbad03605, 0xcdd70693, 0x54de5729, 0x23d967bf, 0xb3667a2e, 0xc4614ab8, 0x5d681b02, 0x2a6f2b94,
    0xb40bbe37, 0xc30c8ea1, 0x5a05df1b, 0x2d02ef8d]"

fun crc32_hashmap_loop :: "u32 \<Rightarrow> u8 list \<Rightarrow> u32" where
  "crc32_hashmap_loop crc32val [] = crc32val"
| "crc32_hashmap_loop crc32val (b # s) =
     crc32_hashmap_loop
       (crc32_tab ! unat ((crc32val XOR ucast b) AND 0xFF) XOR drop_bit 8 crc32val) s"

definition crc32_hashmap :: "u8 list \<Rightarrow> u32" where
  "crc32_hashmap s = crc32_hashmap_loop 0 s"

section \<open>Bit by bit division\<close>

text \<open>
  The shift register of a reflected CRC with the given polynomial: one bit, then a whole
  message, least significant bit of each byte first.
\<close>

definition crc_shift :: "'a::len word \<Rightarrow> 'a word \<Rightarrow> 'a word" where
  "crc_shift poly c = (if bit c 0 then drop_bit 1 c XOR poly else drop_bit 1 c)"

definition crc_shifts :: "'a::len word \<Rightarrow> nat \<Rightarrow> 'a word \<Rightarrow> 'a word" where
  "crc_shifts poly n = crc_shift poly ^^ n"

definition crc_bitwise :: "'a::len word \<Rightarrow> u8 list \<Rightarrow> 'a word \<Rightarrow> 'a word" where
  "crc_bitwise poly bs c = foldl (\<lambda>c b. crc_shifts poly 8 (c XOR ucast b)) c bs"

lemma word_xor_eq_0: "a XOR b = 0 \<longleftrightarrow> a = b" for a b :: "'a::len word"
  by (metis xor.assoc xor.left_neutral xor.right_neutral xor_self_eq)

lemma word_xor_cancel:
  fixes x y z :: "'a::len word"
  shows "x XOR y = x XOR z \<longleftrightarrow> y = z" and "y XOR x = z XOR x \<longleftrightarrow> y = z"
proof -
  show "x XOR y = x XOR z \<longleftrightarrow> y = z" by (metis xor.assoc xor.left_neutral xor_self_eq)
  then show "y XOR x = z XOR x \<longleftrightarrow> y = z" by (simp only: xor.commute)
qed

lemma crc_shift_xor: "crc_shift poly (a XOR b) = crc_shift poly a XOR crc_shift poly b"
  by (rule bit_word_eqI) (auto simp: crc_shift_def bit_simps)

lemma crc_shifts_xor: "crc_shifts poly n (a XOR b) = crc_shifts poly n a XOR crc_shifts poly n b"
  by (induction n) (auto simp: crc_shifts_def crc_shift_xor)

lemma crc_shifts_add: "crc_shifts poly (m + n) c = crc_shifts poly m (crc_shifts poly n c)"
  by (simp add: crc_shifts_def funpow_add)

lemma crc_shifts_0 [simp]: "crc_shifts poly n 0 = 0"
  by (induction n) (auto simp: crc_shifts_def crc_shift_def)

text \<open>
  As long as only zero bits leave the register it is merely shifted.
\<close>

lemma crc_shifts_high:
  "(\<And>i. i < n \<Longrightarrow> \<not> bit c i) \<Longrightarrow> crc_shifts poly n c = drop_bit n c"
proof (induction n)
  case 0
  then show ?case by (simp add: crc_shifts_def)
next
  case (Suc n)
  then have "crc_shifts poly n c = drop_bit n c" by simp
  moreover have "\<not> bit (drop_bit n c) 0" using Suc.prems [of n] by (simp add: bit_drop_bit_eq)
  ultimately show ?case by (simp add: crc_shifts_def crc_shift_def)
qed

lemma take_bit_xor_high: "c = take_bit n c XOR push_bit n (drop_bit n c)"
  for c :: "'a::len word"
  by (rule bit_word_eqI) (auto simp: bit_simps)

text \<open>
  The step of a table driven implementation: the low bits select the feedback, the high
  bits are shifted down.
\<close>

lemma crc_shifts_split:
  "crc_shifts poly n c = crc_shifts poly n (take_bit n c) XOR drop_bit n c"
proof -
  have "crc_shifts poly n (push_bit n (drop_bit n c)) = drop_bit n (push_bit n (drop_bit n c))"
    by (rule crc_shifts_high) (simp add: bit_simps)
  also have "\<dots> = drop_bit n c" by (rule bit_word_eqI) (auto simp: bit_simps dest: bit_imp_le_length)
  finally show ?thesis
    by (subst take_bit_xor_high [of c n]) (simp only: crc_shifts_xor)
qed

lemma crc_shift_0_iff:
  fixes c :: "'a::len word"
  assumes "bit poly (LENGTH('a) - 1)"
  shows "crc_shift poly c = 0 \<longleftrightarrow> c = 0"
proof
  assume z: "crc_shift poly c = 0"
  have "\<not> bit c 0"
  proof
    assume "bit c 0"
    then have "drop_bit 1 c = poly" using z by (simp add: crc_shift_def word_xor_eq_0)
    then have "bit c LENGTH('a)"
      using assms by (metis bit_drop_bit_eq comp_apply le_add_diff_inverse len_gt_0 Suc_leI One_nat_def)
    then show False using bit_imp_le_length by blast
  qed
  then have "drop_bit 1 c = 0" using z by (simp add: crc_shift_def)
  then have "\<not> bit c (Suc i)" for i by (metis bit_0_eq bit_drop_bit_eq bot_apply bot_bool_def comp_apply plus_1_eq_Suc)
  with \<open>\<not> bit c 0\<close> show "c = 0" by (intro bit_word_eqI) (metis bit_0_eq bot_apply bot_bool_def not0_implies_Suc)
qed (simp add: crc_shift_def)

lemma crc_shifts_inj:
  fixes c d :: "'a::len word"
  assumes "bit poly (LENGTH('a) - 1)"
  shows "crc_shifts poly n c = crc_shifts poly n d \<longleftrightarrow> c = d"
proof -
  have z: "crc_shifts poly n x = 0 \<longleftrightarrow> x = 0" for x :: "'a word"
    by (induction n) (simp_all add: crc_shifts_def crc_shift_0_iff [OF assms])
  have "crc_shifts poly n c = crc_shifts poly n d \<longleftrightarrow> crc_shifts poly n (c XOR d) = 0"
    by (simp add: crc_shifts_xor word_xor_eq_0)
  also have "\<dots> \<longleftrightarrow> c = d" by (simp add: z word_xor_eq_0)
  finally show ?thesis .
qed

section \<open>Table driven implementations\<close>

text \<open>
  A feedback table for \<open>k\<close> bits at a time: entry \<open>i\<close> is what \<open>k\<close> shifts make of \<open>i\<close>, and
  the polynomial has its highest bit set.
\<close>

locale reflected_crc =
  fixes poly :: "'a::len word" and k :: nat and table :: "'a word list"
  assumes table_law: "table = map (\<lambda>i. crc_shifts poly k (of_nat i)) [0..<2 ^ k]"
    and poly_top: "bit poly (LENGTH('a) - 1)"
begin

lemma table_step: "table ! unat (take_bit k c) XOR drop_bit k c = crc_shifts poly k c"
proof -
  have "take_bit k (unat c) < 2 ^ k" by (rule take_bit_nat_less_exp)
  then have "unat (take_bit k c) < 2 ^ k" by (simp add: unsigned_take_bit_eq)
  then have "table ! unat (take_bit k c) = crc_shifts poly k (take_bit k c)"
    by (simp add: table_law)
  then show ?thesis by (metis crc_shifts_split)
qed

text \<open>
  A message part of at most as many bits as the register has cannot be changed without
  changing the register after it.
\<close>

lemma bitwise_inj_state: "crc_bitwise poly bs c = crc_bitwise poly bs d \<longleftrightarrow> c = d"
proof (induction bs arbitrary: c d)
  case Nil
  then show ?case by (simp add: crc_bitwise_def)
next
  case (Cons b bs)
  then show ?case
    using Cons.IH by (simp add: crc_bitwise_def crc_shifts_inj [OF poly_top] word_xor_cancel)
qed

end

lemma crc_bitwise_append:
  "crc_bitwise poly (xs @ ys) c = crc_bitwise poly ys (crc_bitwise poly xs c)"
  by (simp add: crc_bitwise_def)

lemma bit_ucast_byte: "bit (ucast b :: 'a::len word) i \<longleftrightarrow> i < LENGTH('a) \<and> bit b i"
  for b :: u8
  by (simp add: bit_ucast_iff)

lemma ucast_byte_inj:
  fixes a b :: u8
  assumes "8 \<le> LENGTH('a)" and "(ucast a :: 'a::len word) = ucast b"
  shows "a = b"
  proof (rule bit_word_eqI)
  fix n assume "n < LENGTH(8)"
  then have "n < LENGTH('a)" using assms(1) by simp
  then show "bit a n \<longleftrightarrow> bit b n" using arg_cong [OF assms(2), of "\<lambda>w. bit w n"] by (simp add: bit_ucast_byte)
qed

text \<open>
  Such a table can be generated by doubling: the entries of \<open>2 ^ n + i\<close> are those of \<open>i\<close>
  with the entry of \<open>2 ^ n\<close> added.
\<close>

fun crc_tab_gen :: "'a::len word list \<Rightarrow> 'a word list" where
  "crc_tab_gen [] = [0]"
| "crc_tab_gen (v # vs) = (let t = crc_tab_gen vs in t @ map (\<lambda>x. v XOR x) t)"

lemma of_nat_double_xor:
  assumes "i < 2 ^ n"
  shows "(of_nat (2 ^ n + i) :: 'a::len word) = of_nat (2 ^ n) XOR of_nat i"
proof -
  have "2 ^ n + i = (2 ^ n XOR i)"
  proof (rule disjunctive_add_eq_xor)
    have "\<not> bit i n" using assms by (simp add: bit_iff_odd)
    then show "2 ^ n AND i = 0" by (simp add: and_exp_eq_0_iff_not_bit and.commute)
  qed
  then show ?thesis by (simp add: of_nat_xor_eq)
qed

lemma crc_tab_gen_law:
  "crc_tab_gen (map (\<lambda>j. crc_shifts poly m (2 ^ j)) (rev [0..<k]))
    = map (\<lambda>i. crc_shifts poly m (of_nat i)) [0..<2 ^ k]"
proof (induction k)
  case 0
  then show ?case by simp
next
  case (Suc n)
  let ?f = "\<lambda>i. crc_shifts poly m (of_nat i)"
  have "[0..<2 ^ Suc n] = [0..<2 ^ n] @ map (\<lambda>i. 2 ^ n + i) [0..<2 ^ n]"
    using upt_add_eq_append [of 0 "2 ^ n" "2 ^ n"] map_add_upt [of "2 ^ n" "2 ^ n"]
    by (simp add: mult_2 add.commute)
  then have "map ?f [0..<2 ^ Suc n] = map ?f [0..<2 ^ n] @ map (\<lambda>i. ?f (2 ^ n + i)) [0..<2 ^ n]"
    by (simp only: map_append map_map comp_def)
  moreover have "map (\<lambda>i. ?f (2 ^ n + i)) [0..<2 ^ n]
      = map (\<lambda>x. crc_shifts poly m (2 ^ n) XOR x) (map ?f [0..<2 ^ n])"
    by (simp only: map_map comp_def) (rule map_cong; simp add: of_nat_double_xor crc_shifts_xor del: of_nat_add)
  ultimately show ?case using Suc by (simp add: Let_def)
qed

interpretation mcrc16: reflected_crc "0xA001 :: u16" 4 crc16_table
proof
  show "crc16_table = map (\<lambda>i. crc_shifts 0xA001 4 (of_nat i)) [0..<2 ^ 4]"
    by code_simp
  show "bit (0xA001 :: u16) (LENGTH(16) - 1)" by simp
qed

lemma crc32_basis:
  "map (\<lambda>j. crc_shifts 0xEDB88320 8 (2 ^ j) :: u32) (rev [0..<8]) =
    [0xEDB88320, 0x76DC4190, 0x3B6E20C8, 0x1DB71064, 0x0EDB8832, 0x076DC419, 0xEE0E612C, 0x77073096]"
  by code_simp

interpretation hcrc32: reflected_crc "0xEDB88320 :: u32" 8 crc32_tab
proof
  show "crc32_tab = map (\<lambda>i. crc_shifts 0xEDB88320 8 (of_nat i)) [0..<2 ^ 8]"
    unfolding crc_tab_gen_law [symmetric] crc32_basis by code_simp
  show "bit (0xEDB88320 :: u32) (LENGTH(32) - 1)" by simp
qed

interpretation mcrc32: reflected_crc "0xEDB88320 :: u32" 8 crc_table
proof
  have "crc_table = crc32_tab" by (simp add: crc_table_def crc32_tab_def)
  then show "crc_table = map (\<lambda>i. crc_shifts 0xEDB88320 8 (of_nat i)) [0..<2 ^ 8]"
    using hcrc32.table_law by simp
  show "bit (0xEDB88320 :: u32) (LENGTH(32) - 1)" by simp
qed


section \<open>The routines compute remainders\<close>

lemma nibble_mask: "(0xF :: u16) = Bit_Operations.mask 4"
  by (simp add: mask_eq_exp_minus_1)

lemma crc16_nibble:
  "crc16_table ! unat ((ucast t XOR c) AND 0xF) XOR drop_bit 4 c
    = crc_shifts 0xA001 4 (c XOR ucast (take_bit 4 t))" for t :: u8
proof -
  have "take_bit 4 (c XOR ucast (take_bit 4 t)) = (ucast t XOR c) AND 0xF"
    unfolding nibble_mask by (rule bit_word_eqI) (auto simp: bit_simps)
  moreover have "drop_bit 4 (c XOR ucast (take_bit 4 t)) = drop_bit 4 c"
    by (rule bit_word_eqI) (auto simp: bit_simps)
  ultimately show ?thesis using mcrc16.table_step [of "c XOR ucast (take_bit 4 t)"] by simp
qed

lemma byte_nibbles:
  "(ucast t :: u16) = ucast (take_bit 4 t) XOR push_bit 4 (ucast (drop_bit 4 t))" for t :: u8
  by (rule bit_word_eqI) (auto simp: bit_simps)

lemma crc16_step_bitwise: "crc16_step c t = crc_shifts 0xA001 8 (c XOR ucast t)"
proof -
  let ?hi = "ucast (drop_bit 4 t) :: u16"
  have hi: "crc_shifts 0xA001 4 (push_bit 4 ?hi) = ?hi"
  proof -
    have "crc_shifts 0xA001 4 (push_bit 4 ?hi) = drop_bit 4 (push_bit 4 ?hi)"
      by (rule crc_shifts_high) (simp add: bit_simps)
    also have "\<dots> = ?hi" by (rule bit_word_eqI) (auto simp: bit_simps dest: bit_imp_le_length)
    finally show ?thesis .
  qed
  have top: "take_bit 4 (drop_bit 4 t) = drop_bit 4 t"
    by (rule bit_word_eqI) (auto simp: bit_simps dest: bit_imp_le_length)
  have "crc_shifts 0xA001 8 (c XOR ucast t)
      = crc_shifts 0xA001 4 (crc_shifts 0xA001 4 ((c XOR ucast (take_bit 4 t)) XOR push_bit 4 ?hi))"
    using crc_shifts_add [of _ 4 4] by (simp add: byte_nibbles [of t] xor.assoc)
  also have "\<dots> = crc_shifts 0xA001 4 (crc_shifts 0xA001 4 (c XOR ucast (take_bit 4 t)) XOR ?hi)"
    by (simp only: crc_shifts_xor hi)
  also have "\<dots> = crc16_step c t"
    using crc16_nibble [of t c] crc16_nibble [of "drop_bit 4 t"]
    by (simp add: crc16_step_def Let_def top)
  finally show ?thesis ..
qed

lemma crc16_bitwise: "crc16 bs c = crc_bitwise 0xA001 bs c"
  by (induction bs arbitrary: c) (simp_all add: crc_bitwise_def crc16_step_bitwise)

lemma crc32_tab_step:
  "crc32_tab ! unat ((c XOR ucast b) AND 0xFF) XOR drop_bit 8 c
    = crc_shifts 0xEDB88320 8 (c XOR ucast b)" for b :: u8
proof -
  have "take_bit 8 (c XOR ucast b) = (c XOR ucast b) AND 0xFF"
    by (simp add: take_bit_eq_mask mask_eq_exp_minus_1)
  moreover have "drop_bit 8 (c XOR ucast b) = drop_bit 8 c"
    by (rule bit_word_eqI) (auto simp: bit_simps dest: bit_imp_le_length)
  ultimately show ?thesis using hcrc32.table_step [of "c XOR ucast b"] by simp
qed

lemma crc32_hashmap_loop_bitwise: "crc32_hashmap_loop c bs = crc_bitwise 0xEDB88320 bs c"
  by (induction bs arbitrary: c) (simp_all add: crc_bitwise_def crc32_tab_step)

text \<open>
  Property C31: both table driven loops, the nibble loop of \<open>crc16\<close> and the byte loop of
  the hash map, return exactly the remainder that dividing the message bit by bit by the
  polynomial (0xA001, 0xEDB88320, least significant bit first) leaves, for every message
  and, for \<open>crc16\<close>, every start value.
\<close>

theorem crc_routines_divide:
  "crc16 bs c = crc_bitwise 0xA001 bs c \<and> crc32_hashmap bs = crc_bitwise 0xEDB88320 bs 0"
  by (simp add: crc16_bitwise crc32_hashmap_def crc32_hashmap_loop_bitwise)

section \<open>Detected changes\<close>

lemma crc16_append: "crc16 (xs @ ys) c = crc16 ys (crc16 xs c)"
  by (simp add: crc16_bitwise crc_bitwise_append)

lemma crc16_two_bytes:
  "crc16 [a, b] c = crc_shifts 0xA001 16 (c XOR (ucast a XOR push_bit 8 (ucast b)))"
proof -
  have "crc_shifts 0xA001 8 (push_bit 8 (ucast b)) = drop_bit 8 (push_bit 8 (ucast b) :: u16)"
    by (rule crc_shifts_high) (simp add: bit_simps)
  also have "\<dots> = ucast b" by (rule bit_word_eqI) (auto simp: bit_simps dest: bit_imp_le_length)
  finally show ?thesis
    using crc_shifts_add [of "0xA001 :: u16" 8 8]
    by (simp add: crc16_step_bitwise crc_shifts_xor xor.assoc)
qed

lemma two_bytes_inj:
  fixes a b a' b' :: u8
  assumes "(ucast a XOR push_bit 8 (ucast b) :: u16) = ucast a' XOR push_bit 8 (ucast b')"
  shows "a = a' \<and> b = b'"
proof (intro conjI bit_word_eqI)
  have eq: "bit (ucast a XOR push_bit 8 (ucast b) :: u16) n
      \<longleftrightarrow> bit (ucast a' XOR push_bit 8 (ucast b') :: u16) n" for n
    by (simp only: assms)
  fix n assume n: "n < LENGTH(8)"
  show "bit a n \<longleftrightarrow> bit a' n" using eq [of n] n by (simp add: bit_simps)
  have "\<not> bit a (n + 8)" "\<not> bit a' (n + 8)" by (auto dest: bit_imp_le_length)
  then show "bit b n \<longleftrightarrow> bit b' n" using eq [of "n + 8"] n by (simp add: bit_simps)
qed

lemma crc32_append: "crc32 (xs @ ys) c = crc32 ys (crc32 xs c)"
  by (induction xs arbitrary: c) simp_all

text \<open>
  The routine \<open>crc32\<close> shifts to the left although its table belongs to the reflected
  polynomial. It still loses no information, because the low bytes of the table's entries
  are pairwise different.
\<close>

lemma crc_table_low: "\<forall>x \<in> set (tl crc_table). take_bit 8 x \<noteq> 0"
  by code_simp

lemma crc_table_nth: "i < 256 \<Longrightarrow> crc_table ! i = crc_shifts 0xEDB88320 8 (of_nat i)"
  by (simp add: mcrc32.table_law)

lemma byte_take_bit: "unat x < 256 \<longleftrightarrow> take_bit 8 x = x" for x :: u32
  using unat_less_take_bit [of x 8] by simp

lemma crc_table_low_inj:
  fixes i j :: u32
  assumes ij: "unat i < 256" "unat j < 256"
    and eq: "take_bit 8 (crc_table ! unat i) = take_bit 8 (crc_table ! unat j)"
  shows "i = j"
proof (rule ccontr)
  assume "i \<noteq> j"
  let ?d = "i XOR j"
  have "take_bit 8 ?d = ?d" using ij by (simp add: take_bit_xor byte_take_bit)
  then have d: "unat ?d < 256" by (simp add: byte_take_bit)
  have "crc_table ! unat ?d = crc_table ! unat i XOR crc_table ! unat j"
    using ij d by (simp add: crc_table_nth crc_shifts_xor)
  then have "take_bit 8 (crc_table ! unat ?d) = 0"
    using eq by (simp add: take_bit_xor)
  moreover have "unat ?d \<noteq> 0" using \<open>i \<noteq> j\<close> by (simp add: unat_eq_0 word_xor_eq_0)
  then have "crc_table ! unat ?d \<in> set (tl crc_table)"
    using d nth_mem [of "unat ?d - 1" "tl crc_table"] by (simp add: nth_tl mcrc32.table_law)
  ultimately show False using crc_table_low by blast
qed

definition crc32_step :: "u32 \<Rightarrow> u8 \<Rightarrow> u32" where
  "crc32_step c b = push_bit 8 c XOR crc_table ! unat (drop_bit 24 c XOR ucast b)"

lemma crc32_index: "unat (drop_bit 24 c XOR ucast b :: u32) < 256" for b :: u8
  unfolding byte_take_bit
  by (rule bit_word_eqI) (auto simp: bit_simps dest: bit_imp_le_length)

lemma crc32_step_inj:
  assumes "crc32_step c a = crc32_step d b"
  shows "drop_bit 24 c XOR ucast a = (drop_bit 24 d XOR ucast b :: u32)"
    and "push_bit 8 c = push_bit 8 d"
proof -
  have low: "take_bit 8 (push_bit 8 x) = 0" for x :: u32
    by (rule bit_word_eqI) (auto simp: bit_simps)
  have "take_bit 8 (crc_table ! unat (drop_bit 24 c XOR ucast a :: u32))
      = take_bit 8 (crc_table ! unat (drop_bit 24 d XOR ucast b :: u32))"
    using arg_cong [OF assms, of "take_bit 8"] by (simp add: crc32_step_def take_bit_xor low)
  then show i: "drop_bit 24 c XOR ucast a = (drop_bit 24 d XOR ucast b :: u32)"
    by (rule crc_table_low_inj [OF crc32_index crc32_index])
  show "push_bit 8 c = push_bit 8 d"
    using assms by (simp add: crc32_step_def i word_xor_cancel)
qed

lemma crc32_step_state: "crc32_step c b = crc32_step d b \<longleftrightarrow> c = d"
proof
  assume eq: "crc32_step c b = crc32_step d b"
  have "drop_bit 24 c = drop_bit 24 d"
    using crc32_step_inj(1) [OF eq] by (simp only: word_xor_cancel)
  then have high: "bit c (24 + n) \<longleftrightarrow> bit d (24 + n)" for n by (metis bit_drop_bit_eq comp_apply)
  have low: "bit c n \<longleftrightarrow> bit d n" if "n < 24" for n
    using arg_cong [OF crc32_step_inj(2) [OF eq], of "\<lambda>w. bit w (n + 8)"] that
    by (simp add: bit_simps)
  show "c = d"
  proof (rule bit_word_eqI)
    fix n
    show "bit c n \<longleftrightarrow> bit d n" using low high [of "n - 24"] by (cases "n < 24") auto
  qed
qed simp

lemma crc32_state: "crc32 bs c = crc32 bs d \<longleftrightarrow> c = d"
  by (induction bs arbitrary: c d) (simp_all add: crc32_step_state flip: crc32_step_def)

lemma crc32_step_byte: "crc32_step c a = crc32_step c b \<longleftrightarrow> a = b"
proof
  assume "crc32_step c a = crc32_step c b"
  then have "drop_bit 24 c XOR ucast a = (drop_bit 24 c XOR ucast b :: u32)"
    by (rule crc32_step_inj(1))
  then have "(ucast a :: u32) = ucast b" by (simp only: word_xor_cancel)
  then show "a = b" by (rule ucast_byte_inj [rotated]) simp
qed simp

text \<open>
  Property C36: error detection. \<open>crc16\<close> differs whenever a change of the message is confined
  to two adjacent bytes, and \<open>crc32\<close> differs whenever a single byte is changed, whatever
  surrounds the change and whatever the start value is.
\<close>

theorem crc_detects_burst:
  "(crc16 (xs @ a # b # ys) c = crc16 (xs @ a' # b' # ys) c \<longleftrightarrow> a = a' \<and> b = b') \<and>
   (crc32 (xs @ a # ys) d = crc32 (xs @ a' # ys) d \<longleftrightarrow> a = a')"
proof
  have two: "crc16 (xs @ a # b # ys) c = crc16 ys (crc16 [a, b] (crc16 xs c))" for a b
    using crc16_append [of "[a, b]" ys] by (simp add: crc16_append)
  have "crc16 (xs @ a # b # ys) c = crc16 (xs @ a' # b' # ys) c
      \<longleftrightarrow> crc16 [a, b] (crc16 xs c) = crc16 [a', b'] (crc16 xs c)"
    unfolding two by (simp add: crc16_bitwise mcrc16.bitwise_inj_state del: crc16.simps)
  also have "\<dots> \<longleftrightarrow> (ucast a XOR push_bit 8 (ucast b) :: u16) = ucast a' XOR push_bit 8 (ucast b')"
    by (simp only: crc16_two_bytes crc_shifts_inj [OF mcrc16.poly_top] word_xor_cancel)
  also have "\<dots> \<longleftrightarrow> a = a' \<and> b = b'" using two_bytes_inj by blast
  finally show "crc16 (xs @ a # b # ys) c = crc16 (xs @ a' # b' # ys) c \<longleftrightarrow> a = a' \<and> b = b'" .
  show "crc32 (xs @ a # ys) d = crc32 (xs @ a' # ys) d \<longleftrightarrow> a = a'"
    by (simp add: crc32_append crc32_state crc32_step_byte flip: crc32_step_def)
qed

end
