(* ===== verification/Hash_Map.thy ===== *)
theory Hash_Map
  imports Hlist Crc
begin

text \<open>
  The hash map of \<open>tuya_hashmap.c\<close>: buckets of hash lists, elements with a key string and a
  data pointer. One map lives in the state \<open>hashmap_heap\<close>; an element is named by the address
  of its embedded list node and a bucket by its index in \<open>m->list\<close>. The results of
  \<open>tkl_system_malloc\<close> are arguments (\<open>NULL\<close> when it fails), the allocated blocks are listed in
  the state and \<open>hm_fault\<close> records a release of something that is not allocated. \<open>hm_list_bytes\<close> is
  the size of the block that was allocated for the buckets, of which each takes four bytes.
\<close>

section \<open>Model of tuya_hashmap.c\<close>

datatype map_ret = MAP_OK | MAP_OMEM | MAP_MISSING

type_synonym cstring = "u8 list"

record hashmap_heap = hlist_heap +
  el_key :: "addr \<Rightarrow> cstring"
  el_data :: "addr \<Rightarrow> addr"
  hm_size :: u32
  hm_table_size :: u32
  hm_list :: addr
  hm_list_bytes :: u32
  hm_blocks :: "addr list"
  hm_fault :: bool

definition hm_malloc :: "addr \<Rightarrow> hashmap_heap \<Rightarrow> hashmap_heap" where
  "hm_malloc p h = h\<lparr>hm_blocks := p # hm_blocks h\<rparr>"

definition hm_free :: "addr \<Rightarrow> hashmap_heap \<Rightarrow> hashmap_heap" where
  "hm_free p h =
     (if p \<in> set (hm_blocks h) then h\<lparr>hm_blocks := remove1 p (hm_blocks h)\<rparr> else h\<lparr>hm_fault := True\<rparr>)"

definition set_element :: "addr \<Rightarrow> cstring \<Rightarrow> addr \<Rightarrow> hashmap_heap \<Rightarrow> hashmap_heap" where
  "set_element e key data h =
     h\<lparr>el_key := (el_key h)(e := key), el_data := (el_data h)(e := data)\<rparr>"

text \<open>
  The hash of a key before it is reduced to the size of the table: the CRC, Jenkins' mix
  function and Knuth's multiplication, all modulo \<open>2 ^ 32\<close>.
\<close>

definition hashmap_mix :: "u32 \<Rightarrow> u32" where
  "hashmap_mix key =
     (let key = key + push_bit 12 key;
          key = key XOR drop_bit 22 key;
          key = key + push_bit 4 key;
          key = key XOR drop_bit 9 key;
          key = key + push_bit 10 key;
          key = key XOR drop_bit 2 key;
          key = key + push_bit 7 key;
          key = key XOR drop_bit 12 key
      in drop_bit 3 key * 2654435761)"

definition hashmap_hash_int :: "u32 \<Rightarrow> cstring \<Rightarrow> nat" where
  "hashmap_hash_int table_size keystring =
     unat (hashmap_mix (crc32_hashmap keystring) mod table_size)"

text \<open>
  \<open>strlen(a) == strlen(b) && strcmp(a, b) == 0\<close>.
\<close>

definition key_match :: "cstring \<Rightarrow> cstring \<Rightarrow> bool" where
  "key_match a b \<longleftrightarrow> length a = length b \<and> a = b"

text \<open>
  The loop of the two searches, \<open>HLIST_FOR_EACH_ENTRY\<close> and \<open>HLIST_FOR_EACH_ENTRY_CURR\<close>. It need
  not end on a damaged list, hence the option type.
\<close>

partial_function (option) find_loop :: "hashmap_heap \<Rightarrow> cstring \<Rightarrow> addr \<Rightarrow> addr option" where
  "find_loop h key pos =
     (if pos = NULL then Some NULL
      else if key_match key (el_key h pos) then Some pos
      else find_loop h key (hl_next h pos))"

definition hash_find_next_element :: "addr \<Rightarrow> hashmap_heap \<Rightarrow> addr option" where
  "hash_find_next_element cur h = find_loop h (el_key h cur) (hl_next h cur)"

definition hash_find :: "cstring \<Rightarrow> hashmap_heap \<Rightarrow> addr option" where
  "hash_find key h =
     (let cur = hashmap_hash_int (hm_table_size h) key in
      if tuya_hlist_empty h cur then Some NULL else find_loop h key (hl_first h cur))"

definition tuya_hashmap_free :: "addr \<Rightarrow> hashmap_heap \<Rightarrow> hashmap_heap" where
  "tuya_hashmap_free m h =
     (let h = (if hm_list h \<noteq> NULL then hm_free (hm_list h) h else h) in hm_free m h)"

text \<open>
  The size of the bucket array is a product of 32 bits, which wraps; the \<open>memset\<close> clears that many
  bytes.
\<close>

definition tuya_hashmap_new :: "addr \<Rightarrow> addr \<Rightarrow> u32 \<Rightarrow> hashmap_heap \<Rightarrow> addr \<times> hashmap_heap" where
  "tuya_hashmap_new m_mem list_mem table_size h =
     (if table_size = 0 then (NULL, h)
      else if m_mem = NULL then (NULL, h)
      else
        let h = (hm_malloc m_mem h)\<lparr>hm_size := 0, hm_table_size := 0, hm_list := NULL\<rparr> in
        if list_mem = NULL then (NULL, tuya_hashmap_free m_mem h)
        else
          let bytes = table_size * 4 in
          (m_mem, (hm_malloc list_mem h)\<lparr>hm_list := list_mem, hm_list_bytes := bytes,
             hl_first := (\<lambda>i. if 4 * i < unat bytes then NULL else hl_first h i),
             hm_table_size := table_size\<rparr>))"

definition tuya_hashmap_put ::
    "addr \<Rightarrow> cstring \<Rightarrow> addr \<Rightarrow> hashmap_heap \<Rightarrow> map_ret \<times> hashmap_heap" where
  "tuya_hashmap_put mem key data h =
     (if mem = NULL then (MAP_OMEM, h)
      else
        let element = mem;
            h = hm_malloc element h;
            h = set_pprev element Null_cell (set_hl_next element NULL h);
            h = set_element element key data h;
            cur = hashmap_hash_int (hm_table_size h) (el_key h element);
            h = tuya_hlist_add_head element cur h
        in (MAP_OK, h\<lparr>hm_size := hm_size h + 1\<rparr>))"

definition tuya_hashmap_get :: "cstring \<Rightarrow> hashmap_heap \<Rightarrow> (map_ret \<times> addr) option" where
  "tuya_hashmap_get key h =
     map_option (\<lambda>element. if element = NULL then (MAP_MISSING, NULL) else (MAP_OK, el_data h element))
       (hash_find key h)"

text \<open>
  The iterator of a traversal is the address of the data field of the current element; it is
  represented by the element.
\<close>

definition tuya_hashmap_data_traversal ::
    "cstring \<Rightarrow> addr \<Rightarrow> hashmap_heap \<Rightarrow> (map_ret \<times> addr) option" where
  "tuya_hashmap_data_traversal key iter h =
     map_option (\<lambda>element. if element = NULL then (MAP_MISSING, NULL) else (MAP_OK, element))
       (if iter = NULL then hash_find key h else hash_find_next_element iter h)"

text \<open>
  The loop of \<open>tuya_hashmap_remove\<close>: it returns the value that \<open>tmp_element\<close> is left with.
\<close>

partial_function (option) remove_loop ::
    "hashmap_heap \<Rightarrow> cstring \<Rightarrow> addr \<Rightarrow> addr \<Rightarrow> addr \<Rightarrow> addr option" where
  "remove_loop h key data pos tmp_element =
     (if pos = NULL then Some tmp_element
      else if key_match key (el_key h pos) \<and> (data = NULL \<or> el_data h pos = data) then Some pos
      else remove_loop h key data (hl_next h pos) pos)"

definition tuya_hashmap_remove ::
    "cstring \<Rightarrow> addr \<Rightarrow> hashmap_heap \<Rightarrow> (map_ret \<times> hashmap_heap) option" where
  "tuya_hashmap_remove key data h =
     (let cur = hashmap_hash_int (hm_table_size h) key in
      if tuya_hlist_empty h cur then Some (MAP_MISSING, h)
      else map_option (\<lambda>tmp_element.
             if tmp_element = NULL then (MAP_MISSING, h)
             else
               let h = hlist_del_raw tmp_element h; h = hm_free tmp_element h
               in (MAP_OK, h\<lparr>hm_size := hm_size h - 1\<rparr>))
             (remove_loop h key data (hl_first h cur) NULL))"

definition tuya_hashmap_length :: "addr \<Rightarrow> hashmap_heap \<Rightarrow> u32" where
  "tuya_hashmap_length m h = (if m \<noteq> NULL then hm_size h else 0)"

section \<open>Invariant and abstraction\<close>

text \<open>
  The buckets \<open>B\<close> are well-formed and disjoint, every element is an allocated block in the
  bucket its key hashes to, and the size counts the elements (modulo \<open>2 ^ 32\<close>).
\<close>

abbreviation bucket_of :: "hashmap_heap \<Rightarrow> cstring \<Rightarrow> nat" where
  "bucket_of h key \<equiv> hashmap_hash_int (hm_table_size h) key"

abbreviation bucket_count :: "hashmap_heap \<Rightarrow> nat" where
  "bucket_count h \<equiv> unat (hm_table_size h)"

definition hashmap_inv :: "hashmap_heap \<Rightarrow> (nat \<Rightarrow> addr list) \<Rightarrow> bool" where
  "hashmap_inv h B \<longleftrightarrow>
     hm_table_size h \<noteq> 0 \<and> hash_table h (bucket_count h) B \<and>
     (\<forall>i < bucket_count h. \<forall>e \<in> set (B i). bucket_of h (el_key h e) = i \<and> e \<in> set (hm_blocks h)) \<and>
     distinct (hm_blocks h) \<and>
     hm_size h = of_nat (\<Sum>i < bucket_count h. length (B i)) \<and> \<not> hm_fault h"

text \<open>
  The abstract value of a map: for every key the data stored under it, the newest first.
\<close>

type_synonym multimap = "cstring \<Rightarrow> addr list"

definition key_elements :: "hashmap_heap \<Rightarrow> (nat \<Rightarrow> addr list) \<Rightarrow> cstring \<Rightarrow> addr list" where
  "key_elements h B key = filter (\<lambda>e. el_key h e = key) (B (bucket_of h key))"

definition hm_values :: "hashmap_heap \<Rightarrow> (nat \<Rightarrow> addr list) \<Rightarrow> multimap" where
  "hm_values h B key = map (el_data h) (key_elements h B key)"

lemma bucket_of_less: "hm_table_size h \<noteq> 0 \<Longrightarrow> bucket_of h key < bucket_count h"
  by (simp add: hashmap_hash_int_def word_mod_less_divisor word_gt_0 flip: word_less_nat_alt)

lemma inv_bucket:
  "hashmap_inv h B \<Longrightarrow> bucket_of h key < bucket_count h \<and> hlist h (bucket_of h key) (B (bucket_of h key))"
  by (simp add: hashmap_inv_def hash_table_def bucket_of_less)

lemma hm_ops_fields [heap_simps]:
  "el_key (tuya_hlist_add_head n i h) = el_key h" "el_data (tuya_hlist_add_head n i h) = el_data h"
  "hm_size (tuya_hlist_add_head n i h) = hm_size h" "hm_blocks (tuya_hlist_add_head n i h) = hm_blocks h"
  "hm_table_size (tuya_hlist_add_head n i h) = hm_table_size h"
  "hm_fault (tuya_hlist_add_head n i h) = hm_fault h"
  "el_key (hlist_del_raw n h) = el_key h" "el_data (hlist_del_raw n h) = el_data h"
  "hm_size (hlist_del_raw n h) = hm_size h" "hm_blocks (hlist_del_raw n h) = hm_blocks h"
  "hm_table_size (hlist_del_raw n h) = hm_table_size h" "hm_fault (hlist_del_raw n h) = hm_fault h"
  by (simp_all add: hl_ops store_def set_first_def set_pprev_def set_hl_next_def split: hl_cell.split)

text \<open>
  Following the \<open>next\<close> fields from a position visits the nodes that are listed.
\<close>

fun follows :: "'a hlist_heap_scheme \<Rightarrow> addr \<Rightarrow> addr list \<Rightarrow> bool" where
  "follows h pos [] \<longleftrightarrow> pos = NULL"
| "follows h pos (n # ns) \<longleftrightarrow> n \<noteq> NULL \<and> pos = n \<and> follows h (hl_next h n) ns"

lemma hend_follows: "hend h c ns \<Longrightarrow> follows h (deref h c) ns"
  by (induction ns arbitrary: c) (auto simp: hl_next_deref)

lemma hlist_follows: "hlist h i ns \<Longrightarrow> follows h (hl_first h i) ns"
  using hlist_append [of h i "[]" ns] hend_follows [of h "First i" ns] by (simp add: hl_first_deref)

lemma hlist_follows_next: "hlist h i (xs @ n # ys) \<Longrightarrow> follows h (hl_next h n) ys"
  using hend_follows [OF hlist_splitD(6)] by (simp add: hl_next_deref)

text \<open>
  The searches end on such lists. The search for a key returns the first element that has
  it; the search of the removal falls back to the last element it saw.
\<close>

definition first_or :: "addr \<Rightarrow> addr list \<Rightarrow> addr" where
  "first_or d es = (if es = [] then d else hd es)"

lemma find_loop_follows:
  "follows h pos ns \<Longrightarrow> find_loop h key pos = Some (first_or NULL (filter (\<lambda>e. el_key h e = key) ns))"
  by (induction ns arbitrary: pos; subst find_loop.simps) (auto simp: key_match_def first_or_def)

lemma remove_loop_follows:
  "follows h pos ns \<Longrightarrow> remove_loop h key data pos tmp =
     Some (first_or (last (tmp # ns))
       (filter (\<lambda>e. el_key h e = key \<and> (data = NULL \<or> el_data h e = data)) ns))"
  by (induction ns arbitrary: pos tmp; subst remove_loop.simps)
    (auto simp: key_match_def first_or_def)

lemma hash_find_inv:
  assumes "hashmap_inv h B"
  shows "hash_find key h = Some (first_or NULL (key_elements h B key))"
proof -
  have L: "hlist h (bucket_of h key) (B (bucket_of h key))" using inv_bucket [OF assms] by simp
  show ?thesis
    using find_loop_follows [OF hlist_follows [OF L], of key] hlist_empty_iff [OF L]
    by (auto simp: hash_find_def Let_def key_elements_def first_or_def)
qed

lemma key_elements_nonnull: "hashmap_inv h B \<Longrightarrow> NULL \<notin> set (key_elements h B key)"
  using hlist_nonnull inv_bucket by (fastforce simp: key_elements_def)

lemma hashmap_get_inv:
  assumes "hashmap_inv h B"
  shows "tuya_hashmap_get key h = Some (case hm_values h B key of
           [] \<Rightarrow> (MAP_MISSING, NULL) | d # _ \<Rightarrow> (MAP_OK, d))"
  using key_elements_nonnull [OF assms, of key]
  by (cases "key_elements h B key")
    (auto simp: tuya_hashmap_get_def hash_find_inv [OF assms] hm_values_def first_or_def)

section \<open>The operations keep the invariant\<close>

lemma sum_length_upd:
  assumes "i < (T :: nat)"
  shows "(\<Sum>j < T. length ((B(i := v)) j)) + length (B i) = (\<Sum>j < T. length (B j)) + length v"
proof -
  have "(\<Sum>j < T. length (C j)) = length (C i) + (\<Sum>j \<in> {..<T} - {i}. length (C j))" for C :: "nat \<Rightarrow> 'a list"
    using assms by (intro sum.remove) auto
  from this [of B] this [of "B(i := v)"] show ?thesis by simp
qed

lemma hash_table_frame:
  assumes "hash_table h T B"
    and "\<And>i. i < T \<Longrightarrow> hl_first h' i = hl_first h i"
    and "\<And>i n. i < T \<Longrightarrow> n \<in> set (B i) \<Longrightarrow> hl_next h' n = hl_next h n \<and> hl_pprev h' n = hl_pprev h n"
  shows "hash_table h' T B"
  using assms by (auto simp: hash_table_def intro: hlist_frame)

lemma hashmap_put_inv:
  fixes key data
  assumes inv: "hashmap_inv h B" and mem: "mem \<noteq> NULL" "mem \<notin> set (hm_blocks h)"
  defines "i \<equiv> bucket_of h key"
  obtains h' where "tuya_hashmap_put mem key data h = (MAP_OK, h')"
    and "hashmap_inv h' (B(i := mem # B i))"
    and "hm_values h' (B(i := mem # B i)) = (hm_values h B)(key := data # hm_values h B key)"
    and "hm_size h' = hm_size h + 1" and "hm_table_size h' = hm_table_size h"
proof -
  let ?h1 = "set_element mem key data (set_pprev mem Null_cell (set_hl_next mem NULL (hm_malloc mem h)))"
  let ?h2 = "tuya_hlist_add_head mem i ?h1"
  let ?h' = "?h2\<lparr>hm_size := hm_size ?h2 + 1\<rparr>" and ?B = "B(i := mem # B i)"
  have f1: "hm_table_size ?h1 = hm_table_size h" "el_key ?h1 = (el_key h)(mem := key)"
      "el_data ?h1 = (el_data h)(mem := data)" "hm_blocks ?h1 = mem # hm_blocks h"
      "hm_size ?h1 = hm_size h" "hm_fault ?h1 = hm_fault h"
    by (simp_all add: set_element_def set_pprev_def set_hl_next_def hm_malloc_def)
  have i: "i < bucket_count h" using inv_bucket [OF inv] by (simp add: i_def)
  have new: "mem \<notin> set (B j)" if "j < bucket_count h" for j
    using inv mem that by (auto simp: hashmap_inv_def)
  have "hash_table ?h1 (bucket_count h) B"
  proof (rule hash_table_frame [of h])
    show "hash_table h (bucket_count h) B" using inv by (simp add: hashmap_inv_def)
  qed (use new in \<open>auto simp: set_element_def set_pprev_def set_hl_next_def hm_malloc_def\<close>)
  from hl.table_add [OF this i mem(1) new]
  have "hash_table ?h2 (bucket_count h) ?B" by simp
  then have T: "hash_table ?h' (bucket_count h) ?B"
    by (rule hash_table_frame) simp_all
  have "(\<Sum>j < bucket_count h. length (?B j)) = Suc (\<Sum>j < bucket_count h. length (B j))"
    using sum_length_upd [OF i, of B "mem # B i"] by simp
  then have "hashmap_inv ?h' ?B"
    using inv mem T i new unfolding hashmap_inv_def
    by (auto simp: heap_simps f1 i_def)
  moreover have "hm_values ?h' ?B k = ((hm_values h B)(key := data # hm_values h B key)) k" for k
  proof -
    have "bucket_of h k < bucket_count h" using inv_bucket [OF inv] by simp
    from new [OF this] show ?thesis
      by (auto simp: hm_values_def key_elements_def heap_simps f1 i_def intro!: arg_cong [where f = "map (el_data h)"] filter_cong)
  qed
  ultimately show thesis
    using mem(1) by (intro that [of ?h']) (auto simp: tuya_hashmap_put_def Let_def f1 i_def heap_simps)
qed

text \<open>
  Unlinking and releasing the element \<open>e\<close> of the bucket of a key.
\<close>

lemma hashmap_drop_inv:
  assumes inv: "hashmap_inv h B" and i: "i < bucket_count h" and s: "B i = xs @ e # ys"
  defines "h' \<equiv> hm_free e (hlist_del_raw e h)"
  shows "hashmap_inv (h'\<lparr>hm_size := hm_size h' - 1\<rparr>) (B(i := xs @ ys))"
    and "hm_table_size h' = hm_table_size h" "el_key h' = el_key h" "el_data h' = el_data h"
    and "hm_size h' = hm_size h"
proof -
  have e: "e \<in> set (hm_blocks h)" using inv i s by (auto simp: hashmap_inv_def)
  have f: "hm_table_size h' = hm_table_size h" "el_key h' = el_key h" "el_data h' = el_data h"
      "hm_size h' = hm_size h" "hm_blocks h' = remove1 e (hm_blocks h)" "hm_fault h' = hm_fault h"
    using e by (simp_all add: h'_def hm_free_def heap_simps)
  have "hash_table (hlist_del_raw e h) (bucket_count h) (B(i := xs @ ys))"
    using inv i s by (intro hl.table_del) (auto simp: hashmap_inv_def)
  then have T: "hash_table (h'\<lparr>hm_size := hm_size h' - 1\<rparr>) (bucket_count h) (B(i := xs @ ys))"
    by (rule hash_table_frame) (simp_all add: h'_def hm_free_def)
  have "(\<Sum>j < bucket_count h. length (B j)) = Suc (\<Sum>j < bucket_count h. length ((B(i := xs @ ys)) j))"
    using sum_length_upd [OF i, of B "xs @ ys"] s by simp
  then have size: "hm_size h - 1 = of_nat (\<Sum>j < bucket_count h. length ((B(i := xs @ ys)) j))"
    using inv by (simp add: hashmap_inv_def)
  have mem: "bucket_of h (el_key h x) = j \<and> x \<in> set (remove1 e (hm_blocks h))"
    if j: "j < bucket_count h" and x: "x \<in> set ((B(i := xs @ ys)) j)" for j x
  proof -
    have xj: "x \<in> set (B j)" using x s by (auto split: if_splits)
    have B: "bucket_of h (el_key h x) = j" "x \<in> set (hm_blocks h)" and "distinct (B i)"
      using inv j xj i by (auto simp: hashmap_inv_def hash_table_def hlist_def)
    have "x \<noteq> e"
    proof
      assume "x = e"
      moreover have "bucket_of h (el_key h e) = i" using inv i s by (auto simp: hashmap_inv_def)
      ultimately have "j = i" using B(1) by simp
      with x \<open>x = e\<close> \<open>distinct (B i)\<close> s show False by auto
    qed
    with B show ?thesis by simp
  qed
  show "hashmap_inv (h'\<lparr>hm_size := hm_size h' - 1\<rparr>) (B(i := xs @ ys))"
    using inv T size mem unfolding hashmap_inv_def by (simp add: f)
  show "hm_table_size h' = hm_table_size h" "el_key h' = el_key h" "el_data h' = el_data h"
    "hm_size h' = hm_size h"
    by (fact f)+
qed

abbreviation removable :: "hashmap_heap \<Rightarrow> cstring \<Rightarrow> addr \<Rightarrow> addr \<Rightarrow> bool" where
  "removable h key data e \<equiv> el_key h e = key \<and> (data = NULL \<or> el_data h e = data)"

text \<open>
  What the removal does: nothing on an empty bucket; otherwise it drops the first element
  that matches or, when none does, the last element of the bucket.
\<close>

lemma hashmap_remove_cases:
  fixes key data
  assumes inv: "hashmap_inv h B"
  defines "i \<equiv> bucket_of h key"
  defines "e \<equiv> first_or (last (NULL # B i)) (filter (removable h key data) (B i))"
  shows "tuya_hashmap_remove key data h =
    (if B i = [] then Some (MAP_MISSING, h)
     else let h' = hm_free e (hlist_del_raw e h) in Some (MAP_OK, h'\<lparr>hm_size := hm_size h' - 1\<rparr>))"
    and "B i \<noteq> [] \<Longrightarrow> e \<in> set (B i)"
proof -
  have L: "hlist h i (B i)" using inv_bucket [OF inv] by (simp add: i_def)
  have mem: "B i \<noteq> [] \<Longrightarrow> e \<in> set (B i)"
    using hd_in_set [of "filter (removable h key data) (B i)"]
    by (auto simp: e_def first_or_def simp del: hd_in_set)
  then show "B i \<noteq> [] \<Longrightarrow> e \<in> set (B i)" .
  have loop: "remove_loop h key data (hl_first h i) NULL = Some e"
    unfolding e_def by (rule remove_loop_follows [OF hlist_follows [OF L]])
  have "B i \<noteq> [] \<Longrightarrow> e \<noteq> NULL" using mem hlist_nonnull [OF L] by metis
  then show "tuya_hashmap_remove key data h =
    (if B i = [] then Some (MAP_MISSING, h)
     else let h' = hm_free e (hlist_del_raw e h) in Some (MAP_OK, h'\<lparr>hm_size := hm_size h' - 1\<rparr>))"
    using loop hlist_empty_iff [OF L]
    unfolding tuya_hashmap_remove_def Let_def i_def [symmetric] by auto
qed

lemma split_first:
  "filter P xs = e # es \<Longrightarrow> \<exists>us vs. xs = us @ e # vs \<and> (\<forall>u \<in> set us. \<not> P u) \<and> P e"
  by (auto simp: filter_eq_Cons_iff)

text \<open>
  The abstract removal of a value.
\<close>

definition spec_drop :: "addr \<Rightarrow> addr list \<Rightarrow> addr list" where
  "spec_drop data vs = (if data = NULL then tl vs else remove1 data vs)"

lemma remove1_map_first:
  assumes "\<forall>u \<in> set us. f u \<noteq> d" and "f e = d"
  shows "remove1 d (map f (us @ e # vs)) = map f (us @ vs)"
  using assms by (induction us) auto

lemma hashmap_remove_inv:
  fixes key data
  assumes inv: "hashmap_inv h B" and ex: "\<exists>v \<in> set (hm_values h B key). data = NULL \<or> v = data"
  obtains h' B' where "tuya_hashmap_remove key data h = Some (MAP_OK, h')"
    and "hashmap_inv h' B'" and "hm_values h' B' = (hm_values h B)(key := spec_drop data (hm_values h B key))"
    and "hm_size h' = hm_size h - 1" and "hm_table_size h' = hm_table_size h"
proof -
  let ?i = "bucket_of h key" and ?P = "removable h key data"
  have "\<exists>e \<in> set (B ?i). ?P e" using ex by (auto simp: hm_values_def key_elements_def)
  then have "filter ?P (B ?i) \<noteq> []" by (auto simp: filter_empty_conv)
  then obtain e es where "filter ?P (B ?i) = e # es" using neq_Nil_conv [THEN iffD1] by blast
  then have first: "first_or (last (NULL # B ?i)) (filter ?P (B ?i)) = e"
    unfolding first_or_def by (simp only: list.simps if_False list.sel)
  from split_first [OF \<open>filter ?P (B ?i) = e # es\<close>] obtain us vs
    where s: "B ?i = us @ e # vs" "\<forall>u \<in> set us. \<not> ?P u" "?P e" by blast
  define h' where "h' = hm_free e (hlist_del_raw e h)"
  have "B ?i \<noteq> []" using s(1) by simp
  then have r: "tuya_hashmap_remove key data h = Some (MAP_OK, h'\<lparr>hm_size := hm_size h' - 1\<rparr>)"
    unfolding hashmap_remove_cases(1) [OF inv] first h'_def Let_def by (rule if_not_P)
  have "?i < bucket_count h" using inv_bucket [OF inv] by simp
  note D = hashmap_drop_inv [OF inv this s(1), folded h'_def]
  have "hm_values (h'\<lparr>hm_size := hm_size h' - 1\<rparr>) (B(?i := us @ vs)) k
      = ((hm_values h B)(key := spec_drop data (hm_values h B key))) k" for k
  proof (cases "k = key")
    case True
    let ?f = "filter (\<lambda>e. el_key h e = key)"
    have v: "hm_values h B key = map (el_data h) (?f us @ e # ?f vs)"
      using s by (simp add: hm_values_def key_elements_def)
    have "spec_drop data (hm_values h B key) = map (el_data h) (?f us @ ?f vs)"
    proof (cases "data = NULL")
      case True
      then have "?f us = []" using s(2) by (auto simp: filter_empty_conv)
      then show ?thesis using True by (simp add: v spec_drop_def)
    next
      case False
      then have "\<forall>u \<in> set (?f us). el_data h u \<noteq> data" and "el_data h e = data" using s(2,3) by auto
      then show ?thesis unfolding v spec_drop_def using False remove1_map_first by metis
    qed
    then show ?thesis using True D(2-4) by (simp add: hm_values_def key_elements_def)
  next
    case False
    then show ?thesis using s D(2-4) by (auto simp: hm_values_def key_elements_def)
  qed
  then show thesis by (intro that [OF r D(1)]) (auto simp: D)
qed

lemma bucket_bytes: "4 * unat table_size < 2 ^ 32 \<Longrightarrow> unat (table_size * 4 :: u32) = 4 * unat table_size"
  by (simp add: unat_word_ariths)

lemma hashmap_new_inv:
  assumes "table_size \<noteq> 0" "4 * unat table_size < 2 ^ 32" and "m_mem \<noteq> NULL" "list_mem \<noteq> NULL"
    and "distinct (list_mem # m_mem # hm_blocks h)" and "\<not> hm_fault h"
  obtains h' where "tuya_hashmap_new m_mem list_mem table_size h = (m_mem, h')"
    and "hashmap_inv h' (\<lambda>_. [])" and "hm_values h' (\<lambda>_. []) = (\<lambda>_. [])" and "hm_size h' = 0"
    and "unat (hm_list_bytes h') = 4 * unat (hm_table_size h')"
proof -
  obtain h' where h': "tuya_hashmap_new m_mem list_mem table_size h = (m_mem, h')"
    using assms by (simp add: tuya_hashmap_new_def Let_def)
  then have f: "hm_size h' = 0" "hm_table_size h' = table_size" "hm_blocks h' = list_mem # m_mem # hm_blocks h"
      "hm_fault h' = hm_fault h" "\<And>i. i < unat table_size \<Longrightarrow> hl_first h' i = NULL"
      "unat (hm_list_bytes h') = 4 * unat (hm_table_size h')"
    using assms bucket_bytes [OF assms(2)] by (auto simp: tuya_hashmap_new_def Let_def hm_malloc_def)
  have "hashmap_inv h' (\<lambda>_. [])"
    using assms by (simp add: hashmap_inv_def hash_table_def hlist_Nil f)
  then show thesis by (rule that [OF h' _ _ f(1,6)]) (simp add: hm_values_def key_elements_def fun_eq_iff)
qed

text \<open>
  Without the bound the block is smaller than the buckets that the map uses.
\<close>

lemma hashmap_new_size_wraps:
  assumes "2 ^ 32 \<le> 4 * unat table_size" and "m_mem \<noteq> NULL" "list_mem \<noteq> NULL"
    and "tuya_hashmap_new m_mem list_mem table_size h = (m, h')"
  shows "m = m_mem \<and> unat (hm_list_bytes h') < 4 * unat (hm_table_size h')"
proof -
  have "table_size \<noteq> 0" using assms(1) by auto
  then have "m = m_mem" "hm_list_bytes h' = table_size * 4" "hm_table_size h' = table_size"
    using assms(2-) by (auto simp: tuya_hashmap_new_def Let_def)
  moreover have "unat (table_size * 4) < 2 ^ 32" using unat_bound [of "table_size * 4"] by simp
  ultimately show ?thesis using assms(1) by simp
qed

section \<open>Refinement of a multimap\<close>

text \<open>
  Sequences of operations, on the hash map and on its specification: for every key a list of
  values, and the number of elements modulo \<open>2 ^ 32\<close>.
\<close>

datatype hm_op = Op_put addr cstring addr | Op_get cstring | Op_remove cstring addr

fun hm_step :: "hm_op \<Rightarrow> hashmap_heap \<Rightarrow> ((map_ret \<times> addr) \<times> hashmap_heap) option" where
  "hm_step (Op_put mem key data) h = (case tuya_hashmap_put mem key data h of (r, h') \<Rightarrow> Some ((r, NULL), h'))"
| "hm_step (Op_get key) h = map_option (\<lambda>r. (r, h)) (tuya_hashmap_get key h)"
| "hm_step (Op_remove key data) h = map_option (\<lambda>(r, h'). ((r, NULL), h')) (tuya_hashmap_remove key data h)"

fun hm_spec :: "hm_op \<Rightarrow> multimap \<times> u32 \<Rightarrow> (map_ret \<times> addr) \<times> (multimap \<times> u32)" where
  "hm_spec (Op_put mem key data) (M, n) =
     (if mem = NULL then ((MAP_OMEM, NULL), (M, n)) else ((MAP_OK, NULL), (M(key := data # M key), n + 1)))"
| "hm_spec (Op_get key) (M, n) =
     (case M key of [] \<Rightarrow> (MAP_MISSING, NULL) | d # _ \<Rightarrow> (MAP_OK, d), (M, n))"
| "hm_spec (Op_remove key data) (M, n) = ((MAP_OK, NULL), (M(key := spec_drop data (M key)), n - 1))"

text \<open>
  What the caller and the allocator owe: a block returned by the allocator is new, and only
  what is in the map is removed.
\<close>

fun hm_op_ok :: "hm_op \<Rightarrow> hashmap_heap \<Rightarrow> multimap \<Rightarrow> bool" where
  "hm_op_ok (Op_put mem key data) h M \<longleftrightarrow> mem \<notin> set (hm_blocks h)"
| "hm_op_ok (Op_get key) h M \<longleftrightarrow> True"
| "hm_op_ok (Op_remove key data) h M \<longleftrightarrow> (\<exists>v \<in> set (M key). data = NULL \<or> v = data)"

fun hm_run :: "hm_op list \<Rightarrow> hashmap_heap \<Rightarrow> ((map_ret \<times> addr) list \<times> hashmap_heap) option" where
  "hm_run [] h = Some ([], h)"
| "hm_run (op # ops) h =
     Option.bind (hm_step op h) (\<lambda>(r, h'). map_option (\<lambda>(rs, h''). (r # rs, h'')) (hm_run ops h'))"

fun hm_spec_run :: "hm_op list \<Rightarrow> multimap \<times> u32 \<Rightarrow> (map_ret \<times> addr) list \<times> (multimap \<times> u32)" where
  "hm_spec_run [] s = ([], s)"
| "hm_spec_run (op # ops) s =
     (let (r, s') = hm_spec op s; (rs, s'') = hm_spec_run ops s' in (r # rs, s''))"

fun hm_ops_ok :: "hm_op list \<Rightarrow> hashmap_heap \<Rightarrow> multimap \<times> u32 \<Rightarrow> bool" where
  "hm_ops_ok [] h s \<longleftrightarrow> True"
| "hm_ops_ok (op # ops) h s \<longleftrightarrow> hm_op_ok op h (fst s) \<and>
     (case hm_step op h of None \<Rightarrow> True | Some (r, h') \<Rightarrow> hm_ops_ok ops h' (snd (hm_spec op s)))"

definition hm_abs :: "hashmap_heap \<Rightarrow> multimap \<times> u32 \<Rightarrow> bool" where
  "hm_abs h s \<longleftrightarrow> (\<exists>B. hashmap_inv h B \<and> hm_values h B = fst s \<and> hm_size h = snd s)"

lemma hm_step_refines:
  assumes "hm_abs h s" and "hm_op_ok op h (fst s)"
  shows "\<exists>r h' s'. hm_step op h = Some (r, h') \<and> hm_spec op s = (r, s') \<and> hm_abs h' s'"
proof -
  obtain M n B where s: "s = (M, n)" and inv: "hashmap_inv h B" and v: "hm_values h B = M" "hm_size h = n"
    using assms(1) by (cases s) (auto simp: hm_abs_def)
  show ?thesis
  proof (cases op)
    case (Op_put mem key data)
    show ?thesis
    proof (cases "mem = NULL")
      case True
      then show ?thesis using assms(1) s Op_put by (simp add: tuya_hashmap_put_def)
    next
      case False
      have "mem \<notin> set (hm_blocks h)" using assms(2) Op_put by simp
      then obtain h' B' where "tuya_hashmap_put mem key data h = (MAP_OK, h')" "hashmap_inv h' B'"
        "hm_values h' B' = (hm_values h B)(key := data # hm_values h B key)" "hm_size h' = hm_size h + 1"
        using hashmap_put_inv [OF inv False] by metis
      then show ?thesis using s v False Op_put by (auto simp: hm_abs_def)
    qed
  next
    case (Op_get key)
    then show ?thesis using assms(1) hashmap_get_inv [OF inv] s v by simp
  next
    case (Op_remove key data)
    then have "\<exists>x \<in> set (hm_values h B key). data = NULL \<or> x = data" using assms(2) s v by simp
    then obtain h' B' where "tuya_hashmap_remove key data h = Some (MAP_OK, h')" "hashmap_inv h' B'"
      "hm_values h' B' = (hm_values h B)(key := spec_drop data (hm_values h B key))" "hm_size h' = hm_size h - 1"
      using hashmap_remove_inv [OF inv] by metis
    then show ?thesis using s v Op_remove by (auto simp: hm_abs_def)
  qed
qed

lemma hm_run_refines:
  "hm_abs h s \<Longrightarrow> hm_ops_ok ops h s \<Longrightarrow>
     \<exists>h'. hm_run ops h = Some (fst (hm_spec_run ops s), h') \<and> hm_abs h' (snd (hm_spec_run ops s))"
proof (induction ops arbitrary: h s)
  case (Cons op ops)
  obtain r h1 s1 where st: "hm_step op h = Some (r, h1)" "hm_spec op s = (r, s1)" "hm_abs h1 s1"
    using hm_step_refines [OF Cons.prems(1), of op] Cons.prems(2) by auto
  have "hm_ops_ok ops h1 s1" using Cons.prems(2) st by simp
  from Cons.IH [OF st(3) this] show ?case using st by (auto split: prod.split)
qed simp

text \<open>
  Property C6: a new hash map behaves like a multimap. The buckets of a map whose bucket array
  is smaller than \<open>2 ^ 32\<close> bytes lie in the block allocated for them, and every sequence of
  insertions, lookups and removals of present elements ends, returns what the multimap returns
  (values of a key newest first, whatever other keys share its bucket), and leaves the element count
  of the multimap; nothing is freed that is not allocated.
\<close>

theorem hashmap_refines_multimap:
  assumes "table_size \<noteq> 0" "4 * unat table_size < 2 ^ 32" and "m_mem \<noteq> NULL" "list_mem \<noteq> NULL"
    and "distinct (list_mem # m_mem # hm_blocks h)" and "\<not> hm_fault h"
    and "tuya_hashmap_new m_mem list_mem table_size h = (m, h0)"
    and "hm_ops_ok ops h0 (\<lambda>_. [], 0)"
  shows "m = m_mem \<and> unat (hm_list_bytes h0) = 4 * unat (hm_table_size h0) \<and>
    (\<exists>h'. hm_run ops h0 = Some (fst (hm_spec_run ops (\<lambda>_. [], 0)), h') \<and>
      tuya_hashmap_length m_mem h' = snd (snd (hm_spec_run ops (\<lambda>_. [], 0))) \<and> \<not> hm_fault h')"
proof -
  have h0: "m = m_mem" "unat (hm_list_bytes h0) = 4 * unat (hm_table_size h0)" and abs: "hm_abs h0 (\<lambda>_. [], 0)"
    using hashmap_new_inv [OF assms(1-6)] assms(7) unfolding hm_abs_def fst_conv snd_conv by (metis prod.inject)+
  from hm_run_refines [OF abs] obtain h' where
    "hm_run ops h0 = Some (fst (hm_spec_run ops (\<lambda>_. [], 0)), h')" "hm_abs h' (snd (hm_spec_run ops (\<lambda>_. [], 0)))"
    using assms(8) by auto
  then show ?thesis
    using h0 assms(3) by (auto simp: hm_abs_def hashmap_inv_def tuya_hashmap_length_def)
qed

definition hm_initial :: hashmap_heap where
  "hm_initial = \<lparr>hl_next = (\<lambda>_. 0), hl_pprev = (\<lambda>_. Null_cell), hl_first = (\<lambda>_. 0), el_key = (\<lambda>_. []),
     el_data = (\<lambda>_. 0), hm_size = 0, hm_table_size = 0, hm_list = 0, hm_list_bytes = 0, hm_blocks = [], hm_fault = False\<rparr>"

definition hm_example_ops :: "hm_op list" where
  "hm_example_ops = [Op_put 40 [97] 7, Op_put 60 [98] 8, Op_put 80 [97] 9, Op_get [97], Op_remove [97] 7, Op_get [98]]"

declare find_loop.simps [code] remove_loop.simps [code]

theorem hashmap_refines_multimap_witness:
  "\<exists>h'. hm_run hm_example_ops (snd (tuya_hashmap_new 10 20 2 hm_initial))
      = Some ([(MAP_OK, 0), (MAP_OK, 0), (MAP_OK, 0), (MAP_OK, 9), (MAP_OK, 0), (MAP_OK, 8)], h') \<and>
    tuya_hashmap_length 10 h' = 2"
proof -
  let ?h = "snd (tuya_hashmap_new 10 20 2 hm_initial)"
  have new: "tuya_hashmap_new 10 20 2 hm_initial = (fst (tuya_hashmap_new 10 20 2 hm_initial), ?h)"
    by (rule surjective_pairing)
  have "hm_ops_ok hm_example_ops ?h (\<lambda>_. [], 0)" by code_simp
  then have "\<exists>h'. hm_run hm_example_ops ?h = Some (fst (hm_spec_run hm_example_ops (\<lambda>_. [], 0)), h') \<and>
      tuya_hashmap_length 10 h' = snd (snd (hm_spec_run hm_example_ops (\<lambda>_. [], 0))) \<and> \<not> hm_fault h'"
    using hashmap_refines_multimap [OF _ _ _ _ _ _ new] by (simp add: hm_initial_def)
  moreover have "fst (hm_spec_run hm_example_ops (\<lambda>_. [], 0)) =
      [(MAP_OK, 0), (MAP_OK, 0), (MAP_OK, 0), (MAP_OK, 9), (MAP_OK, 0), (MAP_OK, 8)]"
    and "snd (snd (hm_spec_run hm_example_ops (\<lambda>_. [], 0))) = 2"
    by code_simp+
  ultimately show ?thesis by auto
qed

section \<open>Traversal of the values of a key\<close>

text \<open>
  A client that calls \<open>tuya_hashmap_data_traversal\<close> until it returns \<open>MAP_MISSING\<close>, at most
  \<open>fuel\<close> times, and collects the elements.
\<close>

fun hm_traverse :: "nat \<Rightarrow> cstring \<Rightarrow> addr \<Rightarrow> hashmap_heap \<Rightarrow> addr list option" where
  "hm_traverse 0 key iter h = None"
| "hm_traverse (Suc fuel) key iter h =
     Option.bind (tuya_hashmap_data_traversal key iter h) (\<lambda>(r, e).
       if r = MAP_OK then map_option (\<lambda>es. e # es) (hm_traverse fuel key e h) else Some [])"

lemma hash_find_next_inv:
  assumes inv: "hashmap_inv h B" and s: "B i = xs @ e # ys" and i: "i < bucket_count h"
  shows "hash_find_next_element e h = Some (first_or NULL (filter (\<lambda>x. el_key h x = el_key h e) ys))"
proof -
  have "hlist h i (xs @ e # ys)" using inv i s by (metis hashmap_inv_def hash_table_def)
  then show ?thesis
    using find_loop_follows [OF hlist_follows_next] by (simp add: hash_find_next_element_def)
qed

lemma hm_traverse_rest:
  assumes inv: "hashmap_inv h B" and i: "i < bucket_count h"
  shows "B i = xs @ e # ys \<Longrightarrow> e \<noteq> NULL \<Longrightarrow> el_key h e = key \<Longrightarrow> length ys < fuel \<Longrightarrow>
    hm_traverse fuel key e h = Some (filter (\<lambda>x. el_key h x = key) ys)"
proof (induction fuel arbitrary: xs e ys)
  case (Suc fuel)
  note nx = hash_find_next_inv [OF inv Suc.prems(1) i]
  show ?case
  proof (cases "filter (\<lambda>x. el_key h x = key) ys")
    case Nil
    then show ?thesis using Suc.prems nx by (simp add: tuya_hashmap_data_traversal_def first_or_def)
  next
    case (Cons f fs)
    from split_first [OF Cons] obtain us vs where u: "ys = us @ f # vs" "\<forall>u \<in> set us. el_key h u \<noteq> key"
      and f: "el_key h f = key" by blast
    have "f \<noteq> NULL"
      using inv i hlist_nonnull [of h i "B i"] Suc.prems(1) u by (auto simp: hashmap_inv_def hash_table_def)
    moreover have "fs = filter (\<lambda>x. el_key h x = key) vs" using Cons u f by (simp add: filter_empty_conv)
    moreover have "hm_traverse fuel key f h = Some (filter (\<lambda>x. el_key h x = key) vs)"
      using Suc.prems u f \<open>f \<noteq> NULL\<close> by (intro Suc.IH [of "xs @ e # us"]) auto
    ultimately show ?thesis
      using Suc.prems nx Cons by (simp add: tuya_hashmap_data_traversal_def first_or_def)
  qed
qed simp

text \<open>
  Property C37: a traversal shows exactly the elements of the key, in the order of the lookup,
  skipping the other elements of the bucket, and then ends with \<open>MAP_MISSING\<close>; one call more
  than the bucket has elements is always enough.
\<close>

theorem hashmap_traversal_complete:
  assumes "hashmap_inv h B" and "length (B (bucket_of h key)) < fuel"
  shows "\<exists>es. hm_traverse fuel key NULL h = Some es \<and> map (el_data h) es = hm_values h B key \<and>
    (\<forall>e \<in> set es. el_key h e = key)"
proof -
  let ?i = "bucket_of h key" and ?es = "key_elements h B key"
  have i: "?i < bucket_count h" using inv_bucket [OF assms(1)] by simp
  obtain n where n: "fuel = Suc n" using assms(2) by (cases fuel) auto
  have "hm_traverse fuel key NULL h = Some ?es"
  proof (cases ?es)
    case Nil
    then show ?thesis
      by (simp add: n tuya_hashmap_data_traversal_def hash_find_inv [OF assms(1)] first_or_def)
  next
    case (Cons e es)
    then have "filter (\<lambda>x. el_key h x = key) (B ?i) = e # es" by (simp add: key_elements_def)
    from split_first [OF this] obtain us vs where u: "B ?i = us @ e # vs" "\<forall>u \<in> set us. el_key h u \<noteq> key"
      and e: "el_key h e = key" by blast
    have "e \<noteq> NULL" using key_elements_nonnull [OF assms(1), of key] Cons by auto
    moreover have "es = filter (\<lambda>x. el_key h x = key) vs"
      using Cons u e by (simp add: key_elements_def filter_empty_conv)
    moreover have "hm_traverse n key e h = Some (filter (\<lambda>x. el_key h x = key) vs)"
      using assms(2) u n \<open>e \<noteq> NULL\<close> e by (intro hm_traverse_rest [OF assms(1) i]) auto
    ultimately show ?thesis
      using Cons by (simp add: n tuya_hashmap_data_traversal_def hash_find_inv [OF assms(1)] first_or_def)
  qed
  then show ?thesis by (auto simp: hm_values_def key_elements_def)
qed

section \<open>Removal without a match\<close>

text \<open>
  Removing a key that is not in the map, or a value that is not stored under the
  key, is answered with \<open>MAP_MISSING\<close> only when the bucket is empty. Otherwise the call
  returns \<open>MAP_OK\<close> and removes and frees the last element of the bucket, which has another
  key or another value.
\<close>

theorem hashmap_remove_unmatched:
  assumes inv: "hashmap_inv h B" and none: "\<forall>v \<in> set (hm_values h B key). data \<noteq> NULL \<and> v \<noteq> data"
    and ne: "B (bucket_of h key) = xs @ [e]"
  shows "\<exists>h'. tuya_hashmap_remove key data h = Some (MAP_OK, h') \<and>
    hashmap_inv h' (B(bucket_of h key := xs)) \<and> hm_size h' = hm_size h - 1 \<and>
    \<not> removable h key data e"
proof -
  let ?i = "bucket_of h key"
  have nr: "filter (removable h key data) (B ?i) = []"
    using none by (auto simp: hm_values_def key_elements_def filter_empty_conv)
  have "?i < bucket_count h" using inv_bucket [OF inv] by simp
  note D = hashmap_drop_inv [OF inv this, of xs e "[]"]
  have "\<not> removable h key data e"
    using nr [unfolded filter_empty_conv] ne by (metis in_set_conv_decomp)
  moreover have "tuya_hashmap_remove key data h =
      Some (MAP_OK, (hm_free e (hlist_del_raw e h))\<lparr>hm_size := hm_size (hm_free e (hlist_del_raw e h)) - 1\<rparr>)"
    using ne unfolding hashmap_remove_cases(1) [OF inv] nr Let_def by (simp add: first_or_def)
  ultimately show ?thesis using D ne by auto
qed

definition hm_three :: hashmap_heap where
  "hm_three = snd (tuya_hashmap_put 80 [97] 9 (snd (tuya_hashmap_put 60 [98] 8
     (snd (tuya_hashmap_put 40 [97] 7 (snd (tuya_hashmap_new 10 20 1 hm_initial)))))))"

lemma hm_three_fields:
  "hm_table_size hm_three = 1" "hm_blocks hm_three = [80, 60, 40, 20, 10]" "hm_size hm_three = 3"
  "hm_fault hm_three = False" "map (el_key hm_three) [80, 60, 40] = [[97], [98], [97]]"
  "map (el_data hm_three) [80, 60, 40] = [9, 8, 7]"
  by code_simp+

lemma hm_three_inv: "hashmap_inv hm_three (\<lambda>_. [80, 60, 40])"
proof -
  have "hlist hm_three 0 [80, 60, 40]" unfolding hlist_def by code_simp
  moreover have "hashmap_hash_int 1 k = 0" for k by (simp add: hashmap_hash_int_def)
  ultimately show ?thesis
    unfolding hashmap_inv_def hash_table_def hm_three_fields by simp
qed

lemma hm_three_values:
  "hm_values hm_three (\<lambda>_. [80, 60, 40]) [97] = [9, 7]" "hm_values hm_three (\<lambda>_. [80, 60, 40]) [99] = []"
  using hm_three_fields(5,6) by (simp_all add: hm_values_def key_elements_def)

theorem hashmap_traversal_complete_witness:
  "\<exists>es. hm_traverse 4 [97] NULL hm_three = Some es \<and> map (el_data hm_three) es = [9, 7]"
  using hashmap_traversal_complete [OF hm_three_inv, where key = "[97]" and fuel = 4] by (auto simp: hm_three_values)

text \<open>
  Here the key is in no element of the map, and yet the oldest element is removed.
\<close>

theorem hashmap_remove_unmatched_witness:
  "\<exists>h'. tuya_hashmap_remove [99] 0 hm_three = Some (MAP_OK, h') \<and> hashmap_inv h' ((\<lambda>_. [80, 60, 40])
     (bucket_of hm_three [99] := [80, 60])) \<and> hm_size h' = 2"
  using hashmap_remove_unmatched [OF hm_three_inv, where key = "[99]" and data = 0 and xs = "[80, 60]" and e = 40]
  unfolding hm_three_values hm_three_fields by fastforce

end
