(* ===== verification/Flash_Layout.thy ===== *)
theory Flash_Layout
  imports Fw_Prelude
begin

text \<open>
  The flash layout of \<open>config_gdm32.h\<close>: the two image slots, the area of the NVDS store and
  the size of the flash.
\<close>

definition RE_IMG_0_OFFSET :: u32 where "RE_IMG_0_OFFSET = 0xA000"
definition RE_IMG_1_OFFSET :: u32 where "RE_IMG_1_OFFSET = 0x1EA000"
definition RE_IMG_1_END :: u32 where "RE_IMG_1_END = 0x3CA000"
definition RE_NVDS_DATA_OFFSET :: u32 where "RE_NVDS_DATA_OFFSET = 0x3FB000"
definition RE_END_OFFSET :: u32 where "RE_END_OFFSET = 0x400000"
definition FLASH_BASE :: u32 where "FLASH_BASE = 0x08000000"
definition FLASH_PAGE_SIZE :: u32 where "FLASH_PAGE_SIZE = 0x1000"
definition FLASH_TOTAL_SIZE :: u32 where "FLASH_TOTAL_SIZE = 0x400000"

lemmas layout_defs =
  RE_IMG_0_OFFSET_def RE_IMG_1_OFFSET_def RE_IMG_1_END_def RE_NVDS_DATA_OFFSET_def
  RE_END_OFFSET_def FLASH_BASE_def FLASH_PAGE_SIZE_def FLASH_TOTAL_SIZE_def

end
