(* ===== verification/Secure_Boot.thy ===== *)
theory Secure_Boot
  imports Flash_Layout
begin

text \<open>
  The main boot loader: selection of the image to boot (\<open>boot_image_find\<close>), its validation
  (\<open>image_x_validate\<close>) and the control flow of \<open>main\<close> in \<open>mbl.c\<close>. The functions of the boot
  ROM are a record of functions on the state of the chip; what the boot loader relies on is
  the locale \<open>boot_rom\<close>.
\<close>

section \<open>Constants of rom_image.h, rom_sys.h and rom_ibl_state.h\<close>

definition IMG_FLAG_NEWER_MASK :: u8 where "IMG_FLAG_NEWER_MASK = 0x01"
definition IMG_FLAG_VERIFY_MASK :: u8 where "IMG_FLAG_VERIFY_MASK = 0x06"
definition IMG_FLAG_IA_MASK :: u8 where "IMG_FLAG_IA_MASK = 0x18"
definition IMG_FLAG_OLDER :: u8 where "IMG_FLAG_OLDER = 0x0"
definition IMG_FLAG_NEWER :: u8 where "IMG_FLAG_NEWER = 0x1"
definition IMG_FLAG_VERIFY_OK :: u8 where "IMG_FLAG_VERIFY_OK = push_bit 1 0x1"
definition IMG_FLAG_VERIFY_FAIL :: u8 where "IMG_FLAG_VERIFY_FAIL = push_bit 1 0x2"
definition IMG_FLAG_IA_OK :: u8 where "IMG_FLAG_IA_OK = push_bit 3 0x1"
definition IMG_FLAG_IA_FAIL :: u8 where "IMG_FLAG_IA_FAIL = push_bit 3 0x2"

lemmas img_flag_defs =
  IMG_FLAG_NEWER_MASK_def IMG_FLAG_VERIFY_MASK_def IMG_FLAG_IA_MASK_def IMG_FLAG_OLDER_def
  IMG_FLAG_NEWER_def IMG_FLAG_VERIFY_OK_def IMG_FLAG_VERIFY_FAIL_def IMG_FLAG_IA_OK_def
  IMG_FLAG_IA_FAIL_def

definition SYS_STATUS_FOUND_OK :: int where "SYS_STATUS_FOUND_OK = 0"
definition SYS_STATUS_NOT_FOUND :: int where "SYS_STATUS_NOT_FOUND = -1"
definition SYS_STATUS_FOUND_ERR :: int where "SYS_STATUS_FOUND_ERR = -2"

lemmas sys_status_defs = SYS_STATUS_FOUND_OK_def SYS_STATUS_NOT_FOUND_def SYS_STATUS_FOUND_ERR_def

abbreviation (input) IMAGE_0 :: u32 where "IMAGE_0 \<equiv> 0"
abbreviation (input) IMAGE_1 :: u32 where "IMAGE_1 \<equiv> 1"

definition IMG_OVERHEAD_LEN :: u32 where "IMG_OVERHEAD_LEN = 0"

abbreviation (input) IMAGE_HEADER_SIZE :: u32 where "IMAGE_HEADER_SIZE \<equiv> 32"
abbreviation (input) IBL_STATE_MAGIC_CODE :: u32 where "IBL_STATE_MAGIC_CODE \<equiv> 0xBACEC0DE"
abbreviation (input) IBL_VERIFY_NONE :: u8 where "IBL_VERIFY_NONE \<equiv> 0"
abbreviation (input) IBL_VERIFY_IMG_ONLY :: u8 where "IBL_VERIFY_IMG_ONLY \<equiv> 1"
abbreviation (input) IBL_VERIFY_CERT_IMG :: u8 where "IBL_VERIFY_CERT_IMG \<equiv> 3"
abbreviation (input) ROM_INFO :: u8 where "ROM_INFO \<equiv> 4"

datatype sys_item =
    SYS_TRACE_LEVEL | SYS_IMAGE0_STATUS | SYS_IMAGE1_STATUS | SYS_RUNNING_IMG | SYS_XMODEM_FLAG

text \<open>
  The address remapping of the flash controller: start page, end page and offset.
\<close>

type_synonym fmc_map = "u32 \<times> u32 \<times> u32"

section \<open>The boot ROM\<close>

text \<open>
  The entries of the ROM table that the boot loader and the update code call, as functions
  on a state \<open>'s\<close> of the chip. A getter returns its status and the byte it stores (or leaves).
  The validation functions read the flash through the current remapping and return their
  status and the version of the image.
\<close>

record 's rom_sys =
  sys_status_get :: "sys_item \<Rightarrow> u8 \<Rightarrow> 's \<Rightarrow> int \<times> u8"
  sys_status_set :: "sys_item \<Rightarrow> u8 \<Rightarrow> 's \<Rightarrow> 's"
  sys_status_check :: "'s \<Rightarrow> 's"
  sys_set_trace_level :: "u8 \<Rightarrow> 's \<Rightarrow> 's"
  sys_set_img_flag :: "u32 \<Rightarrow> u8 \<Rightarrow> u8 \<Rightarrow> 's \<Rightarrow> int \<times> 's"
  sys_set_running_img :: "u32 \<Rightarrow> 's \<Rightarrow> int \<times> 's"
  sys_set_fw_version :: "u32 \<Rightarrow> 's \<Rightarrow> int \<times> 's"
  img_validate :: "fmc_map \<Rightarrow> u32 \<Rightarrow> u8 list \<Rightarrow> 's \<Rightarrow> int \<times> u32"
  cert_img_validate :: "fmc_map \<Rightarrow> u32 \<Rightarrow> u8 list \<Rightarrow> 's \<Rightarrow> int \<times> u32"
  xmodem_start :: "u32 \<Rightarrow> 's \<Rightarrow> 's"

section \<open>Model of mbl_image_validate.c\<close>

text \<open>
  \<open>offset_null\<close> says that the caller passed no place for the offset. The second result is what
  is stored through the out parameters.
\<close>

definition boot_image_find ::
    "'s rom_sys \<Rightarrow> bool \<Rightarrow> 's \<Rightarrow> int \<times> (u32 \<times> u32) option \<times> 's" where
  "boot_image_find rom offset_null s =
     (if offset_null then (-1, None, s)
      else
        let (ret0, img0_stat) = sys_status_get rom SYS_IMAGE0_STATUS 0 s in
        if ret0 \<le> SYS_STATUS_FOUND_ERR then (-2, None, s)
        else
          let img0_found = (ret0 = SYS_STATUS_FOUND_OK);
              (ret1, img1_stat) = sys_status_get rom SYS_IMAGE1_STATUS 0 s in
          if ret1 \<le> SYS_STATUS_FOUND_ERR then (-3, None, s)
          else
            let img1_found = (ret1 = SYS_STATUS_FOUND_OK);
                selected = (\<lambda>idx s. (0, Some (idx, RE_IMG_0_OFFSET + IMG_OVERHEAD_LEN), s)) in
            if \<not> img0_found \<and> img1_found then (-4, None, s)
            else if \<not> img0_found \<and> \<not> img1_found
            then selected IMAGE_0 (snd (sys_set_img_flag rom IMAGE_0 IMG_FLAG_NEWER_MASK IMG_FLAG_NEWER s))
            else if img0_found \<and> img0_stat AND IMG_FLAG_NEWER_MASK = IMG_FLAG_NEWER \<and>
                    img0_stat AND IMG_FLAG_VERIFY_MASK \<noteq> IMG_FLAG_VERIFY_FAIL \<and>
                    img0_stat AND IMG_FLAG_IA_MASK \<noteq> IMG_FLAG_IA_FAIL
            then selected IMAGE_0 s
            else if img1_found \<and> img1_stat AND IMG_FLAG_NEWER_MASK = IMG_FLAG_NEWER \<and>
                    img1_stat AND IMG_FLAG_VERIFY_MASK \<noteq> IMG_FLAG_VERIFY_FAIL \<and>
                    img1_stat AND IMG_FLAG_IA_MASK \<noteq> IMG_FLAG_IA_FAIL
            then selected IMAGE_1 s
            else if img0_found \<and> img0_stat AND IMG_FLAG_VERIFY_MASK = IMG_FLAG_VERIFY_OK \<and>
                    img0_stat AND IMG_FLAG_IA_MASK = IMG_FLAG_IA_OK
            then selected IMAGE_0 s
            else if img1_found \<and> img1_stat AND IMG_FLAG_VERIFY_MASK = IMG_FLAG_VERIFY_OK \<and>
                    img1_stat AND IMG_FLAG_IA_MASK = IMG_FLAG_IA_OK
            then selected IMAGE_1 s
            else (-5, None, s))"

text \<open>
  \<open>sw_version\<close> is what the uninitialised local \<open>sw_info.version\<close> holds when no validation
  function fills it. The parameter \<open>boot_opt\<close> has 8 bits: the call in \<open>main\<close> keeps the lowest byte of
  the 32-bit option.
\<close>

definition image_x_validate ::
    "'s rom_sys \<Rightarrow> fmc_map \<Rightarrow> u32 \<Rightarrow> u32 \<Rightarrow> u8 list \<Rightarrow> u8 \<Rightarrow> 's \<Rightarrow> int \<times> 's" where
  "image_x_validate rom fm sw_version img_offset pkhash boot_opt s =
     (if boot_opt = IBL_VERIFY_NONE then (0, s)
      else
        let (err, version) =
          (if boot_opt = IBL_VERIFY_CERT_IMG then
             let (ret, v) = cert_img_validate rom fm img_offset pkhash s
             in (if ret \<noteq> 0 then -3 else 0 :: int, v)
           else if boot_opt = IBL_VERIFY_IMG_ONLY then
             let (ret, v) = img_validate rom fm img_offset pkhash s
             in (if ret \<noteq> 0 then -4 else 0, v)
           else (0, sw_version)) in
        if err \<noteq> 0 then (err, s)
        else
          let (ret, s) = sys_set_fw_version rom version s
          in if ret < 0 then (-5, s) else (0, s))"

section \<open>Model of mbl.c\<close>

definition flash_offset_mapping :: "fmc_map \<Rightarrow> fmc_map" where
  "flash_offset_mapping _ =
     (drop_bit 12 RE_IMG_0_OFFSET, drop_bit 12 RE_IMG_1_OFFSET - 1,
      drop_bit 12 (RE_IMG_1_OFFSET - RE_IMG_0_OFFSET))"

text \<open>
  The state that the ROM leaves in shared memory, and how \<open>main\<close> ends: it jumps to an image
  through a remapping, resets the chip, or hangs in the final loop.
\<close>

record ibl_state =
  ibl_magic :: u32
  ibl_opt :: u32
  rotpk_hash :: "u8 list"

datatype boot_end = Jump u32 u32 fmc_map | SoftwareReset | NoImageBoot

text \<open>
  The first half of \<open>main\<close>: without a ROM boot the system status is checked and the trace
  level restored, then the serial port may ask for a download.
\<close>

definition mbl_prepare :: "'s rom_sys \<Rightarrow> ibl_state \<Rightarrow> 's \<Rightarrow> ibl_state \<times> 's" where
  "mbl_prepare rom ibl0 s =
     (let secure_boot = (ibl_magic ibl0 = IBL_STATE_MAGIC_CODE);
          ibl = (if secure_boot then ibl0
                 else \<lparr>ibl_magic = 0, ibl_opt = 0, rotpk_hash = replicate 32 0\<rparr>);
          s = (if secure_boot then s
               else
                 let s = sys_status_check rom s;
                     (ret, val) = sys_status_get rom SYS_TRACE_LEVEL 0 s
                 in sys_set_trace_level rom (if ret = 0 then val else ROM_INFO) s);
          (ret, xmodem_flag) = sys_status_get rom SYS_XMODEM_FLAG 0 s;
          s = (if ret = SYS_STATUS_FOUND_OK
               then if xmodem_flag \<noteq> 0
                    then xmodem_start rom 0xffffffff (sys_status_set rom SYS_XMODEM_FLAG 0 s)
                    else xmodem_start rom 100000 s
               else xmodem_start rom 100000 s)
      in (ibl, s))"

definition mbl_main :: "'s rom_sys \<Rightarrow> ibl_state \<Rightarrow> u32 \<Rightarrow> fmc_map \<Rightarrow> 's \<Rightarrow> boot_end \<times> 's" where
  "mbl_main rom ibl0 sw_version fm0 s =
     (let (ibl, s) = mbl_prepare rom ibl0 s;
          (ret, found, s) = boot_image_find rom False s;
          (boot_idx, image_offset) = (case found of None \<Rightarrow> (0, 0) | Some out \<Rightarrow> out)
      in if ret < 0 then (NoImageBoot, s)
         else
             let fm = (if boot_idx = IMAGE_1 then flash_offset_mapping fm0 else fm0);
                 (ret, s) = image_x_validate rom fm sw_version (image_offset - IMAGE_HEADER_SIZE)
                              (rotpk_hash ibl) (ucast (ibl_opt ibl)) s
             in if ret < 0
                then (SoftwareReset,
                      snd (sys_set_img_flag rom boot_idx IMG_FLAG_VERIFY_MASK IMG_FLAG_VERIFY_FAIL s))
                else
                  let s = snd (sys_set_img_flag rom boot_idx IMG_FLAG_VERIFY_MASK IMG_FLAG_VERIFY_OK s);
                      s = snd (sys_set_running_img rom boot_idx s)
                  in (Jump boot_idx (FLASH_BASE + image_offset) fm, s))"

text \<open>
  The chip after power-on: the boot loader runs again after every software reset, with the
  remapping cleared. \<open>None\<close> means that after \<open>n\<close> runs it is still resetting.
\<close>

fun boot :: "nat \<Rightarrow> 's rom_sys \<Rightarrow> ibl_state \<Rightarrow> u32 \<Rightarrow> 's \<Rightarrow> (boot_end \<times> 's) option" where
  "boot 0 rom ibl v s = None"
| "boot (Suc n) rom ibl v s =
     (case mbl_main rom ibl v (0, 0, 0) s of
        (SoftwareReset, s') \<Rightarrow> boot n rom ibl v s'
      | r \<Rightarrow> Some r)"

section \<open>What the boot loader relies on\<close>

text \<open>
  \<open>img i\<close> is the stored status byte of an image, if there is one; \<open>core\<close> is the part of the
  state that image validation depends on (the flash contents and the version counters).
  Setting flags stores them, reading returns what is stored, and neither affects \<open>core\<close>.
  An XMODEM session that does not download anything changes none of these.
\<close>

definition img_item :: "u32 \<Rightarrow> sys_item" where
  "img_item i = (if i = IMAGE_1 then SYS_IMAGE1_STATUS else SYS_IMAGE0_STATUS)"

definition set_flag :: "u8 \<Rightarrow> u8 \<Rightarrow> u8 option \<Rightarrow> u8" where
  "set_flag msk v old = ((case old of None \<Rightarrow> 0 | Some f \<Rightarrow> f) AND NOT msk) OR v"

locale boot_rom =
  fixes rom :: "'s rom_sys" and img :: "u32 \<Rightarrow> 's \<Rightarrow> u8 option"
    and running :: "'s \<Rightarrow> u8 option" and core :: "'s \<Rightarrow> 'c"
  assumes get_img: "i \<in> {IMAGE_0, IMAGE_1} \<Longrightarrow> sys_status_get rom (img_item i) d s =
      (case img i s of None \<Rightarrow> (SYS_STATUS_NOT_FOUND, d) | Some f \<Rightarrow> (SYS_STATUS_FOUND_OK, f))"
    and get_running: "sys_status_get rom SYS_RUNNING_IMG d s =
      (case running s of None \<Rightarrow> (SYS_STATUS_NOT_FOUND, d) | Some f \<Rightarrow> (SYS_STATUS_FOUND_OK, f))"
    and set_img: "i \<in> {IMAGE_0, IMAGE_1} \<Longrightarrow> fst (sys_set_img_flag rom i m v s) = 0 \<and>
      img i (snd (sys_set_img_flag rom i m v s)) = Some (set_flag m v (img i s))"
    and set_img_other: "i \<in> {IMAGE_0, IMAGE_1} \<Longrightarrow> j \<noteq> i \<Longrightarrow>
      img j (snd (sys_set_img_flag rom i m v s)) = img j s"
    and set_img_keeps: "running (snd (sys_set_img_flag rom i m v s)) = running s"
      "core (snd (sys_set_img_flag rom i m v s)) = core s"
    and set_running: "i \<in> {IMAGE_0, IMAGE_1} \<Longrightarrow>
      running (snd (sys_set_running_img rom i s)) = Some (ucast i)"
    and img_kept: "img i (sys_status_check rom s) = img i s" "img i (sys_set_trace_level rom l s) = img i s"
      "img i (sys_status_set rom SYS_XMODEM_FLAG f s) = img i s" "img i (xmodem_start rom tmo s) = img i s"
      "img i (snd (sys_set_running_img rom k s)) = img i s" "img i (snd (sys_set_fw_version rom ver s)) = img i s"
    and core_kept: "core (sys_status_check rom s) = core s" "core (sys_set_trace_level rom l s) = core s"
      "core (sys_status_set rom SYS_XMODEM_FLAG f s) = core s" "core (xmodem_start rom tmo s) = core s"
      "core (snd (sys_set_running_img rom k s)) = core s"
    and fw_version_fail: "fst (sys_set_fw_version rom ver s) < 0 \<Longrightarrow>
      core (snd (sys_set_fw_version rom ver s)) = core s"
    and core_determines: "core s = core t \<Longrightarrow>
        img_validate rom fm off h s = img_validate rom fm off h t \<and>
        cert_img_validate rom fm off h s = cert_img_validate rom fm off h t \<and>
        fst (sys_set_fw_version rom ver s) = fst (sys_set_fw_version rom ver t)"

text \<open>
  The specification of the selection, on the two stored status bytes.
\<close>

definition flag_newer :: "u8 \<Rightarrow> bool" where
  "flag_newer f \<longleftrightarrow> f AND IMG_FLAG_NEWER_MASK = IMG_FLAG_NEWER"

definition flag_failed :: "u8 \<Rightarrow> bool" where
  "flag_failed f \<longleftrightarrow> f AND IMG_FLAG_VERIFY_MASK = IMG_FLAG_VERIFY_FAIL \<or>
     f AND IMG_FLAG_IA_MASK = IMG_FLAG_IA_FAIL"

definition flag_proven :: "u8 \<Rightarrow> bool" where
  "flag_proven f \<longleftrightarrow> f AND IMG_FLAG_VERIFY_MASK = IMG_FLAG_VERIFY_OK \<and>
     f AND IMG_FLAG_IA_MASK = IMG_FLAG_IA_OK"

fun spec_select :: "u8 option \<Rightarrow> u8 option \<Rightarrow> u32 option" where
  "spec_select None (Some _) = None"
| "spec_select None None = Some IMAGE_0"
| "spec_select (Some f0) o1 =
     (if flag_newer f0 \<and> \<not> flag_failed f0 then Some IMAGE_0
      else case o1 of
        None \<Rightarrow> if flag_proven f0 then Some IMAGE_0 else None
      | Some f1 \<Rightarrow>
          if flag_newer f1 \<and> \<not> flag_failed f1 then Some IMAGE_1
          else if flag_proven f0 then Some IMAGE_0
          else if flag_proven f1 then Some IMAGE_1
          else None)"

text \<open>
  An image is accepted when, seen through the remapping that the boot loader sets up for it, it
  passes the check that the lowest byte of the boot options asks for and its version can be
  recorded. Stated on the functions of the ROM, this is what the options mean to the code:
  \<open>IBL_VERIFY_NONE\<close> asks for nothing, and a byte that is no option only for a version counter that
  takes an uninitialised value.
\<close>

definition image_map :: "u32 \<Rightarrow> fmc_map" where
  "image_map i = (if i = IMAGE_1 then flash_offset_mapping (0, 0, 0) else (0, 0, 0))"

definition boot_ibl :: "ibl_state \<Rightarrow> ibl_state" where
  "boot_ibl ibl = (if ibl_magic ibl = IBL_STATE_MAGIC_CODE then ibl
     else \<lparr>ibl_magic = 0, ibl_opt = 0, rotpk_hash = replicate 32 0\<rparr>)"

definition accepted :: "'s rom_sys \<Rightarrow> ibl_state \<Rightarrow> u32 \<Rightarrow> 's \<Rightarrow> u32 \<Rightarrow> bool" where
  "accepted rom ibl v s i \<longleftrightarrow>
     (let b = boot_ibl ibl; opt = ucast (ibl_opt b) :: u8; fm = image_map i; off = RE_IMG_0_OFFSET + IMG_OVERHEAD_LEN - IMAGE_HEADER_SIZE;
          cert = cert_img_validate rom fm off (rotpk_hash b) s;
          sig = img_validate rom fm off (rotpk_hash b) s;
          recorded = (\<lambda>version. 0 \<le> fst (sys_set_fw_version rom version s)) in
      opt = IBL_VERIFY_NONE \<or>
      opt = IBL_VERIFY_CERT_IMG \<and> fst cert = 0 \<and> recorded (snd cert) \<or>
      opt = IBL_VERIFY_IMG_ONLY \<and> fst sig = 0 \<and> recorded (snd sig) \<or>
      opt \<notin> {IBL_VERIFY_NONE, IBL_VERIFY_CERT_IMG, IBL_VERIFY_IMG_ONLY} \<and> recorded v)"

lemma accepted_validate:
  "accepted rom ibl v s i \<longleftrightarrow>
     0 \<le> fst (image_x_validate rom (image_map i) v (RE_IMG_0_OFFSET + IMG_OVERHEAD_LEN - IMAGE_HEADER_SIZE)
               (rotpk_hash (boot_ibl ibl)) (ucast (ibl_opt (boot_ibl ibl))) s)"
  by (auto simp: accepted_def image_x_validate_def Let_def split: prod.splits if_splits)

lemma set_flag_same: "set_flag m v f AND m = v AND m"
  unfolding set_flag_def by (rule bit_eqI) (auto simp: bit_simps)

lemma set_flag_other:
  assumes "m AND n = 0" and "v AND n = 0"
  shows "set_flag m v f AND n = (case f of None \<Rightarrow> 0 | Some g \<Rightarrow> g) AND n"
proof (rule bit_eqI)
  fix k
  have "\<not> bit (m AND n) k" "\<not> bit (v AND n) k"
    using assms by simp_all
  then show "bit (set_flag m v f AND n) k \<longleftrightarrow> bit ((case f of None \<Rightarrow> 0 | Some g \<Rightarrow> g) AND n) k"
    by (auto simp: set_flag_def bit_simps dest: bit_imp_le_length)
qed

lemma mask_facts:
  "IMG_FLAG_VERIFY_MASK AND IMG_FLAG_NEWER_MASK = 0" "IMG_FLAG_VERIFY_MASK AND IMG_FLAG_IA_MASK = 0"
  "IMG_FLAG_NEWER_MASK AND IMG_FLAG_VERIFY_MASK = 0" "IMG_FLAG_NEWER_MASK AND IMG_FLAG_IA_MASK = 0"
  "IMG_FLAG_VERIFY_OK AND IMG_FLAG_VERIFY_MASK = IMG_FLAG_VERIFY_OK"
  "IMG_FLAG_VERIFY_FAIL AND IMG_FLAG_VERIFY_MASK = IMG_FLAG_VERIFY_FAIL"
  "IMG_FLAG_VERIFY_OK AND IMG_FLAG_NEWER_MASK = 0" "IMG_FLAG_VERIFY_FAIL AND IMG_FLAG_NEWER_MASK = 0"
  "IMG_FLAG_VERIFY_OK AND IMG_FLAG_IA_MASK = 0" "IMG_FLAG_VERIFY_FAIL AND IMG_FLAG_IA_MASK = 0"
  "IMG_FLAG_NEWER AND IMG_FLAG_NEWER_MASK = IMG_FLAG_NEWER" "IMG_FLAG_NEWER AND IMG_FLAG_VERIFY_MASK = 0"
  "IMG_FLAG_NEWER AND IMG_FLAG_IA_MASK = 0"
  "IMG_FLAG_VERIFY_OK \<noteq> IMG_FLAG_VERIFY_FAIL" "IMG_FLAG_VERIFY_FAIL \<noteq> IMG_FLAG_VERIFY_OK"
  by (simp_all add: img_flag_defs)

lemmas flag_simps = flag_failed_def flag_proven_def flag_newer_def set_flag_same set_flag_other mask_facts

lemma flags_verify_fail:
  "flag_failed (set_flag IMG_FLAG_VERIFY_MASK IMG_FLAG_VERIFY_FAIL f)"
  "\<not> flag_proven (set_flag IMG_FLAG_VERIFY_MASK IMG_FLAG_VERIFY_FAIL f)"
  by (simp_all add: flag_simps)

context boot_rom
begin

lemma find_select:
  "boot_image_find rom False s =
    (case spec_select (img IMAGE_0 s) (img IMAGE_1 s) of
       None \<Rightarrow> (if img IMAGE_0 s = None then -4 else -5, None, s)
     | Some i \<Rightarrow> (0, Some (i, RE_IMG_0_OFFSET + IMG_OVERHEAD_LEN),
         if img IMAGE_0 s = None
         then snd (sys_set_img_flag rom IMAGE_0 IMG_FLAG_NEWER_MASK IMG_FLAG_NEWER s) else s))"
  using get_img [of IMAGE_0 0 s] get_img [of IMAGE_1 0 s]
  by (cases "img IMAGE_0 s"; cases "img IMAGE_1 s")
    (simp_all add: boot_image_find_def img_item_def sys_status_defs flag_newer_def flag_failed_def
      flag_proven_def Let_def)

lemma validate_core: "core s = core t \<Longrightarrow>
    fst (image_x_validate rom fm v off h opt s) = fst (image_x_validate rom fm v off h opt t)"
  using core_determines [of s t] by (simp add: image_x_validate_def Let_def case_prod_beta)

lemma validate_keeps:
  "img i (snd (image_x_validate rom fm v off h opt s)) = img i s"
  "fst (image_x_validate rom fm v off h opt s) < 0 \<Longrightarrow>
   core (snd (image_x_validate rom fm v off h opt s)) = core s"
  by (simp_all add: image_x_validate_def Let_def case_prod_beta img_kept fw_version_fail split: if_splits)

lemma prepare_keeps:
  "fst (mbl_prepare rom ibl s) = boot_ibl ibl"
  "img i (snd (mbl_prepare rom ibl s)) = img i s"
  "core (snd (mbl_prepare rom ibl s)) = core s"
  by (simp_all add: mbl_prepare_def boot_ibl_def Let_def case_prod_beta img_kept core_kept)

lemma select_index: "spec_select f0 f1 = Some i \<Longrightarrow> i \<in> {IMAGE_0, IMAGE_1}"
  by (cases f0; cases f1) (auto split: if_splits)

text \<open>
  One run of the boot loader, in terms of the selection and of the verdict on the selected
  image.
\<close>

lemma main_cases:
  assumes "mbl_main rom ibl v (0, 0, 0) s = (e, s')"
  shows "case spec_select (img IMAGE_0 s) (img IMAGE_1 s) of
      None \<Rightarrow> e = NoImageBoot
    | Some i \<Rightarrow> \<exists>f. i \<in> {IMAGE_0, IMAGE_1} \<and> (img i s = None \<longrightarrow> f = Some IMG_FLAG_NEWER) \<and>
        (img i s \<noteq> None \<longrightarrow> f = img i s) \<and> (\<forall>j. j \<noteq> i \<longrightarrow> img j s' = img j s) \<and>
        (if accepted rom ibl v s i
         then e = Jump i (FLASH_BASE + (RE_IMG_0_OFFSET + IMG_OVERHEAD_LEN)) (image_map i) \<and>
           img i s' = Some (set_flag IMG_FLAG_VERIFY_MASK IMG_FLAG_VERIFY_OK f) \<and>
           running s' = Some (ucast i)
         else e = SoftwareReset \<and> core s' = core s \<and>
           img i s' = Some (set_flag IMG_FLAG_VERIFY_MASK IMG_FLAG_VERIFY_FAIL f))"
proof -
  define s1 where "s1 = snd (mbl_prepare rom ibl s)"
  have s1: "img i s1 = img i s" "core s1 = core s" for i
    by (simp_all add: s1_def prepare_keeps)
  have prep: "mbl_prepare rom ibl s = (boot_ibl ibl, s1)"
    by (simp add: s1_def prod_eq_iff prepare_keeps)
  show ?thesis
  proof (cases "spec_select (img IMAGE_0 s) (img IMAGE_1 s)")
    case None
    then show ?thesis
      using assms by (simp add: mbl_main_def prep find_select s1 split: if_splits)
  next
    case (Some i)
    define s2 where "s2 = (if img IMAGE_0 s = None
       then snd (sys_set_img_flag rom IMAGE_0 IMG_FLAG_NEWER_MASK IMG_FLAG_NEWER s1) else s1)"
    have i: "i \<in> {IMAGE_0, IMAGE_1}"
      using Some by (rule select_index)
    have none: "img IMAGE_0 s = None \<Longrightarrow> i = IMAGE_0" "i = IMAGE_1 \<Longrightarrow> img IMAGE_1 s \<noteq> None"
      using Some by (cases "img IMAGE_0 s"; cases "img IMAGE_1 s"; auto split: if_splits)+
    have s2: "core s2 = core s" "img j s2 = (if img IMAGE_0 s = None \<and> j = IMAGE_0
        then Some IMG_FLAG_NEWER else img j s)" for j
      using set_img [of IMAGE_0 IMG_FLAG_NEWER_MASK IMG_FLAG_NEWER s1] set_img_other [of IMAGE_0 j]
      by (auto simp: s2_def s1 set_img_keeps set_flag_def)
    define off where "off = RE_IMG_0_OFFSET + IMG_OVERHEAD_LEN"
    define r where "r = image_x_validate rom (image_map i) v (off - IMAGE_HEADER_SIZE)
       (rotpk_hash (boot_ibl ibl)) (ucast (ibl_opt (boot_ibl ibl))) s2"
    have acc: "accepted rom ibl v s i \<longleftrightarrow> \<not> fst r < 0"
      using validate_core [OF s2(1)] by (simp add: accepted_validate r_def off_def not_less)
    have r: "img j (snd r) = img j s2" "fst r < 0 \<Longrightarrow> core (snd r) = core s" for j
      using validate_keeps s2(1) by (simp_all add: r_def)
    have find: "boot_image_find rom False s1 = (0, Some (i, off), s2)"
      using Some by (simp add: find_select s1 s2_def off_def)
    have fm: "(if i = IMAGE_1 then flash_offset_mapping (0, 0, 0) else (0, 0, 0)) = image_map i"
      by (simp add: image_map_def)
    have main: "mbl_main rom ibl v (0, 0, 0) s =
      (if fst r < 0
       then (SoftwareReset, snd (sys_set_img_flag rom i IMG_FLAG_VERIFY_MASK IMG_FLAG_VERIFY_FAIL (snd r)))
       else (Jump i (FLASH_BASE + off) (image_map i), snd (sys_set_running_img rom i
           (snd (sys_set_img_flag rom i IMG_FLAG_VERIFY_MASK IMG_FLAG_VERIFY_OK (snd r))))))"
      by (simp add: mbl_main_def prep find fm Let_def r_def [symmetric] case_prod_beta)
    show ?thesis
      unfolding Some option.case
      by (rule exI [of _ "img i s2"])
        (use assms main i r s2 none acc set_img [OF i] set_img_other [OF i] set_running [OF i] in
         \<open>auto simp: set_img_keeps img_kept core_kept off_def split: if_splits\<close>)
  qed
qed

lemma accepted_core: "core s = core t \<Longrightarrow> accepted rom ibl v s i = accepted rom ibl v t i"
  unfolding accepted_validate by (subst validate_core [of s t]) simp_all

lemma main_jump:
  assumes "mbl_main rom ibl v (0, 0, 0) s = (Jump i a fm, s')"
  shows "accepted rom ibl v s i \<and> fm = image_map i \<and> running s' = Some (ucast i) \<and>
    spec_select (img IMAGE_0 s) (img IMAGE_1 s) = Some i"
proof (cases "spec_select (img IMAGE_0 s) (img IMAGE_1 s)")
  case None
  then show ?thesis
    using main_cases [OF assms] by simp
next
  case (Some j)
  show ?thesis
    using main_cases [OF assms] unfolding Some option.case by (elim exE) (simp split: if_splits)
qed

lemma main_reset:
  assumes "mbl_main rom ibl v (0, 0, 0) s = (SoftwareReset, s')"
  shows "\<exists>i f. spec_select (img IMAGE_0 s) (img IMAGE_1 s) = Some i \<and> \<not> accepted rom ibl v s i \<and>
    core s' = core s \<and> img i s' = Some f \<and> flag_failed f \<and> \<not> flag_proven f \<and>
    (\<forall>j. j \<noteq> i \<longrightarrow> img j s' = img j s)"
proof (cases "spec_select (img IMAGE_0 s) (img IMAGE_1 s)")
  case None
  then show ?thesis
    using main_cases [OF assms] by simp
next
  case (Some i)
  then have "\<not> accepted rom ibl v s i"
    using main_cases [OF assms] by auto
  with Some main_cases [OF assms] obtain f where "core s' = core s"
      "img i s' = Some (set_flag IMG_FLAG_VERIFY_MASK IMG_FLAG_VERIFY_FAIL f)"
      "\<forall>j. j \<noteq> i \<longrightarrow> img j s' = img j s"
    by auto
  with Some \<open>\<not> accepted rom ibl v s i\<close> flags_verify_fail show ?thesis
    by blast
qed

text \<open>
  An image whose verification failed is never selected again, so the boot loader resets the
  chip at most twice.
\<close>

lemma select_not_failed:
  "spec_select o0 o1 = Some i \<Longrightarrow> (if i = IMAGE_1 then o1 else o0) = Some f \<Longrightarrow>
   \<not> (flag_failed f \<and> \<not> flag_proven f)"
  by (cases o0; cases o1) (auto split: if_splits)

lemma boot_at_most_three: "boot 3 rom ibl v s \<noteq> None"
proof -
  have step: "boot (Suc n) rom ibl v s \<noteq> None" if "\<And>s'. mbl_main rom ibl v (0, 0, 0) s =
      (SoftwareReset, s') \<Longrightarrow> boot n rom ibl v s' \<noteq> None" for n s
    using that by (auto split: prod.split boot_end.split)
  have "boot (Suc (Suc (Suc 0))) rom ibl v s \<noteq> None"
  proof (rule step)
    fix s1
    assume m1: "mbl_main rom ibl v (0, 0, 0) s = (SoftwareReset, s1)"
    obtain i f where i: "spec_select (img IMAGE_0 s) (img IMAGE_1 s) = Some i"
        "img i s1 = Some f" "flag_failed f" "\<not> flag_proven f"
      using main_reset [OF m1] by blast
    show "boot (Suc (Suc 0)) rom ibl v s1 \<noteq> None"
    proof (rule step)
      fix s2
      assume m2: "mbl_main rom ibl v (0, 0, 0) s1 = (SoftwareReset, s2)"
      obtain j g where j: "spec_select (img IMAGE_0 s1) (img IMAGE_1 s1) = Some j"
          "img j s2 = Some g" "flag_failed g" "\<not> flag_proven g" "\<And>k. k \<noteq> j \<Longrightarrow> img k s2 = img k s1"
        using main_reset [OF m2] by blast
      have ij: "i \<in> {IMAGE_0, IMAGE_1}" "j \<in> {IMAGE_0, IMAGE_1}"
        using i(1) j(1) by (auto dest: select_index)
      have "j \<noteq> i"
        using select_not_failed [OF j(1), of f] i ij by auto
      then have "img i s2 = Some f"
        using i j(5) by simp
      show "boot (Suc 0) rom ibl v s2 \<noteq> None"
      proof (rule step)
        fix s3
        assume m3: "mbl_main rom ibl v (0, 0, 0) s2 = (SoftwareReset, s3)"
        obtain k where k: "spec_select (img IMAGE_0 s2) (img IMAGE_1 s2) = Some k"
          using main_reset [OF m3] by blast
        have "k \<in> {IMAGE_0, IMAGE_1}"
          using k by (rule select_index)
        then have "k = i \<or> k = j"
          using ij \<open>j \<noteq> i\<close> by auto
        with select_not_failed [OF k, of f] select_not_failed [OF k, of g] i(3,4) j(2-4) ij
          \<open>img i s2 = Some f\<close> show "boot 0 rom ibl v s3 \<noteq> None"
          by auto
      qed
    qed
  qed
  then show ?thesis
    by (simp add: numeral_3_eq_3)
qed

lemma boot_runs_accepted:
  "boot n rom ibl v s = Some (Jump i a fm, s') \<Longrightarrow>
   accepted rom ibl v s i \<and> fm = image_map i \<and> running s' = Some (ucast i)"
proof (induction n arbitrary: s)
  case (Suc n)
  obtain e s1 where m: "mbl_main rom ibl v (0, 0, 0) s = (e, s1)" by force
  show ?case
  proof (cases e)
    case (Jump j b gm)
    then show ?thesis
      using Suc.prems m main_jump [of ibl v s i a fm s'] by auto
  next
    case SoftwareReset
    then have "core s1 = core s"
      using main_reset m by blast
    moreover have "boot n rom ibl v s1 = Some (Jump i a fm, s')"
      using SoftwareReset m Suc.prems by simp
    ultimately show ?thesis
      using Suc.IH [of s1] accepted_core [of s1 s ibl v i] by simp
  next
    case NoImageBoot
    then show ?thesis using Suc.prems m by simp
  qed
qed simp

lemma boot_selected:
  assumes "spec_select (img IMAGE_0 s) (img IMAGE_1 s) = Some i" and "accepted rom ibl v s i"
  shows "\<exists>a s'. boot (Suc n) rom ibl v s = Some (Jump i a (image_map i), s') \<and> running s' = Some (ucast i)"
proof -
  obtain e s' where m: "mbl_main rom ibl v (0, 0, 0) s = (e, s')" by force
  from main_cases [OF m] m assms show ?thesis by auto
qed

text \<open>
  The fallback: a new image that is rejected costs one reset, then the proven image runs.
\<close>

lemma boot_falls_back:
  assumes idx: "{new, old} = {IMAGE_0, IMAGE_1}"
    and new: "img new s = Some fn" "flag_newer fn" "\<not> flag_failed fn" "\<not> accepted rom ibl v s new"
    and old: "img old s = Some fo" "flag_proven fo" "\<not> flag_newer fo" "accepted rom ibl v s old"
  shows "\<exists>a s'. boot 2 rom ibl v s = Some (Jump old a (image_map old), s') \<and>
    running s' = Some (ucast old)"
proof -
  have ne: "old \<noteq> new" using idx by auto
  have sel: "spec_select (img IMAGE_0 s) (img IMAGE_1 s) = Some new"
    using idx new old by (auto simp: doubleton_eq_iff)
  obtain e s1 where m: "mbl_main rom ibl v (0, 0, 0) s = (e, s1)" by force
  with main_cases [OF m] sel new(4) have m': "mbl_main rom ibl v (0, 0, 0) s = (SoftwareReset, s1)"
    by auto
  obtain i f where r: "spec_select (img IMAGE_0 s) (img IMAGE_1 s) = Some i" "core s1 = core s"
      "img i s1 = Some f" "flag_failed f" "\<not> flag_proven f" "\<And>j. j \<noteq> i \<Longrightarrow> img j s1 = img j s"
    using main_reset [OF m'] by blast
  have "i = new" using r(1) sel by simp
  then have "img old s1 = Some fo" "img new s1 = Some f"
    using r(3,6) ne old(1) by auto
  then have "spec_select (img IMAGE_0 s1) (img IMAGE_1 s1) = Some old"
    using idx old(2,3) r(4,5) by (auto simp: doubleton_eq_iff)
  from boot_selected [OF this, of ibl v 0] old(4) accepted_core [OF r(2)] m' show ?thesis
    by (simp add: numeral_2_eq_2)
qed

end

section \<open>A chip\<close>

text \<open>
  A concrete chip that keeps the laws: status bytes, a version counter that only grows, and
  per image slot the version of a validly signed image, if there is one.
\<close>

record chip =
  ch_img :: "u32 \<Rightarrow> u8 option"
  ch_running :: "u8 option"
  ch_version :: u32
  ch_slot :: "u32 \<Rightarrow> u32 option"
  ch_trace :: u8
  ch_xmodem :: "u8 option"

definition chip_get :: "sys_item \<Rightarrow> u8 \<Rightarrow> chip \<Rightarrow> int \<times> u8" where
  "chip_get it d c =
     (case (case it of SYS_TRACE_LEVEL \<Rightarrow> Some (ch_trace c) | SYS_IMAGE0_STATUS \<Rightarrow> ch_img c IMAGE_0
            | SYS_IMAGE1_STATUS \<Rightarrow> ch_img c IMAGE_1 | SYS_RUNNING_IMG \<Rightarrow> ch_running c
            | SYS_XMODEM_FLAG \<Rightarrow> ch_xmodem c) of
        None \<Rightarrow> (SYS_STATUS_NOT_FOUND, d) | Some f \<Rightarrow> (SYS_STATUS_FOUND_OK, f))"

definition chip_set_img_flag :: "u32 \<Rightarrow> u8 \<Rightarrow> u8 \<Rightarrow> chip \<Rightarrow> int \<times> chip" where
  "chip_set_img_flag i m v c = (0, c\<lparr>ch_img := (ch_img c)(i := Some (set_flag m v (ch_img c i)))\<rparr>)"

definition chip_set_fw_version :: "u32 \<Rightarrow> chip \<Rightarrow> int \<times> chip" where
  "chip_set_fw_version ver c =
     (if ver < ch_version c then (-1, c) else if ver = ch_version c then (1, c)
      else (0, c\<lparr>ch_version := ver\<rparr>))"

definition chip_validate :: "fmc_map \<Rightarrow> u32 \<Rightarrow> u8 list \<Rightarrow> chip \<Rightarrow> int \<times> u32" where
  "chip_validate fm off h c =
     (case ch_slot c (if snd (snd fm) = 0 then IMAGE_0 else IMAGE_1) of
        None \<Rightarrow> (-5, 0) | Some ver \<Rightarrow> (0, ver))"

definition chip_rom :: "chip rom_sys" where
  "chip_rom = \<lparr>sys_status_get = chip_get,
     sys_status_set = (\<lambda>it f c. c\<lparr>ch_xmodem := Some f\<rparr>),
     sys_status_check = (\<lambda>c. c), sys_set_trace_level = (\<lambda>l c. c\<lparr>ch_trace := l\<rparr>),
     sys_set_img_flag = chip_set_img_flag,
     sys_set_running_img = (\<lambda>i c. (0, c\<lparr>ch_running := Some (ucast i)\<rparr>)),
     sys_set_fw_version = chip_set_fw_version,
     img_validate = chip_validate, cert_img_validate = chip_validate, xmodem_start = (\<lambda>_ c. c)\<rparr>"

interpretation chip: boot_rom chip_rom "\<lambda>i c. ch_img c i" ch_running "\<lambda>c. (ch_version c, ch_slot c)"
  by unfold_locales
    (auto simp: chip_rom_def chip_get_def img_item_def chip_set_img_flag_def chip_set_fw_version_def
      chip_validate_def split: option.splits if_splits)

section \<open>Properties\<close>

text \<open>
  Property C20: the boot loader never loops. Whatever the stored flags and however often the
  validation rejects an image, after at most three runs (two resets) the chip has jumped to
  an image or stopped for lack of one.
\<close>

theorem boot_terminates:
  assumes "boot_rom rom img running core"
  shows "boot 3 rom ibl v s \<noteq> None"
  using assms by (rule boot_rom.boot_at_most_three)

definition chip_example :: chip where
  "chip_example = \<lparr>ch_img = (\<lambda>_. None)(IMAGE_0 := Some 0x0A, IMAGE_1 := Some 0x01), ch_running = Some 0,
     ch_version = 5, ch_slot = (\<lambda>_. None)(IMAGE_0 := Some 5), ch_trace = 0, ch_xmodem = None\<rparr>"

definition rom_boot_example :: ibl_state where
  "rom_boot_example = \<lparr>ibl_magic = IBL_STATE_MAGIC_CODE, ibl_opt = ucast IBL_VERIFY_CERT_IMG,
     rotpk_hash = replicate 32 1\<rparr>"

theorem boot_terminates_witness:
  "boot 3 chip_rom rom_boot_example 0 chip_example \<noteq> None"
  using boot_terminates [OF chip.boot_rom_axioms] .

text \<open>
  Property C4: verified boot. If the boot ROM started the boot loader and the lowest byte of its
  boot options asks for the check of the certificate and the image or of the image alone, then
  the boot loader jumps only to an image on which that function of the ROM, called through the
  remapping under which the image runs and with the key hash of the boot ROM, reported success
  and whose version the version counter did not refuse. The image it jumps to is the one
  recorded as running, with its remapping. Whatever the rest of the options says, the lowest byte
  \<open>IBL_VERIFY_NONE\<close> lets every selected image run.
\<close>

theorem boot_only_validated:
  fixes rom :: "'s rom_sys" and ibl :: ibl_state and s :: 's
  assumes "boot_rom rom img running core"
  defines "opt \<equiv> ucast (ibl_opt ibl) :: u8"
    and "verdict \<equiv> (\<lambda>i. (if ucast (ibl_opt ibl) = IBL_VERIFY_CERT_IMG then cert_img_validate else img_validate) rom
        (image_map i) (RE_IMG_0_OFFSET + IMG_OVERHEAD_LEN - IMAGE_HEADER_SIZE) (rotpk_hash ibl) s)"
  shows "(boot n rom ibl v s = Some (Jump i a fm, s') \<longrightarrow> fm = image_map i \<and> running s' = Some (ucast i) \<and>
      (ibl_magic ibl = IBL_STATE_MAGIC_CODE \<and> opt \<in> {IBL_VERIFY_CERT_IMG, IBL_VERIFY_IMG_ONLY} \<longrightarrow>
         fst (verdict i) = 0 \<and> 0 \<le> fst (sys_set_fw_version rom (snd (verdict i)) s))) \<and>
    (opt = IBL_VERIFY_NONE \<and> spec_select (img IMAGE_0 s) (img IMAGE_1 s) = Some i \<longrightarrow>
      (\<exists>a t. boot 1 rom ibl v s = Some (Jump i a (image_map i), t)))"
proof (intro conjI impI)
  assume "boot n rom ibl v s = Some (Jump i a fm, s')"
  note run = boot_rom.boot_runs_accepted [OF assms(1) this]
  then show "fm = image_map i" "running s' = Some (ucast i)" by simp_all
  assume "ibl_magic ibl = IBL_STATE_MAGIC_CODE \<and> opt \<in> {IBL_VERIFY_CERT_IMG, IBL_VERIFY_IMG_ONLY}"
  with run show "fst (verdict i) = 0" "0 \<le> fst (sys_set_fw_version rom (snd (verdict i)) s)"
    by (auto simp: accepted_def boot_ibl_def opt_def verdict_def Let_def)
next
  assume o: "opt = IBL_VERIFY_NONE \<and> spec_select (img IMAGE_0 s) (img IMAGE_1 s) = Some i"
  then have "accepted rom ibl v s i" by (simp add: accepted_def boot_ibl_def opt_def Let_def)
  with boot_rom.boot_selected [OF assms(1), of s i ibl v 0] o
  show "\<exists>a t. boot 1 rom ibl v s = Some (Jump i a (image_map i), t)" by auto
qed

lemma chip_example_boot:
  "fst (the (boot 3 chip_rom rom_boot_example 0 chip_example)) = Jump IMAGE_0 0x0800A000 (0, 0, 0)"
  by code_simp

theorem boot_only_validated_witness:
  "\<exists>s'. boot 3 chip_rom rom_boot_example 0 chip_example = Some (Jump IMAGE_0 0x0800A000 (0, 0, 0), s') \<and>
     fst (chip_validate (image_map IMAGE_0) (RE_IMG_0_OFFSET + IMG_OVERHEAD_LEN - IMAGE_HEADER_SIZE) (replicate 32 1) chip_example) = 0 \<and>
     ch_running s' = Some 0 \<and>
     (\<exists>a t. boot 1 chip_rom (rom_boot_example\<lparr>ibl_opt := 0x100\<rparr>) 0 chip_example = Some (Jump IMAGE_1 a (image_map IMAGE_1), t))"
proof -
  have "boot 3 chip_rom rom_boot_example 0 chip_example \<noteq> None"
    by (rule chip.boot_at_most_three)
  with chip_example_boot obtain s' where
    b: "boot 3 chip_rom rom_boot_example 0 chip_example = Some (Jump IMAGE_0 0x0800A000 (0, 0, 0), s')"
    by (cases "boot 3 chip_rom rom_boot_example 0 chip_example") auto
  have "cert_img_validate chip_rom = chip_validate" by (simp add: chip_rom_def)
  moreover have "ibl_magic rom_boot_example = IBL_STATE_MAGIC_CODE" "(ucast (ibl_opt rom_boot_example) :: u8) = IBL_VERIFY_CERT_IMG"
    "rotpk_hash rom_boot_example = replicate 32 1" by (simp_all add: rom_boot_example_def)
  moreover have "(ucast (ibl_opt (rom_boot_example\<lparr>ibl_opt := 0x100\<rparr>)) :: u8) = IBL_VERIFY_NONE"
    "spec_select (ch_img chip_example IMAGE_0) (ch_img chip_example IMAGE_1) = Some IMAGE_1" by code_simp+
  ultimately show ?thesis
    using boot_only_validated [OF chip.boot_rom_axioms, of 3 rom_boot_example 0 chip_example IMAGE_0 _ _ s'] b
      boot_only_validated [OF chip.boot_rom_axioms, of _ "rom_boot_example\<lparr>ibl_opt := 0x100\<rparr>" 0 chip_example IMAGE_1]
    by auto
qed

text \<open>
  Property C19: fallback. When the newer image is rejected and the other one is proven
  (verified and accepted by its application earlier) and still validates, one reset later
  the proven image runs.
\<close>

theorem boot_fallback:
  assumes "boot_rom rom img running core" and "{new, old} = {IMAGE_0, IMAGE_1}"
    and "img new s = Some fn" and "flag_newer fn" and "\<not> flag_failed fn"
    and "\<not> accepted rom ibl v s new"
    and "img old s = Some fo" and "flag_proven fo" and "\<not> flag_newer fo" and "accepted rom ibl v s old"
  shows "\<exists>a s'. boot 2 rom ibl v s = Some (Jump old a (image_map old), s') \<and>
    running s' = Some (ucast old)"
  using assms by (rule boot_rom.boot_falls_back)

theorem boot_fallback_witness:
  "\<exists>a s'. boot 2 chip_rom rom_boot_example 0 chip_example = Some (Jump IMAGE_0 a (image_map IMAGE_0), s') \<and>
     ch_running s' = Some 0"
proof -
  have "{IMAGE_1, IMAGE_0} = {IMAGE_0, IMAGE_1}" "ch_img chip_example IMAGE_1 = Some 0x01"
      "flag_newer 0x01" "\<not> flag_failed 0x01" "\<not> accepted chip_rom rom_boot_example 0 chip_example IMAGE_1"
      "ch_img chip_example IMAGE_0 = Some 0x0A" "flag_proven 0x0A" "\<not> flag_newer 0x0A"
      "accepted chip_rom rom_boot_example 0 chip_example IMAGE_0"
    by (blast | code_simp)+
  from boot_fallback [OF chip.boot_rom_axioms this] show ?thesis by simp
qed

end
