(* ===== verification/Raw_Flash.thy ===== *)
theory Raw_Flash
  imports Flash_Layout
begin

text \<open>
  The flash driver \<open>raw_flash_api.c\<close> and the TuyaOS adapter \<open>tkl_flash.c\<close> on top of it: range
  checks, reading through the address remapping of the flash controller, programming that
  splits a range into an unaligned head, aligned words and an unaligned tail, erasing with
  the registered handlers, and the partition table of the adapter.
\<close>

section \<open>The device\<close>

text \<open>
  The flash controller: the bytes of the flash by physical offset, the remapped page region,
  the remapping offset in pages, the interrupt state, the registered erase handlers (by
  address) and the calls they have received.
\<close>

datatype raw_erase_type = RAW_FLASH_ERASE_BLE_PRE_HANDLE | RAW_FLASH_ERASE_BLE_AFTER_HANDLE

record flash_dev =
  fd_mem :: "nat \<Rightarrow> u8"
  fd_ofrg :: "u32 \<times> u32"
  fd_ofvr :: u32
  fd_irq_off :: bool
  fd_unlocked :: bool
  fd_handlers :: "addr list"
  fd_events :: "(addr \<times> raw_erase_type) list"

text \<open>
  The physical offset of a byte that the processor addresses at offset \<open>a\<close>: pages in the
  region are moved up by the offset.
\<close>

definition fmc_translate :: "flash_dev \<Rightarrow> nat \<Rightarrow> nat" where
  "fmc_translate d a =
     (if unat (fst (fd_ofrg d)) \<le> a div 4096 \<and> a div 4096 \<le> unat (snd (fd_ofrg d))
      then a + unat (fd_ofvr d) * 4096 else a)"

text \<open>
  Programming can only clear bits.
\<close>

definition nor_program :: "nat \<Rightarrow> u8 list \<Rightarrow> (nat \<Rightarrow> u8) \<Rightarrow> nat \<Rightarrow> u8" where
  "nor_program off bs m = (\<lambda>a. if off \<le> a \<and> a < off + length bs then m a AND bs ! (a - off) else m a)"

definition nor_erase :: "nat \<Rightarrow> nat \<Rightarrow> (nat \<Rightarrow> u8) \<Rightarrow> nat \<Rightarrow> u8" where
  "nor_erase off n m = (\<lambda>a. if off \<le> a \<and> a < off + n then 0xFF else m a)"

text \<open>
  The flash functions of the ROM table and the wait of the peripheral library.
\<close>

record rom_flash =
  rom_flash_read :: "u32 \<Rightarrow> nat \<Rightarrow> flash_dev \<Rightarrow> int \<times> u8 list"
  rom_flash_write :: "u32 \<Rightarrow> u8 list \<Rightarrow> flash_dev \<Rightarrow> int \<times> flash_dev"
  rom_flash_erase :: "u32 \<Rightarrow> nat \<Rightarrow> flash_dev \<Rightarrow> int \<times> flash_dev"
  fmc_ready_wait :: "flash_dev \<Rightarrow> int"

section \<open>Model of raw_flash_api.c\<close>

definition fmc_unlock :: "flash_dev \<Rightarrow> flash_dev" where
  "fmc_unlock d = d\<lparr>fd_unlocked := True\<rparr>"

definition fmc_lock :: "flash_dev \<Rightarrow> flash_dev" where
  "fmc_lock d = d\<lparr>fd_unlocked := False\<rparr>"

definition fmc_offset_region_config :: "u32 \<Rightarrow> u32 \<Rightarrow> flash_dev \<Rightarrow> flash_dev" where
  "fmc_offset_region_config sp ep d = d\<lparr>fd_ofrg := (sp, ep)\<rparr>"

definition fmc_offset_value_config :: "u32 \<Rightarrow> flash_dev \<Rightarrow> flash_dev" where
  "fmc_offset_value_config v d = d\<lparr>fd_ofvr := v\<rparr>"

definition irq_disable :: "flash_dev \<Rightarrow> flash_dev" where "irq_disable d = d\<lparr>fd_irq_off := True\<rparr>"
definition irq_enable :: "flash_dev \<Rightarrow> flash_dev" where "irq_enable d = d\<lparr>fd_irq_off := False\<rparr>"

definition raw_flash_init :: "flash_dev \<Rightarrow> flash_dev" where
  "raw_flash_init d = d\<lparr>fd_handlers := []\<rparr>"

definition raw_flash_total_size :: u32 where "raw_flash_total_size = FLASH_TOTAL_SIZE"

definition raw_flash_is_valid_offset :: "u32 \<Rightarrow> bool" where
  "raw_flash_is_valid_offset offset \<longleftrightarrow> offset < raw_flash_total_size"

definition raw_flash_is_valid_addr :: "u32 \<Rightarrow> bool" where
  "raw_flash_is_valid_addr addr \<longleftrightarrow> addr \<ge> FLASH_BASE \<and> addr < FLASH_BASE + raw_flash_total_size"

definition raw_flash_offset_mapping :: "u32 \<Rightarrow> u32 \<Rightarrow> u32 \<Rightarrow> flash_dev \<Rightarrow> flash_dev" where
  "raw_flash_offset_mapping of_spage of_epage of_value d =
     fmc_lock (fmc_offset_value_config of_value
       (fmc_offset_region_config of_spage of_epage (fmc_unlock d)))"

text \<open>
  \<open>len\<close> is a C \<open>int\<close>; the sum \<open>offset + len - 1\<close> is computed in 32 bits.
\<close>

definition raw_flash_range_bad :: "u32 \<Rightarrow> int \<Rightarrow> bool" where
  "raw_flash_range_bad offset len \<longleftrightarrow>
     \<not> raw_flash_is_valid_offset offset \<or> len \<le> 0 \<or>
     \<not> raw_flash_is_valid_offset (offset + word_of_int len - 1)"

definition raw_flash_read ::
    "rom_flash \<Rightarrow> u32 \<Rightarrow> bool \<Rightarrow> int \<Rightarrow> flash_dev \<Rightarrow> int \<times> u8 list option \<times> flash_dev" where
  "raw_flash_read rom offset data_null len d =
     (if raw_flash_range_bad offset len \<or> data_null then (-1, None, d)
      else
        let fmc_ofvr_temp = fd_ofvr d; n = nat len in
        if fmc_ofvr_temp > 0 then
          if offset \<ge> RE_IMG_0_OFFSET \<and> offset < RE_IMG_1_OFFSET then
            let d = irq_disable d;
                d = fmc_lock (fmc_offset_value_config 0 (fmc_unlock d));
                (ret, bs) = rom_flash_read rom offset n d;
                d = fmc_lock (fmc_offset_value_config fmc_ofvr_temp (fmc_unlock d))
            in (ret, Some bs, irq_enable d)
          else if offset \<ge> RE_IMG_1_OFFSET \<and> offset < RE_IMG_1_END then
            let (ret, bs) = rom_flash_read rom (offset - (RE_IMG_1_OFFSET - RE_IMG_0_OFFSET)) n d
            in (ret, Some bs, d)
          else
            let (ret, bs) = rom_flash_read rom offset n d in (ret, Some bs, d)
        else
          if offset \<ge> RE_IMG_1_OFFSET \<and> offset < RE_IMG_1_END then
            let d = irq_disable d;
                d = fmc_lock (fmc_offset_value_config (drop_bit 12 (RE_IMG_1_OFFSET - RE_IMG_0_OFFSET))
                      (fmc_offset_region_config (drop_bit 12 RE_IMG_0_OFFSET)
                         (drop_bit 12 RE_IMG_1_OFFSET - 1) (fmc_unlock d)));
                (ret, bs) = rom_flash_read rom (offset - (RE_IMG_1_OFFSET - RE_IMG_0_OFFSET)) n d;
                d = fmc_lock (fmc_offset_value_config 0 (fmc_offset_region_config 0x1fff 0 (fmc_unlock d)))
            in (ret, Some bs, irq_enable d)
          else
            let (ret, bs) = rom_flash_read rom offset n d in (ret, Some bs, d))"

definition raw_flash_write ::
    "rom_flash \<Rightarrow> u32 \<Rightarrow> u8 list option \<Rightarrow> int \<Rightarrow> flash_dev \<Rightarrow> int \<times> flash_dev" where
  "raw_flash_write rom offset data len d =
     (case data of
        None \<Rightarrow> (-1, d)
      | Some bytes \<Rightarrow>
          if raw_flash_range_bad offset len then (-1, d)
          else
            let (ret, d) = rom_flash_write rom offset (take (nat len) bytes) d
            in if ret \<noteq> 0 then (-1, d) else (0, d))"

definition raw_flash_erase_handler :: "raw_erase_type \<Rightarrow> flash_dev \<Rightarrow> flash_dev" where
  "raw_flash_erase_handler typ d =
     d\<lparr>fd_events := fd_events d @ map (\<lambda>cb. (cb, typ)) (filter (\<lambda>cb. cb \<noteq> NULL) (fd_handlers d))\<rparr>"

definition raw_flash_erase_handler_register :: "bool \<Rightarrow> addr \<Rightarrow> flash_dev \<Rightarrow> int \<times> flash_dev" where
  "raw_flash_erase_handler_register malloc_ok callback d =
     (if callback \<in> set (fd_handlers d) then (0, d)
      else if \<not> malloc_ok then (-1, d)
      else (0, d\<lparr>fd_handlers := fd_handlers d @ [callback]\<rparr>))"

definition raw_flash_erase_handler_unregister :: "addr \<Rightarrow> flash_dev \<Rightarrow> flash_dev" where
  "raw_flash_erase_handler_unregister callback d =
     d\<lparr>fd_handlers := filter (\<lambda>cb. \<not> (cb \<noteq> NULL \<and> cb = callback)) (fd_handlers d)\<rparr>"

definition raw_flash_erase :: "rom_flash \<Rightarrow> u32 \<Rightarrow> int \<Rightarrow> flash_dev \<Rightarrow> int \<times> flash_dev" where
  "raw_flash_erase rom offset len d =
     (if raw_flash_range_bad offset len then (-1, d)
      else
        let d = raw_flash_erase_handler RAW_FLASH_ERASE_BLE_PRE_HANDLE d;
            irq = fd_irq_off d;
            (ret, d) = rom_flash_erase rom offset (nat len) (irq_disable d);
            d = d\<lparr>fd_irq_off := irq\<rparr>;
            d = raw_flash_erase_handler RAW_FLASH_ERASE_BLE_AFTER_HANDLE d
        in (ret, d))"

text \<open>
  \<open>fmc_continuous_program\<close> of the peripheral library: once the controller is ready, \<open>size / 4\<close>
  words are stored one after the other.
\<close>

definition fmc_continuous_program ::
    "rom_flash \<Rightarrow> u32 \<Rightarrow> u8 list \<Rightarrow> u32 \<Rightarrow> flash_dev \<Rightarrow> int \<times> flash_dev" where
  "fmc_continuous_program rom address data sz d =
     (let fmc_state = fmc_ready_wait rom d in
      if fmc_state = 0
      then (fmc_state, d\<lparr>fd_mem := nor_program (unat (address - FLASH_BASE))
                          (take (4 * (unat sz div 4)) data) (fd_mem d)\<rparr>)
      else (fmc_state, d))"

definition raw_flash_write_fast ::
    "rom_flash \<Rightarrow> u32 \<Rightarrow> u8 list option \<Rightarrow> int \<Rightarrow> flash_dev \<Rightarrow> int \<times> flash_dev" where
  "raw_flash_write_fast rom offset data len d =
     (case data of
        None \<Rightarrow> (-1, d)
      | Some bytes \<Rightarrow>
          if raw_flash_range_bad offset len then (-1, d)
          else if len \<le> 4 then raw_flash_write rom offset data len d
          else
            let r = 4 - (offset AND 3);
                rr = (offset + word_of_int len) AND 3;
                r = (if r = 4 then 0 else r);
                (ret, d) = (if r \<noteq> 0 then raw_flash_write rom offset data (uint r) d else (0, d)) in
            if ret \<noteq> 0 then (ret, d)
            else
              let d = fmc_unlock d;
                  irq = fd_irq_off d;
                  (ret, d) = fmc_continuous_program rom (FLASH_BASE + offset + r)
                    (drop (unat r) bytes) (word_of_int len - r - rr) (irq_disable d);
                  d = fmc_lock (d\<lparr>fd_irq_off := irq\<rparr>)
              in if rr \<noteq> 0
                 then raw_flash_write rom (offset + word_of_int len - rr)
                        (Some (drop (nat len - unat rr) bytes)) (uint rr) d
                 else (ret, d))"

section \<open>Ranges\<close>

abbreviation flash_end :: nat where "flash_end \<equiv> 0x400000"

lemma unat_word_of_int: "0 \<le> k \<Longrightarrow> k < 2 ^ 32 \<Longrightarrow> unat (word_of_int k :: u32) = nat k"
  by (simp add: unat_eq_nat_uint uint_word_of_int_eq take_bit_int_eq_self)

lemma unat_add_len:
  assumes "0 \<le> len" and "unat offset + nat len < 2 ^ 32"
  shows "unat (offset + word_of_int len :: u32) = unat offset + nat len"
proof -
  have "unat (word_of_int len :: u32) = nat len"
    using assms by (intro unat_word_of_int) auto
  then show ?thesis
    using assms by (simp add: unat_add_small)
qed

lemma flash_range_iff:
  assumes "len < 2 ^ 31"
  shows "\<not> raw_flash_range_bad offset len \<longleftrightarrow> 0 < len \<and> unat offset + nat len \<le> flash_end"
proof (cases "0 < len \<and> unat offset < flash_end")
  case True
  then have "unat (offset + word_of_int len) = unat offset + nat len"
    using assms by (intro unat_add_len) auto
  then have "unat (offset + word_of_int len - 1) = unat offset + nat len - 1"
    using True by (subst unat_sub) (auto simp: word_le_nat_alt)
  then show ?thesis
    using True by (auto simp: raw_flash_range_bad_def raw_flash_is_valid_offset_def
        raw_flash_total_size_def FLASH_TOTAL_SIZE_def word_less_nat_alt)
next
  case False
  then show ?thesis
    by (auto simp: raw_flash_range_bad_def raw_flash_is_valid_offset_def
        raw_flash_total_size_def FLASH_TOTAL_SIZE_def word_less_nat_alt)
qed

lemma flash_range_ok:
  "0 < len \<Longrightarrow> unat offset + nat len \<le> flash_end \<Longrightarrow> \<not> raw_flash_range_bad offset len"
  by (subst flash_range_iff) auto

section \<open>What the driver relies on\<close>

locale nor_flash =
  fixes rom :: rom_flash
  assumes read_ok: "0 < n \<Longrightarrow> unat off + n \<le> flash_end \<Longrightarrow>
      rom_flash_read rom off n d = (0, map (\<lambda>i. fd_mem d (fmc_translate d (unat off + i))) [0..<n])"
    and write_ok: "bs \<noteq> [] \<Longrightarrow> unat off + length bs \<le> flash_end \<Longrightarrow>
      rom_flash_write rom off bs d = (0, d\<lparr>fd_mem := nor_program (unat off) bs (fd_mem d)\<rparr>)"
    and erase_ok: "0 < n \<Longrightarrow> unat off + n \<le> flash_end \<Longrightarrow> 4096 dvd unat off \<Longrightarrow> 4096 dvd n \<Longrightarrow>
      rom_flash_erase rom off n d = (0, d\<lparr>fd_mem := nor_erase (unat off) n (fd_mem d)\<rparr>)"
    and ready: "fmc_ready_wait rom d = 0"

text \<open>
  A flash without faults, for which the laws hold.
\<close>

definition ideal_flash :: rom_flash where
  "ideal_flash =
     \<lparr>rom_flash_read = (\<lambda>off n d. (0, map (\<lambda>i. fd_mem d (fmc_translate d (unat off + i))) [0..<n])),
      rom_flash_write = (\<lambda>off bs d. (0, d\<lparr>fd_mem := nor_program (unat off) bs (fd_mem d)\<rparr>)),
      rom_flash_erase = (\<lambda>off n d. (0, d\<lparr>fd_mem := nor_erase (unat off) n (fd_mem d)\<rparr>)),
      fmc_ready_wait = (\<lambda>_. 0)\<rparr>"

interpretation ideal: nor_flash ideal_flash
  by unfold_locales (simp_all add: ideal_flash_def)

lemma nor_program_Nil [simp]: "nor_program off [] m = m"
  by (auto simp: nor_program_def fun_eq_iff)

lemma nor_program_append:
  "nor_program (off + length xs) ys (nor_program off xs m) = nor_program off (xs @ ys) m"
  by (auto simp: nor_program_def nth_append fun_eq_iff)

lemma nor_program_erased:
  assumes "\<And>a. off \<le> a \<Longrightarrow> a < off + length bs \<Longrightarrow> m a = 0xFF"
  shows "nor_program off bs m = (\<lambda>a. if off \<le> a \<and> a < off + length bs then bs ! (a - off) else m a)"
proof -
  have "(0xFF :: u8) AND b = b" for b
  proof -
    have "(0xFF :: u8) = -1" by simp
    then show ?thesis by (simp only: and.left_neutral)
  qed
  with assms show ?thesis by (auto simp: nor_program_def fun_eq_iff)
qed

context nor_flash
begin

lemma raw_write:
  assumes "0 < len" and "unat offset + nat len \<le> flash_end" and "nat len \<le> length bytes"
  shows "raw_flash_write rom offset (Some bytes) len d =
    (0, d\<lparr>fd_mem := nor_program (unat offset) (take (nat len) bytes) (fd_mem d)\<rparr>)"
proof -
  have "take (nat len) bytes \<noteq> []" "unat offset + length (take (nat len) bytes) \<le> flash_end"
    using assms by auto
  from write_ok [OF this] flash_range_ok [OF assms(1,2)] show ?thesis
    by (simp add: raw_flash_write_def)
qed

lemma raw_erase:
  assumes "0 < len" and "unat offset + nat len \<le> flash_end" and "4096 dvd unat offset" and "4096 dvd nat len"
  shows "\<exists>ev. raw_flash_erase rom offset len d =
    (0, d\<lparr>fd_mem := nor_erase (unat offset) (nat len) (fd_mem d), fd_events := ev\<rparr>)"
  using erase_ok [of "nat len" offset] flash_range_ok [OF assms(1,2)] assms
  by (cases d) (auto simp: raw_flash_erase_def raw_flash_erase_handler_def irq_disable_def)

text \<open>
  The split of \<open>raw_flash_write_fast\<close>: \<open>r\<close> bytes up to the next word boundary, \<open>rr\<close> bytes
  behind the last one, whole words in between.
\<close>

lemma unat_numeral_4: "unat (4 :: u32) = 4"
  by simp

lemma word_split_nat:
  fixes off n :: nat
  assumes "4 < n"
  defines "r \<equiv> (4 - off mod 4) mod 4" and "rr \<equiv> (off + n) mod 4"
  shows "r + rr \<le> n \<and> 4 dvd (n - r - rr)"
proof -
  have "off mod 4 = 0 \<or> off mod 4 = 1 \<or> off mod 4 = 2 \<or> off mod 4 = 3"
    using mod_less_divisor [of 4 off] by linarith
  then have "(off mod 4 + r) mod 4 = 0"
    by (auto simp: r_def)
  then have "4 dvd off + r"
    by (metis mod_add_left_eq mod_0_imp_dvd)
  have "r < 4"
    unfolding r_def by (rule mod_less_divisor) simp
  from \<open>4 dvd off + r\<close> obtain k where "off + r = 4 * k" by (elim dvdE)
  then have "off + n = 4 * k + (n - r)"
    using assms(1) \<open>r < 4\<close> by simp
  then have "rr = (n - r) mod 4"
    by (simp add: rr_def)
  then have "4 dvd (n - r - rr)" and "rr \<le> n - r"
    by (simp_all only: dvd_minus_mod mod_less_eq_dividend)
  then show ?thesis
    using assms(1) \<open>r < 4\<close> by linarith
qed

lemma fast_split:
  fixes offset :: u32 and len :: int
  assumes "4 < len" and "unat offset + nat len \<le> flash_end"
  defines "r \<equiv> (if 4 - (offset AND 3) = 4 then 0 else 4 - (offset AND 3))"
    and "rr \<equiv> (offset + word_of_int len) AND 3"
  defines "mid \<equiv> nat len - unat r - unat rr"
  shows "unat r + mid + unat rr = nat len" and "4 dvd mid"
    and "unat (word_of_int len - r - rr) = mid" and "unat (FLASH_BASE + offset + r - FLASH_BASE) = unat offset + unat r"
    and "unat (offset + word_of_int len - rr) = unat offset + unat r + mid"
proof -
  have and3: "unat (x AND 3) = unat x mod 4" for x :: u32
  proof -
    have "x AND 3 = take_bit 2 x" by (simp add: take_bit_eq_mask mask_eq_exp_minus_1)
    then show ?thesis by (simp add: take_bit_eq_mod unat_mod_distrib)
  qed
  have lens: "unat (word_of_int len :: u32) = nat len"
    using assms(1,2) by (intro unat_word_of_int) auto
  have ol: "unat (offset + word_of_int len) = unat offset + nat len"
    using assms(1,2) by (intro unat_add_len) auto
  have le4: "offset AND 3 \<le> 4"
    by (simp add: word_le_nat_alt and3)
  have r: "unat r = (4 - unat offset mod 4) mod 4"
  proof -
    have u: "unat (4 - (offset AND 3)) = 4 - unat offset mod 4"
      using unat_sub [OF le4] by (simp add: and3)
    have "4 - (offset AND 3) = 4 \<longleftrightarrow> unat (4 - (offset AND 3)) = unat (4 :: u32)"
      by (rule word_unat_eq_iff)
    also have "\<dots> \<longleftrightarrow> unat offset mod 4 = 0"
      unfolding u unat_numeral_4 by arith
    finally have "4 - (offset AND 3) = 4 \<longleftrightarrow> unat offset mod 4 = 0" .
    then show ?thesis
      using u by (cases "unat offset mod 4 = 0") (auto simp: r_def)
  qed
  have rr: "unat rr = (unat offset + nat len) mod 4"
    by (simp add: rr_def and3 ol)
  have *: "unat r + unat rr \<le> nat len \<and> 4 dvd (nat len - unat r - unat rr)"
    using assms(1) unfolding r rr by (intro word_split_nat) simp
  then show mid: "unat r + mid + unat rr = nat len" and "4 dvd mid"
    by (auto simp: mid_def)
  have 1: "unat (word_of_int len - r) = nat len - unat r"
    using * by (subst unat_sub) (auto simp: word_le_nat_alt lens)
  show "unat (word_of_int len - r - rr) = mid"
    using * 1 by (subst unat_sub) (auto simp: word_le_nat_alt mid_def)
  show "unat (offset + word_of_int len - rr) = unat offset + unat r + mid"
    using mid ol by (subst unat_sub) (auto simp: word_le_nat_alt)
  have "unat (offset + r) = unat offset + unat r"
    using mid assms(2) by (intro unat_add_small) auto
  then show "unat (FLASH_BASE + offset + r - FLASH_BASE) = unat offset + unat r"
    by (simp add: algebra_simps)
qed

lemma raw_write_fast:
  assumes len: "0 < len" and fit: "unat offset + nat len \<le> flash_end" and bytes: "nat len \<le> length bytes"
    and locked: "\<not> fd_unlocked d"
  shows "raw_flash_write_fast rom offset (Some bytes) len d =
    (0, d\<lparr>fd_mem := nor_program (unat offset) (take (nat len) bytes) (fd_mem d)\<rparr>)"
proof (cases "len \<le> 4")
  case True
  then show ?thesis
    using raw_write [OF len fit bytes] flash_range_ok [OF len fit] by (simp add: raw_flash_write_fast_def)
next
  case False
  define r where "r = (if 4 - (offset AND 3) = 4 then 0 else 4 - (offset AND 3))"
  define rr where "rr = (offset + word_of_int len) AND 3"
  define mid where "mid = nat len - unat r - unat rr"
  have "4 < len" using False by simp
  note split = fast_split [OF this fit, folded r_def rr_def, folded mid_def]
  define m1 where "m1 = nor_program (unat offset) (take (unat r) bytes) (fd_mem d)"
  define m2 where "m2 = nor_program (unat offset + unat r) (take mid (drop (unat r) bytes)) m1"
  define m3 where "m3 = nor_program (unat offset + unat r + mid)
      (take (unat rr) (drop (unat r + mid) bytes)) m2"
  have "m2 = nor_program (unat offset) (take (unat r + mid) bytes) (fd_mem d)"
    unfolding m2_def m1_def
    using nor_program_append [of "unat offset" "take (unat r) bytes" "take mid (drop (unat r) bytes)"]
      split(1) bytes by (simp add: take_add min_absorb2)
  then have m3: "m3 = nor_program (unat offset) (take (nat len) bytes) (fd_mem d)"
    unfolding m3_def using nor_program_append [of "unat offset" "take (unat r + mid) bytes"
      "take (unat rr) (drop (unat r + mid) bytes)" "fd_mem d"] split(1) bytes
    by (simp add: add.assoc [symmetric] min_absorb2 flip: take_add)
  have pos: "0 < uint x \<and> nat (uint x) = unat x" if "x \<noteq> 0" for x :: u32
    using that [unfolded word_neq_0_conv word_less_def] by simp
  have head: "(if r \<noteq> 0 then raw_flash_write rom offset (Some bytes) (uint r) d else (0, d)) =
      (0, d\<lparr>fd_mem := m1\<rparr>)"
    using raw_write [of "uint r" offset bytes d] pos [of r] split(1) fit bytes
    by (auto simp: m1_def)
  have tail: "(if rr \<noteq> 0 then raw_flash_write rom (offset + word_of_int len - rr)
        (Some (drop (nat len - unat rr) bytes)) (uint rr) (d\<lparr>fd_mem := m2\<rparr>)
      else (0, d\<lparr>fd_mem := m2\<rparr>)) = (0, d\<lparr>fd_mem := m3\<rparr>)"
  proof -
    have "nat len - unat rr = unat r + mid"
      using split(1) by simp
    then show ?thesis
      using raw_write [of "uint rr" "offset + word_of_int len - rr" "drop (unat r + mid) bytes"
          "d\<lparr>fd_mem := m2\<rparr>"] pos [of rr] split(1,5) fit bytes
      by (auto simp: m3_def)
  qed
  have prog: "fmc_continuous_program rom (FLASH_BASE + offset + r) (drop (unat r) bytes)
      (word_of_int len - r - rr) g = (0, g\<lparr>fd_mem := nor_program (unat offset + unat r)
        (take mid (drop (unat r) bytes)) (fd_mem g)\<rparr>)" for g
    using split(2-4) by (simp add: fmc_continuous_program_def ready)
  have ul: "d\<lparr>fd_mem := m, fd_unlocked := False\<rparr> = d\<lparr>fd_mem := m\<rparr>" for m
    using locked by (cases d) simp
  show ?thesis
    using False flash_range_ok [OF len fit] tail
    unfolding raw_flash_write_fast_def option.case Let_def r_def [symmetric] rr_def [symmetric]
      head prod.case prog m3 [symmetric]
    by (simp add: fmc_unlock_def fmc_lock_def irq_disable_def m2_def [symmetric] ul split: if_splits)
qed

text \<open>
  Reading: the driver takes physical offsets in both boot modes. It is right as long as the
  range does not run over the end of the slot of image 1 or, when image 1 runs, from below
  into the remapped region.
\<close>

lemma translate_id: "fd_ofvr d = 0 \<Longrightarrow> fmc_translate d a = a"
  by (simp add: fmc_translate_def)

lemma translate_img1:
  assumes "fd_ofrg d = (0xA, 0x1E9)" and "fd_ofvr d = 0x1E0" and "0xA000 \<le> a" and "a < 0x1EA000"
  shows "fmc_translate d a = a + 0x1E0000"
proof -
  have "10 \<le> a div 4096" "a div 4096 \<le> 489"
    using assms(3,4) by linarith+
  then show ?thesis
    by (simp add: fmc_translate_def assms(1,2))
qed

lemma translate_outside:
  assumes "fd_ofrg d = (0xA, 0x1E9)" and "a < 0xA000 \<or> 0x1EA000 \<le> a"
  shows "fmc_translate d a = a"
proof -
  have "\<not> (10 \<le> a div 4096 \<and> a div 4096 \<le> 489)"
    using assms(2) by linarith
  then show ?thesis
    by (auto simp: fmc_translate_def assms(1))
qed

end

definition image1_mode :: "flash_dev \<Rightarrow> bool" where
  "image1_mode d \<longleftrightarrow> fd_ofrg d = (0xA, 0x1E9) \<and> fd_ofvr d = 0x1E0"

definition image0_mode :: "flash_dev \<Rightarrow> bool" where
  "image0_mode d \<longleftrightarrow> fd_ofvr d = 0"

definition read_in_bounds :: "flash_dev \<Rightarrow> nat \<Rightarrow> nat \<Rightarrow> bool" where
  "read_in_bounds d off n \<longleftrightarrow> 0 < n \<and> off + n \<le> flash_end \<and>
     (0x1EA000 \<le> off \<and> off < 0x3CA000 \<longrightarrow> off + n \<le> 0x3CA000) \<and>
     (image1_mode d \<and> off < 0xA000 \<longrightarrow> off + n \<le> 0xA000)"

lemma img_slot_iff:
  "RE_IMG_0_OFFSET \<le> x \<longleftrightarrow> 0xA000 \<le> unat x" "x < RE_IMG_1_OFFSET \<longleftrightarrow> unat x < 0x1EA000"
  "RE_IMG_1_OFFSET \<le> x \<longleftrightarrow> 0x1EA000 \<le> unat x" "x < RE_IMG_1_END \<longleftrightarrow> unat x < 0x3CA000"
  by (simp_all add: layout_defs word_le_nat_alt word_less_nat_alt)

lemma img_shift:
  assumes "0x1EA000 \<le> unat x"
  shows "unat (x - (RE_IMG_1_OFFSET - RE_IMG_0_OFFSET)) = unat x - 0x1E0000"
  using assms by (subst unat_sub) (simp_all add: layout_defs word_le_nat_alt)

context nor_flash
begin

lemma raw_read:
  assumes mode: "image0_mode d \<or> image1_mode d" and inb: "read_in_bounds d (unat offset) n"
  shows "\<exists>d'. raw_flash_read rom offset False (int n) d =
      (0, Some (map (\<lambda>i. fd_mem d (unat offset + i)) [0..<n]), d') \<and>
    (\<forall>a. fmc_translate d' a = fmc_translate d a) \<and> fd_mem d' = fd_mem d \<and> fd_ofvr d' = fd_ofvr d"
proof -
  have n: "0 < n" "unat offset + n \<le> flash_end"
    using inb by (auto simp: read_in_bounds_def)
  have ok: "\<not> raw_flash_range_bad offset (int n)"
    using n by (intro flash_range_ok) auto
  note rd = read_ok [OF n(1)]
  let ?off1 = "offset - (RE_IMG_1_OFFSET - RE_IMG_0_OFFSET)"
  have rd1: "rom_flash_read rom ?off1 n e = (0, map (\<lambda>i. fd_mem e (unat offset + i)) [0..<n])"
    if img1: "0x1EA000 \<le> unat offset" "unat offset < 0x3CA000" and e: "image1_mode e" for e
  proof -
    have "unat ?off1 + n \<le> flash_end"
      using img_shift [OF img1(1)] n by simp
    from rd [OF this, of e] show ?thesis
      using img_shift [OF img1(1)] img1 inb e
      by (auto simp: read_in_bounds_def image1_mode_def translate_img1)
  qed
  show ?thesis
  proof (cases "image1_mode d")
    case True
    then have pos: "fd_ofvr d > 0" by (simp add: image1_mode_def)
    consider (low) "unat offset < 0xA000" | (img0) "0xA000 \<le> unat offset" "unat offset < 0x1EA000"
      | (img1) "0x1EA000 \<le> unat offset" "unat offset < 0x3CA000" | (high) "0x3CA000 \<le> unat offset"
      by linarith
    then show ?thesis
    proof cases
      case low
      then show ?thesis
        using rd [OF n(2), of d] ok pos True inb
        by (auto simp: raw_flash_read_def img_slot_iff read_in_bounds_def image1_mode_def translate_outside)
    next
      case img0
      then show ?thesis
        using rd [OF n(2)] ok pos
        by (simp add: raw_flash_read_def img_slot_iff Let_def translate_id fmc_unlock_def fmc_lock_def
            fmc_offset_value_config_def irq_disable_def irq_enable_def fmc_translate_def)
    next
      case img1
      then show ?thesis
        using rd1 [OF img1 True] ok pos by (simp add: raw_flash_read_def img_slot_iff)
    next
      case high
      then show ?thesis
        using rd [OF n(2), of d] ok pos True
        by (auto simp: raw_flash_read_def img_slot_iff image1_mode_def translate_outside)
    qed
  next
    case False
    with mode have zero: "fd_ofvr d = 0" by (simp add: image0_mode_def)
    show ?thesis
    proof (cases "0x1EA000 \<le> unat offset \<and> unat offset < 0x3CA000")
      case True
      let ?e = "fmc_lock (fmc_offset_value_config (drop_bit 12 (RE_IMG_1_OFFSET - RE_IMG_0_OFFSET))
        (fmc_offset_region_config (drop_bit 12 RE_IMG_0_OFFSET) (drop_bit 12 RE_IMG_1_OFFSET - 1)
          (fmc_unlock (irq_disable d))))"
      have "image1_mode ?e" "fd_mem ?e = fd_mem d"
        by (simp_all add: image1_mode_def fmc_lock_def fmc_unlock_def fmc_offset_value_config_def
            fmc_offset_region_config_def irq_disable_def layout_defs)
      with rd1 [of ?e] True show ?thesis
        using ok zero
        by (simp add: raw_flash_read_def img_slot_iff Let_def)
          (simp add: fmc_translate_def fmc_lock_def fmc_unlock_def fmc_offset_value_config_def
            fmc_offset_region_config_def irq_disable_def irq_enable_def)
    next
      case False
      then show ?thesis
        using rd [OF n(2), of d] ok zero
        by (auto simp: raw_flash_read_def img_slot_iff translate_id)
    qed
  qed
qed

end

section \<open>Model of tkl_flash.c\<close>

datatype flash_type =
    TUYA_FLASH_TYPE_BTL0 | TUYA_FLASH_TYPE_BTL1 | TUYA_FLASH_TYPE_STACK | TUYA_FLASH_TYPE_APP_BIN
  | TUYA_FLASH_TYPE_APP | TUYA_FLASH_TYPE_OTA | TUYA_FLASH_TYPE_USER0 | TUYA_FLASH_TYPE_USER1
  | TUYA_FLASH_TYPE_KV_DATA | TUYA_FLASH_TYPE_KV_SWAP | TUYA_FLASH_TYPE_KV_KEY | TUYA_FLASH_TYPE_UF
  | TUYA_FLASH_TYPE_INFO | TUYA_FLASH_TYPE_KV_UF | TUYA_FLASH_TYPE_KV_PROTECT | TUYA_FLASH_TYPE_RCD
  | TUYA_FLASH_TYPE_RSV nat | TUYA_FLASH_TYPE_ALL | TUYA_FLASH_TYPE_MAX

record flash_partition =
  block_size :: u32
  start_addr :: u32
  part_size :: u32

definition FLASH_BLOCK_SIZE :: u32 where "FLASH_BLOCK_SIZE = 0x1000"
definition TUYA_FLASH_UF_SIZE :: u32 where "TUYA_FLASH_UF_SIZE = 0x10000"
definition TUYA_FLASH_UF_START :: u32 where "TUYA_FLASH_UF_START = RE_IMG_1_END"
definition TUYA_FLASH_KV_DATA_SIZE :: u32 where "TUYA_FLASH_KV_DATA_SIZE = 0x10000"
definition TUYA_FLASH_KV_DATA_START :: u32 where
  "TUYA_FLASH_KV_DATA_START = TUYA_FLASH_UF_START + TUYA_FLASH_UF_SIZE"
definition TUYA_FLASH_KV_KEY_SIZE :: u32 where "TUYA_FLASH_KV_KEY_SIZE = 0x1000"
definition TUYA_FLASH_KV_KEY_START :: u32 where
  "TUYA_FLASH_KV_KEY_START = TUYA_FLASH_KV_DATA_START + TUYA_FLASH_KV_DATA_SIZE"
definition TUYA_FLASH_KV_SWAP_SIZE :: u32 where "TUYA_FLASH_KV_SWAP_SIZE = 0x4000"
definition TUYA_FLASH_KV_SWAP_START :: u32 where
  "TUYA_FLASH_KV_SWAP_START = TUYA_FLASH_KV_KEY_START + TUYA_FLASH_KV_KEY_SIZE"
definition TUYA_FLASH_TYPE_USER0_SIZE :: u32 where "TUYA_FLASH_TYPE_USER0_SIZE = 0x10000"
definition TUYA_FLASH_TYPE_USER0_START :: u32 where
  "TUYA_FLASH_TYPE_USER0_START = TUYA_FLASH_KV_SWAP_START + TUYA_FLASH_KV_SWAP_SIZE"
definition TUYA_FLASH_KV_PROTECT_SIZE :: u32 where "TUYA_FLASH_KV_PROTECT_SIZE = 0x2000"
definition TUYA_FLASH_KV_PROTECT_START :: u32 where
  "TUYA_FLASH_KV_PROTECT_START = TUYA_FLASH_TYPE_USER0_START + TUYA_FLASH_TYPE_USER0_SIZE"

lemmas partition_defs = layout_defs FLASH_BLOCK_SIZE_def
  TUYA_FLASH_UF_SIZE_def TUYA_FLASH_UF_START_def TUYA_FLASH_KV_DATA_SIZE_def TUYA_FLASH_KV_DATA_START_def
  TUYA_FLASH_KV_KEY_SIZE_def TUYA_FLASH_KV_KEY_START_def TUYA_FLASH_KV_SWAP_SIZE_def
  TUYA_FLASH_KV_SWAP_START_def TUYA_FLASH_TYPE_USER0_SIZE_def TUYA_FLASH_TYPE_USER0_START_def
  TUYA_FLASH_KV_PROTECT_SIZE_def TUYA_FLASH_KV_PROTECT_START_def

text \<open>
  \<open>kv_protected\<close> is the build option \<open>KV_PROTECTED_ENABLE\<close>. The second result is the list of
  partitions that is stored through \<open>info\<close>.
\<close>

definition tkl_flash_get_one_type_info ::
    "bool \<Rightarrow> flash_type \<Rightarrow> bool \<Rightarrow> oprt \<times> flash_partition list" where
  "tkl_flash_get_one_type_info kv_protected type info_null =
     (if info_null then (OPRT_INVALID_PARM, [])
      else
        let one = (\<lambda>start sz. (OPRT_OK,
              [\<lparr>block_size = FLASH_BLOCK_SIZE, start_addr = start, part_size = sz\<rparr>])) in
        case type of
          TUYA_FLASH_TYPE_UF \<Rightarrow> one TUYA_FLASH_UF_START TUYA_FLASH_UF_SIZE
        | TUYA_FLASH_TYPE_KV_DATA \<Rightarrow> one TUYA_FLASH_KV_DATA_START TUYA_FLASH_KV_DATA_SIZE
        | TUYA_FLASH_TYPE_KV_KEY \<Rightarrow> one TUYA_FLASH_KV_KEY_START TUYA_FLASH_KV_KEY_SIZE
        | TUYA_FLASH_TYPE_KV_SWAP \<Rightarrow> one TUYA_FLASH_KV_SWAP_START TUYA_FLASH_KV_SWAP_SIZE
        | TUYA_FLASH_TYPE_KV_PROTECT \<Rightarrow>
            if kv_protected then one TUYA_FLASH_KV_PROTECT_START TUYA_FLASH_KV_PROTECT_SIZE
            else (OPRT_INVALID_PARM, [])
        | TUYA_FLASH_TYPE_APP \<Rightarrow> one RE_IMG_0_OFFSET (RE_IMG_1_OFFSET - RE_IMG_0_OFFSET)
        | TUYA_FLASH_TYPE_APP_BIN \<Rightarrow> one RE_IMG_0_OFFSET (RE_IMG_1_OFFSET - RE_IMG_0_OFFSET)
        | TUYA_FLASH_TYPE_OTA \<Rightarrow> one RE_IMG_1_OFFSET (RE_IMG_1_END - RE_IMG_1_OFFSET)
        | TUYA_FLASH_TYPE_USER0 \<Rightarrow> one TUYA_FLASH_TYPE_USER0_START TUYA_FLASH_TYPE_USER0_SIZE
        | _ \<Rightarrow> (OPRT_INVALID_PARM, []))"

text \<open>
  The sizes of the adapter are unsigned, those of the driver are \<open>int\<close>: the conversion is
  that of C.
\<close>

definition tkl_flash_read ::
    "rom_flash \<Rightarrow> u32 \<Rightarrow> bool \<Rightarrow> u32 \<Rightarrow> flash_dev \<Rightarrow> oprt \<times> u8 list option \<times> flash_dev" where
  "tkl_flash_read rom ad dst_null sz d =
     (case raw_flash_read rom ad dst_null (sint sz) d of
        (ret, bs, d) \<Rightarrow> (if ret = 0 then OPRT_OK else OPRT_COM_ERROR, bs, d))"

definition tkl_flash_write ::
    "rom_flash \<Rightarrow> u32 \<Rightarrow> u8 list option \<Rightarrow> u32 \<Rightarrow> flash_dev \<Rightarrow> oprt \<times> flash_dev" where
  "tkl_flash_write rom ad src sz d =
     (case raw_flash_write rom ad src (sint sz) d of
        (ret, d) \<Rightarrow> (if ret = 0 then OPRT_OK else OPRT_COM_ERROR, d))"

definition tkl_flash_erase :: "rom_flash \<Rightarrow> u32 \<Rightarrow> u32 \<Rightarrow> flash_dev \<Rightarrow> oprt \<times> flash_dev" where
  "tkl_flash_erase rom ad sz d =
     (case raw_flash_erase rom ad (sint sz) d of
        (ret, d) \<Rightarrow> (if ret = 0 then OPRT_OK else OPRT_COM_ERROR, d))"

definition tkl_flash_lock :: "u32 \<Rightarrow> u32 \<Rightarrow> oprt" where
  "tkl_flash_lock ad sz = OPRT_NOT_SUPPORTED"

definition tkl_flash_unlock :: "u32 \<Rightarrow> u32 \<Rightarrow> oprt" where
  "tkl_flash_unlock ad sz = OPRT_NOT_SUPPORTED"

section \<open>Properties\<close>

text \<open>
  Property C34: the driver reads physical offsets whichever image runs. For a range that
  stays on one side of the slot boundaries, \<open>raw_flash_read\<close> returns the bytes that are
  stored there, and leaves the remapping that the running image depends on in effect.
\<close>

theorem flash_read_physical:
  assumes "nor_flash rom" and "image0_mode d \<or> image1_mode d" and "read_in_bounds d (unat offset) n"
  shows "\<exists>d'. raw_flash_read rom offset False (int n) d =
      (0, Some (map (\<lambda>i. fd_mem d (unat offset + i)) [0..<n]), d') \<and>
    (\<forall>a. fmc_translate d' a = fmc_translate d a) \<and> fd_mem d' = fd_mem d \<and> fd_ofvr d' = fd_ofvr d"
  using assms by (rule nor_flash.raw_read)

definition flash_example :: flash_dev where
  "flash_example = \<lparr>fd_mem = (\<lambda>a. of_nat (a div 4096)), fd_ofrg = (0xA, 0x1E9), fd_ofvr = 0x1E0,
     fd_irq_off = False, fd_unlocked = False, fd_handlers = [64], fd_events = []\<rparr>"

theorem flash_read_physical_witness:
  "\<exists>d'. raw_flash_read ideal_flash 0x3C9FFE False 2 flash_example = (0, Some [0xC9, 0xC9], d') \<and>
     fd_ofvr d' = 0x1E0"
proof -
  have "image0_mode flash_example \<or> image1_mode flash_example"
    by (simp add: image1_mode_def flash_example_def)
  moreover have "read_in_bounds flash_example (unat (0x3C9FFE :: u32)) 2"
    by (simp add: read_in_bounds_def)
  ultimately show ?thesis
    using flash_read_physical [OF ideal.nor_flash_axioms, of flash_example "0x3C9FFE" 2]
    by (auto simp: flash_example_def upt_rec)
qed

text \<open>
  A read that starts in the slot of image 1 and runs over its end returns
  foreign bytes behind the end: the second byte read at the end of the slot is the first
  byte of image 1 instead of the first byte behind the slot.
\<close>

theorem flash_read_crosses_slot_end:
  "(let (ret, bytes, d') = raw_flash_read ideal_flash 0x3C9FFF False 2 (flash_example\<lparr>fd_ofvr := 0\<rparr>)
    in ret = 0 \<and> bytes = Some [fd_mem flash_example 0x3C9FFF, fd_mem flash_example 0x1EA000]) \<and>
   fd_mem flash_example 0x1EA000 \<noteq> fd_mem flash_example 0x3CA000"
  by (simp add: raw_flash_read_def ideal_flash_def flash_example_def raw_flash_range_bad_def
      raw_flash_is_valid_offset_def raw_flash_total_size_def layout_defs fmc_translate_def Let_def upt_rec
      fmc_lock_def fmc_unlock_def fmc_offset_value_config_def fmc_offset_region_config_def irq_disable_def)

text \<open>
  Property C33: the fast write programs exactly the given range. Whatever the alignment of
  offset and length, head, words and tail together have the effect of programming the
  bytes one by one, nothing outside the range changes, and on erased flash the bytes read
  back as written.
\<close>

theorem flash_write_fast_exact:
  assumes "nor_flash rom" and "0 < len" and "unat offset + nat len \<le> 0x400000"
    and "nat len \<le> length bytes" and "\<not> fd_unlocked d"
    and "\<And>a. unat offset \<le> a \<Longrightarrow> a < unat offset + nat len \<Longrightarrow> fd_mem d a = 0xFF"
  shows "\<exists>d'. raw_flash_write_fast rom offset (Some bytes) len d = (0, d') \<and>
    (\<forall>a. fd_mem d' a = (if unat offset \<le> a \<and> a < unat offset + nat len
       then bytes ! (a - unat offset) else fd_mem d a))"
proof -
  have len: "length (take (nat len) bytes) = nat len"
    using assms(4) by simp
  have "fd_mem d a = 0xFF" if "unat offset \<le> a" "a < unat offset + length (take (nat len) bytes)" for a
    using assms(6) [OF that(1)] that(2) unfolding len .
  from nor_program_erased [of "unat offset" "take (nat len) bytes" "fd_mem d", OF this]
  have "nor_program (unat offset) (take (nat len) bytes) (fd_mem d) =
      (\<lambda>a. if unat offset \<le> a \<and> a < unat offset + nat len then take (nat len) bytes ! (a - unat offset)
           else fd_mem d a)"
    unfolding len by blast
  with nor_flash.raw_write_fast [OF assms(1-5)] show ?thesis
    by (auto simp: fun_eq_iff)
qed

theorem flash_write_fast_exact_witness:
  "\<exists>d'. raw_flash_write_fast ideal_flash 0x1003 (Some [1, 2, 3, 4, 5, 6, 7]) 7
       (flash_example\<lparr>fd_mem := (\<lambda>_. 0xFF)\<rparr>) = (0, d') \<and>
     fd_mem d' 0x1002 = 0xFF \<and> fd_mem d' 0x1003 = 1 \<and> fd_mem d' 0x1009 = 7 \<and> fd_mem d' 0x100A = 0xFF"
  using flash_write_fast_exact [OF ideal.nor_flash_axioms, of 7 "0x1003" "[1, 2, 3, 4, 5, 6, 7]"
      "flash_example\<lparr>fd_mem := (\<lambda>_. 0xFF)\<rparr>"]
  by (auto simp: flash_example_def)

text \<open>
  The user partition overlaps the NVDS area, by 16 KB, and the protected
  key-value partition, where it is built, reaches behind the end of the flash.
\<close>

theorem flash_user0_overlaps_nvds:
  "\<exists>p q. tkl_flash_get_one_type_info kv TUYA_FLASH_TYPE_USER0 False = (OPRT_OK, [p]) \<and>
     unat (start_addr p) < unat RE_NVDS_DATA_OFFSET \<and>
     unat (start_addr p) + unat (part_size p) = unat RE_NVDS_DATA_OFFSET + 0x4000 \<and>
     tkl_flash_get_one_type_info True TUYA_FLASH_TYPE_KV_PROTECT False = (OPRT_OK, [q]) \<and>
     unat (start_addr q) + unat (part_size q) > unat RE_END_OFFSET"
  by (simp add: tkl_flash_get_one_type_info_def partition_defs)

end
