(* ===== verification/Ota.thy ===== *)
theory Ota
  imports Secure_Boot Raw_Flash
begin

text \<open>
  The firmware update of \<open>tkl_ota.c\<close>: the slot that is not running is erased page by page and
  written in blocks of 512 bytes while the packets come in, then the image flags are set so
  that the boot loader selects the new image.
\<close>

section \<open>Model of tkl_ota.c\<close>

abbreviation (input) IMAGE_WRITE_SIZE :: u32 where "IMAGE_WRITE_SIZE \<equiv> 512"

datatype ota_type = TUYA_OTA_FULL | TUYA_OTA_DIFF

record ug_proc =
  ug_start_addr :: u32
  erase_start_addr :: u32
  recv_data_cnt :: u32
  flash_offset :: u32
  runing_image_idx :: u32
  image_max_size :: u32

record ota_data =
  total_len :: u32
  od_data :: "u8 list"
  od_len :: u32

definition tkl_ota_get_ability :: "'s rom_sys \<Rightarrow> 's \<Rightarrow> oprt \<times> (u32 \<times> ota_type) option" where
  "tkl_ota_get_ability rom s =
     (let (res, running_idx) = sys_status_get rom SYS_RUNNING_IMG 0 s in
      if res < 0 then (OPRT_COM_ERROR, None)
      else if running_idx = 0 then (OPRT_OK, Some (RE_IMG_1_END - RE_IMG_1_OFFSET, TUYA_OTA_FULL))
      else if running_idx = 1 then (OPRT_OK, Some (RE_IMG_1_OFFSET - RE_IMG_0_OFFSET, TUYA_OTA_FULL))
      else (OPRT_COM_ERROR, None))"

text \<open>
  The static pointer \<open>ug_proc\<close> is an option; \<open>malloc_ok\<close> is whether its allocation succeeds.
\<close>

definition tkl_ota_start_notify ::
    "'s rom_sys \<Rightarrow> 's \<Rightarrow> bool \<Rightarrow> u32 \<Rightarrow> ug_proc option \<Rightarrow> oprt \<times> ug_proc option" where
  "tkl_ota_start_notify rom s malloc_ok image_size ug =
     (if image_size = 0 then (OPRT_OS_ADAPTER_OTA_PKT_SIZE_FAILED, ug)
      else if ug = None \<and> \<not> malloc_ok then (OPRT_MALLOC_FAILED, None)
      else
        let u = \<lparr>ug_start_addr = 0, erase_start_addr = 0, recv_data_cnt = 0, flash_offset = 0,
                 runing_image_idx = 0, image_max_size = 0\<rparr>;
            (res, running_idx) = sys_status_get rom SYS_RUNNING_IMG 0 s in
        if res < 0 then (OPRT_OS_ADAPTER_OTA_START_INFORM_FAILED, Some u)
        else if running_idx \<noteq> 0 \<and> running_idx \<noteq> 1
        then (OPRT_OS_ADAPTER_OTA_START_INFORM_FAILED, Some u)
        else
          let u = (if running_idx = 0
                   then u\<lparr>runing_image_idx := IMAGE_0, ug_start_addr := RE_IMG_1_OFFSET,
                          image_max_size := RE_IMG_1_END - RE_IMG_1_OFFSET\<rparr>
                   else u\<lparr>runing_image_idx := IMAGE_1, ug_start_addr := RE_IMG_0_OFFSET,
                          image_max_size := RE_IMG_1_OFFSET - RE_IMG_0_OFFSET\<rparr>);
              u = u\<lparr>erase_start_addr := ug_start_addr u, flash_offset := 0\<rparr>
          in if image_size > image_max_size u then (OPRT_OS_ADAPTER_OTA_PKT_SIZE_FAILED, Some u)
             else (OPRT_OK, Some u))"

text \<open>
  The erase loop. It ends because the driver refuses to erase behind the end of the flash.
\<close>

lemma raw_flash_erase_offset:
  "raw_flash_erase rom off len d = (0, d') \<Longrightarrow> off < FLASH_TOTAL_SIZE"
  by (auto simp: raw_flash_erase_def raw_flash_range_bad_def raw_flash_is_valid_offset_def
      raw_flash_total_size_def split: if_splits)

function ota_erase_loop :: "rom_flash \<Rightarrow> u32 \<Rightarrow> ug_proc \<Rightarrow> flash_dev \<Rightarrow> bool \<times> ug_proc \<times> flash_dev" where
  "ota_erase_loop rom len u d =
     (if recv_data_cnt u + ug_start_addr u + len > erase_start_addr u then
        case raw_flash_erase rom (erase_start_addr u) (uint FLASH_PAGE_SIZE) d of
          (ret, d') \<Rightarrow>
            if ret \<noteq> 0 then (False, u, d')
            else ota_erase_loop rom len
                   (u\<lparr>erase_start_addr := erase_start_addr u + FLASH_PAGE_SIZE\<rparr>) d'
      else (True, u, d))"
  by pat_completeness auto
termination
proof (relation "measure (\<lambda>(rom, len, u, d). unat FLASH_TOTAL_SIZE - unat (erase_start_addr u))", goal_cases)
  case (2 rom len u d x xa)
  then have "unat (erase_start_addr u) < 0x400000"
    using raw_flash_erase_offset [of rom "erase_start_addr u" "uint FLASH_PAGE_SIZE" d]
    by (simp add: FLASH_TOTAL_SIZE_def word_less_nat_alt) metis
  moreover from this have "unat (erase_start_addr u + FLASH_PAGE_SIZE) = unat (erase_start_addr u) + 0x1000"
    by (subst unat_add_small) (simp_all add: FLASH_PAGE_SIZE_def)
  ultimately show ?case
    by (simp add: FLASH_TOTAL_SIZE_def)
qed simp

text \<open>
  The loop that writes whole blocks; the last component of the result is \<open>remain_length\<close>.
\<close>

function ota_write_loop ::
    "rom_flash \<Rightarrow> u8 list \<Rightarrow> u32 \<Rightarrow> u32 \<Rightarrow> ug_proc \<Rightarrow> flash_dev \<Rightarrow> bool \<times> u32 \<times> ug_proc \<times> flash_dev" where
  "ota_write_loop rom data len remain u d =
     (if remain \<ge> IMAGE_WRITE_SIZE then
        case raw_flash_write_fast rom (ug_start_addr u + flash_offset u)
               (Some (drop (unat (len - remain)) data)) (uint IMAGE_WRITE_SIZE) d of
          (ret, d') \<Rightarrow>
            if ret \<noteq> 0 then (False, remain, u, d')
            else ota_write_loop rom data len (remain - IMAGE_WRITE_SIZE)
                   (u\<lparr>flash_offset := flash_offset u + IMAGE_WRITE_SIZE,
                      recv_data_cnt := recv_data_cnt u + IMAGE_WRITE_SIZE\<rparr>) d'
      else (True, remain, u, d))"
  by pat_completeness auto
termination
  by (relation "measure (\<lambda>(rom, data, len, remain, u, d). unat remain)")
    (auto simp: unat_sub word_le_nat_alt)

declare ota_erase_loop.simps [simp del] ota_write_loop.simps [simp del]

text \<open>
  A packet is \<open>None\<close> for a null pointer. The result is the status, what is stored in
  \<open>remain_len\<close> (nothing when the arguments are bad), and the new state.
\<close>

definition tkl_ota_data_process ::
    "rom_flash \<Rightarrow> ota_data option \<Rightarrow> bool \<Rightarrow> ug_proc option \<Rightarrow> flash_dev
      \<Rightarrow> oprt \<times> u32 option \<times> ug_proc option \<times> flash_dev" where
  "tkl_ota_data_process rom pack remain_null ug d =
     (case (pack, ug) of
        (Some p, Some u) \<Rightarrow>
          if remain_null then (OPRT_INVALID_PARM, None, ug, d)
          else if od_len p < IMAGE_WRITE_SIZE \<and> recv_data_cnt u \<le> total_len p - IMAGE_WRITE_SIZE
          then (OPRT_OK, Some (od_len p), ug, d)
          else
            let (ok, u, d) = ota_erase_loop rom (od_len p) u d in
            if \<not> ok then (OPRT_OS_ADAPTER_OTA_PROCESS_FAILED, Some (od_len p), Some u, d)
            else
              let (ok, remain, u, d) = ota_write_loop rom (od_data p) (od_len p) (od_len p) u d in
              if \<not> ok then (OPRT_OS_ADAPTER_OTA_PROCESS_FAILED, Some remain, Some u, d)
              else if recv_data_cnt u > total_len p - IMAGE_WRITE_SIZE \<and>
                      remain \<ge> total_len p - recv_data_cnt u
              then
                let (ret, d) = raw_flash_write_fast rom (ug_start_addr u + flash_offset u)
                      (Some (drop (unat (od_len p - remain)) (od_data p))) (sint remain) d in
                if ret \<noteq> 0 then (OPRT_OS_ADAPTER_OTA_PROCESS_FAILED, Some remain, Some u, d)
                else (OPRT_OK, Some 0,
                      Some (u\<lparr>flash_offset := flash_offset u + remain,
                              recv_data_cnt := recv_data_cnt u + remain\<rparr>), d)
              else (OPRT_OK, Some remain, Some u, d)
      | _ \<Rightarrow> (OPRT_INVALID_PARM, None, ug, d))"

text \<open>
  The end of an update. The results of the three flag updates are combined with a bitwise or;
  the second result says whether the chip is reset. Without a running update the function
  dereferences a null pointer: \<open>None\<close>.
\<close>

definition tkl_ota_end_notify ::
    "'s rom_sys \<Rightarrow> bool \<Rightarrow> ug_proc option \<Rightarrow> 's \<Rightarrow> (oprt \<times> bool \<times> 's) option" where
  "tkl_ota_end_notify rom reset ug s =
     (case ug of
        None \<Rightarrow> None
      | Some u \<Rightarrow>
          let run = runing_image_idx u;
              other = (if run = 0 then 1 else 0);
              (res, s) = sys_set_img_flag rom run (IMG_FLAG_IA_MASK OR IMG_FLAG_NEWER_MASK)
                           (IMG_FLAG_IA_OK OR IMG_FLAG_OLDER) s;
              (res2, s) = sys_set_img_flag rom other
                            (IMG_FLAG_IA_MASK OR IMG_FLAG_VERIFY_MASK OR IMG_FLAG_NEWER_MASK) 0 s;
              (res3, s) = sys_set_img_flag rom other IMG_FLAG_NEWER_MASK IMG_FLAG_NEWER s
          in if res OR res2 OR res3 \<noteq> 0 then Some (OPRT_OS_ADAPTER_OTA_END_INFORM_FAILED, False, s)
             else Some (OPRT_OK, reset, s))"

definition tkl_ota_get_old_firmware_info :: oprt where
  "tkl_ota_get_old_firmware_info = OPRT_NOT_SUPPORTED"

section \<open>The loops on a flash without faults\<close>

lemma dvd_less_step:
  fixes a b n :: nat
  assumes "a < b" and "n dvd b" and "n dvd a"
  shows "a + n \<le> b"
proof -
  obtain j k where jk: "a = n * j" "b = n * k"
    using assms(2,3) by (elim dvdE)
  with assms(1) have "Suc j \<le> k" by (metis Suc_leI mult_less_cancel1)
  then have "n * Suc j \<le> n * k" by (rule mult_le_mono2)
  with jk show ?thesis by simp
qed

lemma nor_erase_0 [simp]: "nor_erase off 0 m = m"
  by (auto simp: nor_erase_def fun_eq_iff)

context nor_flash
begin

lemma erase_loop:
  assumes "unat (recv_data_cnt u) + unat (ug_start_addr u) + unat len \<le> lim"
    and "lim \<le> flash_end" and "4096 dvd lim"
    and "4096 dvd unat (erase_start_addr u)" and "unat (erase_start_addr u) \<le> lim"
  shows "\<exists>e d'. ota_erase_loop rom len u d = (True, u\<lparr>erase_start_addr := e\<rparr>, d') \<and>
    unat e \<le> lim \<and> 4096 dvd unat e \<and> unat (erase_start_addr u) \<le> unat e \<and>
    unat (recv_data_cnt u) + unat (ug_start_addr u) + unat len \<le> unat e \<and>
    fd_unlocked d' = fd_unlocked d \<and>
    fd_mem d' = nor_erase (unat (erase_start_addr u)) (unat e - unat (erase_start_addr u)) (fd_mem d)"
  using assms
proof (induction "lim - unat (erase_start_addr u)" arbitrary: u d rule: less_induct)
  case less
  let ?es = "erase_start_addr u" and ?need = "recv_data_cnt u + ug_start_addr u + len"
  have "unat (recv_data_cnt u + ug_start_addr u) = unat (recv_data_cnt u) + unat (ug_start_addr u)"
    using less.prems by (intro unat_add_small) simp
  then have need: "unat ?need = unat (recv_data_cnt u) + unat (ug_start_addr u) + unat len"
    using less.prems by (subst unat_add_small) simp_all
  show ?case
  proof (cases "?need > ?es")
    case False
    then have "unat ?need \<le> unat ?es"
      by (simp add: word_less_nat_alt)
    moreover have "ota_erase_loop rom len u d = (True, u\<lparr>erase_start_addr := ?es\<rparr>, d)"
      using False by (subst ota_erase_loop.simps) simp
    ultimately show ?thesis
      using less.prems need by (intro exI [of _ ?es] exI [of _ d]) simp
  next
    case True
    then have "unat ?es < lim"
      using need less.prems(1) by (simp add: word_less_nat_alt)
    then have page: "unat ?es + 4096 \<le> lim"
      using less.prems(3,4) by (intro dvd_less_step)
    then have es': "unat (?es + FLASH_PAGE_SIZE) = unat ?es + 4096"
      using less.prems(2) by (subst unat_add_small) (simp_all add: FLASH_PAGE_SIZE_def)
    have lt: "lim - (unat ?es + 4096) < lim - unat ?es"
      using page by simp
    obtain ev where er: "raw_flash_erase rom ?es (uint FLASH_PAGE_SIZE) d =
        (0, d\<lparr>fd_mem := nor_erase (unat ?es) 4096 (fd_mem d), fd_events := ev\<rparr>)"
      using raw_erase [of "uint FLASH_PAGE_SIZE" ?es d] page less.prems
      by (auto simp: FLASH_PAGE_SIZE_def)
    let ?u = "u\<lparr>erase_start_addr := ?es + FLASH_PAGE_SIZE\<rparr>"
    let ?d = "d\<lparr>fd_mem := nor_erase (unat ?es) 4096 (fd_mem d), fd_events := ev\<rparr>"
    have loop: "ota_erase_loop rom len u d = ota_erase_loop rom len ?u ?d"
      using True er by (subst ota_erase_loop.simps) simp
    obtain e d' where e: "ota_erase_loop rom len ?u ?d = (True, ?u\<lparr>erase_start_addr := e\<rparr>, d')"
        "unat e \<le> lim" "4096 dvd unat e" "unat ?es + 4096 \<le> unat e"
        "unat (recv_data_cnt u) + unat (ug_start_addr u) + unat len \<le> unat e"
        "fd_unlocked d' = fd_unlocked d"
        "fd_mem d' = nor_erase (unat ?es + 4096) (unat e - (unat ?es + 4096)) (fd_mem ?d)"
      using less.hyps [of ?u ?d] less.prems page es' lt by auto
    have "fd_mem d' = nor_erase (unat ?es) (unat e - unat ?es) (fd_mem d)"
      using e(4) unfolding e(7) by (auto simp: nor_erase_def fun_eq_iff)
    with e loop show ?thesis
      by (intro exI [of _ e] exI [of _ d']) simp
  qed
qed

lemma write_loop:
  assumes "unat len = length data" and "unat remain \<le> unat len"
    and "unat (ug_start_addr u) + unat (flash_offset u) + 512 * (unat remain div 512) \<le> flash_end"
    and "\<not> fd_unlocked d"
  shows "ota_write_loop rom data len remain u d =
    (True, of_nat (unat remain mod 512),
     u\<lparr>flash_offset := flash_offset u + of_nat (512 * (unat remain div 512)),
       recv_data_cnt := recv_data_cnt u + of_nat (512 * (unat remain div 512))\<rparr>,
     d\<lparr>fd_mem := nor_program (unat (ug_start_addr u) + unat (flash_offset u))
        (take (512 * (unat remain div 512)) (drop (unat len - unat remain) data)) (fd_mem d)\<rparr>)"
  using assms
proof (induction "unat remain" arbitrary: remain u d rule: less_induct)
  case less
  show ?case
  proof (cases "remain \<ge> IMAGE_WRITE_SIZE")
    case False
    then have small: "unat remain < 512"
      by (simp add: word_le_nat_alt)
    then have "remain = of_nat (unat remain mod 512)"
      by (simp add: word_unat_eq_iff unat_of_nat)
    then show ?thesis
      using False small by (subst ota_write_loop.simps) simp
  next
    case True
    then have ge: "512 \<le> unat remain"
      by (simp add: word_le_nat_alt)
    define k where "k = unat remain div 512 - 1"
    have k: "unat remain div 512 = Suc k"
      using ge by (simp add: k_def div_greater_zero_iff)
    let ?r = "remain - IMAGE_WRITE_SIZE"
    have r: "unat ?r = unat remain - 512"
      using True by (subst unat_sub) simp_all
    have rk: "unat ?r div 512 = k" "unat ?r mod 512 = unat remain mod 512"
      using ge k by (simp_all add: r le_div_geq le_mod_geq)
    have off: "unat (ug_start_addr u + flash_offset u) = unat (ug_start_addr u) + unat (flash_offset u)"
      using less.prems(3) by (intro unat_add_small) simp
    have offset: "unat (flash_offset u + 512) = unat (flash_offset u) + 512"
      using less.prems(3) k by (subst unat_add_small) simp_all
    have lr: "unat (len - remain) = unat len - unat remain"
      using less.prems(2) by (subst unat_sub) (simp_all add: word_le_nat_alt)
    let ?rest = "drop (unat len - unat remain) data"
    have rest: "512 \<le> length ?rest" "drop (unat len - unat ?r) data = drop 512 ?rest"
      using less.prems(1,2) ge by (simp_all add: r add.commute)
    let ?d = "d\<lparr>fd_mem := nor_program (unat (ug_start_addr u) + unat (flash_offset u)) (take 512 ?rest) (fd_mem d)\<rparr>"
    let ?u = "u\<lparr>flash_offset := flash_offset u + 512, recv_data_cnt := recv_data_cnt u + 512\<rparr>"
    have "raw_flash_write_fast rom (ug_start_addr u + flash_offset u) (Some ?rest) 512 d = (0, ?d)"
      using raw_write_fast [of 512 "ug_start_addr u + flash_offset u" ?rest d] off rest less.prems(3,4) k
      by simp
    then have step: "ota_write_loop rom data len remain u d = ota_write_loop rom data len ?r ?u ?d"
      using True lr by (subst ota_write_loop.simps) simp
    have ih: "ota_write_loop rom data len ?r ?u ?d = (True, of_nat (unat ?r mod 512),
        ?u\<lparr>flash_offset := flash_offset ?u + of_nat (512 * (unat ?r div 512)),
           recv_data_cnt := recv_data_cnt ?u + of_nat (512 * (unat ?r div 512))\<rparr>,
        ?d\<lparr>fd_mem := nor_program (unat (ug_start_addr ?u) + unat (flash_offset ?u))
          (take (512 * (unat ?r div 512)) (drop (unat len - unat ?r) data)) (fd_mem ?d)\<rparr>)"
      by (rule less.hyps) (use less.prems r rk k offset ge in \<open>simp_all add: algebra_simps\<close>)
    have mem: "nor_program (unat (ug_start_addr u) + (unat (flash_offset u) + 512))
        (take (512 * k) (drop 512 ?rest))
        (nor_program (unat (ug_start_addr u) + unat (flash_offset u)) (take 512 ?rest) (fd_mem d)) =
      nor_program (unat (ug_start_addr u) + unat (flash_offset u)) (take (512 + 512 * k) ?rest) (fd_mem d)"
      using nor_program_append [of "unat (ug_start_addr u) + unat (flash_offset u)" "take 512 ?rest"
          "take (512 * k) (drop 512 ?rest)" "fd_mem d"] rest(1)
      by (simp only: take_add length_take min_absorb2 add.assoc)
    show ?thesis
      unfolding step ih rk k rest(2) mult_Suc_right
      using mem by (simp add: offset add.assoc)
  qed
qed

end

section \<open>Streaming an image into the slot\<close>

text \<open>
  The update has written the first \<open>rc\<close> bytes of the image into the slot of \<open>mx\<close> bytes at
  \<open>st\<close>; what is erased behind them is still blank, and outside of the slot the flash is as
  it was at the start (\<open>m0\<close>).
\<close>

definition ota_inv ::
    "u8 list \<Rightarrow> (nat \<Rightarrow> u8) \<Rightarrow> nat \<Rightarrow> nat \<Rightarrow> u32 \<Rightarrow> nat \<Rightarrow> ug_proc \<Rightarrow> flash_dev \<Rightarrow> bool" where
  "ota_inv img m0 st mx run rc u d \<longleftrightarrow>
     unat (ug_start_addr u) = st \<and> runing_image_idx u = run \<and>
     4096 dvd st \<and> 4096 dvd mx \<and> st + mx \<le> flash_end \<and>
     unat (recv_data_cnt u) = rc \<and> flash_offset u = recv_data_cnt u \<and> rc \<le> length img \<and>
     4096 dvd unat (erase_start_addr u) \<and> st + rc \<le> unat (erase_start_addr u) \<and>
     unat (erase_start_addr u) \<le> st + mx \<and>
     (\<forall>a. st + rc \<le> a \<and> a < unat (erase_start_addr u) \<longrightarrow> fd_mem d a = 0xFF) \<and>
     (\<forall>i < rc. fd_mem d (st + i) = img ! i) \<and>
     (\<forall>a. a < st \<or> st + mx \<le> a \<longrightarrow> fd_mem d a = m0 a) \<and> \<not> fd_unlocked d"

text \<open>
  Programming the next \<open>k\<close> bytes of the image into blank flash.
\<close>

lemma ota_inv_program:
  assumes inv: "ota_inv img m0 st mx run rc u d" and k: "rc + k \<le> length img"
    and er: "st + rc + k \<le> unat (erase_start_addr u)"
    and u': "u' = u\<lparr>flash_offset := flash_offset u + of_nat k, recv_data_cnt := recv_data_cnt u + of_nat k\<rparr>"
    and d': "d' = d\<lparr>fd_mem := nor_program (st + rc) (take k (drop rc img)) (fd_mem d)\<rparr>"
  shows "ota_inv img m0 st mx run (rc + k) u' d'"
proof -
  have mx: "unat (erase_start_addr u) \<le> st + mx" "st + mx \<le> flash_end"
    using inv by (auto simp: ota_inv_def)
  have rc: "unat (recv_data_cnt u) = rc"
    using inv by (simp add: ota_inv_def)
  have "unat (of_nat k :: u32) = k"
    using er mx by (intro unat_of_nat_small) simp
  then have cnt: "unat (recv_data_cnt u + of_nat k) = rc + k"
    using rc er mx by (subst unat_add_small) simp_all
  have len: "length (take k (drop rc img)) = k"
    using k by simp
  have blank: "fd_mem d a = 0xFF" if "st + rc \<le> a" "a < st + rc + length (take k (drop rc img))" for a
    using that er inv unfolding len by (auto simp: ota_inv_def)
  have mem: "fd_mem d' = (\<lambda>a. if st + rc \<le> a \<and> a < st + rc + k then img ! (a - st) else fd_mem d a)"
    using nor_program_erased [of "st + rc" "take k (drop rc img)" "fd_mem d", OF blank] k unfolding len
    by (auto simp: d' fun_eq_iff)
  show ?thesis
    using inv k er mx cnt unfolding ota_inv_def mem by (auto simp: u' d')
qed

lemma ota_inv_erased:
  assumes inv: "ota_inv img m0 st mx run rc u d" and e: "unat (erase_start_addr u) \<le> unat e"
      "4096 dvd unat e" "unat e \<le> st + mx"
    and d': "fd_unlocked d' = fd_unlocked d"
      "fd_mem d' = nor_erase (unat (erase_start_addr u)) (unat e - unat (erase_start_addr u)) (fd_mem d)"
  shows "ota_inv img m0 st mx run rc (u\<lparr>erase_start_addr := e\<rparr>) d'"
  using assms unfolding ota_inv_def d' by (auto simp: nor_erase_def)

context nor_flash
begin

lemma ota_blocks:
  assumes inv: "ota_inv img m0 st mx run rc u d" and p: "rc \<le> p" "p \<le> length img" "length img \<le> mx"
    and len: "unat len = p - rc"
  obtains e d1 u' d' where
    "ota_erase_loop rom len u d = (True, u\<lparr>erase_start_addr := e\<rparr>, d1)"
    "ota_write_loop rom (drop rc (take p img)) len len (u\<lparr>erase_start_addr := e\<rparr>) d1 =
       (True, of_nat ((p - rc) mod 512), u', d')"
    "ota_inv img m0 st mx run (rc + 512 * ((p - rc) div 512)) u' d'"
    "st + p \<le> unat (erase_start_addr u')"
proof -
  have s: "unat (recv_data_cnt u) = rc" "unat (ug_start_addr u) = st" "flash_offset u = recv_data_cnt u"
      "4096 dvd st + mx" "st + mx \<le> flash_end" "4096 dvd unat (erase_start_addr u)"
      "unat (erase_start_addr u) \<le> st + mx"
    using inv by (auto simp: ota_inv_def)
  obtain e d1 where e: "ota_erase_loop rom len u d = (True, u\<lparr>erase_start_addr := e\<rparr>, d1)"
      "unat e \<le> st + mx" "4096 dvd unat e" "unat (erase_start_addr u) \<le> unat e"
      "rc + st + unat len \<le> unat e" "fd_unlocked d1 = fd_unlocked d"
      "fd_mem d1 = nor_erase (unat (erase_start_addr u)) (unat e - unat (erase_start_addr u)) (fd_mem d)"
    using erase_loop [of u len "st + mx" d] s len p by auto
  let ?u = "u\<lparr>erase_start_addr := e\<rparr>"
  let ?k = "512 * ((p - rc) div 512)" and ?data = "drop rc (take p img)"
  have inv1: "ota_inv img m0 st mx run rc ?u d1"
    using inv e(4,3,2,6,7) by (rule ota_inv_erased)
  have k: "?k \<le> p - rc" by simp
  let ?u' = "?u\<lparr>flash_offset := flash_offset ?u + of_nat ?k, recv_data_cnt := recv_data_cnt ?u + of_nat ?k\<rparr>"
  let ?d' = "d1\<lparr>fd_mem := nor_program (st + rc) (take ?k (drop rc img)) (fd_mem d1)\<rparr>"
  have tk: "take ?k ?data = take ?k (drop rc img)"
    using k p by (simp add: drop_take)
  have "ota_write_loop rom ?data len len ?u d1 = (True, of_nat (unat len mod 512),
     ?u\<lparr>flash_offset := flash_offset ?u + of_nat (512 * (unat len div 512)),
       recv_data_cnt := recv_data_cnt ?u + of_nat (512 * (unat len div 512))\<rparr>,
     d1\<lparr>fd_mem := nor_program (unat (ug_start_addr ?u) + unat (flash_offset ?u))
        (take (512 * (unat len div 512)) (drop (unat len - unat len) ?data)) (fd_mem d1)\<rparr>)"
  proof (rule write_loop)
    have "st + rc + ?k \<le> flash_end" using k p s(5) by linarith
    then show "unat (ug_start_addr ?u) + unat (flash_offset ?u) + 512 * (unat len div 512) \<le> flash_end"
      using s len by simp
  qed (use p len inv1 in \<open>auto simp: ota_inv_def\<close>)
  then have w: "ota_write_loop rom ?data len len ?u d1 = (True, of_nat ((p - rc) mod 512), ?u', ?d')"
    using s tk by (simp add: len)
  have "rc + ?k \<le> length img" "st + rc + ?k \<le> unat (erase_start_addr ?u)"
    using k p e(5) len by simp_all
  from ota_inv_program [OF inv1 this refl refl] e(5) len p
  show thesis by (intro that [OF e(1) w]) simp_all
qed

end

text \<open>
  The packet that a caller presents when it has received the first \<open>p\<close> bytes of the image and
  \<open>rc\<close> of them are already taken.
\<close>

definition ota_packet :: "u8 list \<Rightarrow> nat \<Rightarrow> nat \<Rightarrow> ota_data" where
  "ota_packet img rc p =
     \<lparr>total_len = of_nat (length img), od_data = drop rc (take p img), od_len = of_nat (p - rc)\<rparr>"

lemma block_count:
  fixes rc p :: nat
  assumes "512 dvd rc" and "rc \<le> p"
  shows "rc + 512 * ((p - rc) div 512) = 512 * (p div 512)" and "(p - rc) mod 512 = p mod 512"
proof -
  obtain j where j: "rc = 512 * j" using assms(1) by (elim dvdE)
  then obtain x where x: "p = 512 * j + x" using assms(2) le_Suc_ex by blast
  show "rc + 512 * ((p - rc) div 512) = 512 * (p div 512)" "(p - rc) mod 512 = p mod 512"
    by (simp_all add: j x)
qed

context nor_flash
begin

lemma ota_step:
  assumes inv: "ota_inv img m0 st mx run rc u d" and rc: "512 dvd rc" "rc \<le> p" "rc < length img"
    and p: "p \<le> length img" "length img \<le> mx" "512 \<le> length img"
    and last: "p = length img \<Longrightarrow> \<not> 512 dvd length img"
  defines "rc' \<equiv> (if p = length img then p else 512 * (p div 512))"
  shows "\<exists>u' d'. tkl_ota_data_process rom (Some (ota_packet img rc p)) False (Some u) d =
      (OPRT_OK, Some (of_nat (p - rc')), Some u', d') \<and> ota_inv img m0 st mx run rc' u' d'"
proof -
  let ?T = "of_nat (length img) :: u32" and ?n = "of_nat (p - rc) :: u32"
  have fl: "st + mx \<le> flash_end" and cnt: "unat (recv_data_cnt u) = rc"
    using inv by (auto simp: ota_inv_def)
  have T: "unat ?T = length img" and n: "unat ?n = p - rc"
    using p fl by (auto intro!: unat_of_nat_small)
  have T512: "unat (?T - 512) = length img - 512"
    using p(3) T by (subst unat_sub) (simp_all add: word_le_nat_alt)
  show ?thesis
  proof (cases "p - rc < 512 \<and> rc \<le> length img - 512")
    case True
    then have skip: "od_len (ota_packet img rc p) < 512 \<and>
        recv_data_cnt u \<le> total_len (ota_packet img rc p) - 512"
      using n cnt T512 by (simp add: ota_packet_def word_less_nat_alt word_le_nat_alt)
    have "p \<noteq> length img" using True p(3) by linarith
    moreover have "rc = 512 * (p div 512)"
      using block_count(1) [OF rc(1,2)] True by simp
    ultimately have "rc' = rc" by (simp add: rc'_def)
    with skip inv show ?thesis
      by (intro exI [of _ u] exI [of _ d]) (simp add: tkl_ota_data_process_def ota_packet_def)
  next
    case False
    then have go: "\<not> (od_len (ota_packet img rc p) < 512 \<and>
        recv_data_cnt u \<le> total_len (ota_packet img rc p) - 512)"
      using n cnt T512 by (simp add: ota_packet_def word_less_nat_alt word_le_nat_alt)
    let ?q = "512 * (p div 512)" and ?rem = "of_nat (p mod 512) :: u32"
    obtain e d1 u1 d2 where b: "ota_erase_loop rom ?n u d = (True, u\<lparr>erase_start_addr := e\<rparr>, d1)"
        "ota_write_loop rom (drop rc (take p img)) ?n ?n (u\<lparr>erase_start_addr := e\<rparr>) d1 =
           (True, ?rem, u1, d2)"
        "ota_inv img m0 st mx run ?q u1 d2" "st + p \<le> unat (erase_start_addr u1)"
      using ota_blocks [OF inv rc(2) p(1,2) n] block_count [OF rc(1,2)] by metis
    have u1: "unat (recv_data_cnt u1) = ?q" "unat (ug_start_addr u1) = st" "flash_offset u1 = recv_data_cnt u1"
        "\<not> fd_unlocked d2"
      using b(3) by (auto simp: ota_inv_def)
    have pq: "p = ?q + p mod 512" "p mod 512 < 512" by simp_all
    have rem: "unat ?rem = p mod 512"
      by (intro unat_of_nat_small less_trans [OF pq(2)]) simp
    have left: "unat (?T - recv_data_cnt u1) = length img - ?q"
      using u1(1) pq p(1) T by (subst unat_sub) (simp_all add: word_le_nat_alt)
    have final: "recv_data_cnt u1 > ?T - 512 \<and> ?rem \<ge> ?T - recv_data_cnt u1 \<longleftrightarrow> p = length img"
    proof -
      have "recv_data_cnt u1 > ?T - 512 \<and> ?rem \<ge> ?T - recv_data_cnt u1 \<longleftrightarrow>
          length img - 512 < ?q \<and> length img - ?q \<le> p mod 512"
        using T512 left rem u1(1) by (simp add: word_less_nat_alt word_le_nat_alt)
      also have "\<dots> \<longleftrightarrow> p = length img"
        using pq p by linarith
      finally show ?thesis .
    qed
    note sim = tkl_ota_data_process_def ota_packet_def Let_def b(1,2)
    show ?thesis
    proof (cases "p = length img")
      case False
      then have "rc' = ?q" "\<not> (recv_data_cnt u1 > ?T - 512 \<and> ?rem \<ge> ?T - recv_data_cnt u1)"
        using final by (simp_all add: rc'_def)
      then show ?thesis
        using go b(3) by (intro exI [of _ u1] exI [of _ d2]) (auto simp: sim minus_mult_div_eq_mod)
    next
      case True
      have pos: "0 < p mod 512"
        using last [OF True] True by (simp add: dvd_eq_mod_eq_0)
      let ?u = "u1\<lparr>flash_offset := flash_offset u1 + ?rem, recv_data_cnt := recv_data_cnt u1 + ?rem\<rparr>"
      let ?d = "d2\<lparr>fd_mem := nor_program (st + ?q) (take (p mod 512) (drop ?q img)) (fd_mem d2)\<rparr>"
      have off: "unat (?n - ?rem) = p - rc - p mod 512"
      proof -
        have "p mod 512 \<le> p - rc"
          using mod_less_eq_dividend [of "p - rc" 512] unfolding block_count(2) [OF rc(1,2)] .
        then show ?thesis
          using n rem by (subst unat_sub) (simp_all add: word_le_nat_alt)
      qed
      have "p - rc - p mod 512 + rc = ?q"
        using block_count [OF rc(1,2)] rc(2) by (metis add.commute minus_mod_eq_mult_div)
      then have data: "drop (unat (?n - ?rem)) (drop rc (take p img)) = drop ?q (take p img)"
        using off by (simp add: drop_drop)
      have addr: "unat (ug_start_addr u1 + flash_offset u1) = st + ?q"
        using u1 pq p fl by (subst unat_add_small) simp_all
      have w: "raw_flash_write_fast rom (ug_start_addr u1 + flash_offset u1)
          (Some (drop ?q (take p img))) (sint ?rem) d2 = (0, ?d)"
        using raw_write_fast [of "int (p mod 512)" "ug_start_addr u1 + flash_offset u1"
            "drop ?q (take p img)" d2] addr pos pq p fl u1(4) sint_small [of "p mod 512"]
        by (simp add: True drop_take minus_mult_div_eq_mod)
      have "ota_inv img m0 st mx run (?q + p mod 512) ?u ?d"
        by (rule ota_inv_program [OF b(3) _ _ refl refl]) (use p b(4) pq in simp_all)
      moreover have "rc' = ?q + p mod 512"
        using True pq by (simp add: rc'_def)
      moreover have "recv_data_cnt u1 > ?T - 512" "?rem \<ge> ?T - recv_data_cnt u1"
        using final True by blast+
      ultimately show ?thesis
        using go w pq(1)
        by (intro exI [of _ ?u] exI [of _ ?d]) (auto simp: sim data simp del: drop_drop)
    qed
  qed
qed

text \<open>
  When the image length is a multiple of the block size, the last packet ends with a write
  of no bytes, which the driver refuses.
\<close>

lemma ota_step_fail:
  assumes inv: "ota_inv img m0 st mx run rc u d" and rc: "512 dvd rc" "rc < length img"
    and p: "length img \<le> mx" "512 dvd length img"
  shows "\<exists>u' d'. tkl_ota_data_process rom (Some (ota_packet img rc (length img))) False (Some u) d =
      (OPRT_OS_ADAPTER_OTA_PROCESS_FAILED, Some 0, Some u', d')"
proof -
  let ?T = "of_nat (length img) :: u32" and ?n = "of_nat (length img - rc) :: u32"
  have fl: "st + mx \<le> flash_end" and cnt: "unat (recv_data_cnt u) = rc"
    using inv by (auto simp: ota_inv_def)
  have le: "rc + 512 \<le> length img"
    using rc p(2) by (intro dvd_less_step)
  have T: "unat ?T = length img" and n: "unat ?n = length img - rc"
    using p fl by (auto intro!: unat_of_nat_small)
  have T512: "unat (?T - 512) = length img - 512"
    using le T by (subst unat_sub) (simp_all add: word_le_nat_alt)
  have go: "\<not> ?n < 512"
    using n le by (simp add: word_less_nat_alt)
  have mod0: "(length img - rc) mod 512 = 0" "rc + 512 * ((length img - rc) div 512) = length img"
    using block_count [OF rc(1), of "length img"] rc(2) p(2) by simp_all
  have t: "take (length img) img = img" by simp
  obtain e d1 u1 d2 where b: "ota_erase_loop rom ?n u d = (True, u\<lparr>erase_start_addr := e\<rparr>, d1)"
      "ota_write_loop rom (drop rc img) ?n ?n (u\<lparr>erase_start_addr := e\<rparr>) d1 = (True, of_nat 0, u1, d2)"
      "ota_inv img m0 st mx run (length img) u1 d2" "st + length img \<le> unat (erase_start_addr u1)"
    by (rule ota_blocks [OF inv less_imp_le [OF rc(2)] le_refl p(1) n, unfolded t mod0])
  have "unat (recv_data_cnt u1) = length img"
    using b(3) by (simp add: ota_inv_def)
  then have "recv_data_cnt u1 = ?T"
    by (rule word_eqI_unat)
  then have "recv_data_cnt u1 > ?T - 512" "?T - recv_data_cnt u1 = 0"
    using T512 le T by (simp_all add: word_less_nat_alt)
  moreover have "raw_flash_write_fast rom a (Some bs) 0 g = (-1, g)" for a bs g
    by (simp add: raw_flash_write_fast_def raw_flash_range_bad_def)
  ultimately show ?thesis
    using go b(1,2)
    by (intro exI [of _ u1] exI [of _ d2]) (simp add: tkl_ota_data_process_def ota_packet_def)
qed

end

text \<open>
  A caller of the update interface: it appends every chunk it receives to the bytes that the
  last call left over, and stops at the first error.
\<close>

fun ota_feed :: "rom_flash \<Rightarrow> nat \<Rightarrow> u8 list \<Rightarrow> u8 list list \<Rightarrow> ug_proc option \<Rightarrow> flash_dev
    \<Rightarrow> oprt \<times> u8 list \<times> ug_proc option \<times> flash_dev" where
  "ota_feed rom tot left [] ug d = (OPRT_OK, left, ug, d)"
| "ota_feed rom tot left (c # cs) ug d =
     (let data = left @ c;
          pack = \<lparr>total_len = of_nat tot, od_data = data, od_len = of_nat (length data)\<rparr>;
          (ret, rem, ug, d) = tkl_ota_data_process rom (Some pack) False ug d
      in if ret \<noteq> OPRT_OK then (ret, data, ug, d)
         else ota_feed rom tot (drop (length data - unat (the rem)) data) cs ug d)"

context nor_flash
begin

lemma feed_packet:
  assumes "rc \<le> p" "p + length c \<le> length img" "take (length c) (drop p img) = c"
  shows "drop rc (take p img) @ c = drop rc (take (p + length c) img)"
    and "length (drop rc (take p img) @ c) = p + length c - rc"
  using assms by (simp_all add: take_add drop_append)

lemma ota_feed_result:
  assumes "ota_inv img m0 st mx run (512 * (p div 512)) u d" and "p < length img"
    and "length img \<le> mx" and "512 \<le> length img"
    and "concat cs = drop p img" and "[] \<notin> set cs"
  shows "\<exists>left u' d'. ota_feed rom (length img) (drop (512 * (p div 512)) (take p img)) cs (Some u) d =
      (if 512 dvd length img then OPRT_OS_ADAPTER_OTA_PROCESS_FAILED else OPRT_OK, left, Some u', d') \<and>
    (\<not> 512 dvd length img \<longrightarrow> left = [] \<and> ota_inv img m0 st mx run (length img) u' d')"
  using assms
proof (induction cs arbitrary: p u d)
  case Nil
  then show ?case by simp
next
  case (Cons c cs)
  let ?rc = "512 * (p div 512)" and ?p = "p + length c"
  have c: "c \<noteq> []" "take (length c) (drop p img) = c" "concat cs = drop ?p img"
    using Cons.prems(5,6) by (auto simp: append_eq_conv_conj drop_drop add.commute)
  have le: "?p \<le> length img"
    using arg_cong [OF Cons.prems(5), of length] Cons.prems(2) by simp
  have rc: "512 dvd ?rc" "?rc \<le> p" "?rc < length img"
    using Cons.prems(2) times_div_less_eq_dividend [of 512 p] by (auto simp: le_less_trans)
  have rcp: "?rc \<le> ?p" using rc(2) by simp
  note pk = feed_packet [OF rc(2) le c(2)]
  have pack: "\<lparr>total_len = of_nat (length img), od_data = drop ?rc (take p img) @ c,
      od_len = of_nat (length (drop ?rc (take p img) @ c))\<rparr> = ota_packet img ?rc ?p"
    unfolding pk(2) unfolding pk(1) by (simp only: ota_packet_def)
  show ?case
  proof (cases "?p = length img \<and> 512 dvd length img")
    case True
    then obtain u' d' where "tkl_ota_data_process rom (Some (ota_packet img ?rc ?p)) False (Some u) d =
        (OPRT_OS_ADAPTER_OTA_PROCESS_FAILED, Some 0, Some u', d')"
      using ota_step_fail [OF Cons.prems(1) rc(1,3) Cons.prems(3)] by auto
    then show ?thesis
      using True by (simp only: ota_feed.simps Let_def pack) auto
  next
    case False
    define rc' where "rc' = (if ?p = length img then ?p else 512 * (?p div 512))"
    have rc': "rc' \<le> ?p" "?rc \<le> rc'"
      using rc(2) by (auto simp: rc'_def times_div_less_eq_dividend intro!: mult_le_mono2 div_le_mono)
    obtain u1 d1 where step: "tkl_ota_data_process rom (Some (ota_packet img ?rc ?p)) False (Some u) d =
        (OPRT_OK, Some (of_nat (?p - rc')), Some u1, d1)" "ota_inv img m0 st mx run rc' u1 d1"
      using ota_step [OF Cons.prems(1) rc(1) rcp rc(3) le Cons.prems(3,4)] False
      unfolding rc'_def by blast
    have "st + mx \<le> flash_end" using Cons.prems(1) by (simp add: ota_inv_def)
    then have "unat (of_nat (?p - rc') :: u32) = ?p - rc'"
      using le Cons.prems(3) by (intro unat_of_nat_small) simp
    then have left: "drop (?p - ?rc - unat (of_nat (?p - rc') :: u32)) (drop ?rc (take ?p img)) =
        drop rc' (take ?p img)"
      using rc' rcp by simp
    have feed: "ota_feed rom (length img) (drop ?rc (take p img)) (c # cs) (Some u) d =
        ota_feed rom (length img) (drop rc' (take ?p img)) cs (Some u1) d1"
      using step(1) left le by (simp only: ota_feed.simps Let_def pack) (simp add: pk min_absorb2)
    show ?thesis
    proof (cases "?p = length img")
      case True
      then have "cs = []"
        using c(3) Cons.prems(6) by (cases cs) auto
      then show ?thesis
        using feed step(2) True False by (simp add: rc'_def)
    next
      case notlast: False
      with Cons.IH [of ?p u1 d1] step(2) c(3) le Cons.prems show ?thesis
        unfolding feed by (simp add: rc'_def)
    qed
  qed
qed

end

section \<open>From the start of an update to the next boot\<close>

lemma ota_start_slot:
  assumes "tkl_ota_start_notify rom s ok size0 ug0 = (OPRT_OK, Some u)"
  obtains "runing_image_idx u = IMAGE_0" "ug_start_addr u = 0x1EA000" "image_max_size u = 0x1E0000"
      "recv_data_cnt u = 0" "flash_offset u = 0" "erase_start_addr u = 0x1EA000" "size0 \<le> 0x1E0000"
      "snd (sys_status_get rom SYS_RUNNING_IMG 0 s) = 0"
  | "runing_image_idx u = IMAGE_1" "ug_start_addr u = 0xA000" "image_max_size u = 0x1E0000"
      "recv_data_cnt u = 0" "flash_offset u = 0" "erase_start_addr u = 0xA000" "size0 \<le> 0x1E0000"
      "snd (sys_status_get rom SYS_RUNNING_IMG 0 s) = 1"
  using assms
  by (auto simp: tkl_ota_start_notify_def Let_def layout_defs not_less split: if_splits prod.splits)

lemma ota_start_inv:
  assumes "tkl_ota_start_notify rom s ok (of_nat (length img)) ug0 = (OPRT_OK, Some u)"
    and "\<not> fd_unlocked d" and "length img < 2 ^ 32"
  shows "ota_inv img (fd_mem d) (unat (ug_start_addr u)) (unat (image_max_size u)) (runing_image_idx u) 0 u d \<and>
    length img \<le> unat (image_max_size u)"
proof -
  have len: "unat (of_nat (length img) :: u32) = length img"
    using assms(3) by (intro unat_of_nat_small) simp
  from assms(1) show ?thesis
    by (rule ota_start_slot) (use assms(2) len in \<open>auto simp: ota_inv_def word_le_nat_alt\<close>)
qed

text \<open>
  The flags after the end of an update: the running image is older and accepted, the other
  one is newer and not yet judged.
\<close>

lemma set_flag_sub:
  assumes "m AND n = n"
  shows "set_flag m v f AND n = v AND n"
proof (rule bit_eqI)
  fix k
  have "bit (m AND n) k \<longleftrightarrow> bit n k"
    by (simp only: assms)
  then show "bit (set_flag m v f AND n) k \<longleftrightarrow> bit (v AND n) k"
    by (auto simp: set_flag_def bit_simps)
qed

lemma ota_mask_facts:
  "(IMG_FLAG_IA_MASK OR IMG_FLAG_NEWER_MASK) AND IMG_FLAG_NEWER_MASK = IMG_FLAG_NEWER_MASK"
  "(IMG_FLAG_IA_MASK OR IMG_FLAG_NEWER_MASK) AND IMG_FLAG_IA_MASK = IMG_FLAG_IA_MASK"
  "(IMG_FLAG_IA_MASK OR IMG_FLAG_NEWER_MASK) AND IMG_FLAG_VERIFY_MASK = 0"
  "(IMG_FLAG_IA_OK OR IMG_FLAG_OLDER) AND IMG_FLAG_NEWER_MASK \<noteq> IMG_FLAG_NEWER"
  "(IMG_FLAG_IA_OK OR IMG_FLAG_OLDER) AND IMG_FLAG_IA_MASK = IMG_FLAG_IA_OK"
  "(IMG_FLAG_IA_OK OR IMG_FLAG_OLDER) AND IMG_FLAG_VERIFY_MASK = 0"
  "(IMG_FLAG_IA_MASK OR IMG_FLAG_VERIFY_MASK OR IMG_FLAG_NEWER_MASK) AND IMG_FLAG_VERIFY_MASK = IMG_FLAG_VERIFY_MASK"
  "(IMG_FLAG_IA_MASK OR IMG_FLAG_VERIFY_MASK OR IMG_FLAG_NEWER_MASK) AND IMG_FLAG_IA_MASK = IMG_FLAG_IA_MASK"
  "0 \<noteq> IMG_FLAG_VERIFY_FAIL" "0 \<noteq> IMG_FLAG_IA_FAIL"
  by (simp_all add: img_flag_defs)

lemma flags_after_ota:
  fixes f g :: "u8 option"
  defines "fr \<equiv> set_flag (IMG_FLAG_IA_MASK OR IMG_FLAG_NEWER_MASK) (IMG_FLAG_IA_OK OR IMG_FLAG_OLDER) f"
    and "fo \<equiv> set_flag IMG_FLAG_NEWER_MASK IMG_FLAG_NEWER
       (Some (set_flag (IMG_FLAG_IA_MASK OR IMG_FLAG_VERIFY_MASK OR IMG_FLAG_NEWER_MASK) 0 g))"
  shows "\<not> flag_newer fr"
    and "f = Some h \<Longrightarrow> h AND IMG_FLAG_VERIFY_MASK = IMG_FLAG_VERIFY_OK \<Longrightarrow> flag_proven fr"
    and "flag_newer fo" and "\<not> flag_failed fo"
proof -
  show "\<not> flag_newer fr" "flag_newer fo"
    by (simp_all add: flag_newer_def fr_def fo_def set_flag_sub set_flag_same ota_mask_facts mask_facts)
  show "flag_proven fr" if "f = Some h" "h AND IMG_FLAG_VERIFY_MASK = IMG_FLAG_VERIFY_OK"
    using that by (simp add: flag_proven_def fr_def set_flag_sub set_flag_other ota_mask_facts)
  show "\<not> flag_failed fo"
    by (simp add: flag_failed_def fo_def set_flag_sub set_flag_other ota_mask_facts mask_facts)
qed

context boot_rom
begin

lemma ota_end_flags:
  assumes "runing_image_idx u \<in> {IMAGE_0, IMAGE_1}"
  defines "other \<equiv> (if runing_image_idx u = IMAGE_0 then IMAGE_1 else IMAGE_0)"
  shows "\<exists>s'. tkl_ota_end_notify rom reset (Some u) s = Some (OPRT_OK, reset, s') \<and> core s' = core s \<and>
    img (runing_image_idx u) s' = Some (set_flag (IMG_FLAG_IA_MASK OR IMG_FLAG_NEWER_MASK)
       (IMG_FLAG_IA_OK OR IMG_FLAG_OLDER) (img (runing_image_idx u) s)) \<and>
    img other s' = Some (set_flag IMG_FLAG_NEWER_MASK IMG_FLAG_NEWER
       (Some (set_flag (IMG_FLAG_IA_MASK OR IMG_FLAG_VERIFY_MASK OR IMG_FLAG_NEWER_MASK) 0 (img other s))))"
proof -
  have oth: "other \<in> {IMAGE_0, IMAGE_1}" "other \<noteq> runing_image_idx u"
    using assms(1) by (auto simp: other_def)
  have res: "fst (sys_set_img_flag rom i m v s) = 0" if "i \<in> {IMAGE_0, IMAGE_1}" for i m v s
    using set_img [OF that] by simp
  show ?thesis
    unfolding tkl_ota_end_notify_def option.case Let_def other_def [symmetric] case_prod_beta
    by (auto simp: res [OF assms(1)] res [OF oth(1)] set_img_keeps set_img [OF assms(1)] set_img [OF oth(1)]
        set_img_other [OF assms(1)] set_img_other [OF oth(1)] oth(2) oth(2) [symmetric])
qed

text \<open>
  The next boot after an update: the new image when it validates, the old one otherwise.
\<close>

lemma ota_next_boot:
  assumes run: "r \<in> {IMAGE_0, IMAGE_1}" "runing_image_idx u = r" and f: "img r s = Some f"
    and ok: "f AND IMG_FLAG_VERIFY_MASK = IMG_FLAG_VERIFY_OK"
    and e: "tkl_ota_end_notify rom reset (Some u) s = Some (ret, rst, s')"
  defines "other \<equiv> (if r = IMAGE_0 then IMAGE_1 else IMAGE_0)"
  shows "ret = OPRT_OK \<and>
    (accepted rom ibl v s other \<longrightarrow>
       (\<exists>a t. boot 2 rom ibl v s' = Some (Jump other a (image_map other), t) \<and> running t = Some (ucast other))) \<and>
    (\<not> accepted rom ibl v s other \<and> accepted rom ibl v s r \<longrightarrow>
       (\<exists>a t. boot 2 rom ibl v s' = Some (Jump r a (image_map r), t) \<and> running t = Some (ucast r)))"
proof -
  have idx: "{other, r} = {IMAGE_0, IMAGE_1}"
    using run(1) by (auto simp: other_def)
  have flags: "ret = OPRT_OK" "core s' = core s"
      "img r s' = Some (set_flag (IMG_FLAG_IA_MASK OR IMG_FLAG_NEWER_MASK) (IMG_FLAG_IA_OK OR IMG_FLAG_OLDER) (Some f))"
      "img other s' = Some (set_flag IMG_FLAG_NEWER_MASK IMG_FLAG_NEWER
       (Some (set_flag (IMG_FLAG_IA_MASK OR IMG_FLAG_VERIFY_MASK OR IMG_FLAG_NEWER_MASK) 0 (img other s))))"
    using ota_end_flags [of u reset s] run e f by (auto simp: other_def)
  let ?fr = "set_flag (IMG_FLAG_IA_MASK OR IMG_FLAG_NEWER_MASK) (IMG_FLAG_IA_OK OR IMG_FLAG_OLDER) (Some f)"
  have fr: "\<not> flag_newer ?fr" "flag_proven ?fr"
    using flags_after_ota(1) flags_after_ota(2) [OF refl ok] by blast+
  note fo = flags_after_ota(3,4) [of "img other s"]
  have sel: "spec_select (img IMAGE_0 s') (img IMAGE_1 s') = Some other"
    using run(1) flags(3,4) fr fo by (auto simp: other_def)
  note acc = accepted_core [OF flags(2), of ibl v]
  have "\<exists>a t. boot 2 rom ibl v s' = Some (Jump other a (image_map other), t) \<and> running t = Some (ucast other)"
    if "accepted rom ibl v s other"
    using boot_selected [OF sel, of ibl v 1] that acc by (simp add: numeral_2_eq_2)
  moreover have "\<exists>a t. boot 2 rom ibl v s' = Some (Jump r a (image_map r), t) \<and> running t = Some (ucast r)"
    if "\<not> accepted rom ibl v s other" "accepted rom ibl v s r"
    using boot_falls_back [OF idx flags(4) fo _ flags(3) fr(2,1)] that acc by simp
  ultimately show ?thesis
    using flags(1) by blast
qed

end

lemma ota_feed_from_start:
  assumes "nor_flash fl" and "\<not> fd_unlocked d"
    and "tkl_ota_start_notify rom s ok (of_nat (length img)) ug0 = (OPRT_OK, Some u)"
    and "512 \<le> length img" and "length img < 2 ^ 32" and "concat cs = img" and "[] \<notin> set cs"
  shows "\<exists>left u' d'. ota_feed fl (length img) [] cs (Some u) d =
      (if 512 dvd length img then OPRT_OS_ADAPTER_OTA_PROCESS_FAILED else OPRT_OK, left, Some u', d') \<and>
    (\<not> 512 dvd length img \<longrightarrow> left = [] \<and>
      ota_inv img (fd_mem d) (unat (ug_start_addr u)) (unat (image_max_size u)) (runing_image_idx u)
        (length img) u' d')"
  using nor_flash.ota_feed_result [OF assms(1), of img "fd_mem d" "unat (ug_start_addr u)"
      "unat (image_max_size u)" "runing_image_idx u" 0 u d cs] ota_start_inv [OF assms(3,2,5)] assms(4,6,7)
  by (cases "img = []") auto

section \<open>Properties\<close>

text \<open>
  Property C7: however an image is cut into packets, feeding it to the update interface
  installs it. Provided that the length of the image is more than one block and not a
  multiple of the block size, every call succeeds, nothing is left over, the slot of the image that
  the ROM reports as not running begins with the new image, the slot of the running image is
  unchanged, and so is every byte outside of the slot that is written.
\<close>

theorem ota_stream_installs:
  fixes rom :: "'s rom_sys" and s :: 's
  assumes "nor_flash fl" and "\<not> fd_unlocked d"
    and "tkl_ota_start_notify rom s ok (of_nat (length img)) ug0 = (OPRT_OK, Some u)"
    and "512 < length img" and "\<not> 512 dvd length img" and "length img < 2 ^ 32"
    and "concat cs = img" and "[] \<notin> set cs"
  defines "run \<equiv> snd (sys_status_get rom SYS_RUNNING_IMG 0 s)"
    and "other \<equiv> (if snd (sys_status_get rom SYS_RUNNING_IMG 0 s) = 0 then 1 else 0)"
    and "slot \<equiv> (\<lambda>i :: u8. if i = 0 then 0xA000 else 0x1EA000 :: nat)"
  shows "run \<in> {0, 1} \<and>
    (\<exists>u' d'. ota_feed fl (length img) [] cs (Some u) d = (OPRT_OK, [], Some u', d') \<and>
      (\<forall>i < length img. fd_mem d' (slot other + i) = img ! i) \<and>
      (\<forall>i < 0x1E0000. fd_mem d' (slot run + i) = fd_mem d (slot run + i)) \<and>
      (\<forall>a. a < slot other \<or> slot other + 0x1E0000 \<le> a \<longrightarrow> fd_mem d' a = fd_mem d a))"
proof -
  have u: "run \<in> {0, 1}" "unat (ug_start_addr u) = slot other" "unat (image_max_size u) = 0x1E0000"
    using assms(3) by (auto elim!: ota_start_slot simp: run_def other_def slot_def)
  obtain u' d' where feed: "ota_feed fl (length img) [] cs (Some u) d = (OPRT_OK, [], Some u', d')"
      "ota_inv img (fd_mem d) (slot other) 0x1E0000 (runing_image_idx u) (length img) u' d'"
    using ota_feed_from_start [OF assms(1-3) _ assms(6-8)] assms(4,5) u(2,3) by auto
  then have mem: "\<forall>i < length img. fd_mem d' (slot other + i) = img ! i"
      "\<forall>a. a < slot other \<or> slot other + 0x1E0000 \<le> a \<longrightarrow> fd_mem d' a = fd_mem d a"
    by (simp_all add: ota_inv_def)
  then have "\<forall>i < 0x1E0000. fd_mem d' (slot run + i) = fd_mem d (slot run + i)"
    by (auto simp: slot_def other_def run_def)
  with u(1) feed(1) mem show ?thesis by blast
qed

definition ota_example_image :: "u8 list" where
  "ota_example_image = replicate 700 7"

definition ota_example_ug :: ug_proc where
  "ota_example_ug = \<lparr>ug_start_addr = 0x1EA000, erase_start_addr = 0x1EA000, recv_data_cnt = 0,
     flash_offset = 0, runing_image_idx = IMAGE_0, image_max_size = 0x1E0000\<rparr>"

lemma ota_example_start:
  "length img = n \<Longrightarrow> 0 < n \<Longrightarrow> n \<le> 0x1E0000 \<Longrightarrow>
   tkl_ota_start_notify chip_rom chip_example True (of_nat (length img)) None = (OPRT_OK, Some ota_example_ug)"
  using unat_of_nat_small [of n, where 'a = 32]
  by (auto simp: tkl_ota_start_notify_def chip_rom_def chip_get_def chip_example_def sys_status_defs
      layout_defs ota_example_ug_def Let_def word_less_nat_alt unat_eq_0)

theorem ota_stream_installs_witness:
  "\<exists>u' d'. ota_feed ideal_flash 700 [] [replicate 300 7, replicate 400 7] (Some ota_example_ug) flash_example =
       (OPRT_OK, [], Some u', d') \<and>
     fd_mem d' (0x1EA000 + 699) = 7 \<and> fd_mem d' 0xA000 = fd_mem flash_example 0xA000"
proof -
  have len: "length ota_example_image = 700"
    by (simp add: ota_example_image_def)
  have cs: "concat [replicate 300 7, replicate 400 7] = ota_example_image"
    by (simp add: ota_example_image_def flip: replicate_add)
  have st: "tkl_ota_start_notify chip_rom chip_example True (of_nat (length ota_example_image)) None =
      (OPRT_OK, Some ota_example_ug)"
    by (rule ota_example_start [OF len]) simp_all
  have nd: "\<not> 512 dvd length ota_example_image"
    unfolding len by presburger
  have lock: "\<not> fd_unlocked flash_example"
    by (simp add: flash_example_def)
  have run: "snd (sys_status_get chip_rom SYS_RUNNING_IMG 0 chip_example) = 0"
    by (simp add: chip_rom_def chip_get_def chip_example_def)
  obtain u' d' where r: "ota_feed ideal_flash (length ota_example_image) []
        [replicate 300 7, replicate 400 7] (Some ota_example_ug) flash_example = (OPRT_OK, [], Some u', d')"
      "\<forall>i < length ota_example_image. fd_mem d' (0x1EA000 + i) = ota_example_image ! i"
      "\<forall>i < 0x1E0000. fd_mem d' (0xA000 + i) = fd_mem flash_example (0xA000 + i)"
    using ota_stream_installs [OF ideal.nor_flash_axioms lock st _ nd _ cs] len run by auto
  have "fd_mem d' (0x1EA000 + 699) = 7"
    using r(2) [unfolded len, rule_format, of 699] by (simp add: ota_example_image_def)
  moreover have "fd_mem d' 0xA000 = fd_mem flash_example 0xA000"
    using r(3) [rule_format, of 0] by simp
  ultimately show ?thesis
    using r(1) unfolding len by blast
qed

text \<open>
  Property C35: an image whose length is a multiple of 512 bytes can never be installed.
  However it is cut into packets, the call that receives the last byte writes an empty
  remainder, the driver rejects it, and the update is reported as failed.
\<close>

theorem ota_block_multiple_fails:
  assumes "nor_flash fl" and "\<not> fd_unlocked d"
    and "tkl_ota_start_notify rom s ok (of_nat (length img)) ug0 = (OPRT_OK, Some u)"
    and "512 dvd length img" and "img \<noteq> []" and "length img < 2 ^ 32"
    and "concat cs = img" and "[] \<notin> set cs"
  shows "fst (ota_feed fl (length img) [] cs (Some u) d) = OPRT_OS_ADAPTER_OTA_PROCESS_FAILED"
proof -
  have "512 \<le> length img"
    using assms(4,5) by (simp add: dvd_imp_le)
  from ota_feed_from_start [OF assms(1-3) this assms(6-8)] assms(4) show ?thesis
    by auto
qed

theorem ota_block_multiple_fails_witness:
  "fst (ota_feed ideal_flash 1024 [] [replicate 1024 7] (Some ota_example_ug) flash_example) =
     OPRT_OS_ADAPTER_OTA_PROCESS_FAILED"
proof -
  let ?img = "replicate 1024 (7 :: u8)"
  have len: "length ?img = 1024" by simp
  have st: "tkl_ota_start_notify chip_rom chip_example True (of_nat (length ?img)) None =
      (OPRT_OK, Some ota_example_ug)"
    by (rule ota_example_start [OF len]) simp_all
  have dv: "512 dvd length ?img"
    unfolding len by presburger
  have "\<not> fd_unlocked flash_example"
    by (simp add: flash_example_def)
  from ota_block_multiple_fails [OF ideal.nor_flash_axioms this st dv, where cs = "[?img]"] len show ?thesis
    by auto
qed

end
