(* ===== verification/Nvds_Entry.thy ===== *)
theory Nvds_Entry
  imports Crc
begin

text \<open>
  The on-flash format of the non volatile data storage (\<open>nvds_type.h\<close>, first part of
  \<open>nvds_flash.c\<close>): entries of 32 bytes with a packed tag and a checksum, page headers, the
  table of two-bit entry states and the bit set of used namespaces. A value of the union
  \<open>entry_info\<close> is the list of its 32 bytes; the fields are read out of the bytes in the byte
  order of the target (little endian).
\<close>

section \<open>Constants of nvds_type.h and nvds_flash.h\<close>

datatype nvds_ret =
    NVDS_OK | NVDS_E_NOT_USE_FLASH | NVDS_E_FAIL | NVDS_E_INVAL_PARAM | NVDS_E_FLASH_IO_FAIL
  | NVDS_E_NOT_FOUND | NVDS_E_INVALID_LENGTH | NVDS_E_NO_SPACE | NVDS_E_SECUR_CFG_FAIL
  | NVDS_E_DECR_FAIL | NVDS_E_ENCR_FAIL

definition NVDS_FLASH_MAGIC :: u32 where "NVDS_FLASH_MAGIC = 0x4E564453"
definition NVDS_FLASH_VERSION :: u16 where "NVDS_FLASH_VERSION = 0xFFFF"
definition SPI_FLASH_SEC_SIZE :: nat where "SPI_FLASH_SEC_SIZE = 4096"
definition ENTRY_SIZE :: nat where "ENTRY_SIZE = 32"
definition ENTRY_COUNT_PER_PAGE :: nat where
  "ENTRY_COUNT_PER_PAGE = SPI_FLASH_SEC_SIZE div ENTRY_SIZE - 2"
definition ENTRY_STATES_TABLE_SIZE :: nat where "ENTRY_STATES_TABLE_SIZE = ENTRY_SIZE div 4"
definition PAGE_HEADER_OFFSET :: nat where "PAGE_HEADER_OFFSET = 0"
definition PAGE_ENTRY_STATES_OFFSET :: nat where "PAGE_ENTRY_STATES_OFFSET = PAGE_HEADER_OFFSET + 32"
definition PAGE_ENTRY_OFFSET :: nat where "PAGE_ENTRY_OFFSET = PAGE_ENTRY_STATES_OFFSET + ENTRY_SIZE"
definition KEY_NAME_MAX_SIZE :: nat where "KEY_NAME_MAX_SIZE = 16"
definition ELEMENT_SMALL_MAX_SIZE :: nat where "ELEMENT_SMALL_MAX_SIZE = 8"
definition ELEMENT_MIDDLE_MAX_SIZE :: nat where "ELEMENT_MIDDLE_MAX_SIZE = 256"
definition ELEMENT_BULK_MAX_SIZE :: nat where "ELEMENT_BULK_MAX_SIZE = 400 * 32"
definition TAG_FRAG_NO_DEFAULT :: u8 where "TAG_FRAG_NO_DEFAULT = 0x1F"
definition NAMESPACE_NULL_IDX :: u8 where "NAMESPACE_NULL_IDX = 0xFE"
definition NAMESPACE_MAX_CNT :: u8 where "NAMESPACE_MAX_CNT = 253"

lemmas nvds_consts [simp] = SPI_FLASH_SEC_SIZE_def ENTRY_SIZE_def ENTRY_COUNT_PER_PAGE_def
  ENTRY_STATES_TABLE_SIZE_def PAGE_HEADER_OFFSET_def PAGE_ENTRY_STATES_OFFSET_def
  PAGE_ENTRY_OFFSET_def KEY_NAME_MAX_SIZE_def ELEMENT_SMALL_MAX_SIZE_def
  ELEMENT_MIDDLE_MAX_SIZE_def ELEMENT_BULK_MAX_SIZE_def

text \<open>
  The enumerations. A tag can hold any of the eight values of the type field and a table any
  of the four states, so they are numbers.
\<close>

definition ELEMENT_SMALL :: u8 where "ELEMENT_SMALL = 0"
definition ELEMENT_MIDDLE :: u8 where "ELEMENT_MIDDLE = 1"
definition ELEMENT_BULK :: u8 where "ELEMENT_BULK = 2"
definition ELEMENT_BULKINFO :: u8 where "ELEMENT_BULKINFO = 3"
definition ELEMENT_ANY :: u8 where "ELEMENT_ANY = 7"

lemmas element_types = ELEMENT_SMALL_def ELEMENT_MIDDLE_def ELEMENT_BULK_def ELEMENT_BULKINFO_def
  ELEMENT_ANY_def

definition ENTRY_FREE :: u32 where "ENTRY_FREE = 3"
definition ENTRY_USED :: u32 where "ENTRY_USED = 2"
definition ENTRY_UPDATED :: u32 where "ENTRY_UPDATED = 0"
definition ENTRY_ILLEGAL :: u32 where "ENTRY_ILLEGAL = 1"
definition ENTRY_ERROR :: u32 where "ENTRY_ERROR = 4"

lemmas entry_states = ENTRY_FREE_def ENTRY_USED_def ENTRY_UPDATED_def ENTRY_ILLEGAL_def ENTRY_ERROR_def

definition PAGE_UNINITIALIZED :: u16 where "PAGE_UNINITIALIZED = 0xFFFF"
definition PAGE_ACTIVE :: u16 where "PAGE_ACTIVE = 0xFFFE"
definition PAGE_FULL :: u16 where "PAGE_FULL = 0xFFFC"
definition PAGE_CANDIDATE :: u16 where "PAGE_CANDIDATE = 0xFFF8"
definition PAGE_ERROR :: u16 where "PAGE_ERROR = 0xFFF0"
definition PAGE_INVALID :: u16 where "PAGE_INVALID = 0"

lemmas page_states = PAGE_UNINITIALIZED_def PAGE_ACTIVE_def PAGE_FULL_def PAGE_CANDIDATE_def
  PAGE_ERROR_def PAGE_INVALID_def

section \<open>Tags\<close>

definition tag_namespace_get :: "u16 \<Rightarrow> u8" where
  "tag_namespace_get tag = ucast (drop_bit 0 (tag AND push_bit 0 0xFF))"

definition tag_element_type_get :: "u16 \<Rightarrow> u8" where
  "tag_element_type_get tag = ucast (drop_bit 13 (tag AND push_bit 13 0x7))"

definition tag_fragno_get :: "u16 \<Rightarrow> u8" where
  "tag_fragno_get tag = ucast (drop_bit 8 (tag AND push_bit 8 0x1F))"

definition tag_set :: "u8 \<Rightarrow> u8 \<Rightarrow> u8 \<Rightarrow> u16" where
  "tag_set ns type fragno =
     push_bit 0 (ucast ns) OR push_bit 13 (ucast type) OR push_bit 8 (ucast fragno)"

section \<open>Entries\<close>

type_synonym entry_info = "u8 list"

definition entry_tag :: "entry_info \<Rightarrow> u16" where "entry_tag e = get16 e 0"
definition entry_length :: "entry_info \<Rightarrow> u16" where "entry_length e = get16 e 2"
definition entry_crc32 :: "entry_info \<Rightarrow> u32" where "entry_crc32 e = get32 e 4"
definition entry_value :: "entry_info \<Rightarrow> u8 list" where "entry_value e = mem_get e 24 8"
definition entry_datacrc32 :: "entry_info \<Rightarrow> u32" where "entry_datacrc32 e = get32 e 28"
definition entry_bulksize :: "entry_info \<Rightarrow> u32" where "entry_bulksize e = get32 e 28"

text \<open>
  The string in the key field, up to its terminating zero byte.
\<close>

definition entry_key :: "entry_info \<Rightarrow> u8 list" where
  "entry_key e = takeWhile (\<lambda>b. b \<noteq> 0) (drop 8 e)"

definition element_header_crc32_calc :: "entry_info \<Rightarrow> u32" where
  "element_header_crc32_calc e =
     (let crc = crc32 (mem_get e 0 4) 0;
          crc = crc32 (mem_get e 8 16) crc
      in crc32 (mem_get e 24 8) crc)"

definition element_data_crc32_calc :: "u8 list \<Rightarrow> u32" where
  "element_data_crc32_calc data = crc32 data 0"

text \<open>
  How the code fills in an entry: all bytes 0xFF, the tag, the length, the key with its zero
  byte, bytes \<open>v\<close> at offset \<open>voff\<close> of the value, and last the checksum.
\<close>

definition entry_fill :: "u16 \<Rightarrow> u16 \<Rightarrow> u8 list \<Rightarrow> nat \<Rightarrow> u8 list \<Rightarrow> entry_info" where
  "entry_fill tag len key voff v =
     (let e = replicate 32 0xFF;
          e = mem_put e 0 (le16 tag);
          e = mem_put e 2 (le16 len);
          e = mem_put e 8 (key @ [0]);
          e = mem_put e (24 + voff) v
      in mem_put e 4 (le32 (element_header_crc32_calc e)))"

text \<open>
  The number of entries that hold the data behind a header, \<open>(length + ENTRY_SIZE - 1) / ENTRY_SIZE\<close>.
\<close>

definition data_entries :: "nat \<Rightarrow> nat" where
  "data_entries len = (len + ENTRY_SIZE - 1) div ENTRY_SIZE"

section \<open>The entry states table\<close>

definition entry_state_get :: "u32 list \<Rightarrow> u8 \<Rightarrow> nvds_ret + u32" where
  "entry_state_get states idx =
     (let table_idx = unat idx div 16; bit_offset = (unat idx mod 16) * 2 in
      if unat idx \<ge> ENTRY_COUNT_PER_PAGE then Inl NVDS_E_FAIL
      else Inr (drop_bit bit_offset (states ! table_idx) AND 0x03))"

definition entry_state_set :: "u32 list \<Rightarrow> u8 \<Rightarrow> u32 \<Rightarrow> nvds_ret + u32 list" where
  "entry_state_set states idx state =
     (let table_idx = unat idx div 16; bit_offset = (unat idx mod 16) * 2 in
      if unat idx \<ge> ENTRY_COUNT_PER_PAGE then Inl NVDS_E_FAIL
      else if state = ENTRY_ILLEGAL \<or> state \<ge> ENTRY_ERROR then Inl NVDS_E_FAIL
      else if table_idx \<ge> ENTRY_STATES_TABLE_SIZE then Inl NVDS_E_FAIL
      else Inr (states[table_idx :=
             (states ! table_idx AND NOT (push_bit bit_offset 0x03)) OR push_bit bit_offset state]))"

definition states_bytes :: "u32 list \<Rightarrow> u8 list" where
  "states_bytes states = concat (map le32 states)"

definition bytes_states :: "u8 list \<Rightarrow> u32 list" where
  "bytes_states b = map (\<lambda>i. get32 b (4 * i)) [0..<ENTRY_STATES_TABLE_SIZE]"

section \<open>Namespace states\<close>

definition ns_state_get :: "u32 list \<Rightarrow> u8 \<Rightarrow> bool" where
  "ns_state_get states idx =
     (let table_idx = unat idx div 32; bit_offset = unat idx mod 32
      in drop_bit bit_offset (states ! table_idx) AND 0x01 \<noteq> 0)"

definition ns_state_set :: "u32 list \<Rightarrow> u8 \<Rightarrow> bool \<Rightarrow> u32 list" where
  "ns_state_set states idx ns_state =
     (let table_idx = unat idx div 32; bit_offset = unat idx mod 32
      in states[table_idx := (states ! table_idx AND NOT (push_bit bit_offset 0x01)) OR
           push_bit bit_offset (if ns_state then 1 else 0)])"

section \<open>Page headers\<close>

record page_header =
  ph_magic :: u32
  ph_version :: u16
  ph_state :: u16
  ph_seqno :: u32
  ph_rsv :: "u8 list"
  ph_crc32 :: u32

definition header_bytes :: "page_header \<Rightarrow> u8 list" where
  "header_bytes h = le32 (ph_magic h) @ le16 (ph_version h) @ le16 (ph_state h) @
     le32 (ph_seqno h) @ ph_rsv h @ le32 (ph_crc32 h)"

definition bytes_header :: "u8 list \<Rightarrow> page_header" where
  "bytes_header b = \<lparr>ph_magic = get32 b 0, ph_version = get16 b 4, ph_state = get16 b 6,
     ph_seqno = get32 b 8, ph_rsv = mem_get b 12 16, ph_crc32 = get32 b 28\<rparr>"

definition page_header_crc32_calc :: "page_header \<Rightarrow> u32" where
  "page_header_crc32_calc h =
     (let b = header_bytes h; crc = crc32 (mem_get b 0 6) 0 in crc32 (mem_get b 8 20) crc)"

section \<open>Round trips of the format\<close>

lemma get16_nth: "mem_get b i 2 = le16 w \<Longrightarrow> i + 2 \<le> length b \<Longrightarrow> get16 b i = w"
proof -
  assume a: "mem_get b i 2 = le16 w" "i + 2 \<le> length b"
  have "b = take i b @ mem_get b i 2 @ drop (i + 2) b"
    by (metis append_take_drop_id drop_drop mem_get_def add.commute)
  moreover have "length (take i b) = i" using a(2) by simp
  ultimately show ?thesis using a(1) get16_le16 by metis
qed

lemma get32_nth: "mem_get b i 4 = le32 w \<Longrightarrow> i + 4 \<le> length b \<Longrightarrow> get32 b i = w"
proof -
  assume a: "mem_get b i 4 = le32 w" "i + 4 \<le> length b"
  have "b = take i b @ mem_get b i 4 @ drop (i + 4) b"
    by (metis append_take_drop_id drop_drop mem_get_def add.commute)
  moreover have "length (take i b) = i" using a(2) by simp
  ultimately show ?thesis using a(1) get32_le32 by metis
qed

lemma mem_get_put_other:
  assumes "off + length bs \<le> length b" and "i + n \<le> off \<or> off + length bs \<le> i"
  shows "mem_get (mem_put b off bs) i n = mem_get b i n"
proof (cases "i + n \<le> off")
  case True
  then show ?thesis using assms(1) by (simp add: mem_get_def mem_put_def drop_take min_absorb1)
next
  case False
  then have "off + length bs \<le> i" using assms(2) by simp
  then show ?thesis using assms(1) by (simp add: mem_get_def mem_put_def drop_append)
qed

lemma tag_roundtrip:
  assumes "type < 8" and "fragno < 32"
  shows "tag_namespace_get (tag_set ns type fragno) = ns"
    and "tag_element_type_get (tag_set ns type fragno) = type"
    and "tag_fragno_get (tag_set ns type fragno) = fragno"
proof -
  have "take_bit 3 type = type" "take_bit 5 fragno = fragno"
    using assms unat_less_take_bit [of type 3] unat_less_take_bit [of fragno 5]
    by (simp_all add: word_less_nat_alt)
  then have t: "bit type n \<Longrightarrow> n < 3" and f: "bit fragno n \<Longrightarrow> n < 5" for n
    by (metis bit_take_bit_iff)+
  have m: "(0xFF :: u16) = Bit_Operations.mask 8" "(7 :: u16) = Bit_Operations.mask 3"
      "(0x1F :: u16) = Bit_Operations.mask 5"
    by (simp_all add: mask_eq_exp_minus_1)
  show "tag_namespace_get (tag_set ns type fragno) = ns"
    unfolding tag_namespace_get_def tag_set_def m by (rule bit_word_eqI) (auto simp: bit_simps)
  show "tag_element_type_get (tag_set ns type fragno) = type"
    unfolding tag_element_type_get_def tag_set_def m
    by (rule bit_word_eqI) (auto simp: bit_simps dest: t f bit_imp_le_length)
  show "tag_fragno_get (tag_set ns type fragno) = fragno"
    unfolding tag_fragno_get_def tag_set_def m
    by (rule bit_word_eqI) (auto simp: bit_simps dest: t f bit_imp_le_length)
qed

lemma le16_inj: "le16 v = le16 w \<longleftrightarrow> v = w"
  by (metis get16_le16 append_Nil append_Nil2 list.size(3))

lemma length_mem_put_in [simp]: "off + length bs \<le> length b \<Longrightarrow> length (mem_put b off bs) = length b"
  by (rule length_mem_put)

text \<open>
  A filled entry has the fields it was filled with and a valid checksum. The checksum does
  not cover its own field.
\<close>

lemma header_crc_put_crc:
  assumes "length e = 32"
  shows "element_header_crc32_calc (mem_put e 4 (le32 w)) = element_header_crc32_calc e"
  using assms by (simp add: element_header_crc32_calc_def mem_get_put_other)

lemma mem_get_shift: "mem_get (drop k b) i n = mem_get b (k + i) n"
  by (simp add: mem_get_def add.commute)

lemma length_entry_fill:
  assumes key: "length key < 16" and v: "voff + length v \<le> 8"
  shows "length (entry_fill tag len key voff v) = 32"
  using key v by (simp add: entry_fill_def Let_def)

lemma entry_fill_fields:
  assumes key: "length key < 16" and v: "voff + length v \<le> 8"
  shows "entry_tag (entry_fill tag len key voff v) = tag" "entry_length (entry_fill tag len key voff v) = len"
  "mem_get (entry_fill tag len key voff v) 8 (length key + 1) = key @ [0]"
  "mem_get (entry_fill tag len key voff v) (24 + voff) (length v) = v"
proof -
  let ?e = "entry_fill tag len key voff v"
  have "mem_get ?e 0 2 = le16 tag" "mem_get ?e 2 2 = le16 len"
    using key v mem_get_put_same [of 0 "le16 tag" "replicate 32 0xFF"]
      mem_get_put_same [of 2 "le16 len" "mem_put (replicate 32 0xFF) 0 (le16 tag)"]
    by (simp_all add: entry_fill_def Let_def mem_get_put_other)
  then show "entry_tag ?e = tag" "entry_length ?e = len"
    by (simp_all add: entry_tag_def entry_length_def get16_nth length_entry_fill [OF key v])
  show "mem_get ?e 8 (length key + 1) = key @ [0]"
    using key v mem_get_put_same [of 8 "key @ [0]" "mem_put (mem_put (replicate 32 0xFF) 0 (le16 tag)) 2 (le16 len)"]
    by (simp add: entry_fill_def Let_def mem_get_put_other)
  show "mem_get ?e (24 + voff) (length v) = v"
    using key v mem_get_put_same [of "24 + voff" v "mem_put (mem_put (mem_put (replicate 32 0xFF) 0 (le16 tag)) 2 (le16 len)) 8 (key @ [0])"]
    by (simp add: entry_fill_def Let_def mem_get_put_other)
qed

lemma entry_fill_key:
  assumes key: "length key < 16" and v: "voff + length v \<le> 8" and nz: "0 \<notin> set key"
  shows "entry_key (entry_fill tag len key voff v) = key"
proof -
  let ?e = "entry_fill tag len key voff v"
  have "drop 8 ?e = mem_get ?e 8 (length key + 1) @ drop (8 + (length key + 1)) ?e"
    unfolding mem_get_def by (metis append_take_drop_id drop_drop add.commute)
  then have "drop 8 ?e = key @ 0 # drop (8 + (length key + 1)) ?e" by (simp only: entry_fill_fields(3) [OF key v] append_assoc append.simps)
  then show ?thesis using nz unfolding entry_key_def by (simp add: takeWhile_tail takeWhile_append2) (metis takeWhile_append2)
qed

lemma entry_fill_crc:
  assumes key: "length key < 16" and v: "voff + length v \<le> 8"
  shows "entry_crc32 (entry_fill tag len key voff v) = element_header_crc32_calc (entry_fill tag len key voff v)"
proof -
  define e where "e = mem_put (mem_put (mem_put (mem_put (replicate 32 (0xFF :: u8)) 0 (le16 tag)) 2 (le16 len))
      8 (key @ [0])) (24 + voff) v"
  have l: "length e = 32" using key v by (simp add: e_def)
  have f: "entry_fill tag len key voff v = mem_put e 4 (le32 (element_header_crc32_calc e))"
    by (simp add: entry_fill_def e_def Let_def)
  have "mem_get (mem_put e 4 (le32 (element_header_crc32_calc e))) 4 4 = le32 (element_header_crc32_calc e)"
    using mem_get_put_same [of 4 "le32 (element_header_crc32_calc e)" e] l by simp
  then show ?thesis
    unfolding f by (simp add: entry_crc32_def get32_nth l header_crc_put_crc)
qed

section \<open>States\<close>

lemma and_3: "(x :: u32) AND 3 = take_bit 2 x"
  by (simp add: take_bit_eq_mask mask_eq_exp_minus_1)

lemma take_bit_2_id: "s < 4 \<Longrightarrow> take_bit 2 s = (s :: u32)"
  using unat_less_take_bit [of s 2] by (simp add: word_less_nat_alt)

text \<open>
  The two bits of an entry, as a total function.
\<close>

definition state_at :: "u32 list \<Rightarrow> nat \<Rightarrow> u32" where
  "state_at states i = take_bit 2 (drop_bit (i mod 16 * 2) (states ! (i div 16)))"

lemma entry_state_get_state_at:
  "unat idx < 126 \<Longrightarrow> entry_state_get states idx = Inr (state_at states (unat idx))"
  by (simp add: entry_state_get_def state_at_def and_3)

lemma set_field_get:
  fixes x s :: u32
  assumes "s < 4" and "i < 16" and "j < 16"
  shows "take_bit 2 (drop_bit (j * 2) ((x AND NOT (push_bit (i * 2) 3)) OR push_bit (i * 2) s))
    = (if j = i then s else take_bit 2 (drop_bit (j * 2) x))"
proof -
  have s2: "bit s n \<Longrightarrow> n < 2" for n
    using take_bit_2_id [OF assms(1)] by (metis bit_take_bit_iff)
  have m: "(3 :: u32) = Bit_Operations.mask 2" by (simp add: mask_eq_exp_minus_1)
  have "bit (take_bit 2 (drop_bit (j * 2) ((x AND NOT (push_bit (i * 2) 3)) OR push_bit (i * 2) s))) n \<longleftrightarrow>
      bit (if j = i then s else take_bit 2 (drop_bit (j * 2) x)) n" if n: "n < 32" for n
  proof (cases "j = i")
    case True
    then show ?thesis unfolding m using n assms(2) by (auto simp: bit_simps dest: s2)
  next
    case False
    then have "n < 2 \<Longrightarrow> i * 2 \<le> j * 2 + n \<Longrightarrow> \<not> j * 2 + n - i * 2 < 2" by linarith
    then show ?thesis unfolding m using n assms(3) False by (auto simp: bit_simps dest: s2)
  qed
  then show ?thesis by (intro bit_word_eqI) simp
qed

lemma entry_state_set_ok:
  assumes "unat idx < 126" and "s = ENTRY_FREE \<or> s = ENTRY_USED \<or> s = ENTRY_UPDATED" and "length states = 8"
  obtains states' where "entry_state_set states idx s = Inr states'" and "length states' = 8"
    and "\<And>j. j < 128 \<Longrightarrow> state_at states' j = (if j = unat idx then s else state_at states j)"
proof -
  let ?i = "unat idx"
  let ?w = "(states ! (?i div 16) AND NOT (push_bit (?i mod 16 * 2) 3)) OR push_bit (?i mod 16 * 2) s"
  have s: "s < 4" "s \<noteq> ENTRY_ILLEGAL" "\<not> s \<ge> ENTRY_ERROR" using assms(2) by (auto simp: entry_states)
  have i: "?i div 16 < 8" using assms(1) by simp
  have eq: "entry_state_set states idx s = Inr (states[?i div 16 := ?w])"
    using assms(1) s i by (simp add: entry_state_set_def Let_def)
  have "state_at (states[?i div 16 := ?w]) j = (if j = ?i then s else state_at states j)" if "j < 128" for j
  proof (cases "j div 16 = ?i div 16")
    case True
    have "j = ?i \<longleftrightarrow> j mod 16 = ?i mod 16"
      using True by (metis div_mult_mod_eq)
    then show ?thesis
      using True i assms(3) set_field_get [OF s(1), of "?i mod 16" "j mod 16"] by (simp add: state_at_def)
  next
    case False
    then show ?thesis by (auto simp: state_at_def)
  qed
  then show thesis using eq assms(3) by (intro that [of "states[?i div 16 := ?w]"]) simp_all
qed

text \<open>
  Programming can only clear bits: a byte string can be programmed over another one when no
  bit has to be set. The states of an entry only ever lose bits on the way from free to used
  and to updated.
\<close>

definition clears :: "u8 list \<Rightarrow> u8 list \<Rightarrow> bool" where
  "clears old new \<longleftrightarrow> list_all2 (\<lambda>a b. a AND b = b) old new"

lemma clears_append: "clears a c \<Longrightarrow> clears b d \<Longrightarrow> clears (a @ b) (c @ d)"
  by (simp add: clears_def list_all2_appendI)

lemma clears_refl: "clears b b"
  by (simp add: clears_def list_all2_conv_all_nth)

lemma clears_erased: "clears (replicate (length bs) 0xFF) bs"
proof -
  have "(0xFF :: u8) = -1" by simp
  then have "(0xFF :: u8) AND b = b" for b by (simp only: and.left_neutral)
  then show ?thesis by (simp add: clears_def list_all2_conv_all_nth)
qed

lemma clears_le32:
  assumes "v AND w = w"
  shows "clears (le32 v) (le32 w)"
proof -
  have "(ucast (drop_bit k v) :: u8) AND ucast (drop_bit k w) = ucast (drop_bit k w)" for k
    by (subst (2) assms [symmetric]) (rule bit_word_eqI, auto simp: bit_simps)
  from this [of 0] this show ?thesis by (simp add: clears_def le32_def)
qed

lemma clears_states_bytes:
  assumes "length old = length new" and "\<And>k. k < length new \<Longrightarrow> old ! k AND new ! k = new ! k"
  shows "clears (states_bytes old) (states_bytes new)"
  using assms
proof (induction old new rule: list_induct2)
  case (Cons x xs y ys)
  from Cons.prems [of 0] have "clears (le32 x) (le32 y)" by (intro clears_le32) simp
  moreover have "clears (states_bytes xs) (states_bytes ys)"
    using Cons.prems [of "Suc _"] by (intro Cons.IH) simp
  ultimately show ?case by (simp add: states_bytes_def clears_append)
qed (simp add: states_bytes_def clears_def)

lemma entry_state_set_clears:
  assumes "unat idx < 126" and "entry_state_set states idx s = Inr states'" and "length states = 8"
    and "s AND state_at states (unat idx) = s"
  shows "clears (states_bytes states) (states_bytes states')"
proof -
  let ?i = "unat idx" and ?o = "unat idx mod 16 * 2"
  let ?x = "states ! (?i div 16)"
  let ?w = "(?x AND NOT (push_bit ?o 3)) OR push_bit ?o s"
  have st': "states' = states[?i div 16 := ?w]"
    using assms(1,2) by (auto simp: entry_state_set_def Let_def split: if_splits)
  have m: "(3 :: u32) = Bit_Operations.mask 2" by (simp add: mask_eq_exp_minus_1)
  have s: "n < 2 \<and> bit ?x (?o + n)" if "bit s n" for n
  proof -
    have "bit (s AND state_at states ?i) n" using that by (simp only: assms(4))
    then show ?thesis by (simp add: state_at_def bit_simps)
  qed
  have "?x AND ?w = ?w"
  proof (rule bit_word_eqI)
    fix n assume "n < LENGTH(32)"
    show "bit (?x AND ?w) n \<longleftrightarrow> bit ?w n"
      unfolding m using s [of "n - ?o"] by (auto simp: bit_simps)
  qed
  moreover have "?i div 16 < length states" using assms(1,3) by simp
  ultimately show ?thesis
    unfolding st' by (intro clears_states_bytes) (auto simp: nth_list_update)
qed

lemma length_states_bytes [simp]: "length (states_bytes states) = 4 * length states"
  by (induction states) (simp_all add: states_bytes_def)

lemma bytes_states_bytes:
  assumes "length states = 8"
  shows "bytes_states (states_bytes states) = states"
proof (rule nth_equalityI)
  show "length (bytes_states (states_bytes states)) = length states"
    using assms by (simp add: bytes_states_def)
  fix i assume "i < length (bytes_states (states_bytes states))"
  then have i: "i < 8" by (simp add: bytes_states_def)
  have "states = take i states @ states ! i # drop (Suc i) states"
    using i assms by (simp add: id_take_nth_drop)
  then have "states_bytes states = states_bytes (take i states) @ le32 (states ! i) @ states_bytes (drop (Suc i) states)"
    unfolding states_bytes_def by (metis (no_types, lifting) concat.simps(2) concat_append list.simps(9) map_append)
  moreover have "length (states_bytes (take i states)) = 4 * i" using i assms by simp
  ultimately have "get32 (states_bytes states) (4 * i) = states ! i" using get32_le32 by metis
  then show "bytes_states (states_bytes states) ! i = states ! i" using i by (simp add: bytes_states_def)
qed

lemma bytes_header_bytes:
  assumes "length (ph_rsv h) = 16"
  shows "bytes_header (header_bytes h) = h"
proof -
  let ?b = "header_bytes h"
  have l: "length ?b = 32" using assms by (simp add: header_bytes_def)
  have "mem_get ?b 0 4 = le32 (ph_magic h)" "mem_get ?b 4 2 = le16 (ph_version h)"
    "mem_get ?b 6 2 = le16 (ph_state h)" "mem_get ?b 8 4 = le32 (ph_seqno h)"
    "mem_get ?b 12 16 = ph_rsv h" "mem_get ?b 28 4 = le32 (ph_crc32 h)"
    using assms by (simp_all add: header_bytes_def mem_get_def le16_def le32_def)
  then show ?thesis
    using l by (simp add: bytes_header_def get16_nth get32_nth)
qed

text \<open>
  What is written into an entry is read back: an entry filled in the way of the
  code has 32 bytes, its tag decodes to the namespace, type and fragment number it was
  composed of, its key, length and value fields are those given, and its checksum is valid.
\<close>

theorem nvds_entry_roundtrip:
  assumes "length key < 16" and "0 \<notin> set key" and "type < 8" and "fragno < 32" and "voff + length v \<le> 8"
    and "e = entry_fill (tag_set ns type fragno) len key voff v"
  shows "length e = 32 \<and> tag_namespace_get (entry_tag e) = ns \<and> tag_element_type_get (entry_tag e) = type \<and>
    tag_fragno_get (entry_tag e) = fragno \<and> entry_length e = len \<and> entry_key e = key \<and>
    mem_get (entry_value e) voff (length v) = v \<and> entry_crc32 e = element_header_crc32_calc e"
proof -
  have "mem_get (entry_value e) voff (length v) = mem_get e (24 + voff) (length v)"
    using assms(5) by (simp add: entry_value_def mem_get_def drop_take min_absorb1 add.commute)
  then show ?thesis
    unfolding assms(6)
    using assms(1-5) by (simp add: length_entry_fill entry_fill_fields entry_fill_key entry_fill_crc tag_roundtrip)
qed

theorem nvds_entry_roundtrip_witness:
  "\<exists>e. e = entry_fill (tag_set 5 ELEMENT_SMALL 31) 3 [107, 49] 0 [1, 2, 3] \<and> entry_key e = [107, 49] \<and>
     tag_namespace_get (entry_tag e) = 5 \<and> mem_get (entry_value e) 0 3 = [1, 2, 3]"
  using nvds_entry_roundtrip [of "[107, 49]" ELEMENT_SMALL 31 0 "[1, 2, 3]"
      "entry_fill (tag_set 5 ELEMENT_SMALL 31) 3 [107, 49] 0 [1, 2, 3]" 5 3]
  by (simp add: ELEMENT_SMALL_def numeral_3_eq_3)

end
