(* ===== verification/Nvds_Flash.thy ===== *)
theory Nvds_Flash
  imports Nvds_Entry Raw_Flash
begin

text \<open>
  The element layer of \<open>nvds_flash.c\<close> on the flash driver: pages with their RAM images,
  reading and writing entries, searching, reading, comparing, deleting and writing elements,
  and the recycling of pages. The build without \<open>NVDS_FLASH_ENCRYPTED_SUPPORT\<close> is modelled: there
  \<open>nvds_flash_env_init\<close> sets \<open>encrypted\<close> to 0 and the branches for encrypted storages are dead. Pages are allocated once per sector and never released while
  the storage is open; a page pointer is the number of its sector, and the slists of free and
  used pages are lists of sector numbers.
\<close>

section \<open>State\<close>

record page_env =
  pg_header :: page_header
  pg_states :: "u32 list"
  pg_base :: u32
  pg_cnt_used :: u16
  pg_next_free :: u32

record namespace_info =
  ns_name :: "u8 list"
  ns_index :: u8
  ns_used_cnt :: u32

record nvds_env =
  nv_dev :: flash_dev
  nv_base :: u32
  nv_length :: u32
  nv_page :: "nat \<Rightarrow> page_env"
  nv_free :: "nat list"
  nv_used :: "nat list"
  nv_ns :: "namespace_info list"
  nv_ns_states :: "u32 list"

definition set_page :: "nat \<Rightarrow> (page_env \<Rightarrow> page_env) \<Rightarrow> nvds_env \<Rightarrow> nvds_env" where
  "set_page p f env = env\<lparr>nv_page := (nv_page env)(p := f (nv_page env p))\<rparr>"

section \<open>Access to the flash\<close>

definition nvds_flash_read :: "rom_flash \<Rightarrow> nvds_env \<Rightarrow> u32 \<Rightarrow> u32 \<Rightarrow> nvds_ret + u8 list" where
  "nvds_flash_read rom env offset len =
     (if offset + len > nv_length env then Inl NVDS_E_INVAL_PARAM
      else case rom_flash_read rom (nv_base env + offset) (unat len) (nv_dev env) of
        (r, bs) \<Rightarrow> if r \<noteq> 0 then Inl NVDS_E_FLASH_IO_FAIL else Inr bs)"

definition nvds_flash_write ::
    "rom_flash \<Rightarrow> nvds_env \<Rightarrow> u32 \<Rightarrow> u32 \<Rightarrow> u8 list \<Rightarrow> nvds_ret \<times> nvds_env" where
  "nvds_flash_write rom env offset len buffer =
     (if offset + len > nv_length env then (NVDS_E_INVAL_PARAM, env)
      else case rom_flash_write rom (nv_base env + offset) (take (unat len) buffer) (nv_dev env) of
        (r, d) \<Rightarrow> (if r \<noteq> 0 then NVDS_E_FLASH_IO_FAIL else NVDS_OK, env\<lparr>nv_dev := d\<rparr>))"

definition nvds_flash_erase :: "rom_flash \<Rightarrow> nvds_env \<Rightarrow> u32 \<Rightarrow> u32 \<Rightarrow> nvds_ret \<times> nvds_env" where
  "nvds_flash_erase rom env offset sz =
     (if offset + sz > nv_length env then (NVDS_E_INVAL_PARAM, env)
      else case raw_flash_erase rom (nv_base env + offset) (sint sz) (nv_dev env) of
        (r, d) \<Rightarrow> (if r \<noteq> 0 then NVDS_E_FLASH_IO_FAIL else NVDS_OK, env\<lparr>nv_dev := d\<rparr>))"

definition entry_states_table_read :: "rom_flash \<Rightarrow> nvds_env \<Rightarrow> u32 \<Rightarrow> nvds_ret + u32 list" where
  "entry_states_table_read rom env page_addr =
     map_sum id bytes_states
       (nvds_flash_read rom env (page_addr + of_nat PAGE_ENTRY_STATES_OFFSET) (of_nat ENTRY_SIZE))"

definition entry_states_table_write ::
    "rom_flash \<Rightarrow> nvds_env \<Rightarrow> u32 \<Rightarrow> u32 list \<Rightarrow> nvds_ret \<times> nvds_env" where
  "entry_states_table_write rom env page_addr states =
     nvds_flash_write rom env (page_addr + of_nat PAGE_ENTRY_STATES_OFFSET) (of_nat ENTRY_SIZE)
       (states_bytes states)"

definition entry_state_alter :: "rom_flash \<Rightarrow> nvds_env \<Rightarrow> nat \<Rightarrow> u8 \<Rightarrow> u32 \<Rightarrow> nvds_ret \<times> nvds_env" where
  "entry_state_alter rom env p entry_idx state =
     (if unat entry_idx \<ge> ENTRY_COUNT_PER_PAGE then (NVDS_E_FAIL, env)
      else if state = ENTRY_ILLEGAL \<or> state \<ge> ENTRY_ERROR then (NVDS_E_FAIL, env)
      else case entry_state_set (pg_states (nv_page env p)) entry_idx state of
        Inl e \<Rightarrow> (e, env)
      | Inr states \<Rightarrow>
          let env = set_page p (\<lambda>pg. pg\<lparr>pg_states := states\<rparr>) env
          in entry_states_table_write rom env (pg_base (nv_page env p)) (pg_states (nv_page env p)))"

text \<open>
  The loop of \<open>entry_state_range_alter\<close>, \<open>n\<close> steps from \<open>idx\<close> on.
\<close>

fun range_alter_loop :: "rom_flash \<Rightarrow> nat \<Rightarrow> u32 \<Rightarrow> nat \<Rightarrow> u8 \<Rightarrow> nvds_env \<Rightarrow> nvds_ret \<times> nvds_env" where
  "range_alter_loop rom p state 0 idx env = (NVDS_OK, env)"
| "range_alter_loop rom p state (Suc n) idx env =
     (case entry_state_alter rom env p idx state of
        (ret, env) \<Rightarrow> if ret \<noteq> NVDS_OK then (ret, env) else range_alter_loop rom p state n (idx + 1) env)"

definition entry_state_range_alter ::
    "rom_flash \<Rightarrow> nvds_env \<Rightarrow> nat \<Rightarrow> u8 \<Rightarrow> u8 \<Rightarrow> u32 \<Rightarrow> nvds_ret \<times> nvds_env" where
  "entry_state_range_alter rom env p begn ende state =
     (if ende < begn \<or> unat ende \<ge> ENTRY_COUNT_PER_PAGE then (NVDS_E_FAIL, env)
      else range_alter_loop rom p state (unat ende - unat begn + 1) begn env)"

definition page_state_alter :: "rom_flash \<Rightarrow> nvds_env \<Rightarrow> nat \<Rightarrow> u16 \<Rightarrow> nvds_ret \<times> nvds_env" where
  "page_state_alter rom env p state_val =
     (let address = pg_base (nv_page env p) + of_nat PAGE_HEADER_OFFSET + 6 in
      case nvds_flash_write rom env address 2 (le16 state_val) of
        (ret, env) \<Rightarrow>
          if ret \<noteq> NVDS_OK then (ret, env)
          else (NVDS_OK, set_page p (\<lambda>pg. pg\<lparr>pg_header := (pg_header pg)\<lparr>ph_state := state_val\<rparr>\<rparr>) env))"

definition entry_address :: "page_env \<Rightarrow> u32 \<Rightarrow> u32" where
  "entry_address pg idx = pg_base pg + of_nat PAGE_ENTRY_OFFSET + idx * of_nat ENTRY_SIZE"

definition entry_read :: "rom_flash \<Rightarrow> nvds_env \<Rightarrow> nat \<Rightarrow> u8 \<Rightarrow> nvds_ret + entry_info" where
  "entry_read rom env p entry_idx =
     nvds_flash_read rom env (entry_address (nv_page env p) (ucast entry_idx)) (of_nat ENTRY_SIZE)"

definition entry_write :: "rom_flash \<Rightarrow> nvds_env \<Rightarrow> nat \<Rightarrow> entry_info \<Rightarrow> nvds_ret \<times> nvds_env" where
  "entry_write rom env p entry =
     (if unat (pg_next_free (nv_page env p)) \<ge> ENTRY_COUNT_PER_PAGE then (NVDS_E_FAIL, env)
      else case nvds_flash_write rom env (entry_address (nv_page env p) (pg_next_free (nv_page env p)))
                  (of_nat ENTRY_SIZE) entry of
        (ret, env) \<Rightarrow>
          if ret \<noteq> NVDS_OK then (ret, env)
          else (NVDS_OK, set_page p (\<lambda>pg. pg\<lparr>pg_next_free := pg_next_free pg + 1,
                  pg_cnt_used := pg_cnt_used pg + 1\<rparr>) env))"

definition entry_data_write ::
    "rom_flash \<Rightarrow> nvds_env \<Rightarrow> u32 \<Rightarrow> u32 \<Rightarrow> u8 list \<Rightarrow> nvds_ret \<times> nvds_env" where
  "entry_data_write rom env address bufsize buf = nvds_flash_write rom env address bufsize buf"

section \<open>Searching\<close>

definition has_data :: "u8 \<Rightarrow> bool" where
  "has_data type \<longleftrightarrow> type = ELEMENT_MIDDLE \<or> type = ELEMENT_BULK"

text \<open>
  The step over an element to the next header, in the 8-bit index of the code.
\<close>

definition entry_skip :: "entry_info \<Rightarrow> u8 \<Rightarrow> u8" where
  "entry_skip entry idx =
     (if has_data (tag_element_type_get (entry_tag entry))
      then idx + 1 + of_nat (data_entries (unat (entry_length entry))) else idx + 1)"

definition element_match :: "u8 \<Rightarrow> u8 list \<Rightarrow> u8 \<Rightarrow> u32 \<Rightarrow> entry_info \<Rightarrow> bool" where
  "element_match ns_idx key entry_type state entry \<longleftrightarrow>
     state = ENTRY_USED \<and> ns_idx = tag_namespace_get (entry_tag entry) \<and>
     length key = length (entry_key entry) \<and> key = entry_key entry \<and>
     (entry_type = ELEMENT_ANY \<or> tag_element_type_get (entry_tag entry) = entry_type) \<and>
     entry_crc32 entry = element_header_crc32_calc entry"

text \<open>
  The walk over the entries of a page. With damaged lengths the 8-bit index can run in a
  circle, hence the option type.
\<close>

partial_function (option) find_in_page ::
    "rom_flash \<Rightarrow> nvds_env \<Rightarrow> u8 \<Rightarrow> u8 list \<Rightarrow> u8 \<Rightarrow> nat \<Rightarrow> u8 \<Rightarrow> (nvds_ret + u8 option) option" where
  "find_in_page rom env ns_idx key entry_type p entry_idx =
     (if unat entry_idx < ENTRY_COUNT_PER_PAGE then
        (case entry_state_get (pg_states (nv_page env p)) entry_idx of
           Inl e \<Rightarrow> Some (Inl e)
         | Inr state \<Rightarrow>
             if state = ENTRY_FREE then Some (Inr None)
             else (case entry_read rom env p entry_idx of
                     Inl e \<Rightarrow> Some (Inl e)
                   | Inr entry \<Rightarrow>
                       if element_match ns_idx key entry_type state entry then Some (Inr (Some entry_idx))
                       else find_in_page rom env ns_idx key entry_type p (entry_skip entry entry_idx)))
      else Some (Inr None))"

fun find_in_pages ::
    "rom_flash \<Rightarrow> nvds_env \<Rightarrow> u8 \<Rightarrow> u8 list \<Rightarrow> u8 \<Rightarrow> nat list \<Rightarrow> u8 \<Rightarrow> (nvds_ret + nat \<times> u8) option" where
  "find_in_pages rom env ns_idx key entry_type [] entry_start = Some (Inl NVDS_E_NOT_FOUND)"
| "find_in_pages rom env ns_idx key entry_type (p # ps) entry_start =
     (let st = ph_state (pg_header (nv_page env p)) in
      if st \<noteq> PAGE_ACTIVE \<and> st \<noteq> PAGE_FULL
      then find_in_pages rom env ns_idx key entry_type ps entry_start
      else case find_in_page rom env ns_idx key entry_type p entry_start of
             None \<Rightarrow> None
           | Some (Inl e) \<Rightarrow> Some (Inl e)
           | Some (Inr (Some i)) \<Rightarrow> Some (Inr (p, i))
           | Some (Inr None) \<Rightarrow> find_in_pages rom env ns_idx key entry_type ps 0)"

definition element_find ::
    "rom_flash \<Rightarrow> nvds_env \<Rightarrow> u8 \<Rightarrow> u8 list \<Rightarrow> u8 \<Rightarrow> nat option \<Rightarrow> u8 \<Rightarrow> (nvds_ret + nat \<times> u8) option" where
  "element_find rom env ns_idx key entry_start page_start entry_type =
     (let from = (case page_start of None \<Rightarrow> [] | Some q \<Rightarrow> dropWhile (\<lambda>p. p \<noteq> q) (nv_used env));
          pages = (if from = [] then nv_used env else from)
      in find_in_pages rom env ns_idx key entry_type pages entry_start)"

text \<open>
  The free bytes of a page. The difference is computed unsigned; callers compare the result
  as \<open>int\<close> or, against a sum with the unsigned buffer size, unsigned.
\<close>

definition page_room_get :: "page_env \<Rightarrow> u32" where
  "page_room_get page = (of_nat ENTRY_COUNT_PER_PAGE - pg_next_free page) * of_nat ENTRY_SIZE"

definition data_element_find :: "rom_flash \<Rightarrow> nvds_env \<Rightarrow> u8 \<Rightarrow> u8 list \<Rightarrow> nvds_ret option" where
  "data_element_find rom env ns_idx key =
     map_option (\<lambda>r. case r of Inl e \<Rightarrow> e | Inr _ \<Rightarrow> NVDS_OK)
       (element_find rom env ns_idx key 0 None ELEMENT_ANY)"

section \<open>Deleting elements\<close>

definition used_minus :: "nat \<Rightarrow> nat \<Rightarrow> nvds_env \<Rightarrow> nvds_env" where
  "used_minus p n = set_page p (\<lambda>pg. pg\<lparr>pg_cnt_used := pg_cnt_used pg - of_nat n\<rparr>)"

text \<open>
  The loop that marks all fragments of a bulk element, shared by \<open>bulk_element_del\<close> and the
  exit of \<open>bulk_element_put\<close>.
\<close>

partial_function (option) del_fragments ::
    "rom_flash \<Rightarrow> u8 \<Rightarrow> u8 list \<Rightarrow> nat option \<Rightarrow> u8 \<Rightarrow> nvds_env \<Rightarrow> (nvds_ret \<times> nvds_env) option" where
  "del_fragments rom ns_idx key page_start entry_idx env =
     (case element_find rom env ns_idx key entry_idx page_start ELEMENT_BULK of
        None \<Rightarrow> None
      | Some (Inl e) \<Rightarrow> Some (if e = NVDS_E_NOT_FOUND then NVDS_OK else e, env)
      | Some (Inr (p, i)) \<Rightarrow>
          (case entry_read rom env p i of
             Inl e \<Rightarrow> Some (e, env)
           | Inr entry \<Rightarrow>
               let entry_cnt = data_entries (unat (entry_length entry)) in
               (case entry_state_range_alter rom env p i (i + of_nat entry_cnt) ENTRY_UPDATED of
                  (ret, env) \<Rightarrow>
                    if ret \<noteq> NVDS_OK then Some (ret, env)
                    else del_fragments rom ns_idx key (Some p) (i + of_nat (entry_cnt + 1))
                           (used_minus p (entry_cnt + 1) env))))"

definition bulk_element_del ::
    "rom_flash \<Rightarrow> u8 \<Rightarrow> u8 list \<Rightarrow> nvds_env \<Rightarrow> (nvds_ret \<times> nvds_env) option" where
  "bulk_element_del rom ns_idx key env =
     (case element_find rom env ns_idx key 0 None ELEMENT_BULKINFO of
        None \<Rightarrow> None
      | Some (Inl e) \<Rightarrow> Some (if e = NVDS_E_NOT_FOUND then NVDS_OK else e, env)
      | Some (Inr (p, i)) \<Rightarrow>
          (case entry_state_range_alter rom env p i i ENTRY_UPDATED of
             (ret, env) \<Rightarrow>
               if ret \<noteq> NVDS_OK then Some (ret, env)
               else del_fragments rom ns_idx key None 0 (used_minus p 1 env)))"

definition data_element_del ::
    "rom_flash \<Rightarrow> u8 \<Rightarrow> u8 list \<Rightarrow> nvds_env \<Rightarrow> (nvds_ret \<times> nvds_env) option" where
  "data_element_del rom ns_idx key env =
     (case element_find rom env ns_idx key 0 None ELEMENT_ANY of
        None \<Rightarrow> None
      | Some (Inl e) \<Rightarrow> Some (e, env)
      | Some (Inr (p, i)) \<Rightarrow>
          (case entry_read rom env p i of
             Inl e \<Rightarrow> Some (e, env)
           | Inr entry \<Rightarrow>
               let type = tag_element_type_get (entry_tag entry) in
               if type = ELEMENT_BULKINFO \<or> type = ELEMENT_BULK then bulk_element_del rom ns_idx key env
               else if type = ELEMENT_SMALL then
                 (case entry_state_range_alter rom env p i i ENTRY_UPDATED of
                    (ret, env) \<Rightarrow> if ret \<noteq> NVDS_OK then Some (ret, env) else Some (NVDS_OK, used_minus p 1 env))
               else if type = ELEMENT_MIDDLE then
                 let entry_cnt = data_entries (unat (entry_length entry)) in
                 (case entry_state_range_alter rom env p i (i + of_nat entry_cnt) ENTRY_UPDATED of
                    (ret, env) \<Rightarrow>
                      if ret \<noteq> NVDS_OK then Some (ret, env)
                      else Some (NVDS_OK, used_minus p (entry_cnt + 1) env))
               else Some (NVDS_E_FAIL, env)))"

section \<open>Reading elements\<close>

text \<open>
  Copying the data entries \<open>idx\<close> to \<open>ende\<close> of a page to offset \<open>dst\<close> of the caller's buffer, which
  keeps what was copied before a read fails.
\<close>

partial_function (option) read_data ::
    "rom_flash \<Rightarrow> nvds_env \<Rightarrow> nat \<Rightarrow> u8 \<Rightarrow> u8 \<Rightarrow> nat \<Rightarrow> nat \<Rightarrow> u8 list \<Rightarrow> (nvds_ret \<times> u8 list) option" where
  "read_data rom env p idx ende remain dst buf =
     (if idx \<le> ende then
        (case entry_read rom env p idx of
           Inl e \<Rightarrow> Some (e, buf)
         | Inr entry \<Rightarrow>
             let copy = (if remain < ENTRY_SIZE then remain else ENTRY_SIZE)
             in read_data rom env p (idx + 1) ende (remain - copy) (dst + copy)
                  (mem_put buf dst (take copy entry)))
      else Some (NVDS_OK, buf))"

text \<open>
  The search for one fragment of a bulk element.
\<close>

partial_function (option) find_fragment ::
    "rom_flash \<Rightarrow> nvds_env \<Rightarrow> u8 \<Rightarrow> u8 list \<Rightarrow> u32 \<Rightarrow> nat option \<Rightarrow> u8
      \<Rightarrow> (nvds_ret + (nat \<times> u8 \<times> entry_info) option) option" where
  "find_fragment rom env ns_idx key frag_idx page_start entry_idx =
     (case element_find rom env ns_idx key entry_idx page_start ELEMENT_BULK of
        None \<Rightarrow> None
      | Some (Inl e) \<Rightarrow> Some (if e = NVDS_E_NOT_FOUND then Inr None else Inl e)
      | Some (Inr (p, i)) \<Rightarrow>
          (case entry_read rom env p i of
             Inl e \<Rightarrow> Some (Inl e)
           | Inr entry \<Rightarrow>
               if ucast (tag_fragno_get (entry_tag entry)) = frag_idx then Some (Inr (Some (p, i, entry)))
               else find_fragment rom env ns_idx key frag_idx (Some p)
                      (i + 1 + of_nat (data_entries (unat (entry_length entry))))))"

fun bulk_get_loop ::
    "rom_flash \<Rightarrow> nvds_env \<Rightarrow> u8 \<Rightarrow> u8 list \<Rightarrow> nat list \<Rightarrow> nat \<Rightarrow> u8 list \<Rightarrow> (nvds_ret \<times> u8 list) option" where
  "bulk_get_loop rom env ns_idx key [] dst_offset buf = Some (NVDS_OK, buf)"
| "bulk_get_loop rom env ns_idx key (frag_idx # frags) dst_offset buf =
     (case find_fragment rom env ns_idx key (of_nat frag_idx) None 0 of
        None \<Rightarrow> None
      | Some (Inl e) \<Rightarrow> Some (e, buf)
      | Some (Inr None) \<Rightarrow> bulk_get_loop rom env ns_idx key frags dst_offset buf
      | Some (Inr (Some (p, i, entry))) \<Rightarrow>
          let entry_len = unat (entry_length entry) in
          (case read_data rom env p (i + 1) (i + of_nat (data_entries entry_len)) entry_len dst_offset buf of
             None \<Rightarrow> None
           | Some (ret, buf) \<Rightarrow>
               if ret \<noteq> NVDS_OK then Some (ret, buf)
               else bulk_get_loop rom env ns_idx key frags (dst_offset + entry_len) buf))"

text \<open>
  The getters return the status, the size stored through \<open>bufsize\<close> and the buffer.
\<close>

definition bulk_element_get ::
    "rom_flash \<Rightarrow> nvds_env \<Rightarrow> u8 \<Rightarrow> u8 list \<Rightarrow> u8 list option \<Rightarrow> u32
      \<Rightarrow> (nvds_ret \<times> u32 \<times> u8 list option) option" where
  "bulk_element_get rom env ns_idx key buf bufsize =
     (case element_find rom env ns_idx key 0 None ELEMENT_BULKINFO of
        None \<Rightarrow> None
      | Some (Inl e) \<Rightarrow> Some (e, bufsize, buf)
      | Some (Inr (p, i)) \<Rightarrow>
          (case entry_read rom env p i of
             Inl e \<Rightarrow> Some (e, bufsize, buf)
           | Inr entry \<Rightarrow>
               let bulk_size = entry_bulksize entry; frag_cnt = unat (entry_length entry) in
               (case buf of
                  None \<Rightarrow> Some (NVDS_OK, bulk_size, buf)
                | Some b \<Rightarrow>
                    if bufsize < bulk_size then Some (NVDS_E_INVALID_LENGTH, bulk_size, buf)
                    else map_option (\<lambda>(ret, b). (ret, bulk_size, Some b))
                           (bulk_get_loop rom env ns_idx key [0..<frag_cnt] 0 b))))"

definition data_element_get ::
    "rom_flash \<Rightarrow> nvds_env \<Rightarrow> u8 \<Rightarrow> u8 list \<Rightarrow> u8 list option \<Rightarrow> u32
      \<Rightarrow> (nvds_ret \<times> u32 \<times> u8 list option) option" where
  "data_element_get rom env ns_idx key buf bufsize =
     (case element_find rom env ns_idx key 0 None ELEMENT_ANY of
        None \<Rightarrow> None
      | Some (Inl e) \<Rightarrow> Some (e, bufsize, buf)
      | Some (Inr (p, i)) \<Rightarrow>
          (case entry_read rom env p i of
             Inl e \<Rightarrow> Some (e, bufsize, buf)
           | Inr entry \<Rightarrow>
               let type = tag_element_type_get (entry_tag entry);
                   entry_len = unat (entry_length entry);
                   len32 = ucast (entry_length entry) in
               if type = ELEMENT_BULK \<or> type = ELEMENT_BULKINFO
               then bulk_element_get rom env ns_idx key buf bufsize
               else
               (case buf of
                  None \<Rightarrow> Some (NVDS_OK, len32, buf)
                | Some b \<Rightarrow>
                    if bufsize < len32 then Some (NVDS_E_INVALID_LENGTH, len32, buf)
                    else if type = ELEMENT_SMALL
                    then Some (NVDS_OK, len32, Some (mem_put b 0 (take entry_len (entry_value entry))))
                    else if type = ELEMENT_MIDDLE then
                      (case read_data rom env p (i + 1) (i + of_nat (data_entries entry_len)) entry_len 0 b of
                         None \<Rightarrow> None
                       | Some (ret, b') \<Rightarrow>
                           Some (if ret \<noteq> NVDS_OK then ret
                                 else if entry_datacrc32 entry \<noteq> element_data_crc32_calc (mem_get b' 0 entry_len)
                                 then NVDS_E_NOT_FOUND else NVDS_OK, len32, Some b'))
                    else Some (NVDS_OK, len32, Some b))))"

section \<open>Comparing elements\<close>

partial_function (option) compare_data ::
    "rom_flash \<Rightarrow> nvds_env \<Rightarrow> nat \<Rightarrow> u8 \<Rightarrow> u8 \<Rightarrow> nat \<Rightarrow> u8 list \<Rightarrow> bool option" where
  "compare_data rom env p idx ende remain dst =
     (if idx \<le> ende then
        (case entry_read rom env p idx of
           Inl e \<Rightarrow> Some False
         | Inr entry \<Rightarrow>
             let copy = (if remain < ENTRY_SIZE then remain else ENTRY_SIZE)
             in if take copy dst \<noteq> take copy entry then Some False
                else compare_data rom env p (idx + 1) ende (remain - copy) (drop copy dst))
      else Some True)"

fun bulk_compare_loop ::
    "rom_flash \<Rightarrow> nvds_env \<Rightarrow> u8 \<Rightarrow> u8 list \<Rightarrow> nat list \<Rightarrow> u8 list \<Rightarrow> bool option" where
  "bulk_compare_loop rom env ns_idx key [] dst = Some True"
| "bulk_compare_loop rom env ns_idx key (frag_idx # frags) dst =
     (case find_fragment rom env ns_idx key (of_nat frag_idx) None 0 of
        None \<Rightarrow> None
      | Some (Inl e) \<Rightarrow> Some False
      | Some (Inr None) \<Rightarrow> bulk_compare_loop rom env ns_idx key frags dst
      | Some (Inr (Some (p, i, entry))) \<Rightarrow>
          let entry_len = unat (entry_length entry) in
          (case compare_data rom env p (i + 1) (i + of_nat (data_entries entry_len)) entry_len dst of
             None \<Rightarrow> None
           | Some False \<Rightarrow> Some False
           | Some True \<Rightarrow> bulk_compare_loop rom env ns_idx key frags (drop entry_len dst)))"

definition bulk_element_compare ::
    "rom_flash \<Rightarrow> nvds_env \<Rightarrow> u8 \<Rightarrow> u8 list \<Rightarrow> u8 list \<Rightarrow> u32 \<Rightarrow> bool option" where
  "bulk_element_compare rom env ns_idx key buf bufsize =
     (case element_find rom env ns_idx key 0 None ELEMENT_BULKINFO of
        None \<Rightarrow> None
      | Some (Inl e) \<Rightarrow> Some (e = NVDS_E_NOT_FOUND)
      | Some (Inr (p, i)) \<Rightarrow>
          (case entry_read rom env p i of
             Inl e \<Rightarrow> Some False
           | Inr entry \<Rightarrow>
               if entry_bulksize entry \<noteq> bufsize then Some False
               else bulk_compare_loop rom env ns_idx key [0..<unat (entry_length entry)] buf))"

definition element_compare ::
    "rom_flash \<Rightarrow> nvds_env \<Rightarrow> u8 \<Rightarrow> u8 list \<Rightarrow> u8 list \<Rightarrow> u32 \<Rightarrow> bool option" where
  "element_compare rom env ns_idx key buf bufsize =
     (case data_element_get rom env ns_idx key None 0 of
        None \<Rightarrow> None
      | Some (ret, data_size, _) \<Rightarrow>
          if ret \<noteq> NVDS_OK then Some False
          else if data_size \<noteq> bufsize then Some False
          else
          (case element_find rom env ns_idx key 0 None ELEMENT_ANY of
             None \<Rightarrow> None
           | Some (Inl e) \<Rightarrow> Some False
           | Some (Inr (p, i)) \<Rightarrow>
               (case entry_read rom env p i of
                  Inl e \<Rightarrow> Some False
                | Inr entry \<Rightarrow>
                    let type = tag_element_type_get (entry_tag entry);
                        entry_len = unat (entry_length entry) in
                    if type = ELEMENT_SMALL then
                      if ucast (entry_length entry) \<noteq> bufsize then Some False
                      else Some (take entry_len buf = take entry_len (entry_value entry))
                    else if type = ELEMENT_MIDDLE then
                      if ucast (entry_length entry) \<noteq> bufsize then Some False
                      else compare_data rom env p (i + 1) (i + of_nat (data_entries entry_len)) entry_len buf
                    else if type = ELEMENT_BULK \<or> type = ELEMENT_BULKINFO
                    then bulk_element_compare rom env ns_idx key buf bufsize
                    else Some False)))"

end
