(* ===== verification/Nvds_Put.thy ===== *)
theory Nvds_Put
  imports Nvds_Flash
begin

text \<open>
  Writing elements: the request of a fresh page with the recycling of the page that has the
  fewest used entries, bulk elements in fragments, and \<open>data_element_put\<close>.
\<close>

section \<open>Pages\<close>

definition page_clear :: "nat \<Rightarrow> nvds_env \<Rightarrow> nvds_env" where
  "page_clear p = set_page p (\<lambda>pg. pg\<lparr>pg_header := bytes_header (replicate 32 0xFF),
     pg_states := replicate ENTRY_STATES_TABLE_SIZE 0xFFFFFFFF, pg_cnt_used := 0, pg_next_free := 0\<rparr>)"

text \<open>
  The search for the page with the fewest used entries.
\<close>

fun min_used_page :: "(nat \<Rightarrow> page_env) \<Rightarrow> nat list \<Rightarrow> u16 \<Rightarrow> nat option \<Rightarrow> nat option" where
  "min_used_page pg [] min_cnt_used erase_page = erase_page"
| "min_used_page pg (p # ps) min_cnt_used erase_page =
     (if pg_cnt_used (pg p) < min_cnt_used then min_used_page pg ps (pg_cnt_used (pg p)) (Some p)
      else min_used_page pg ps min_cnt_used erase_page)"

text \<open>
  The loop that copies the used entries of the page to be erased, entries \<open>idx\<close> on, \<open>n\<close> of
  them; \<open>False\<close> stands for the return of \<open>NULL\<close>.
\<close>

fun copy_used_entries :: "rom_flash \<Rightarrow> nat \<Rightarrow> nat \<Rightarrow> nat \<Rightarrow> u8 \<Rightarrow> nvds_env \<Rightarrow> bool \<times> nvds_env" where
  "copy_used_entries rom erase_page page 0 idx env = (True, env)"
| "copy_used_entries rom erase_page page (Suc n) idx env =
     (if entry_state_get (pg_states (nv_page env erase_page)) idx \<noteq> Inr ENTRY_USED
      then copy_used_entries rom erase_page page n (idx + 1) env
      else case entry_read rom env erase_page idx of
        Inl e \<Rightarrow> (False, env)
      | Inr entry \<Rightarrow>
          (case entry_write rom env page entry of
             (ret, env) \<Rightarrow>
               if ret \<noteq> NVDS_OK then (False, env)
               else
               (case entry_state_alter rom env page (ucast (pg_next_free (nv_page env page) - 1)) ENTRY_USED of
                  (ret, env) \<Rightarrow>
                    if ret \<noteq> NVDS_OK then (False, env)
                    else copy_used_entries rom erase_page page n (idx + 1) env)))"

definition recycle_page :: "rom_flash \<Rightarrow> nat \<Rightarrow> nat \<Rightarrow> nvds_env \<Rightarrow> nat option \<times> nvds_env" where
  "recycle_page rom erase_page page env =
     (let env = env\<lparr>nv_used := remove1 erase_page (nv_used env)\<rparr>;
          env = env\<lparr>nv_free := nv_free env @ [erase_page]\<rparr> in
      case page_state_alter rom env erase_page PAGE_CANDIDATE of
        (ret, env) \<Rightarrow>
          if ret \<noteq> NVDS_OK then (None, env)
          else
          (case copy_used_entries rom erase_page page ENTRY_COUNT_PER_PAGE 0 env of
             (ok, env) \<Rightarrow>
               if \<not> ok then (None, env)
               else
               (case nvds_flash_erase rom env (pg_base (nv_page env erase_page)) (of_nat SPI_FLASH_SEC_SIZE) of
                  (ret, env) \<Rightarrow>
                    if ret \<noteq> NVDS_OK then (None, env) else (Some page, page_clear erase_page env))))"

text \<open>
  The part of \<open>new_page_request\<close> that opens the chosen page: erase it unless it is known to be
  erased, clear its RAM image and write a new header; \<open>False\<close> stands for the return of \<open>NULL\<close>.
\<close>

definition page_open :: "rom_flash \<Rightarrow> nat \<Rightarrow> u32 \<Rightarrow> nvds_env \<Rightarrow> bool \<times> nvds_env" where
  "page_open rom page seq env =
     (case (if ph_state (pg_header (nv_page env page)) \<noteq> PAGE_UNINITIALIZED
            then nvds_flash_erase rom env (pg_base (nv_page env page)) (of_nat SPI_FLASH_SEC_SIZE)
            else (NVDS_OK, env)) of
        (ret, env) \<Rightarrow>
          if ret \<noteq> NVDS_OK then (False, env)
          else
            let env = page_clear page env;
                hdr = (pg_header (nv_page env page))\<lparr>ph_magic := NVDS_FLASH_MAGIC,
                  ph_version := NVDS_FLASH_VERSION, ph_state := PAGE_ACTIVE, ph_seqno := seq\<rparr>;
                hdr = hdr\<lparr>ph_crc32 := page_header_crc32_calc hdr\<rparr>;
                env = set_page page (\<lambda>pg. pg\<lparr>pg_header := hdr\<rparr>) env in
            (case nvds_flash_write rom env (pg_base (nv_page env page) + of_nat PAGE_HEADER_OFFSET) 32
                    (header_bytes hdr) of
               (ret, env) \<Rightarrow>
                 if ret \<noteq> NVDS_OK then (False, env)
                 else
                 (case page_state_alter rom env page PAGE_ACTIVE of
                    (ret, env) \<Rightarrow> (ret = NVDS_OK, env))))"

definition new_page_request :: "rom_flash \<Rightarrow> u32 \<Rightarrow> nvds_env \<Rightarrow> nat option \<times> nvds_env" where
  "new_page_request rom seq env =
     (if nv_free env = [] then (None, env)
      else
        let erase_page = (if length (nv_free env) = 1
              then min_used_page (nv_page env) (nv_used env) (of_nat ENTRY_COUNT_PER_PAGE) None else None) in
        if length (nv_free env) = 1 \<and> erase_page = None then (None, env)
        else
          let page = hd (nv_free env) in
          (case page_open rom page seq env of
             (ok, env) \<Rightarrow>
               if \<not> ok then (None, env)
               else
                 let env = env\<lparr>nv_free := remove1 page (nv_free env)\<rparr>;
                     env = env\<lparr>nv_used := nv_used env @ [page]\<rparr> in
                 if nv_free env \<noteq> [] then (Some page, env)
                 else recycle_page rom (the erase_page) page env))"

section \<open>Bulk elements\<close>

definition page_unwritable :: "page_env \<Rightarrow> bool" where
  "page_unwritable pg \<longleftrightarrow> ph_state (pg_header pg) = PAGE_INVALID \<or>
     ph_state (pg_header pg) = PAGE_ERROR \<or> ph_state (pg_header pg) = PAGE_CANDIDATE"

text \<open>
  Moving on to a new page: the current page is marked full and a page is requested. \<open>Inr None\<close>
  is the jump to \<open>no_space_out\<close>, also when the new page has less than \<open>need\<close> bytes of room.
\<close>

definition next_page :: "rom_flash \<Rightarrow> nat \<Rightarrow> int \<Rightarrow> nvds_env \<Rightarrow> (nvds_ret + nat option) \<times> nvds_env" where
  "next_page rom cur_page need env =
     (case page_state_alter rom env cur_page PAGE_FULL of
        (ret, env) \<Rightarrow>
          if ret \<noteq> NVDS_OK then (Inl ret, env)
          else
          (case new_page_request rom (ph_seqno (pg_header (nv_page env cur_page)) + 1) env of
             (None, env) \<Rightarrow> (Inr None, env)
           | (Some p, env) \<Rightarrow>
               (Inr (if sint (page_room_get (nv_page env p)) < need then None else Some p), env)))"

datatype bulk_result = Bulk_ret nvds_ret | Bulk_no_space | Bulk_done u16

text \<open>
  One fragment: header, data and states. The checksum is taken of the first \<open>length\<close> bytes of
  the whole buffer, as in the code.
\<close>

definition put_fragment ::
    "rom_flash \<Rightarrow> u8 \<Rightarrow> u8 list \<Rightarrow> u8 list \<Rightarrow> nat \<Rightarrow> u16 \<Rightarrow> u16 \<Rightarrow> u32 \<Rightarrow> nvds_env \<Rightarrow> nvds_ret \<times> nvds_env" where
  "put_fragment rom ns_idx key buf cur_page buf_offset frag_cnt len env =
     (let entry_start = (ucast (pg_next_free (nv_page env cur_page)) :: u8);
          entry_cnt = data_entries (unat len);
          entry = entry_fill (tag_set ns_idx ELEMENT_BULK (ucast frag_cnt)) (ucast len) key 4
            (le32 (element_data_crc32_calc (take (unat len) buf))) in
      case entry_write rom env cur_page entry of
        (ret, env) \<Rightarrow>
          if ret \<noteq> NVDS_OK then (ret, env)
          else
          (case entry_data_write rom env
                  (entry_address (nv_page env cur_page) (pg_next_free (nv_page env cur_page)))
                  len (drop (unat buf_offset) buf) of
             (ret, env) \<Rightarrow>
               if ret \<noteq> NVDS_OK then (ret, env)
               else
                 let env = set_page cur_page (\<lambda>pg. pg\<lparr>pg_next_free := pg_next_free pg + of_nat entry_cnt,
                             pg_cnt_used := pg_cnt_used pg + of_nat entry_cnt\<rparr>) env
                 in entry_state_range_alter rom env cur_page entry_start
                      (entry_start + of_nat entry_cnt) ENTRY_USED))"

partial_function (option) bulk_put_loop ::
    "rom_flash \<Rightarrow> u8 \<Rightarrow> u8 list \<Rightarrow> u8 list \<Rightarrow> nat \<Rightarrow> u32 \<Rightarrow> u16 \<Rightarrow> u16 \<Rightarrow> nvds_env
      \<Rightarrow> (bulk_result \<times> nvds_env) option" where
  "bulk_put_loop rom ns_idx key buf cur_page remain buf_offset frag_cnt env =
     (case (if sint (page_room_get (nv_page env cur_page)) < 2 * int ENTRY_SIZE
            then next_page rom cur_page (2 * int ENTRY_SIZE) env else (Inr (Some cur_page), env)) of
        (Inl ret, env) \<Rightarrow> Some (Bulk_ret ret, env)
      | (Inr None, env) \<Rightarrow> Some (Bulk_no_space, env)
      | (Inr (Some cur_page), env) \<Rightarrow>
          let room = page_room_get (nv_page env cur_page) - of_nat ENTRY_SIZE;
              len = (if room < remain then room else remain) in
          (case put_fragment rom ns_idx key buf cur_page buf_offset frag_cnt len env of
             (ret, env) \<Rightarrow>
               if ret \<noteq> NVDS_OK then Some (Bulk_ret ret, env)
               else if remain - len > 0
               then bulk_put_loop rom ns_idx key buf cur_page (remain - len) (buf_offset + ucast len)
                      (frag_cnt + 1) env
               else Some (Bulk_done (frag_cnt + 1), env)))"

definition bulk_no_space :: "rom_flash \<Rightarrow> u8 \<Rightarrow> u8 list \<Rightarrow> nvds_env \<Rightarrow> (nvds_ret \<times> nvds_env) option" where
  "bulk_no_space rom ns_idx key env =
     map_option (\<lambda>(ret, env). (if ret = NVDS_OK then NVDS_E_NO_SPACE else ret, env))
       (del_fragments rom ns_idx key None 0 env)"

definition bulk_element_put ::
    "rom_flash \<Rightarrow> u8 \<Rightarrow> u8 list \<Rightarrow> u8 list \<Rightarrow> u32 \<Rightarrow> nvds_env \<Rightarrow> (nvds_ret \<times> nvds_env) option" where
  "bulk_element_put rom ns_idx key buf bufsize env =
     (let cur_page = last (nv_used env) in
      if page_unwritable (nv_page env cur_page) then Some (NVDS_E_FAIL, env)
      else case bulk_put_loop rom ns_idx key buf cur_page bufsize 0 0 env of
        None \<Rightarrow> None
      | Some (Bulk_ret ret, env) \<Rightarrow> Some (ret, env)
      | Some (Bulk_no_space, env) \<Rightarrow> bulk_no_space rom ns_idx key env
      | Some (Bulk_done frag_cnt, env) \<Rightarrow>
          let cur_page = last (nv_used env) in
          if page_unwritable (nv_page env cur_page) then Some (NVDS_E_FAIL, env)
          else
          (case (if sint (page_room_get (nv_page env cur_page)) < int ENTRY_SIZE
                 then next_page rom cur_page (int ENTRY_SIZE) env else (Inr (Some cur_page), env)) of
             (Inl ret, env) \<Rightarrow> Some (ret, env)
           | (Inr None, env) \<Rightarrow> bulk_no_space rom ns_idx key env
           | (Inr (Some cur_page), env) \<Rightarrow>
               let entry_start = (ucast (pg_next_free (nv_page env cur_page)) :: u8);
                   entry = entry_fill (tag_set ns_idx ELEMENT_BULKINFO TAG_FRAG_NO_DEFAULT) frag_cnt key 4
                     (le32 bufsize) in
               (case entry_write rom env cur_page entry of
                  (ret, env) \<Rightarrow>
                    if ret \<noteq> NVDS_OK then Some (ret, env)
                    else Some (entry_state_range_alter rom env cur_page entry_start entry_start ENTRY_USED))))"

section \<open>Namespace counters\<close>

text \<open>
  Both counters change the first namespace of the list that has the index.
\<close>

fun ns_update :: "u8 \<Rightarrow> (namespace_info \<Rightarrow> namespace_info) \<Rightarrow> namespace_info list \<Rightarrow> namespace_info list" where
  "ns_update ns_idx f [] = []"
| "ns_update ns_idx f (ns # nss) =
     (if ns_index ns = ns_idx then f ns # nss else ns # ns_update ns_idx f nss)"

definition ns_add_used_cnt :: "u8 \<Rightarrow> nvds_env \<Rightarrow> nvds_ret \<times> nvds_env" where
  "ns_add_used_cnt ns_idx env =
     (if ns_idx > NAMESPACE_MAX_CNT then (NVDS_E_INVAL_PARAM, env)
      else (NVDS_OK, env\<lparr>nv_ns := ns_update ns_idx (\<lambda>ns. ns\<lparr>ns_used_cnt := ns_used_cnt ns + 1\<rparr>) (nv_ns env)\<rparr>))"

definition ns_del_used_cnt ::
    "rom_flash \<Rightarrow> u8 \<Rightarrow> bool \<Rightarrow> nvds_env \<Rightarrow> (nvds_ret \<times> nvds_env) option" where
  "ns_del_used_cnt rom ns_idx del_flag env =
     (if ns_idx > NAMESPACE_MAX_CNT then Some (NVDS_E_INVAL_PARAM, env)
      else
        let env = env\<lparr>nv_ns := ns_update ns_idx (\<lambda>ns. ns\<lparr>ns_used_cnt := ns_used_cnt ns - 1\<rparr>) (nv_ns env)\<rparr> in
        case find (\<lambda>ns. ns_index ns = ns_idx) (nv_ns env) of
          None \<Rightarrow> Some (NVDS_OK, env)
        | Some ns \<Rightarrow>
            if ns_used_cnt ns = 0 \<and> del_flag
            then data_element_del rom 0 (ns_name ns)
                   (env\<lparr>nv_ns := remove1 ns (nv_ns env), nv_ns_states := ns_state_set (nv_ns_states env) ns_idx False\<rparr>)
            else Some (NVDS_OK, env))"

section \<open>data_element_put\<close>

definition no_room :: "page_env \<Rightarrow> u32 \<Rightarrow> bool" where
  "no_room pg bufsize \<longleftrightarrow>
     unat bufsize \<le> ELEMENT_SMALL_MAX_SIZE \<and> sint (page_room_get pg) < int ENTRY_SIZE \<or>
     unat bufsize > ELEMENT_SMALL_MAX_SIZE \<and> page_room_get pg < of_nat ENTRY_SIZE + bufsize"

text \<open>
  The part of \<open>data_element_put\<close> that writes a small or middle element to a page with room.
\<close>

definition put_element ::
    "rom_flash \<Rightarrow> u8 \<Rightarrow> u8 list \<Rightarrow> u8 list \<Rightarrow> u32 \<Rightarrow> nat \<Rightarrow> nvds_env \<Rightarrow> nvds_ret \<times> nvds_env" where
  "put_element rom ns_idx key buf bufsize cur_page env =
     (let entry_start = (ucast (pg_next_free (nv_page env cur_page)) :: u8);
          entry_cnt = data_entries (unat bufsize);
          small = (unat bufsize \<le> ELEMENT_SMALL_MAX_SIZE);
          entry = (if small
            then entry_fill (tag_set ns_idx ELEMENT_SMALL TAG_FRAG_NO_DEFAULT) (ucast bufsize) key 0
                   (take (unat bufsize) buf)
            else entry_fill (tag_set ns_idx ELEMENT_MIDDLE TAG_FRAG_NO_DEFAULT) (ucast bufsize) key 4
                   (le32 (element_data_crc32_calc (take (unat bufsize) buf)))) in
      case entry_write rom env cur_page entry of
        (ret, env) \<Rightarrow>
          if ret \<noteq> NVDS_OK then (ret, env)
          else if \<not> small then
            (case entry_data_write rom env
                    (entry_address (nv_page env cur_page) (pg_next_free (nv_page env cur_page))) bufsize buf of
               (ret, env) \<Rightarrow>
                 if ret \<noteq> NVDS_OK then (ret, env)
                 else
                   let env = set_page cur_page (\<lambda>pg. pg\<lparr>pg_next_free := pg_next_free pg + of_nat entry_cnt,
                               pg_cnt_used := pg_cnt_used pg + of_nat entry_cnt\<rparr>) env
                   in entry_state_range_alter rom env cur_page entry_start
                        (entry_start + of_nat entry_cnt) ENTRY_USED)
          else entry_state_range_alter rom env cur_page entry_start entry_start ENTRY_USED)"

definition put_new ::
    "rom_flash \<Rightarrow> u8 \<Rightarrow> u8 list \<Rightarrow> u8 list \<Rightarrow> u32 \<Rightarrow> nvds_env \<Rightarrow> nvds_ret \<times> nvds_env" where
  "put_new rom ns_idx key buf bufsize env =
     (let cur_page = last (nv_used env) in
      if page_unwritable (nv_page env cur_page) then (NVDS_E_FAIL, env)
      else if no_room (nv_page env cur_page) bufsize then
        (case page_state_alter rom env cur_page PAGE_FULL of
           (ret, env) \<Rightarrow>
             if ret \<noteq> NVDS_OK then (ret, env)
             else
             (case new_page_request rom (ph_seqno (pg_header (nv_page env cur_page)) + 1) env of
                (None, env) \<Rightarrow> (NVDS_E_NO_SPACE, env)
              | (Some p, env) \<Rightarrow>
                  if no_room (nv_page env p) bufsize then (NVDS_E_NO_SPACE, env)
                  else put_element rom ns_idx key buf bufsize p env))
      else put_element rom ns_idx key buf bufsize cur_page env)"

definition data_element_put ::
    "rom_flash \<Rightarrow> u8 \<Rightarrow> u8 list \<Rightarrow> u8 list \<Rightarrow> u32 \<Rightarrow> nvds_env \<Rightarrow> (nvds_ret \<times> nvds_env) option" where
  "data_element_put rom ns_idx key buf bufsize env =
     (case element_compare rom env ns_idx key buf bufsize of
        None \<Rightarrow> None
      | Some True \<Rightarrow> map_option (\<lambda>(_, env). (NVDS_OK, env)) (ns_del_used_cnt rom ns_idx False env)
      | Some False \<Rightarrow>
          (case data_element_del rom ns_idx key env of
             None \<Rightarrow> None
           | Some (ret, env) \<Rightarrow>
               if ret \<noteq> NVDS_OK \<and> ret \<noteq> NVDS_E_NOT_FOUND then Some (ret, env)
               else
               (case (if ret = NVDS_OK then ns_del_used_cnt rom ns_idx False env else Some (NVDS_OK, env)) of
                  None \<Rightarrow> None
                | Some (_, env) \<Rightarrow>
                    if unat bufsize > ELEMENT_MIDDLE_MAX_SIZE
                    then bulk_element_put rom ns_idx key buf bufsize env
                    else Some (put_new rom ns_idx key buf bufsize env))))"

end
