(* ===== verification/Nvds_Layout.thy ===== *)
theory Nvds_Layout
  imports Nvds_Put
begin

text \<open>
  The flash image of a storage and what reading and programming do to it, the layout of a page
  as a sequence of items, and the behaviour of the searches on that layout.
\<close>

section \<open>The image of a storage\<close>

definition nv_img :: "nvds_env \<Rightarrow> nat \<Rightarrow> u8" where
  "nv_img env a = fd_mem (nv_dev env) (unat (nv_base env) + a)"

definition img_bytes :: "nvds_env \<Rightarrow> nat \<Rightarrow> nat \<Rightarrow> u8 list" where
  "img_bytes env a n = map (\<lambda>i. nv_img env (a + i)) [0..<n]"

definition img_put :: "nat \<Rightarrow> u8 list \<Rightarrow> (nat \<Rightarrow> u8) \<Rightarrow> nat \<Rightarrow> u8" where
  "img_put off bs m = (\<lambda>a. if off \<le> a \<and> a < off + length bs then bs ! (a - off) else m a)"

text \<open>
  The storage lies in the flash, behind the remapped region.
\<close>

definition nv_region :: "nvds_env \<Rightarrow> bool" where
  "nv_region env \<longleftrightarrow> unat (nv_base env) + unat (nv_length env) \<le> flash_end \<and>
     4096 dvd unat (nv_base env) \<and> 4096 dvd unat (nv_length env) \<and>
     (\<forall>a \<ge> unat (nv_base env). fmc_translate (nv_dev env) a = a)"

lemma length_img_bytes [simp]: "length (img_bytes env a n) = n"
  by (simp add: img_bytes_def)

lemma nth_img_bytes: "i < n \<Longrightarrow> img_bytes env a n ! i = nv_img env (a + i)"
  by (simp add: img_bytes_def)

lemma img_bytes_cong: "(\<And>i. i < n \<Longrightarrow> nv_img env' (a + i) = nv_img env (a + i)) \<Longrightarrow> img_bytes env' a n = img_bytes env a n"
  by (simp add: img_bytes_def)

lemma img_bytes_append: "img_bytes env a (m + n) = img_bytes env a m @ img_bytes env (a + m) n"
  by (rule nth_equalityI) (auto simp: nth_append nth_img_bytes)

lemma img_bytes_put_same:
  "nv_img env' = img_put off bs (nv_img env) \<Longrightarrow> img_bytes env' off (length bs) = bs"
  by (rule nth_equalityI) (auto simp: nth_img_bytes img_put_def)

lemma img_bytes_put_other:
  assumes "nv_img env' = img_put off bs (nv_img env)" and "a + n \<le> off \<or> off + length bs \<le> a"
  shows "img_bytes env' a n = img_bytes env a n"
  using assms by (intro img_bytes_cong) (auto simp: img_put_def)

text \<open>
  Environments that differ only in the memory of the device.
\<close>

definition same_but_mem :: "nvds_env \<Rightarrow> nvds_env \<Rightarrow> bool" where
  "same_but_mem env' env \<longleftrightarrow> (\<exists>m. env' = env\<lparr>nv_dev := (nv_dev env)\<lparr>fd_mem := m\<rparr>\<rparr>)"

lemma same_but_memD:
  assumes "same_but_mem env' env"
  shows "nv_page env' = nv_page env" "nv_used env' = nv_used env" "nv_free env' = nv_free env"
    "nv_base env' = nv_base env" "nv_length env' = nv_length env" "nv_ns env' = nv_ns env"
    "nv_ns_states env' = nv_ns_states env" "nv_region env' \<longleftrightarrow> nv_region env"
  using assms by (auto simp: same_but_mem_def nv_region_def fmc_translate_def)

context nor_flash
begin

lemma nv_read:
  assumes "nv_region env" and "0 < unat len" and "unat off + unat len \<le> unat (nv_length env)"
  shows "nvds_flash_read rom env off len = Inr (img_bytes env (unat off) (unat len))"
proof -
  have fits: "unat (nv_base env) + (unat off + unat len) \<le> flash_end" using assms by (simp add: nv_region_def)
  have s1: "unat (off + len) = unat off + unat len" using fits by (intro unat_add_small) simp
  have s2: "unat (nv_base env + off) = unat (nv_base env) + unat off" using fits by (intro unat_add_small) simp
  have "rom_flash_read rom (nv_base env + off) (unat len) (nv_dev env)
      = (0, map (\<lambda>i. fd_mem (nv_dev env) (fmc_translate (nv_dev env) (unat (nv_base env + off) + i))) [0..<unat len])"
    using assms(2) fits s2 by (intro read_ok) auto
  then show ?thesis
    using assms s1 by (auto simp: nvds_flash_read_def img_bytes_def nv_img_def nv_region_def s2 word_less_nat_alt add.assoc)
qed

lemma nv_write:
  assumes "nv_region env" and "0 < unat len" and "unat off + unat len \<le> unat (nv_length env)"
    and "unat len \<le> length buf" and "clears (img_bytes env (unat off) (unat len)) (take (unat len) buf)"
  obtains env' where "nvds_flash_write rom env off len buf = (NVDS_OK, env')" and "same_but_mem env' env"
    and "nv_img env' = img_put (unat off) (take (unat len) buf) (nv_img env)"
proof -
  let ?bs = "take (unat len) buf" and ?b = "unat (nv_base env)"
  have fits: "?b + (unat off + unat len) \<le> flash_end" using assms by (simp add: nv_region_def)
  have s1: "unat (off + len) = unat off + unat len" using fits by (intro unat_add_small) simp
  have s2: "unat (nv_base env + off) = ?b + unat off" using fits by (intro unat_add_small) simp
  let ?env = "env\<lparr>nv_dev := (nv_dev env)\<lparr>fd_mem := nor_program (?b + unat off) ?bs (fd_mem (nv_dev env))\<rparr>\<rparr>"
  have "rom_flash_write rom (nv_base env + off) ?bs (nv_dev env)
      = (0, (nv_dev env)\<lparr>fd_mem := nor_program (?b + unat off) ?bs (fd_mem (nv_dev env))\<rparr>)"
    unfolding s2 [symmetric] using assms(2,4) fits s2 by (intro write_ok) auto
  then have w: "nvds_flash_write rom env off len buf = (NVDS_OK, ?env)"
    using assms(3) s1 by (simp add: nvds_flash_write_def word_less_nat_alt)
  have "nv_img ?env a = img_put (unat off) ?bs (nv_img env) a" for a
  proof (cases "unat off \<le> a \<and> a < unat off + unat len")
    case True
    then have i: "a - unat off < unat len" by linarith
    then have "img_bytes env (unat off) (unat len) ! (a - unat off) AND ?bs ! (a - unat off) = ?bs ! (a - unat off)"
      using assms(4,5) by (auto simp: clears_def list_all2_conv_all_nth)
    then have "nv_img env a AND ?bs ! (a - unat off) = ?bs ! (a - unat off)"
      using True by (simp add: nth_img_bytes [OF i])
    then show ?thesis using True assms(4) by (simp add: nv_img_def img_put_def nor_program_def)
  next
    case False
    then show ?thesis using assms(4) by (auto simp: nv_img_def img_put_def nor_program_def)
  qed
  then have "nv_img ?env = img_put (unat off) ?bs (nv_img env)" by (rule ext)
  moreover have "same_but_mem ?env env" by (auto simp: same_but_mem_def)
  ultimately show thesis using w by (intro that)
qed

end

section \<open>Pages\<close>

lemma unat_ucast_u8: "unat (ucast (x :: u8) :: u32) = unat x"
  using unat_bound [of x] by (simp add: unsigned_ucast_eq take_bit_nat_eq_self)

definition ent :: "nvds_env \<Rightarrow> nat \<Rightarrow> nat \<Rightarrow> entry_info" where
  "ent env p i = img_bytes env (4096 * p + 64 + 32 * i) 32"

abbreviation st_at :: "nvds_env \<Rightarrow> nat \<Rightarrow> nat \<Rightarrow> u32" where
  "st_at env p i \<equiv> state_at (pg_states (nv_page env p)) i"

abbreviation next_free :: "nvds_env \<Rightarrow> nat \<Rightarrow> nat" where
  "next_free env p \<equiv> unat (pg_next_free (nv_page env p))"

text \<open>
  A page whose RAM image agrees with the flash and whose entries from \<open>next_free\<close> on are free
  and erased.
\<close>

definition page_ok :: "nvds_env \<Rightarrow> nat \<Rightarrow> bool" where
  "page_ok env p \<longleftrightarrow> 4096 * (p + 1) \<le> unat (nv_length env) \<and>
     pg_base (nv_page env p) = of_nat (4096 * p) \<and> length (pg_states (nv_page env p)) = 8 \<and>
     img_bytes env (4096 * p + 32) 32 = states_bytes (pg_states (nv_page env p)) \<and>
     next_free env p \<le> 126 \<and>
     (\<forall>i. next_free env p \<le> i \<longrightarrow> i < 126 \<longrightarrow> st_at env p i = ENTRY_FREE \<and> ent env p i = replicate 32 0xFF)"

text \<open>
  The items of a page: the state and the header of an element and the bytes of its data
  entries.
\<close>

type_synonym item = "u32 \<times> entry_info \<times> u8 list"

definition item_cnt :: "entry_info \<Rightarrow> nat" where
  "item_cnt e = (if has_data (tag_element_type_get (entry_tag e)) then data_entries (unat (entry_length e)) else 0)"

fun items_at :: "nvds_env \<Rightarrow> nat \<Rightarrow> nat \<Rightarrow> item list \<Rightarrow> bool" where
  "items_at env p i [] \<longleftrightarrow> True"
| "items_at env p i ((s, e, d) # its) \<longleftrightarrow>
     s \<noteq> ENTRY_FREE \<and> (\<forall>k \<le> item_cnt e. st_at env p (i + k) = s) \<and> ent env p i = e \<and>
     d = img_bytes env (4096 * p + 64 + 32 * (i + 1)) (32 * item_cnt e) \<and>
     items_at env p (i + 1 + item_cnt e) its"

fun items_size :: "item list \<Rightarrow> nat" where
  "items_size [] = 0"
| "items_size ((s, e, d) # its) = 1 + item_cnt e + items_size its"

fun find_item :: "u8 \<Rightarrow> u8 list \<Rightarrow> u8 \<Rightarrow> nat \<Rightarrow> item list \<Rightarrow> nat option" where
  "find_item ns key ty i [] = None"
| "find_item ns key ty i ((s, e, d) # its) =
     (if element_match ns key ty s e then Some i else find_item ns key ty (i + 1 + item_cnt e) its)"

lemma items_at_append:
  "items_at env p i (xs @ ys) \<longleftrightarrow> items_at env p i xs \<and> items_at env p (i + items_size xs) ys"
proof (induction xs arbitrary: i)
  case (Cons x xs)
  obtain s e d where x: "x = (s, e, d)" by (cases x)
  show ?case using Cons.IH [of "i + 1 + item_cnt e"] by (simp add: x add.assoc)
qed simp

lemma items_size_append [simp]: "items_size (xs @ ys) = items_size xs + items_size ys"
  by (induction xs rule: items_size.induct) auto

lemma entry_skip_cnt: "entry_skip e idx = idx + 1 + of_nat (item_cnt e)"
  by (simp add: entry_skip_def item_cnt_def)

context nor_flash
begin

lemma entry_address_nat:
  assumes "page_ok env p" and "nv_region env" and "unat idx < 126"
  shows "unat (entry_address (nv_page env p) idx) = 4096 * p + 64 + 32 * unat idx"
    and "4096 * p + 64 + 32 * unat idx + 32 \<le> unat (nv_length env)"
proof -
  have p: "4096 * (p + 1) \<le> unat (nv_length env)" "unat (nv_length env) \<le> flash_end"
    using assms(1,2) by (auto simp: page_ok_def nv_region_def)
  then show "4096 * p + 64 + 32 * unat idx + 32 \<le> unat (nv_length env)" using assms(3) by simp
  have b: "unat (pg_base (nv_page env p)) = 4096 * p"
    using assms(1) p unat_of_nat_small [of "4096 * p", where 'a = 32] by (simp add: page_ok_def)
  have m: "unat (idx * 32) = unat idx * 32" using assms(3) by (simp add: unat_word_ariths)
  show "unat (entry_address (nv_page env p) idx) = 4096 * p + 64 + 32 * unat idx"
    unfolding entry_address_def using p assms(3) by (simp add: unat_word_ariths b m)
qed

lemma entry_read_ent:
  assumes "page_ok env p" and "nv_region env" and "unat idx < 126"
  shows "entry_read rom env p idx = Inr (ent env p (unat idx))"
proof -
  have u: "unat (ucast idx :: u32) = unat idx" by (rule unat_ucast_u8)
  note a = entry_address_nat [OF assms(1,2), of "ucast idx", unfolded u, OF assms(3)]
  show ?thesis
    unfolding entry_read_def using nv_read [OF assms(2), of 32 "entry_address (nv_page env p) (ucast idx)"] a
    by (simp add: ent_def)
qed

text \<open>
  The walk over a page finds the first item that matches.
\<close>

lemma unat_small_u8: "n \<le> 126 \<Longrightarrow> unat (of_nat n :: u8) = n"
  by (rule unat_of_nat_small) simp

lemma find_in_page_items:
  assumes ok: "page_ok env p" and reg: "nv_region env"
  shows "items_at env p i its \<Longrightarrow> i + items_size its = next_free env p \<Longrightarrow>
    find_in_page rom env ns key ty p (of_nat i) = Some (Inr (map_option of_nat (find_item ns key ty i its)))"
proof (induction its arbitrary: i)
  case Nil
  then have i: "i = next_free env p" by simp
  then have "i \<le> 126" using ok by (simp add: page_ok_def)
  then have u: "unat (of_nat i :: u8) = i" by (rule unat_small_u8)
  show ?case
  proof (cases "i < 126")
    case True
    then have "st_at env p i = ENTRY_FREE" using ok i by (auto simp: page_ok_def)
    then show ?thesis
      using True u by (subst find_in_page.simps) (simp add: entry_state_get_state_at)
  next
    case False
    then show ?thesis using u by (subst find_in_page.simps) simp
  qed
next
  case (Cons it its)
  obtain s e d where it: "it = (s, e, d)" by (cases it)
  have st: "s \<noteq> ENTRY_FREE" "st_at env p i = s" "ent env p i = e" "items_at env p (i + 1 + item_cnt e) its"
    using Cons.prems(1) by (auto simp: it)
  have sz: "i + 1 + item_cnt e + items_size its = next_free env p" using Cons.prems(2) by (simp add: it)
  have i: "i < 126" using sz ok by (simp add: page_ok_def)
  then have u: "unat (of_nat i :: u8) = i" by (intro unat_small_u8) simp
  have rd: "entry_read rom env p (of_nat i) = Inr e"
    using entry_read_ent [OF ok reg, of "of_nat i"] u i st(3) by simp
  have skip: "entry_skip e (of_nat i) = of_nat (i + 1 + item_cnt e)"
    by (simp add: entry_skip_cnt algebra_simps)
  show ?case
    using i u st rd Cons.IH [OF st(4) sz]
    by (subst find_in_page.simps) (simp add: entry_state_get_state_at it skip del: of_nat_add of_nat_Suc)
qed

end

text \<open>
  The items of a list of pages, and the position of the first match in them.
\<close>

fun find_items :: "u8 \<Rightarrow> u8 list \<Rightarrow> u8 \<Rightarrow> (nat \<Rightarrow> item list) \<Rightarrow> nat list \<Rightarrow> (nat \<times> nat) option" where
  "find_items ns key ty I [] = None"
| "find_items ns key ty I (p # ps) =
     (case find_item ns key ty 0 (I p) of Some i \<Rightarrow> Some (p, i) | None \<Rightarrow> find_items ns key ty I ps)"

text \<open>
  The storage invariant for the items \<open>I\<close> of the used pages.
\<close>

definition page_live :: "nvds_env \<Rightarrow> (nat \<Rightarrow> item list) \<Rightarrow> nat \<Rightarrow> bool" where
  "page_live env I p \<longleftrightarrow> page_ok env p \<and> items_at env p 0 (I p) \<and> items_size (I p) = next_free env p \<and>
     (ph_state (pg_header (nv_page env p)) = PAGE_ACTIVE \<or> ph_state (pg_header (nv_page env p)) = PAGE_FULL)"

definition nv_inv :: "nvds_env \<Rightarrow> (nat \<Rightarrow> item list) \<Rightarrow> bool" where
  "nv_inv env I \<longleftrightarrow> nv_region env \<and> nv_used env \<noteq> [] \<and> distinct (nv_used env) \<and>
     (\<forall>p \<in> set (nv_used env). page_live env I p)"

context nor_flash
begin

lemma find_in_pages_items:
  assumes "nv_region env" and "\<forall>p \<in> set ps. page_live env I p"
  shows "find_in_pages rom env ns key ty ps 0 =
    Some (case find_items ns key ty I ps of None \<Rightarrow> Inl NVDS_E_NOT_FOUND | Some (p, i) \<Rightarrow> Inr (p, of_nat i))"
  using assms(2)
proof (induction ps)
  case (Cons p ps)
  then have l: "page_live env I p" by simp
  then have "find_in_page rom env ns key ty p (of_nat 0) = Some (Inr (map_option of_nat (find_item ns key ty 0 (I p))))"
    using assms(1) by (intro find_in_page_items) (auto simp: page_live_def)
  then show ?case
    using Cons l by (auto simp: page_live_def Let_def split: option.splits)
qed simp

lemma element_find_items:
  assumes "nv_inv env I"
  shows "element_find rom env ns key 0 None ty =
    Some (case find_items ns key ty I (nv_used env) of None \<Rightarrow> Inl NVDS_E_NOT_FOUND | Some (p, i) \<Rightarrow> Inr (p, of_nat i))"
  using assms find_in_pages_items by (simp add: element_find_def nv_inv_def)

end

text \<open>
  A found position is that of an item.
\<close>

lemma find_item_split:
  "find_item ns key ty i its = Some j \<Longrightarrow>
     \<exists>xs s e d ys. its = xs @ (s, e, d) # ys \<and> j = i + items_size xs \<and> element_match ns key ty s e \<and>
       (\<forall>(s', e', d') \<in> set xs. \<not> element_match ns key ty s' e')"
proof (induction its arbitrary: i)
  case (Cons it its)
  obtain s e d where it: "it = (s, e, d)" by (cases it)
  show ?case
  proof (cases "element_match ns key ty s e")
    case True
    then have "j = i" using Cons.prems by (simp add: it)
    with True show ?thesis by (intro exI [of _ "[]"]) (auto simp: it)
  next
    case False
    then have "find_item ns key ty (i + 1 + item_cnt e) its = Some j" using Cons.prems by (simp add: it)
    from Cons.IH [OF this] obtain xs s' e' d' ys where
      r: "its = xs @ (s', e', d') # ys" "j = i + 1 + item_cnt e + items_size xs" "element_match ns key ty s' e'"
      "\<forall>(s', e', d') \<in> set xs. \<not> element_match ns key ty s' e'" by blast
    show ?thesis
      by (rule exI [of _ "it # xs"], rule exI [of _ s'], rule exI [of _ e'], rule exI [of _ d'], rule exI [of _ ys])
        (use r False it in auto)
  qed
qed simp

lemma find_item_None: "find_item ns key ty i its = None \<longleftrightarrow> (\<forall>(s, e, d) \<in> set its. \<not> element_match ns key ty s e)"
  by (induction its arbitrary: i rule: items_size.induct) auto

lemma find_items_split:
  "find_items ns key ty I ps = Some (p, j) \<Longrightarrow>
     \<exists>qs rs. ps = qs @ p # rs \<and> find_item ns key ty 0 (I p) = Some j \<and>
       (\<forall>q \<in> set qs. find_item ns key ty 0 (I q) = None)"
proof (induction ps)
  case (Cons q ps)
  show ?case
  proof (cases "find_item ns key ty 0 (I q)")
    case None
    then have "find_items ns key ty I ps = Some (p, j)" using Cons.prems by simp
    from Cons.IH [OF this] obtain qs rs where "ps = qs @ p # rs" "find_item ns key ty 0 (I p) = Some j"
      "\<forall>q \<in> set qs. find_item ns key ty 0 (I q) = None" by blast
    then show ?thesis using None by (intro exI [of _ "q # qs"] exI [of _ rs]) auto
  next
    case (Some i)
    then show ?thesis using Cons.prems by (intro exI [of _ "[]"] exI [of _ ps]) auto
  qed
qed simp

end
