(* ===== verification/Nvds_Alter.thy ===== *)
theory Nvds_Alter
  imports Nvds_Layout
begin

text \<open>
  Changing entry states: the table in RAM and the table in the flash stay equal, because the
  states only lose bits, and nothing else of the image changes.
\<close>

definition altered :: "nvds_env \<Rightarrow> nat \<Rightarrow> nat set \<Rightarrow> u32 \<Rightarrow> nvds_env \<Rightarrow> bool" where
  "altered env p A s env' \<longleftrightarrow>
     (\<exists>m states. env' = set_page p (\<lambda>pg. pg\<lparr>pg_states := states\<rparr>) (env\<lparr>nv_dev := (nv_dev env)\<lparr>fd_mem := m\<rparr>\<rparr>) \<and>
        length states = 8 \<and> (\<forall>j < 128. state_at states j = (if j \<in> A then s else st_at env p j)) \<and>
        img_bytes env' (4096 * p + 32) 32 = states_bytes states \<and>
        (\<forall>a. a < 4096 * p + 32 \<or> 4096 * p + 64 \<le> a \<longrightarrow> nv_img env' a = nv_img env a))"

lemma alteredI:
  assumes "env' = set_page p (\<lambda>pg. pg\<lparr>pg_states := states\<rparr>) (env\<lparr>nv_dev := (nv_dev env)\<lparr>fd_mem := m\<rparr>\<rparr>)"
    and "length states = 8" and "\<And>j. j < 128 \<Longrightarrow> state_at states j = (if j \<in> A then s else st_at env p j)"
    and "img_bytes env' (4096 * p + 32) 32 = states_bytes states"
    and "\<And>a. a < 4096 * p + 32 \<or> 4096 * p + 64 \<le> a \<Longrightarrow> nv_img env' a = nv_img env a"
  shows "altered env p A s env'"
  unfolding altered_def
  by (rule exI [of _ m], rule exI [of _ states], intro conjI allI impI) (fact assms)+

lemma set_page_fields [heap_simps]:
  "nv_page (set_page p f env) = (nv_page env)(p := f (nv_page env p))"
  "nv_used (set_page p f env) = nv_used env" "nv_free (set_page p f env) = nv_free env"
  "nv_base (set_page p f env) = nv_base env" "nv_length (set_page p f env) = nv_length env"
  "nv_dev (set_page p f env) = nv_dev env" "nv_ns (set_page p f env) = nv_ns env"
  "nv_ns_states (set_page p f env) = nv_ns_states env"
  by (simp_all add: set_page_def)

lemma img_set_page [heap_simps]:
  "nv_img (set_page p f env) = nv_img env" "img_bytes (set_page p f env) a n = img_bytes env a n"
  "nv_region (set_page p f env) \<longleftrightarrow> nv_region env"
  by (auto simp: nv_img_def img_bytes_def nv_region_def heap_simps fun_eq_iff)

lemma altered_fields:
  assumes "altered env p A s env'"
  shows "nv_used env' = nv_used env" "nv_free env' = nv_free env" "nv_base env' = nv_base env"
    "nv_length env' = nv_length env" "nv_ns env' = nv_ns env" "nv_ns_states env' = nv_ns_states env"
    "nv_region env' \<longleftrightarrow> nv_region env" "q \<noteq> p \<Longrightarrow> nv_page env' q = nv_page env q"
    "pg_header (nv_page env' q) = pg_header (nv_page env q)" "pg_base (nv_page env' q) = pg_base (nv_page env q)"
    "pg_cnt_used (nv_page env' q) = pg_cnt_used (nv_page env q)"
    "pg_next_free (nv_page env' q) = pg_next_free (nv_page env q)"
    "length (pg_states (nv_page env' p)) = 8"
    "j < 128 \<Longrightarrow> st_at env' p j = (if j \<in> A then s else st_at env p j)"
    "img_bytes env' (4096 * p + 32) 32 = states_bytes (pg_states (nv_page env' p))"
    "a < 4096 * p + 32 \<or> 4096 * p + 64 \<le> a \<Longrightarrow> nv_img env' a = nv_img env a"
  using assms unfolding altered_def by (auto simp: heap_simps nv_region_def fmc_translate_def)

lemma altered_trans:
  assumes "altered env p A s env'" and "altered env' p B s env''"
  shows "altered env p (A \<union> B) s env''"
proof -
  obtain m states where 1: "env' = set_page p (\<lambda>pg. pg\<lparr>pg_states := states\<rparr>) (env\<lparr>nv_dev := (nv_dev env)\<lparr>fd_mem := m\<rparr>\<rparr>)"
    using assms(1) by (auto simp: altered_def)
  obtain m' states' where 2: "env'' = set_page p (\<lambda>pg. pg\<lparr>pg_states := states'\<rparr>) (env'\<lparr>nv_dev := (nv_dev env')\<lparr>fd_mem := m'\<rparr>\<rparr>)"
    and 3: "length states' = 8" "\<forall>j < 128. state_at states' j = (if j \<in> B then s else st_at env' p j)"
      "img_bytes env'' (4096 * p + 32) 32 = states_bytes states'"
      "\<forall>a. a < 4096 * p + 32 \<or> 4096 * p + 64 \<le> a \<longrightarrow> nv_img env'' a = nv_img env' a"
    using assms(2) by (auto simp: altered_def)
  have "env'' = set_page p (\<lambda>pg. pg\<lparr>pg_states := states'\<rparr>) (env\<lparr>nv_dev := (nv_dev env)\<lparr>fd_mem := m'\<rparr>\<rparr>)"
    unfolding 2 1 by (simp add: set_page_def)
  then show ?thesis
  proof (rule alteredI)
    show "state_at states' j = (if j \<in> A \<union> B then s else st_at env p j)" if "j < 128" for j
      using 3(2) altered_fields(14) [OF assms(1) that] that by simp
    show "nv_img env'' a = nv_img env a" if "a < 4096 * p + 32 \<or> 4096 * p + 64 \<le> a" for a
      using 3(4) altered_fields(16) [OF assms(1) that] that by metis
  qed (fact 3)+
qed

definition table_ok :: "nvds_env \<Rightarrow> nat \<Rightarrow> bool" where
  "table_ok env p \<longleftrightarrow> 4096 * (p + 1) \<le> unat (nv_length env) \<and>
     pg_base (nv_page env p) = of_nat (4096 * p) \<and> length (pg_states (nv_page env p)) = 8 \<and>
     img_bytes env (4096 * p + 32) 32 = states_bytes (pg_states (nv_page env p))"

lemma page_ok_table: "page_ok env p \<Longrightarrow> table_ok env p"
  by (simp add: page_ok_def table_ok_def)

lemma altered_table: "table_ok env p \<Longrightarrow> altered env p A s env' \<Longrightarrow> table_ok env' p"
  using altered_fields [of env p A s env'] by (simp add: table_ok_def)

context nor_flash
begin

lemma entry_state_alter_ok:
  assumes t: "table_ok env p" and reg: "nv_region env" and idx: "unat idx < 126"
    and s: "s = ENTRY_USED \<or> s = ENTRY_UPDATED" and bits: "s AND st_at env p (unat idx) = s"
  obtains env' where "entry_state_alter rom env p idx s = (NVDS_OK, env')" and "altered env p {unat idx} s env'"
proof -
  let ?pg = "nv_page env p"
  have l: "length (pg_states ?pg) = 8" using t by (simp add: table_ok_def)
  obtain states where st: "entry_state_set (pg_states ?pg) idx s = Inr states" "length states = 8"
    "\<And>j. j < 128 \<Longrightarrow> state_at states j = (if j = unat idx then s else st_at env p j)"
    using entry_state_set_ok [OF idx _ l, of s] s by blast
  have cl: "clears (states_bytes (pg_states ?pg)) (states_bytes states)"
    by (rule entry_state_set_clears [OF idx st(1) l bits])
  define env1 where "env1 = set_page p (\<lambda>pg. pg\<lparr>pg_states := states\<rparr>) env"
  have p: "4096 * (p + 1) \<le> unat (nv_length env)" "unat (nv_length env) \<le> flash_end"
    using t reg by (auto simp: table_ok_def nv_region_def)
  have b: "unat (pg_base ?pg + 32) = 4096 * p + 32"
    using t p unat_of_nat_small [of "4096 * p", where 'a = 32] by (simp add: table_ok_def unat_word_ariths)
  have "img_bytes env1 (4096 * p + 32) 32 = states_bytes (pg_states ?pg)"
    using t by (simp add: env1_def heap_simps table_ok_def)
  then obtain env' where w: "nvds_flash_write rom env1 (pg_base ?pg + 32) 32 (states_bytes states) = (NVDS_OK, env')"
    "same_but_mem env' env1" "nv_img env' = img_put (4096 * p + 32) (states_bytes states) (nv_img env1)"
    using nv_write [of env1 32 "pg_base ?pg + 32" "states_bytes states"] cl reg p st(2)
    by (auto simp: b env1_def heap_simps)
  have ns: "s \<noteq> ENTRY_ILLEGAL" "\<not> s \<ge> ENTRY_ERROR" using s by (auto simp: entry_states)
  have "entry_state_alter rom env p idx s = (NVDS_OK, env')"
    using w(1) st(1) idx ns
    by (simp add: entry_state_alter_def Let_def entry_states_table_write_def env1_def heap_simps)
  moreover have "altered env p {unat idx} s env'"
  proof -
    obtain m where "env' = env1\<lparr>nv_dev := (nv_dev env1)\<lparr>fd_mem := m\<rparr>\<rparr>"
      using w(2) by (auto simp: same_but_mem_def)
    then have "env' = set_page p (\<lambda>pg. pg\<lparr>pg_states := states\<rparr>) (env\<lparr>nv_dev := (nv_dev env)\<lparr>fd_mem := m\<rparr>\<rparr>)"
      by (simp add: env1_def set_page_def)
    moreover have "img_bytes env' (4096 * p + 32) 32 = states_bytes states"
      using img_bytes_put_same [OF w(3)] st(2) by simp
    moreover have "nv_img env' a = nv_img env a" if "a < 4096 * p + 32 \<or> 4096 * p + 64 \<le> a" for a
      using w(3) that st(2) by (auto simp: img_put_def env1_def heap_simps)
    ultimately show ?thesis using st(2,3) by (intro alteredI) auto
  qed
  ultimately show thesis by (rule that)
qed

lemma range_alter_ok:
  assumes "table_ok env p" and "nv_region env" and "i + Suc n \<le> 126"
    and s: "s = ENTRY_USED \<or> s = ENTRY_UPDATED" and "\<And>j. i \<le> j \<Longrightarrow> j \<le> i + n \<Longrightarrow> s AND st_at env p j = s"
  shows "\<exists>env'. range_alter_loop rom p s (Suc n) (of_nat i) env = (NVDS_OK, env') \<and> altered env p {i..i + n} s env'"
  using assms
proof (induction n arbitrary: i env)
  case (0 i env)
  have u: "unat (of_nat i :: u8) = i" using 0 by (intro unat_small_u8) simp
  obtain env' where "entry_state_alter rom env p (of_nat i) s = (NVDS_OK, env')" "altered env p {i} s env'"
    using entry_state_alter_ok [of env p "of_nat i" s, unfolded u] 0 by auto
  then show ?case by simp
next
  case (Suc n i env)
  have u: "unat (of_nat i :: u8) = i" using Suc.prems by (intro unat_small_u8) simp
  obtain env1 where a: "entry_state_alter rom env p (of_nat i) s = (NVDS_OK, env1)" "altered env p {i} s env1"
    using entry_state_alter_ok [of env p "of_nat i" s, unfolded u] Suc.prems by auto
  have "\<exists>env'. range_alter_loop rom p s (Suc n) (of_nat (Suc i)) env1 = (NVDS_OK, env') \<and>
      altered env1 p {Suc i..Suc i + n} s env'"
  proof (rule Suc.IH)
    show "s AND st_at env1 p j = s" if "Suc i \<le> j" "j \<le> Suc i + n" for j
      using Suc.prems(5) [of j] altered_fields(14) [OF a(2), of j] Suc.prems(3) that by auto
  qed (use Suc.prems altered_table [OF _ a(2)] altered_fields(7) [OF a(2)] in auto)
  then obtain env' where r: "range_alter_loop rom p s (Suc n) (of_nat (Suc i)) env1 = (NVDS_OK, env')"
    "altered env1 p {Suc i..Suc i + n} s env'" by blast
  have "{i} \<union> {Suc i..Suc i + n} = {i..i + Suc n}" by auto
  then have "altered env p {i..i + Suc n} s env'" using altered_trans [OF a(2) r(2)] by simp
  moreover have "of_nat i + (1 :: u8) = of_nat (Suc i)" by simp
  ultimately show ?case using a(1) r(1) by (subst range_alter_loop.simps) (simp del: of_nat_Suc range_alter_loop.simps)
qed

lemma entry_state_range_alter_ok:
  assumes "table_ok env p" and "nv_region env" and "i + n < 126"
    and s: "s = ENTRY_USED \<or> s = ENTRY_UPDATED" and "\<And>j. i \<le> j \<Longrightarrow> j \<le> i + n \<Longrightarrow> s AND st_at env p j = s"
  obtains env' where "entry_state_range_alter rom env p (of_nat i) (of_nat (i + n)) s = (NVDS_OK, env')"
    and "altered env p {i..i + n} s env'"
proof -
  have u: "unat (of_nat i :: u8) = i" "unat (of_nat (i + n) :: u8) = i + n"
    using assms(3) by (intro unat_small_u8; simp)+
  have "\<exists>env'. range_alter_loop rom p s (Suc n) (of_nat i) env = (NVDS_OK, env') \<and> altered env p {i..i + n} s env'"
    using assms by (intro range_alter_ok) auto
  then obtain env' where r: "range_alter_loop rom p s (Suc n) (of_nat i) env = (NVDS_OK, env')"
    and a: "altered env p {i..i + n} s env'" by blast
  have "entry_state_range_alter rom env p (of_nat i) (of_nat (i + n)) s = (NVDS_OK, env')"
    unfolding entry_state_range_alter_def word_less_nat_alt u
    using assms(3) r by (simp del: range_alter_loop.simps of_nat_add)
  then show thesis using a by (rule that)
qed

end

text \<open>
  Changing the states of one item changes the item and no other.
\<close>

lemma entry_not_table:
  fixes p q o :: nat
  assumes "64 \<le> k" and "k < 4096"
  shows "4096 * q + k < 4096 * p + 32 \<or> 4096 * p + 64 \<le> 4096 * q + k"
proof (cases "q < p")
  case True
  then have "q + 1 \<le> p" by simp
  then have "4096 * (q + 1) \<le> 4096 * p" by (rule mult_le_mono2)
  then show ?thesis using assms by simp
next
  case False
  then have "4096 * p \<le> 4096 * q" by simp
  then show ?thesis using assms by simp
qed

lemma altered_bytes:
  assumes "altered env p A s env'" and "64 \<le> k" and "k + n \<le> 4096"
  shows "img_bytes env' (4096 * q + k) n = img_bytes env (4096 * q + k) n"
proof (rule img_bytes_cong)
  fix j assume "j < n"
  then show "nv_img env' (4096 * q + k + j) = nv_img env (4096 * q + k + j)"
    using entry_not_table [of "k + j" q p] assms(2,3) by (simp add: altered_fields(16) [OF assms(1)] add.assoc)
qed

lemma altered_ent: "altered env p A s env' \<Longrightarrow> i < 126 \<Longrightarrow> ent env' q i = ent env q i"
  using altered_bytes [of env p A s env' "64 + 32 * i" 32 q] by (simp add: ent_def add.assoc)

lemma altered_items:
  assumes "altered env p A s env'" and "i + items_size its \<le> 126"
    and "q = p \<Longrightarrow> A \<inter> {i..<i + items_size its} = {}"
  shows "items_at env' q i its \<longleftrightarrow> items_at env q i its"
  using assms(2,3)
proof (induction its arbitrary: i)
  case (Cons it its)
  obtain t e d where it: "it = (t, e, d)" by (cases it)
  have c: "i + 1 + item_cnt e + items_size its \<le> 126" using Cons.prems(1) by (simp add: it)
  have st: "st_at env' q (i + k) = st_at env q (i + k)" if "k \<le> item_cnt e" for k
  proof (cases "q = p")
    case True
    then have "i + k \<notin> A" using Cons.prems(2) that by (auto simp: it)
    then show ?thesis using True altered_fields(14) [OF assms(1), of "i + k"] c that by simp
  next
    case False
    then show ?thesis by (simp add: altered_fields(8) [OF assms(1)])
  qed
  have dat: "img_bytes env' (4096 * q + 64 + 32 * (i + 1)) (32 * item_cnt e)
      = img_bytes env (4096 * q + 64 + 32 * (i + 1)) (32 * item_cnt e)"
    using altered_bytes [OF assms(1), of "64 + 32 * (i + 1)" "32 * item_cnt e" q] c by (simp add: add.assoc)
  have "items_at env' q (i + 1 + item_cnt e) its \<longleftrightarrow> items_at env q (i + 1 + item_cnt e) its"
    using Cons.prems c by (intro Cons.IH) (auto simp: it)
  then show ?case
    using altered_ent [OF assms(1), of i q] c st dat by (auto simp: it)
qed simp

end
