(* ===== verification/Nvds_Store.thy ===== *)
theory Nvds_Store
  imports Nvds_Alter
begin

text \<open>
  The storage as a finite map: the value of a key is that of the one used element with the
  key. Reading returns it, deleting removes it, and writing an element to a page with room
  replaces it and leaves every other key alone.
\<close>

section \<open>Items and values\<close>

abbreviation item_type :: "entry_info \<Rightarrow> u8" where
  "item_type e \<equiv> tag_element_type_get (entry_tag e)"

definition matches :: "u8 \<Rightarrow> u8 list \<Rightarrow> item \<Rightarrow> bool" where
  "matches ns key it \<longleftrightarrow> (case it of (s, e, d) \<Rightarrow> element_match ns key ELEMENT_ANY s e)"

definition plain :: "item \<Rightarrow> bool" where
  "plain it \<longleftrightarrow> (case it of (s, e, d) \<Rightarrow> item_type e = ELEMENT_SMALL \<or> item_type e = ELEMENT_MIDDLE)"

definition item_value :: "item \<Rightarrow> u8 list" where
  "item_value it = (case it of (s, e, d) \<Rightarrow>
     take (unat (entry_length e)) (if item_type e = ELEMENT_SMALL then entry_value e else d))"

text \<open>
  What the code keeps of a plain element that is in use: a small one fits into the entry, the
  data of a middle one has the stored checksum.
\<close>

definition item_ok :: "item \<Rightarrow> bool" where
  "item_ok it \<longleftrightarrow> (case it of (s, e, d) \<Rightarrow>
     if item_type e = ELEMENT_SMALL then unat (entry_length e) \<le> 8
     else entry_datacrc32 e = element_data_crc32_calc (item_value it))"

definition all_items :: "(nat \<Rightarrow> item list) \<Rightarrow> nat list \<Rightarrow> item list" where
  "all_items I ps = concat (map I ps)"

definition nv_store :: "nvds_env \<Rightarrow> (nat \<Rightarrow> item list) \<Rightarrow> bool" where
  "nv_store env I \<longleftrightarrow> nv_inv env I \<and>
     (\<forall>ns key it. it \<in> set (all_items I (nv_used env)) \<and> matches ns key it \<and> plain it \<longrightarrow>
        item_ok it \<and> filter (matches ns key) (all_items I (nv_used env)) = [it])"

text \<open>
  The value of a key: \<open>None\<close> when no element has it.
\<close>

definition nv_item :: "nvds_env \<Rightarrow> (nat \<Rightarrow> item list) \<Rightarrow> u8 \<Rightarrow> u8 list \<Rightarrow> item option" where
  "nv_item env I ns key = find (matches ns key) (all_items I (nv_used env))"

definition nv_value :: "nvds_env \<Rightarrow> (nat \<Rightarrow> item list) \<Rightarrow> u8 \<Rightarrow> u8 list \<Rightarrow> u8 list option" where
  "nv_value env I ns key = map_option item_value (nv_item env I ns key)"

lemma find_None_ball: "find P xs = None \<longleftrightarrow> (\<forall>x \<in> set xs. \<not> P x)"
  by (induction xs) auto

lemma find_item_find:
  "find_item ns key ELEMENT_ANY i its = None \<longleftrightarrow> (\<forall>x \<in> set its. \<not> matches ns key x)"
  unfolding find_item_None by (rule ball_cong) (auto simp: matches_def)

lemma find_split_first:
  assumes "xs = us @ x # vs" and "P x" and "\<forall>u \<in> set us. \<not> P u"
  shows "find P xs = Some x"
  unfolding assms(1) using assms(2,3) by (induction us) auto

text \<open>
  The position that \<open>element_find\<close> returns is that of the item.
\<close>

lemma find_items_item:
  assumes "find_items ns key ELEMENT_ANY I ps = Some (p, j)"
  obtains qs rs xs it ys where "ps = qs @ p # rs" and "I p = xs @ it # ys" and "j = items_size xs"
    and "matches ns key it" and "\<forall>x \<in> set xs. \<not> matches ns key x"
    and "\<forall>q \<in> set qs. \<forall>x \<in> set (I q). \<not> matches ns key x" and "find (matches ns key) (all_items I ps) = Some it"
proof -
  from find_items_split [OF assms] obtain qs rs where 1: "ps = qs @ p # rs"
    "find_item ns key ELEMENT_ANY 0 (I p) = Some j" "\<forall>q \<in> set qs. find_item ns key ELEMENT_ANY 0 (I q) = None" by blast
  from find_item_split [OF 1(2)] obtain xs s e d ys where 2: "I p = xs @ (s, e, d) # ys" "j = items_size xs"
    "element_match ns key ELEMENT_ANY s e" "\<forall>(s', e', d') \<in> set xs. \<not> element_match ns key ELEMENT_ANY s' e'" by auto
  have 3: "\<forall>x \<in> set xs. \<not> matches ns key x" using 2(4) by (auto simp: matches_def)
  have 4: "\<forall>q \<in> set qs. \<forall>x \<in> set (I q). \<not> matches ns key x"
    using 1(3) unfolding find_item_find .
  have "all_items I ps = (all_items I qs @ xs) @ (s, e, d) # ys @ all_items I rs"
    by (simp add: all_items_def 1(1) 2(1))
  then have "find (matches ns key) (all_items I ps) = Some (s, e, d)"
    by (rule find_split_first) (use 2(3) 3 4 in \<open>auto simp: matches_def all_items_def\<close>)
  then show thesis using 1(1) 2 3 4 by (intro that [of qs rs xs "(s, e, d)" ys]) (auto simp: matches_def)
qed

lemma find_items_None:
  "find_items ns key ELEMENT_ANY I ps = None \<longleftrightarrow> find (matches ns key) (all_items I ps) = None"
  unfolding find_None_ball
proof (induction ps)
  case (Cons p ps)
  have "find_items ns key ELEMENT_ANY I (p # ps) = None \<longleftrightarrow>
      find_item ns key ELEMENT_ANY 0 (I p) = None \<and> find_items ns key ELEMENT_ANY I ps = None"
    by (simp split: option.split)
  then show ?case unfolding Cons.IH find_item_find by (auto simp: all_items_def)
qed (simp add: all_items_def)

lemma nv_item_None:
  "nv_item env I ns key = None \<longleftrightarrow> find_items ns key ELEMENT_ANY I (nv_used env) = None"
  by (simp add: nv_item_def find_items_None)

text \<open>
  Where the item of a key is.
\<close>

lemma nv_item_at:
  assumes "nv_item env I ns key = Some it"
  obtains p qs rs xs ys where "find_items ns key ELEMENT_ANY I (nv_used env) = Some (p, items_size xs)"
    and "nv_used env = qs @ p # rs" and "I p = xs @ it # ys" and "matches ns key it"
proof -
  have "find_items ns key ELEMENT_ANY I (nv_used env) \<noteq> None"
    using assms nv_item_None [of env I ns key] by simp
  then obtain p j where f: "find_items ns key ELEMENT_ANY I (nv_used env) = Some (p, j)" by auto
  from f show thesis
  proof (rule find_items_item)
    fix qs rs xs it' ys
    assume "nv_used env = qs @ p # rs" "I p = xs @ it' # ys" "j = items_size xs" "matches ns key it'"
      "find (matches ns key) (all_items I (nv_used env)) = Some it'"
    moreover from this assms have "it' = it" by (simp add: nv_item_def)
    ultimately show thesis using f by (intro that [of p xs qs rs ys]) auto
  qed
qed

section \<open>Reading\<close>

lemma mem_put_append:
  assumes "off + length xs + length ys \<le> length b"
  shows "mem_put (mem_put b off xs) (off + length xs) ys = mem_put b off (xs @ ys)"
  using assms by (simp add: mem_put_def min_absorb2 add.assoc) (simp add: add.commute add.left_commute)

lemma data_entries_step: "32 < r \<Longrightarrow> data_entries r = Suc (data_entries (r - 32))"
proof -
  assume "32 < r"
  then have "r + 31 = (r - 32 + 31) + 32" by simp
  then have "(r + 31) div 32 = (r - 32 + 31) div 32 + 1" by (metis div_add_self2 zero_neq_numeral)
  then show ?thesis by (simp add: data_entries_def add.commute)
qed

lemma data_entries_small: "0 < r \<Longrightarrow> r \<le> 32 \<Longrightarrow> data_entries r = 1" "data_entries 0 = 0"
  by (simp_all add: data_entries_def)

lemma data_entries_bound: "r \<le> 32 * data_entries r"
  unfolding data_entries_def nvds_consts by presburger

lemma data_entries_copy:
  assumes "data_entries r = Suc n"
  shows "data_entries (r - (if r < 32 then r else 32)) = n"
proof (cases "32 < r")
  case True
  then show ?thesis using assms data_entries_step [OF True] by simp
next
  case False
  moreover have "r \<noteq> 0" using assms data_entries_small(2) by (intro notI) simp
  ultimately have "data_entries r = 1" "r - (if r < 32 then r else 32) = 0" by (auto simp: data_entries_small)
  then show ?thesis using assms data_entries_small(2) by simp
qed

lemma img_ent_append: "img_bytes env (4096 * p + 64 + 32 * i) (32 * Suc n)
    = ent env p i @ img_bytes env (4096 * p + 64 + 32 * Suc i) (32 * n)"
  using img_bytes_append [of env "4096 * p + 64 + 32 * i" 32 "32 * n"] by (simp add: ent_def algebra_simps)

lemma length_ent [simp]: "length (ent env p i) = 32"
  by (simp add: ent_def)

context nor_flash
begin

lemma read_data_ok:
  assumes ok: "page_ok env p" and reg: "nv_region env"
  shows "i + data_entries r = e + 1 \<Longrightarrow> e < 126 \<Longrightarrow> dst + r \<le> length buf \<Longrightarrow>
    read_data rom env p (of_nat i) (of_nat e) r dst buf =
      Some (NVDS_OK, mem_put buf dst (take r (img_bytes env (4096 * p + 64 + 32 * i) (32 * data_entries r))))"
proof (induction "data_entries r" arbitrary: i r dst buf)
  case 0
  then have r: "r = 0" using data_entries_bound [of r] by simp
  have "unat (of_nat i :: u8) = i" "unat (of_nat e :: u8) = e"
    using 0 by (intro unat_small_u8; simp)+
  then have "\<not> (of_nat i :: u8) \<le> of_nat e" using 0 by (simp add: word_le_nat_alt)
  then show ?case using 0 r by (subst read_data.simps) (simp add: mem_simps)
next
  case (Suc n)
  have u: "unat (of_nat i :: u8) = i" "unat (of_nat e :: u8) = e"
    using Suc by (intro unat_small_u8; simp)+
  have le: "(of_nat i :: u8) \<le> of_nat e" "i < 126" using Suc u by (simp_all add: word_le_nat_alt)
  have rd: "entry_read rom env p (of_nat i) = Inr (ent env p i)"
    using entry_read_ent [OF ok reg, of "of_nat i"] u le(2) by simp
  define copy where "copy = (if r < 32 then r else 32)"
  have c: "copy \<le> r" "copy \<le> 32" by (simp_all add: copy_def)
  have n: "data_entries (r - copy) = n"
    unfolding copy_def by (rule data_entries_copy) (simp add: Suc.hyps(2))
  let ?b = "mem_put buf dst (take copy (ent env p i))"
  have lb: "length ?b = length buf" using Suc.prems c by (intro length_mem_put) auto
  have "read_data rom env p (of_nat (Suc i)) (of_nat e) (r - copy) (dst + copy) ?b =
      Some (NVDS_OK, mem_put ?b (dst + copy) (take (r - copy) (img_bytes env (4096 * p + 64 + 32 * Suc i) (32 * n))))"
    using Suc.hyps(1) [of "r - copy" "Suc i" "dst + copy" ?b] Suc.prems Suc.hyps(2) n c lb by simp
  moreover have "mem_put ?b (dst + copy) (take (r - copy) (img_bytes env (4096 * p + 64 + 32 * Suc i) (32 * n)))
      = mem_put buf dst (take r (img_bytes env (4096 * p + 64 + 32 * i) (32 * Suc n)))"
  proof -
    have tk: "take r (ent env p i @ x) = take copy (ent env p i) @ take (r - copy) x" for x
      using c by (simp add: copy_def)
    have "length (take copy (ent env p i)) = copy" using c by simp
    then show ?thesis
      unfolding img_ent_append tk
      using mem_put_append [of dst "take copy (ent env p i)" "take (r - copy) (img_bytes env (4096 * p + 64 + 32 * Suc i) (32 * n))" buf]
        Suc.prems(3) c by simp
  qed
  moreover have "read_data rom env p (of_nat i) (of_nat e) r dst buf
      = read_data rom env p (of_nat (Suc i)) (of_nat e) (r - copy) (dst + copy) ?b"
    using le(1) rd by (subst read_data.simps) (simp add: copy_def Let_def add.commute)
  ultimately show ?case unfolding Suc.hyps(2) [symmetric] by simp
qed

lemma compare_data_ok:
  assumes ok: "page_ok env p" and reg: "nv_region env"
  shows "i + data_entries r = e + 1 \<Longrightarrow> e < 126 \<Longrightarrow> r \<le> length buf \<Longrightarrow>
    compare_data rom env p (of_nat i) (of_nat e) r buf =
      Some (take r buf = take r (img_bytes env (4096 * p + 64 + 32 * i) (32 * data_entries r)))"
proof (induction "data_entries r" arbitrary: i r buf)
  case 0
  then have r: "r = 0" using data_entries_bound [of r] by simp
  have "unat (of_nat i :: u8) = i" "unat (of_nat e :: u8) = e"
    using 0 by (intro unat_small_u8; simp)+
  then have "\<not> (of_nat i :: u8) \<le> of_nat e" using 0 by (simp add: word_le_nat_alt)
  then show ?case using r by (subst compare_data.simps) simp
next
  case (Suc n)
  have u: "unat (of_nat i :: u8) = i" "unat (of_nat e :: u8) = e"
    using Suc by (intro unat_small_u8; simp)+
  have le: "(of_nat i :: u8) \<le> of_nat e" "i < 126" using Suc u by (simp_all add: word_le_nat_alt)
  have rd: "entry_read rom env p (of_nat i) = Inr (ent env p i)"
    using entry_read_ent [OF ok reg, of "of_nat i"] u le(2) by simp
  define copy where "copy = (if r < 32 then r else 32)"
  have c: "copy \<le> r" "copy \<le> 32" by (simp_all add: copy_def)
  have n: "data_entries (r - copy) = n"
    unfolding copy_def by (rule data_entries_copy) (simp add: Suc.hyps(2))
  have rest: "compare_data rom env p (of_nat (Suc i)) (of_nat e) (r - copy) (drop copy buf) =
      Some (take (r - copy) (drop copy buf) = take (r - copy) (img_bytes env (4096 * p + 64 + 32 * Suc i) (32 * n)))"
    using Suc.hyps(1) [of "r - copy" "Suc i" "drop copy buf"] Suc.prems Suc.hyps(2) n c by simp
  have "take r buf = take copy buf @ take (r - copy) (drop copy buf)"
    using c by (metis le_add_diff_inverse take_add)
  moreover have "take r (ent env p i @ x) = take copy (ent env p i) @ take (r - copy) x" for x
    using c by (simp add: copy_def)
  moreover have "length (take copy buf) = length (take copy (ent env p i))" using c Suc.prems(3) by simp
  ultimately have "(take r buf = take r (img_bytes env (4096 * p + 64 + 32 * i) (32 * Suc n))) \<longleftrightarrow>
      take copy buf = take copy (ent env p i) \<and>
      take (r - copy) (drop copy buf) = take (r - copy) (img_bytes env (4096 * p + 64 + 32 * Suc i) (32 * n))"
    unfolding img_ent_append by simp
  moreover have "compare_data rom env p (of_nat i) (of_nat e) r buf =
      (if take copy buf \<noteq> take copy (ent env p i) then Some False
       else compare_data rom env p (of_nat (Suc i)) (of_nat e) (r - copy) (drop copy buf))"
    using le(1) rd by (subst compare_data.simps) (simp add: copy_def Let_def add.commute)
  ultimately show ?case unfolding Suc.hyps(2) [symmetric] rest by simp
qed

text \<open>
  The item of a key, found by the code.
\<close>

lemma item_found:
  assumes inv: "nv_inv env I" and it: "nv_item env I ns key = Some (s, e, d)"
  obtains p xs ys where "element_find rom env ns key 0 None ELEMENT_ANY = Some (Inr (p, of_nat (items_size xs)))"
    and "entry_read rom env p (of_nat (items_size xs)) = Inr e" and "page_live env I p" and "p \<in> set (nv_used env)"
    and "I p = xs @ (s, e, d) # ys" and "items_size xs + item_cnt e < 126" and "s = ENTRY_USED"
    and "d = img_bytes env (4096 * p + 64 + 32 * (items_size xs + 1)) (32 * item_cnt e)"
proof -
  from it show thesis
  proof (rule nv_item_at)
    fix p qs rs xs ys
    assume f: "find_items ns key ELEMENT_ANY I (nv_used env) = Some (p, items_size xs)"
      and u: "nv_used env = qs @ p # rs" and I: "I p = xs @ (s, e, d) # ys" and m: "matches ns key (s, e, d)"
    have live: "page_live env I p" using inv u by (simp add: nv_inv_def)
    then have ok: "page_ok env p" and sz: "items_size (I p) = next_free env p" and at: "items_at env p 0 (I p)"
      by (auto simp: page_live_def)
    have "items_at env p (items_size xs) ((s, e, d) # ys)" using at items_at_append [of env p 0 xs] by (simp add: I)
    then have d: "ent env p (items_size xs) = e"
      "d = img_bytes env (4096 * p + 64 + 32 * (items_size xs + 1)) (32 * item_cnt e)" by auto
    have b: "items_size xs + item_cnt e < 126" using sz ok by (simp add: I page_ok_def)
    have "entry_read rom env p (of_nat (items_size xs)) = Inr e"
      using entry_read_ent [OF ok, of "of_nat (items_size xs)"] inv b d(1)
      by (simp add: unat_small_u8 nv_inv_def)
    moreover have "element_find rom env ns key 0 None ELEMENT_ANY = Some (Inr (p, of_nat (items_size xs)))"
      using element_find_items [OF inv] f by simp
    moreover have "s = ENTRY_USED" using m by (simp add: matches_def element_match_def)
    ultimately show thesis using live u I b d(2) by (intro that [of p xs ys]) auto
  qed
qed

lemma item_absent:
  assumes "nv_inv env I" and "nv_item env I ns key = None"
  shows "element_find rom env ns key 0 None ELEMENT_ANY = Some (Inl NVDS_E_NOT_FOUND)"
  using element_find_items [OF assms(1)] assms(2) by (simp add: nv_item_None)

lemma plain_cnt:
  "item_type e = ELEMENT_SMALL \<Longrightarrow> item_cnt e = 0"
  "item_type e = ELEMENT_MIDDLE \<Longrightarrow> item_cnt e = data_entries (unat (entry_length e))"
  by (simp_all add: item_cnt_def has_data_def element_types)

lemma data_element_get_absent:
  assumes "nv_inv env I" and "nv_item env I ns key = None"
  shows "data_element_get rom env ns key buf n = Some (NVDS_E_NOT_FOUND, n, buf)"
  using item_absent [OF assms] by (simp add: data_element_get_def)

lemma data_element_get_size:
  assumes inv: "nv_inv env I" and it: "nv_item env I ns key = Some (s, e, d)" and pl: "plain (s, e, d)"
  shows "data_element_get rom env ns key None n = Some (NVDS_OK, ucast (entry_length e), None)"
proof -
  obtain p xs ys where f: "element_find rom env ns key 0 None ELEMENT_ANY = Some (Inr (p, of_nat (items_size xs)))"
    and r: "entry_read rom env p (of_nat (items_size xs)) = Inr e"
    using item_found [OF inv it] .
  have "\<not> (item_type e = ELEMENT_BULK \<or> item_type e = ELEMENT_BULKINFO)"
    using pl by (auto simp: plain_def element_types)
  with f r show ?thesis by (simp add: data_element_get_def Let_def)
qed

lemma data_element_get_value:
  assumes inv: "nv_inv env I" and it: "nv_item env I ns key = Some (s, e, d)" and pl: "plain (s, e, d)"
    and ok: "item_ok (s, e, d)" and fit: "ucast (entry_length e) \<le> n" "unat n \<le> length buf"
  shows "data_element_get rom env ns key (Some buf) n =
    Some (NVDS_OK, ucast (entry_length e), Some (mem_put buf 0 (item_value (s, e, d))))"
proof -
  obtain p xs ys where f: "element_find rom env ns key 0 None ELEMENT_ANY = Some (Inr (p, of_nat (items_size xs)))"
    and r: "entry_read rom env p (of_nat (items_size xs)) = Inr e" and live: "page_live env I p"
    and b: "items_size xs + item_cnt e < 126"
    and d: "d = img_bytes env (4096 * p + 64 + 32 * (items_size xs + 1)) (32 * item_cnt e)"
    using item_found [OF inv it] .
  have nb: "\<not> (item_type e = ELEMENT_BULK \<or> item_type e = ELEMENT_BULKINFO)"
    using pl by (auto simp: plain_def element_types)
  have nlt: "\<not> n < ucast (entry_length e)" using fit(1) by simp
  have len: "unat (entry_length e) \<le> length buf"
  proof -
    have "unat (ucast (entry_length e) :: u32) = unat (entry_length e)"
      using unat_bound [of "entry_length e"] by (simp add: unsigned_ucast_eq take_bit_nat_eq_self)
    then show ?thesis using fit by (simp add: word_le_nat_alt)
  qed
  show ?thesis
  proof (cases "item_type e = ELEMENT_SMALL")
    case True
    then show ?thesis using f r nb nlt by (simp add: data_element_get_def Let_def item_value_def)
  next
    case False
    then have mid: "item_type e = ELEMENT_MIDDLE" using pl by (simp add: plain_def)
    let ?l = "unat (entry_length e)" and ?i = "items_size xs"
    have rd: "read_data rom env p (of_nat ?i + 1) (of_nat ?i + of_nat (data_entries ?l)) ?l 0 buf
        = Some (NVDS_OK, mem_put buf 0 (take ?l d))"
      using read_data_ok [of env p "Suc ?i" ?l "?i + data_entries ?l" 0 buf] live inv b len d
      by (simp add: page_live_def nv_inv_def plain_cnt(2) [OF mid] add.commute)
    have "length d = 32 * item_cnt e" by (simp add: d)
    then have ll: "length (take ?l d) = ?l"
      using data_entries_bound [of ?l] by (simp add: plain_cnt(2) [OF mid])
    have "mem_get (mem_put buf 0 (take ?l d)) 0 ?l = take ?l d"
      using mem_get_put_same [of 0 "take ?l d" buf] ll len by simp
    moreover have "entry_datacrc32 e = element_data_crc32_calc (take ?l d)"
      using ok False by (simp add: item_ok_def item_value_def)
    ultimately show ?thesis
      using f r nb nlt False mid rd by (simp add: data_element_get_def Let_def item_value_def)
  qed
qed

lemma element_compare_absent:
  assumes "nv_inv env I" and "nv_item env I ns key = None"
  shows "element_compare rom env ns key buf n = Some False"
  using data_element_get_absent [OF assms] by (simp add: element_compare_def)

lemma element_compare_plain:
  assumes inv: "nv_inv env I" and it: "nv_item env I ns key = Some (s, e, d)" and pl: "plain (s, e, d)"
    and n: "n = of_nat (length buf)" "length buf < 2 ^ 32"
  shows "element_compare rom env ns key buf n = Some (unat (entry_length e) = length buf \<and> buf = item_value (s, e, d))"
proof (cases "ucast (entry_length e) = n")
  case True
  let ?l = "unat (entry_length e)"
  have u: "unat (ucast (entry_length e) :: u32) = ?l"
    using unat_bound [of "entry_length e"] by (simp add: unsigned_ucast_eq take_bit_nat_eq_self)
  have l: "?l = length buf" using True u n unat_of_nat_small [of "length buf", where 'a = 32] by simp
  obtain p xs ys where f: "element_find rom env ns key 0 None ELEMENT_ANY = Some (Inr (p, of_nat (items_size xs)))"
    and r: "entry_read rom env p (of_nat (items_size xs)) = Inr e" and live: "page_live env I p"
    and b: "items_size xs + item_cnt e < 126"
    and d: "d = img_bytes env (4096 * p + 64 + 32 * (items_size xs + 1)) (32 * item_cnt e)"
    using item_found [OF inv it] .
  note get = data_element_get_size [OF inv it pl]
  show ?thesis
  proof (cases "item_type e = ELEMENT_SMALL")
    case small: True
    then show ?thesis
      using f r get True l by (simp add: element_compare_def Let_def item_value_def)
  next
    case False
    then have mid: "item_type e = ELEMENT_MIDDLE" using pl by (simp add: plain_def)
    let ?i = "items_size xs"
    have "compare_data rom env p (of_nat ?i + 1) (of_nat ?i + of_nat (data_entries ?l)) ?l buf
        = Some (take ?l buf = take ?l d)"
      using compare_data_ok [of env p "Suc ?i" ?l "?i + data_entries ?l" buf] live inv b l d
      by (simp add: page_live_def nv_inv_def plain_cnt(2) [OF mid] add.commute)
    then show ?thesis
      using f r get True l False mid by (simp add: element_compare_def Let_def item_value_def)
  qed
next
  case False
  have "unat (entry_length e) \<noteq> length buf"
  proof
    assume "unat (entry_length e) = length buf"
    then have "(of_nat (unat (entry_length e)) :: u32) = n" using n by simp
    moreover have "(of_nat (unat (entry_length e)) :: u32) = ucast (entry_length e)" by simp
    ultimately show False using False by simp
  qed
  then show ?thesis
    using False data_element_get_size [OF inv it pl] by (simp add: element_compare_def)
qed

end

end
