(* ===== verification/Nvds_Update.thy ===== *)
theory Nvds_Update
  imports Nvds_Store
begin

text \<open>
  Deleting and writing plain elements: the invariant is kept, the value of the key changes as
  intended, and the values of all other keys stay.
\<close>

section \<open>Frame lemmas\<close>

lemma items_at_cong:
  assumes "\<And>j. i \<le> j \<Longrightarrow> j < i + items_size its \<Longrightarrow> st_at env' q j = st_at env q j"
    and "\<And>k. 64 + 32 * i \<le> k \<Longrightarrow> k < 64 + 32 * (i + items_size its) \<Longrightarrow> nv_img env' (4096 * q + k) = nv_img env (4096 * q + k)"
  shows "items_at env' q i its \<longleftrightarrow> items_at env q i its"
  using assms
proof (induction its arbitrary: i)
  case (Cons it its)
  obtain t e d where it: "it = (t, e, d)" by (cases it)
  have bytes: "img_bytes env' (4096 * q + k) n = img_bytes env (4096 * q + k) n"
    if "64 + 32 * i \<le> k" "k + n \<le> 64 + 32 * (i + 1 + item_cnt e)" for k n
    using Cons.prems(2) that by (intro img_bytes_cong) (auto simp: it add.assoc)
  have "ent env' q i = ent env q i"
    using bytes [of "64 + 32 * i" 32] by (simp add: ent_def add.assoc)
  moreover have "img_bytes env' (4096 * q + 64 + 32 * (i + 1)) (32 * item_cnt e)
      = img_bytes env (4096 * q + 64 + 32 * (i + 1)) (32 * item_cnt e)"
    using bytes [of "64 + 32 * (i + 1)" "32 * item_cnt e"] by (simp add: add.assoc)
  moreover have "items_at env' q (i + 1 + item_cnt e) its \<longleftrightarrow> items_at env q (i + 1 + item_cnt e) its"
    using Cons.prems by (intro Cons.IH) (auto simp: it)
  moreover have "st_at env' q (i + k) = st_at env q (i + k)" if "k \<le> item_cnt e" for k
    using Cons.prems(1) that by (auto simp: it)
  ultimately show ?case by (auto simp: it)
qed simp

text \<open>
  A page in which neither the RAM image nor the flash changes.
\<close>

lemma page_live_cong:
  assumes "page_live env I q" and "nv_length env' = nv_length env"
    and "pg_states (nv_page env' q) = pg_states (nv_page env q)" and "pg_base (nv_page env' q) = pg_base (nv_page env q)"
    and "pg_next_free (nv_page env' q) = pg_next_free (nv_page env q)"
    and "pg_header (nv_page env' q) = pg_header (nv_page env q)"
    and same: "\<And>k. k < 4096 \<Longrightarrow> nv_img env' (4096 * q + k) = nv_img env (4096 * q + k)" and "I' q = I q"
  shows "page_live env' I' q"
proof -
  have nf: "next_free env q \<le> 126" "items_size (I q) = next_free env q"
    using assms(1) by (auto simp: page_live_def page_ok_def)
  have bytes: "img_bytes env' (4096 * q + k) n = img_bytes env (4096 * q + k) n" if "k + n \<le> 4096" for k n
    using same that by (intro img_bytes_cong) (auto simp: add.assoc)
  have "ent env' q i = ent env q i" if "i < 126" for i
    using bytes [of "64 + 32 * i" 32] that by (simp add: ent_def add.assoc)
  then have "page_ok env' q"
    using assms(1-5) bytes [of 32 32] by (auto simp: page_live_def page_ok_def)
  moreover have "items_at env' q 0 (I q) \<longleftrightarrow> items_at env q 0 (I q)"
    using assms(3) same nf by (intro items_at_cong) auto
  ultimately show ?thesis using assms by (simp add: page_live_def)
qed

lemma other_page:
  fixes p q k :: nat
  assumes "q \<noteq> p" and "k < 4096"
  shows "4096 * q + k < 4096 * p \<or> 4096 * (p + 1) \<le> 4096 * q + k"
  using assms by (cases "q < p") simp_all

text \<open>
  After a change of the states of one item the storage has the item with the new state.
\<close>

lemma altered_ok:
  assumes ok: "page_ok env p" and a: "altered env p A t env'" and A: "A \<subseteq> {..<next_free env p}"
  shows "page_ok env' p"
proof -
  have "st_at env' p i = ENTRY_FREE \<and> ent env' p i = replicate 32 0xFF" if "next_free env p \<le> i" "i < 126" for i
  proof -
    have "i \<notin> A" using A that by auto
    then show ?thesis
      using ok that altered_fields(14) [OF a, of i] altered_ent [OF a, of i p] by (auto simp: page_ok_def)
  qed
  then show ?thesis
    using ok altered_fields [OF a] by (simp add: page_ok_def)
qed

lemma altered_inv:
  assumes inv: "nv_inv env I" and p: "p \<in> set (nv_used env)" and I: "I p = xs @ (s, e, d) # ys"
    and a: "altered env p {items_size xs..items_size xs + item_cnt e} t env'" and t: "t \<noteq> ENTRY_FREE"
  shows "nv_inv env' (I(p := xs @ (t, e, d) # ys))"
proof -
  let ?I = "I(p := xs @ (t, e, d) # ys)" and ?j = "items_size xs"
  have live: "page_live env I q" if "q \<in> set (nv_used env)" for q using inv that by (simp add: nv_inv_def)
  have sz: "?j + 1 + item_cnt e + items_size ys = next_free env p" and at: "items_at env p 0 (I p)"
    and ok: "page_ok env p" using live [OF p] by (auto simp: page_live_def I)
  have b: "next_free env p \<le> 126" using ok by (simp add: page_ok_def)
  have ok': "page_ok env' p" using sz by (intro altered_ok [OF ok a]) auto
  have at': "items_at env p 0 xs" "items_at env p ?j ((s, e, d) # ys)"
    using at items_at_append [of env p 0 xs "(s, e, d) # ys"] by (simp_all add: I)
  have "items_at env' p 0 xs \<longleftrightarrow> items_at env p 0 xs" using sz b by (intro altered_items [OF a]) auto
  then have "items_at env' p 0 xs" using at'(1) by simp
  moreover have "items_at env' p (?j + 1 + item_cnt e) ys \<longleftrightarrow> items_at env p (?j + 1 + item_cnt e) ys"
    using sz b by (intro altered_items [OF a]) auto
  moreover have "ent env' p ?j = e" using at'(2) altered_ent [OF a, of ?j p] sz b by simp
  moreover have "img_bytes env' (4096 * p + 64 + 32 * (?j + 1)) (32 * item_cnt e) = d"
    using at'(2) altered_bytes [OF a, of "64 + 32 * (?j + 1)" "32 * item_cnt e" p] sz b by (simp add: add.assoc)
  moreover have "st_at env' p (?j + k) = t" if "k \<le> item_cnt e" for k
    using altered_fields(14) [OF a, of "?j + k"] that sz b by simp
  ultimately have items': "items_at env' p 0 (xs @ (t, e, d) # ys)"
    using t at'(2) by (simp add: items_at_append)
  have "page_live env' ?I p"
    using live [OF p] ok' items' sz altered_fields [OF a] by (simp add: page_live_def I)
  moreover have "page_live env' ?I q" if "q \<in> set (nv_used env)" "q \<noteq> p" for q
  proof (rule page_live_cong [OF live [OF that(1)]])
    show "nv_img env' (4096 * q + k) = nv_img env (4096 * q + k)" if "k < 4096" for k
      using other_page [OF \<open>q \<noteq> p\<close> that] by (intro altered_fields(16) [OF a]) auto
  qed (use altered_fields [OF a] that in auto)
  ultimately show ?thesis using inv altered_fields(1,7) [OF a] by (auto simp: nv_inv_def)
qed

text \<open>
  Counters and namespaces do not matter for the invariant.
\<close>

lemma nv_inv_used_minus [simp]: "nv_inv (used_minus p n env) I \<longleftrightarrow> nv_inv env I"
proof -
  have "page_live (used_minus p n env) I q \<longleftrightarrow> page_live env I q" for q
    by (rule iffI; erule page_live_cong) (simp_all add: used_minus_def heap_simps)
  then show ?thesis by (simp add: nv_inv_def used_minus_def heap_simps)
qed

lemma nv_inv_ns [simp]: "nv_inv (env\<lparr>nv_ns := l\<rparr>) I \<longleftrightarrow> nv_inv env I"
proof -
  have "page_live (env\<lparr>nv_ns := l\<rparr>) I q \<longleftrightarrow> page_live env I q" for q
    by (rule iffI; erule page_live_cong) (simp_all add: nv_img_def)
  then show ?thesis by (simp add: nv_inv_def nv_region_def)
qed

section \<open>Deleting\<close>

lemma all_items_upd:
  assumes "distinct ps" and "p \<in> set ps" and "I p = xs @ it # ys"
  obtains us vs where "all_items I ps = us @ it # vs"
    and "\<And>it'. all_items (I(p := xs @ it' # ys)) ps = us @ it' # vs"
proof -
  obtain qs rs where ps: "ps = qs @ p # rs" using assms(2) by (auto dest: split_list)
  then have "p \<notin> set qs" "p \<notin> set rs" using assms(1) by auto
  then have m: "map (I(p := x)) qs = map I qs" "map (I(p := x)) rs = map I rs" for x by auto
  have u: "all_items (I(p := x)) ps = all_items I qs @ x @ all_items I rs" for x
    unfolding ps all_items_def map_append list.map m by simp
  have "all_items I ps = all_items I qs @ I p @ all_items I rs" by (simp add: ps all_items_def)
  then show thesis using u
    by (intro that [of "all_items I qs @ xs" "ys @ all_items I rs"]) (simp_all add: assms(3))
qed

lemma matches_determines: "matches ns key it \<Longrightarrow> matches ns' key' it \<longleftrightarrow> ns' = ns \<and> key' = key"
  by (auto simp: matches_def element_match_def split: prod.splits)

lemma matches_retired [simp]: "\<not> matches ns key (ENTRY_UPDATED, e, d)"
  by (simp add: matches_def element_match_def entry_states)

lemma find_filter: "find P xs = (case filter P xs of [] \<Rightarrow> None | x # _ \<Rightarrow> Some x)"
  by (induction xs) auto

lemma nv_item_filter: "nv_item env I ns key = (case filter (matches ns key) (all_items I (nv_used env)) of [] \<Rightarrow> None | it # _ \<Rightarrow> Some it)"
  by (simp add: nv_item_def find_filter)

text \<open>
  The condition on the items that \<open>nv_store\<close> adds to \<open>nv_inv\<close>.
\<close>

definition items_good :: "item list \<Rightarrow> bool" where
  "items_good its \<longleftrightarrow> (\<forall>ns key it. it \<in> set its \<and> matches ns key it \<and> plain it \<longrightarrow>
     item_ok it \<and> filter (matches ns key) its = [it])"

lemma items_goodD:
  assumes "items_good its" and "it \<in> set its" and "matches ns key it" and "plain it"
  shows "item_ok it" "filter (matches ns key) its = [it]"
  using assms unfolding items_good_def by blast+

lemma nv_store_good: "nv_store env I \<longleftrightarrow> nv_inv env I \<and> items_good (all_items I (nv_used env))"
  by (simp add: nv_store_def items_good_def)

lemma items_good_retire:
  assumes good: "items_good (us @ it # vs)" and m: "matches ns key it" and pl: "plain it"
  shows "items_good (us @ (ENTRY_UPDATED, e, d) # vs)"
    and "filter (matches ns' key') (us @ (ENTRY_UPDATED, e, d) # vs) =
      (if ns' = ns \<and> key' = key then [] else filter (matches ns' key') (us @ it # vs))"
proof -
  have "filter (matches ns key) (us @ it # vs) = [it]" using items_goodD(2) [OF good _ m pl] by simp
  then have none: "filter (matches ns key) us = []" "filter (matches ns key) vs = []"
    using m by (auto simp: append_eq_Cons_conv)
  show f: "filter (matches ns' key') (us @ (ENTRY_UPDATED, e, d) # vs) =
      (if ns' = ns \<and> key' = key then [] else filter (matches ns' key') (us @ it # vs))" for ns' key'
    using none matches_determines [OF m] by auto
  show "items_good (us @ (ENTRY_UPDATED, e, d) # vs)"
    unfolding items_good_def
  proof (intro allI impI)
    fix ns' key' x
    assume a: "x \<in> set (us @ (ENTRY_UPDATED, e, d) # vs) \<and> matches ns' key' x \<and> plain x"
    then have "x \<in> set us \<union> set vs" by auto
    with a none have "\<not> (ns' = ns \<and> key' = key)" by (auto simp: filter_empty_conv)
    moreover have "item_ok x \<and> filter (matches ns' key') (us @ it # vs) = [x]"
      using items_goodD [OF good, of x] a \<open>x \<in> set us \<union> set vs\<close> by (auto simp del: filter_append)
    ultimately show "item_ok x \<and> filter (matches ns' key') (us @ (ENTRY_UPDATED, e, d) # vs) = [x]"
      unfolding f by simp
  qed
qed

lemma nv_item_cong: "nv_used env' = nv_used env \<Longrightarrow> nv_item env' I = nv_item env I"
  by (simp add: nv_item_def fun_eq_iff)

section \<open>What an operation on elements keeps\<close>

text \<open>
  The items of a storage that was written by the code without a loss of power: the states are
  used and updated, the checksum of a used header is right, and an element with its value in
  data entries has more bytes than fit into a header.
\<close>

definition items_clean :: "item list \<Rightarrow> bool" where
  "items_clean its \<longleftrightarrow>
     (\<forall>(s, e, d) \<in> set its. s = ENTRY_UPDATED \<or> s = ENTRY_USED \<and> entry_crc32 e = element_header_crc32_calc e \<and>
        (item_type e = ELEMENT_MIDDLE \<longrightarrow> 8 < unat (entry_length e)))"

text \<open>
  An operation that only appends and retires elements keeps the lists of pages, the page headers
  in RAM and flash and every byte of the other pages.
\<close>

definition nv_kept :: "nvds_env \<Rightarrow> (nat \<Rightarrow> item list) \<Rightarrow> nvds_env \<Rightarrow> (nat \<Rightarrow> item list) \<Rightarrow> bool" where
  "nv_kept env I env' I' \<longleftrightarrow> nv_used env' = nv_used env \<and> nv_free env' = nv_free env \<and>
     nv_base env' = nv_base env \<and> nv_length env' = nv_length env \<and> nv_ns_states env' = nv_ns_states env \<and>
     (\<forall>q. pg_header (nv_page env' q) = pg_header (nv_page env q)) \<and>
     (\<forall>q k. k < 32 \<or> q \<notin> set (nv_used env) \<and> k < 4096 \<longrightarrow> nv_img env' (4096 * q + k) = nv_img env (4096 * q + k)) \<and>
     (items_clean (all_items I (nv_used env)) \<longrightarrow> items_clean (all_items I' (nv_used env)))"

lemma nv_kept_refl [simp]: "nv_kept env I env I" "nv_kept env I (env\<lparr>nv_ns := l\<rparr>) I"
  by (simp_all add: nv_kept_def nv_img_def)

lemma nv_kept_trans: "nv_kept env I env1 I1 \<Longrightarrow> nv_kept env1 I1 env2 I2 \<Longrightarrow> nv_kept env I env2 I2"
  unfolding nv_kept_def by metis

lemma outside_entries:
  fixes p q k :: nat
  assumes "k < 32 \<or> q \<noteq> p \<and> k < 4096"
  shows "4096 * q + k < 4096 * p + 32 \<or> 4096 * (p + 1) \<le> 4096 * q + k"
  using assms other_page [of q p k] by (cases "q = p") auto

lemma altered_kept:
  assumes a: "altered env p A s env'" and p: "p \<in> set (nv_used env)"
    and c: "items_clean (all_items I (nv_used env)) \<Longrightarrow> items_clean (all_items I' (nv_used env))"
  shows "nv_kept env I env' I'"
proof -
  have "nv_img env' (4096 * q + k) = nv_img env (4096 * q + k)"
    if "k < 32 \<or> q \<notin> set (nv_used env) \<and> k < 4096" for q k
  proof -
    have "k < 32 \<or> q \<noteq> p \<and> k < 4096" using that p by auto
    from outside_entries [OF this] show ?thesis by (intro altered_fields(16) [OF a]) auto
  qed
  then show ?thesis using altered_fields [OF a] c by (simp add: nv_kept_def)
qed

lemma nv_kept_used_minus: "nv_kept env I env' I' \<Longrightarrow> nv_kept env I (used_minus p n env') I'"
  by (simp add: nv_kept_def used_minus_def heap_simps)

text \<open>
  What marking the element of a key as updated does to the storage.
\<close>

definition retires :: "nvds_env \<Rightarrow> (nat \<Rightarrow> item list) \<Rightarrow> u8 \<Rightarrow> u8 list \<Rightarrow> nvds_env \<Rightarrow> (nat \<Rightarrow> item list) \<Rightarrow> bool" where
  "retires env I ns key env' I' \<longleftrightarrow> nv_store env' I' \<and> nv_used env' = nv_used env \<and> nv_free env' = nv_free env \<and>
     nv_ns env' = nv_ns env \<and> (\<forall>q. pg_header (nv_page env' q) = pg_header (nv_page env q)) \<and>
     (\<forall>q. pg_next_free (nv_page env' q) = pg_next_free (nv_page env q)) \<and>
     (\<forall>ns' key'. nv_item env' I' ns' key' = (if ns' = ns \<and> key' = key then None else nv_item env I ns' key')) \<and>
     nv_kept env I env' I'"

context nor_flash
begin

lemma data_element_del_absent:
  assumes "nv_inv env I" and "nv_item env I ns key = None"
  shows "data_element_del rom ns key env = Some (NVDS_E_NOT_FOUND, env)"
  using item_absent [OF assms] by (simp add: data_element_del_def)

text \<open>
  Marking an element as updated.
\<close>

lemma retire_item:
  assumes st: "nv_store env I" and p: "p \<in> set (nv_used env)" and I: "I p = xs @ (s, e, d) # ys"
    and m: "matches ns key (s, e, d)" and pl: "plain (s, e, d)"
  obtains env1 where
    "entry_state_range_alter rom env p (of_nat (items_size xs)) (of_nat (items_size xs + item_cnt e)) ENTRY_UPDATED = (NVDS_OK, env1)"
    and "retires env I ns key (used_minus p n env1) (I(p := xs @ (ENTRY_UPDATED, e, d) # ys))"
proof -
  let ?j = "items_size xs" and ?I = "I(p := xs @ (ENTRY_UPDATED, e, d) # ys)"
  have inv: "nv_inv env I" using st by (simp add: nv_store_def)
  then have reg: "nv_region env" and dist: "distinct (nv_used env)" and live: "page_live env I p" using p by (auto simp: nv_inv_def)
  then have b: "?j + item_cnt e < 126" by (auto simp: page_live_def page_ok_def I)
  obtain env1 where a: "entry_state_range_alter rom env p (of_nat ?j) (of_nat (?j + item_cnt e)) ENTRY_UPDATED = (NVDS_OK, env1)"
    and alt: "altered env p {?j..?j + item_cnt e} ENTRY_UPDATED env1"
    using entry_state_range_alter_ok [of env p ?j "item_cnt e" ENTRY_UPDATED] live reg b page_ok_table
    by (auto simp: page_live_def entry_states)
  define env' where "env' = used_minus p n env1"
  have inv': "nv_inv env' ?I"
    using altered_inv [OF inv p I alt] by (simp add: env'_def entry_states)
  have fields: "nv_used env' = nv_used env" "nv_free env' = nv_free env" "nv_ns env' = nv_ns env"
    "pg_header (nv_page env' q) = pg_header (nv_page env q)"
    "pg_next_free (nv_page env' q) = pg_next_free (nv_page env q)" for q
    using altered_fields [OF alt] by (auto simp: env'_def used_minus_def heap_simps)
  from dist p I have "retires env I ns key env' ?I"
  proof (rule all_items_upd)
    fix us vs
    assume us: "all_items I (nv_used env) = us @ (s, e, d) # vs"
      and us': "\<And>it'. all_items (I(p := xs @ it' # ys)) (nv_used env) = us @ it' # vs"
    have good: "items_good (us @ (s, e, d) # vs)" using st by (simp add: nv_store_good us)
    note g = items_good_retire [OF good m pl, where e = e and d = d]
    have "nv_store env' ?I" using inv' g(1) by (simp add: nv_store_good fields us')
    moreover have "nv_item env' ?I ns' key' = (if ns' = ns \<and> key' = key then None else nv_item env I ns' key')" for ns' key'
      unfolding nv_item_filter fields us us' g(2) by simp
    moreover have "nv_kept env I env' ?I"
      unfolding env'_def
    proof (intro nv_kept_used_minus altered_kept [OF alt p])
      show "items_clean (all_items ?I (nv_used env))" if "items_clean (all_items I (nv_used env))"
        using that by (auto simp: us us' items_clean_def)
    qed
    ultimately show ?thesis using fields by (simp add: retires_def)
  qed
  with a show thesis by (intro that) (simp_all add: env'_def)
qed

lemma data_element_del_plain:
  assumes st: "nv_store env I" and it: "nv_item env I ns key = Some (s, e, d)" and pl: "plain (s, e, d)"
  obtains env' p xs ys where "data_element_del rom ns key env = Some (NVDS_OK, env')" and "p \<in> set (nv_used env)"
    and "I p = xs @ (s, e, d) # ys" and "retires env I ns key env' (I(p := xs @ (ENTRY_UPDATED, e, d) # ys))"
proof -
  have inv: "nv_inv env I" using st by (simp add: nv_store_def)
  obtain p xs ys where f: "element_find rom env ns key 0 None ELEMENT_ANY = Some (Inr (p, of_nat (items_size xs)))"
    and r: "entry_read rom env p (of_nat (items_size xs)) = Inr e"
    and p: "p \<in> set (nv_used env)" and I: "I p = xs @ (s, e, d) # ys"
    using item_found [OF inv it] .
  have m: "matches ns key (s, e, d)" using it by (auto simp: nv_item_def find_Some_iff)
  obtain env1 where a:
    "entry_state_range_alter rom env p (of_nat (items_size xs)) (of_nat (items_size xs + item_cnt e)) ENTRY_UPDATED = (NVDS_OK, env1)"
    and rt: "retires env I ns key (used_minus p (item_cnt e + 1) env1) (I(p := xs @ (ENTRY_UPDATED, e, d) # ys))"
    using retire_item [OF st p I m pl] .
  have "data_element_del rom ns key env = Some (NVDS_OK, used_minus p (item_cnt e + 1) env1)"
  proof (cases "item_type e = ELEMENT_SMALL")
    case True
    then show ?thesis
      using f r a plain_cnt(1) [OF True] by (simp add: data_element_del_def element_types Let_def)
  next
    case False
    then have mid: "item_type e = ELEMENT_MIDDLE" using pl by (simp add: plain_def)
    then show ?thesis
      using f r a plain_cnt(2) [OF mid] by (simp add: data_element_del_def element_types Let_def)
  qed
  then show thesis using p I rt by (rule that)
qed

end

end
