(* ===== verification/Nvds_Append.thy ===== *)
theory Nvds_Append
  imports Nvds_Update
begin

text \<open>
  Writing a plain element behind the last item of a page.
\<close>

section \<open>Growing a page\<close>

text \<open>
  The page \<open>p\<close> after bytes \<open>bs\<close> were written at its first free entry and \<open>k\<close> entries were taken,
  before the states table is changed.
\<close>

definition grown :: "nvds_env \<Rightarrow> nat \<Rightarrow> nat \<Rightarrow> u8 list \<Rightarrow> nvds_env \<Rightarrow> bool" where
  "grown env p k bs env' \<longleftrightarrow>
     nv_used env' = nv_used env \<and> nv_free env' = nv_free env \<and> nv_ns env' = nv_ns env \<and>
     nv_ns_states env' = nv_ns_states env \<and> nv_base env' = nv_base env \<and> nv_length env' = nv_length env \<and> (nv_region env' \<longleftrightarrow> nv_region env) \<and>
     (\<forall>q. q \<noteq> p \<longrightarrow> nv_page env' q = nv_page env q) \<and>
     pg_base (nv_page env' p) = pg_base (nv_page env p) \<and> pg_header (nv_page env' p) = pg_header (nv_page env p) \<and>
     pg_states (nv_page env' p) = pg_states (nv_page env p) \<and> next_free env' p = next_free env p + k \<and>
     nv_img env' = img_put (4096 * p + 64 + 32 * next_free env p) bs (nv_img env)"

lemma page_ok_erased:
  assumes "page_ok env p" and "next_free env p \<le> i" and "i + k \<le> 126"
  shows "img_bytes env (4096 * p + 64 + 32 * i) (32 * k) = replicate (32 * k) 0xFF"
  using assms(2,3)
proof (induction k arbitrary: i)
  case (Suc k)
  have "ent env p i = replicate 32 0xFF" using assms(1) Suc.prems by (simp add: page_ok_def)
  then show ?case
    using Suc.IH [of "Suc i"] Suc.prems unfolding img_ent_append by (simp add: replicate_add [symmetric])
qed (simp add: img_bytes_def)

lemma img_put_append: "img_put off (xs @ ys) m = img_put (off + length xs) ys (img_put off xs m)"
  by (auto simp: img_put_def fun_eq_iff nth_append)

lemma unat_next_free_add:
  assumes "unat (x :: u32) + k \<le> 126"
  shows "unat (x + of_nat k) = unat x + k"
proof -
  have "unat (of_nat k :: u32) = k" using assms by (intro unat_of_nat_small) simp
  then show ?thesis using assms by (simp add: unat_word_ariths)
qed

context nor_flash
begin

lemma entry_write_grown:
  assumes ok: "page_ok env p" and reg: "nv_region env" and nf: "next_free env p < 126" and e: "length e = 32"
  obtains env' where "entry_write rom env p e = (NVDS_OK, env')" and "grown env p 1 e env'"
proof -
  let ?nf = "pg_next_free (nv_page env p)"
  let ?off = "4096 * p + 64 + 32 * next_free env p"
  note a = entry_address_nat [OF ok reg nf]
  have "img_bytes env ?off 32 = replicate 32 0xFF" using page_ok_erased [OF ok, of _ 1] nf by simp
  then obtain env1 where w: "nvds_flash_write rom env (entry_address (nv_page env p) ?nf) 32 e = (NVDS_OK, env1)"
    and s: "same_but_mem env1 env" and i: "nv_img env1 = img_put ?off e (nv_img env)"
    using nv_write [OF reg, of 32 "entry_address (nv_page env p) ?nf" e] a e clears_erased [of e] by auto
  define env' where "env' = set_page p (\<lambda>pg. pg\<lparr>pg_next_free := pg_next_free pg + 1, pg_cnt_used := pg_cnt_used pg + 1\<rparr>) env1"
  have "entry_write rom env p e = (NVDS_OK, env')"
    using w nf by (simp add: entry_write_def env'_def)
  moreover have "grown env p 1 e env'"
    using same_but_memD [OF s] i nf unat_next_free_add [of ?nf 1] by (simp add: grown_def env'_def heap_simps)
  ultimately show thesis by (rule that)
qed

lemma entry_data_write_grown:
  assumes ok: "page_ok env p" and reg: "nv_region env" and g: "grown env p 1 e env1" and e: "length e = 32"
    and fit: "next_free env p + 1 + k \<le> 126" and dat: "0 < length dat" "length dat \<le> 32 * k"
  obtains env2 where "entry_data_write rom env1 (entry_address (nv_page env1 p) (pg_next_free (nv_page env1 p)))
      (of_nat (length dat)) dat = (NVDS_OK, env2)"
    and "grown env p (1 + k) (e @ dat) (set_page p (\<lambda>pg. pg\<lparr>pg_next_free := pg_next_free pg + of_nat k,
           pg_cnt_used := c pg\<rparr>) env2)"
proof -
  let ?nf = "next_free env p"
  let ?off = "4096 * p + 64 + 32 * (?nf + 1)"
  have len: "unat (of_nat (length dat) :: u32) = length dat"
    using dat fit by (intro unat_of_nat_small) simp
  have reg1: "nv_region env1" and nf1: "next_free env1 p = ?nf + 1"
    and i1: "nv_img env1 = img_put (4096 * p + 64 + 32 * ?nf) e (nv_img env)"
    using g reg by (auto simp: grown_def)
  have "unat (entry_address (nv_page env1 p) (pg_next_free (nv_page env1 p))) = ?off"
  proof -
    have "entry_address (nv_page env1 p) x = entry_address (nv_page env p) x" for x
      using g by (simp add: entry_address_def grown_def)
    moreover have "?nf + 1 < 126" using dat fit by (cases k) auto
    ultimately show ?thesis
      using entry_address_nat(1) [OF ok reg, of "pg_next_free (nv_page env1 p)"] nf1 by simp
  qed
  note adr = this
  have end_: "?off + length dat \<le> unat (nv_length env1)"
  proof -
    have "?off + length dat \<le> 4096 * (p + 1)" using dat fit by simp
    then show ?thesis using ok g by (simp add: page_ok_def grown_def)
  qed
  have "img_bytes env1 ?off (length dat) = img_bytes env ?off (length dat)"
    using e by (intro img_bytes_put_other [OF i1]) simp
  also have "\<dots> = take (length dat) (img_bytes env ?off (32 * k))"
    using dat(2) by (simp add: img_bytes_def take_map)
  also have "\<dots> = replicate (length dat) 0xFF"
    using page_ok_erased [OF ok, of "?nf + 1" k] fit dat(2) by simp
  finally have "clears (img_bytes env1 ?off (length dat)) dat" by (simp add: clears_erased)
  then obtain env2 where w: "nvds_flash_write rom env1 (entry_address (nv_page env1 p) (pg_next_free (nv_page env1 p)))
      (of_nat (length dat)) dat = (NVDS_OK, env2)"
    and s: "same_but_mem env2 env1" and i2: "nv_img env2 = img_put ?off dat (nv_img env1)"
    using nv_write [OF reg1, of "of_nat (length dat)" "entry_address (nv_page env1 p) (pg_next_free (nv_page env1 p))" dat]
    unfolding len adr using end_ dat(1) by auto
  have "nv_img env2 = img_put (4096 * p + 64 + 32 * ?nf) (e @ dat) (nv_img env)"
    unfolding i2 i1 img_put_append using e by (simp add: algebra_simps)
  then have "grown env p (1 + k) (e @ dat) (set_page p (\<lambda>pg. pg\<lparr>pg_next_free := pg_next_free pg + of_nat k,
      pg_cnt_used := c pg\<rparr>) env2)"
    using g same_but_memD [OF s] nf1 fit unat_next_free_add [of "pg_next_free (nv_page env1 p)" k]
    by (simp add: grown_def heap_simps)
  with w show thesis by (intro that) (simp_all add: entry_data_write_def)
qed

end

text \<open>
  Once the states of the new entries are set, the page has one more item.
\<close>

lemma grown_altered_inv:
  assumes inv: "nv_inv env I" and p: "p \<in> set (nv_used env)" and g: "grown env p (1 + k) (e @ dat) env2"
    and a: "altered env2 p {next_free env p..next_free env p + k} ENTRY_USED env3"
    and e: "length e = 32" "item_cnt e = k" and dat: "length dat \<le> 32 * k" and fit: "next_free env p + 1 + k \<le> 126"
  obtains d where "nv_inv env3 (I(p := I p @ [(ENTRY_USED, e, d)]))" and "take (length dat) d = dat"
proof -
  let ?nf = "next_free env p"
  define d where "d = img_bytes env3 (4096 * p + 64 + 32 * (?nf + 1)) (32 * k)"
  let ?I = "I(p := I p @ [(ENTRY_USED, e, d)])"
  have live: "page_live env I q" if "q \<in> set (nv_used env)" for q using inv that by (simp add: nv_inv_def)
  then have ok: "page_ok env p" and at: "items_at env p 0 (I p)" and sz: "items_size (I p) = ?nf"
    using p by (auto simp: page_live_def)
  have im: "nv_img env2 = img_put (4096 * p + 64 + 32 * ?nf) (e @ dat) (nv_img env)" using g by (simp add: grown_def)
  have same: "nv_img env3 (4096 * q + j) = nv_img env (4096 * q + j)"
    if "64 \<le> j" "j < 4096" "q \<noteq> p \<or> j < 64 + 32 * ?nf \<or> 64 + 32 * (?nf + 1 + k) \<le> j" for q j
  proof -
    have "nv_img env3 (4096 * q + j) = nv_img env2 (4096 * q + j)"
      using entry_not_table [OF that(1,2), of q p] by (intro altered_fields(16) [OF a])
    also have "\<dots> = nv_img env (4096 * q + j)"
      using that other_page [of q p j] e dat fit by (cases "q = p") (auto simp: im img_put_def)
    finally show ?thesis .
  qed
  have st: "st_at env3 p j = (if ?nf \<le> j \<and> j \<le> ?nf + k then ENTRY_USED else st_at env p j)" if "j < 128" for j
    using altered_fields(14) [OF a that] g by (simp add: grown_def)
  have bytes: "img_bytes env3 (4096 * p + 64 + 32 * ?nf) (length (e @ dat)) = e @ dat"
    using altered_bytes [OF a, of "64 + 32 * ?nf" "length (e @ dat)" p] img_bytes_put_same [OF im] fit e dat
    by (simp add: add.assoc)
  then have split: "img_bytes env3 (4096 * p + 64 + 32 * ?nf) 32 = e"
    "img_bytes env3 (4096 * p + 64 + 32 * (?nf + 1)) (length dat) = dat"
    using e img_bytes_append [of env3 "4096 * p + 64 + 32 * ?nf" 32 "length dat"] by (simp_all add: algebra_simps)
  have d: "take (length dat) d = dat"
    using split(2) dat by (simp add: d_def img_bytes_def take_map)
  have items: "items_at env3 p 0 (I p @ [(ENTRY_USED, e, d)])"
  proof -
    have "items_at env3 p 0 (I p) \<longleftrightarrow> items_at env p 0 (I p)"
      using sz fit by (intro items_at_cong st [THEN trans] same) auto
    then show ?thesis
      using at split(1) fit st e(2) by (simp add: items_at_append sz ent_def d_def entry_states)
  qed
  have nf3: "next_free env3 p = ?nf + 1 + k" using altered_fields(12) [OF a] g by (simp add: grown_def)
  have ok3: "page_ok env3 p"
  proof -
    have "ent env3 p i = ent env p i" if "?nf + 1 + k \<le> i" "i < 126" for i
      unfolding ent_def using that by (intro img_bytes_cong) (use same [of "64 + 32 * i + j" p for j] in \<open>auto simp: add.assoc\<close>)
    then show ?thesis
      using ok g altered_fields [OF a] st fit nf3 by (auto simp: page_ok_def grown_def)
  qed
  have "page_live env3 ?I p"
    using live [OF p] items ok3 nf3 sz e(2) g altered_fields(9) [OF a] by (simp add: page_live_def grown_def)
  moreover have "page_live env3 ?I q" if q: "q \<in> set (nv_used env)" "q \<noteq> p" for q
  proof (rule page_live_cong [OF live [OF q(1)]])
    fix j :: nat assume j: "j < 4096"
    have "nv_img env3 (4096 * q + j) = nv_img env2 (4096 * q + j)"
      using other_page [OF q(2) j] by (intro altered_fields(16) [OF a]) auto
    also have "\<dots> = nv_img env (4096 * q + j)"
      using other_page [OF q(2) j] e dat fit by (auto simp: im img_put_def)
    finally show "nv_img env3 (4096 * q + j) = nv_img env (4096 * q + j)" .
  qed (use altered_fields [OF a] g q in \<open>auto simp: grown_def\<close>)
  ultimately have "nv_inv env3 ?I"
    using inv g altered_fields(1,7) [OF a] by (auto simp: nv_inv_def grown_def)
  then show thesis using d by (rule that)
qed

lemma grown_kept_img:
  assumes g: "grown env p (1 + k) bs env'" and bs: "length bs \<le> 32 * (1 + k)" and fit: "next_free env p + 1 + k \<le> 126"
    and q: "j < 32 \<or> q \<noteq> p \<and> j < 4096"
  shows "nv_img env' (4096 * q + j) = nv_img env (4096 * q + j)"
proof -
  have "nv_img env' = img_put (4096 * p + 64 + 32 * next_free env p) bs (nv_img env)" using g by (simp add: grown_def)
  then show ?thesis using outside_entries [OF q] bs fit by (auto simp: img_put_def)
qed

section \<open>put_element\<close>

text \<open>
  The entry that is written for a value, and its fields.
\<close>

definition plain_entry :: "u8 \<Rightarrow> u8 list \<Rightarrow> u8 list \<Rightarrow> entry_info" where
  "plain_entry ns key buf =
     (if length buf \<le> 8
      then entry_fill (tag_set ns ELEMENT_SMALL TAG_FRAG_NO_DEFAULT) (of_nat (length buf)) key 0 buf
      else entry_fill (tag_set ns ELEMENT_MIDDLE TAG_FRAG_NO_DEFAULT) (of_nat (length buf)) key 4
             (le32 (element_data_crc32_calc buf)))"

lemma plain_entry_fields:
  assumes "length key < 16" and "0 \<notin> set key" and "length buf \<le> 256" and e: "e = plain_entry ns key buf"
  shows "length e = 32" "tag_namespace_get (entry_tag e) = ns" "entry_key e = key"
    "unat (entry_length e) = length buf" "entry_crc32 e = element_header_crc32_calc e"
    "item_type e = (if length buf \<le> 8 then ELEMENT_SMALL else ELEMENT_MIDDLE)"
    "length buf \<le> 8 \<Longrightarrow> take (length buf) (entry_value e) = buf"
    "8 < length buf \<Longrightarrow> entry_datacrc32 e = element_data_crc32_calc buf"
proof -
  have ty: "(if length buf \<le> 8 then ELEMENT_SMALL else ELEMENT_MIDDLE) < 8" "TAG_FRAG_NO_DEFAULT < 32"
    by (auto simp: element_types TAG_FRAG_NO_DEFAULT_def)
  let ?v = "if length buf \<le> 8 then buf else le32 (element_data_crc32_calc buf)"
    and ?o = "if length buf \<le> 8 then 0 else 4 :: nat"
    and ?t = "tag_set ns (if length buf \<le> 8 then ELEMENT_SMALL else ELEMENT_MIDDLE) TAG_FRAG_NO_DEFAULT"
  have v: "?o + length ?v \<le> 8" by simp
  have e': "e = entry_fill ?t (of_nat (length buf)) key ?o ?v" by (simp add: e plain_entry_def)
  note f = entry_fill_fields [OF assms(1) v, of ?t "of_nat (length buf)", folded e']
  show "length e = 32" unfolding e' by (rule length_entry_fill [OF assms(1) v])
  then have l: "length e = 32" .
  show "tag_namespace_get (entry_tag e) = ns" "item_type e = (if length buf \<le> 8 then ELEMENT_SMALL else ELEMENT_MIDDLE)"
    unfolding f(1) by (rule tag_roundtrip [OF ty])+
  show "entry_key e = key" unfolding e' by (rule entry_fill_key [OF assms(1) v assms(2)])
  show "unat (entry_length e) = length buf" unfolding f(2) using assms(3) by (intro unat_of_nat_small) simp
  show "entry_crc32 e = element_header_crc32_calc e" unfolding e' by (rule entry_fill_crc [OF assms(1) v])
  show "take (length buf) (entry_value e) = buf" if "length buf \<le> 8"
    using f(4) that by (simp add: entry_value_def mem_get_def min_absorb1)
  show "entry_datacrc32 e = element_data_crc32_calc buf" if "8 < length buf"
    unfolding entry_datacrc32_def using f(4) that l by (intro get32_nth) auto
qed

lemma new_item:
  assumes "length key < 16" and "0 \<notin> set key" and "length buf \<le> 256" and e: "e = plain_entry ns key buf"
    and d: "8 < length buf \<Longrightarrow> take (length buf) d = buf"
  shows "plain (ENTRY_USED, e, d)" "item_value (ENTRY_USED, e, d) = buf" "item_ok (ENTRY_USED, e, d)"
    "matches ns' key' (ENTRY_USED, e, d) \<longleftrightarrow> ns' = ns \<and> key' = key"
proof -
  note f = plain_entry_fields [OF assms(1-4)]
  show "plain (ENTRY_USED, e, d)" by (simp add: plain_def f(6))
  show v: "item_value (ENTRY_USED, e, d) = buf"
    using d f(7) by (simp add: item_value_def f(4,6) element_types)
  show "item_ok (ENTRY_USED, e, d)"
    using f(8) by (simp add: item_ok_def v f(4,6) element_types)
  show "matches ns' key' (ENTRY_USED, e, d) \<longleftrightarrow> ns' = ns \<and> key' = key"
    by (auto simp: matches_def element_match_def f)
qed

lemma item_cnt_plain_entry:
  assumes "length key < 16" and "0 \<notin> set key" and "length buf \<le> 256"
  shows "item_cnt (plain_entry ns key buf) = (if length buf \<le> 8 then 0 else data_entries (length buf))"
  using plain_entry_fields [OF assms refl, of ns] by (simp add: item_cnt_def has_data_def element_types)

text \<open>
  A page has room for the element exactly when its entries fit.
\<close>

lemma data_entries_le: "data_entries n \<le> k \<longleftrightarrow> n \<le> 32 * k"
  using div_less_iff_less_mult [of 32 "n + 31" "Suc k"] by (simp add: data_entries_def less_Suc_eq_le) linarith

lemma no_room_iff:
  assumes "unat (pg_next_free pg) \<le> 126" and "n \<le> 256"
  shows "no_room pg (of_nat n) \<longleftrightarrow> 126 < unat (pg_next_free pg) + 1 + (if n \<le> 8 then 0 else data_entries n)"
proof -
  let ?nf = "unat (pg_next_free pg)"
  have un: "unat (of_nat n :: u32) = n" using assms(2) by (intro unat_of_nat_small) simp
  define x where "x = (126 :: u32) - pg_next_free pg"
  have d: "unat x = 126 - ?nf"
    unfolding x_def using assms(1) by (subst unat_sub) (simp_all add: word_le_nat_alt)
  have "page_room_get pg = x * 32" by (simp add: page_room_get_def x_def)
  then have r: "unat (page_room_get pg) = 32 * (126 - ?nf)" by (simp add: unat_word_ariths d)
  have sr: "sint (page_room_get pg) = int (32 * (126 - ?nf))"
  proof -
    have "page_room_get pg = of_nat (unat (page_room_get pg))" by simp
    also have "sint \<dots> = int (32 * (126 - ?nf))" unfolding r by (rule sint_small) simp
    finally show ?thesis .
  qed
  have s: "unat (32 + of_nat n :: u32) = 32 + n" using un assms(2) by (simp add: unat_word_ariths)
  have "no_room pg (of_nat n) \<longleftrightarrow> n \<le> 8 \<and> 32 * (126 - ?nf) < 32 \<or> 8 < n \<and> 32 * (126 - ?nf) < 32 + n"
    by (simp add: no_room_def un sr r s word_less_nat_alt)
  moreover have "32 * (126 - ?nf) < 32 + n \<longleftrightarrow> 126 < ?nf + 1 + data_entries n" if "8 < n"
  proof -
    have "126 < ?nf + 1 + data_entries n \<longleftrightarrow> \<not> data_entries n \<le> 125 - ?nf \<or> ?nf = 126"
      using assms(1) by auto
    then show ?thesis unfolding data_entries_le using assms(1) that by auto
  qed
  ultimately show ?thesis using assms(1) by auto
qed

context nor_flash
begin

lemma put_element_altered:
  assumes inv: "nv_inv env I" and p: "p \<in> set (nv_used env)" and key: "length key < 16" "0 \<notin> set key"
    and len: "length buf \<le> 256" and room: "\<not> no_room (nv_page env p) (of_nat (length buf))"
    and e: "e = plain_entry ns key buf"
  obtains env2 env3 dat where "put_element rom ns key buf (of_nat (length buf)) p env = (NVDS_OK, env3)"
    and "grown env p (1 + item_cnt e) (e @ dat) env2"
    and "altered env2 p {next_free env p..next_free env p + item_cnt e} ENTRY_USED env3"
    and "length dat \<le> 32 * item_cnt e" and "8 < length buf \<Longrightarrow> dat = buf"
    and "next_free env p + 1 + item_cnt e \<le> 126"
proof -
  let ?nf = "next_free env p" and ?n = "of_nat (length buf) :: u32" and ?k = "item_cnt e"
  have live: "page_live env I p" and reg: "nv_region env" using inv p by (auto simp: nv_inv_def)
  then have ok: "page_ok env p" by (simp add: page_live_def)
  have un: "unat ?n = length buf" using len by (intro unat_of_nat_small) simp
  have k: "?k = (if length buf \<le> 8 then 0 else data_entries (length buf))"
    unfolding e by (rule item_cnt_plain_entry [OF key len])
  have fit: "?nf + 1 + ?k \<le> 126"
    using room ok no_room_iff [of "nv_page env p" "length buf"] len k by (simp add: page_ok_def)
  have le: "length e = 32" by (rule plain_entry_fields [OF key len e])
  have ul: "(ucast ?n :: u16) = of_nat (length buf)"
  proof -
    have "(ucast ?n :: u16) = of_nat (unat ?n)" by (simp only: of_nat_unat)
    then show ?thesis by (simp only: un)
  qed
  obtain env1 where w1: "entry_write rom env p e = (NVDS_OK, env1)" and g1: "grown env p 1 e env1"
    using entry_write_grown [OF ok reg _ le] fit by auto
  have fill: "(if unat ?n \<le> ELEMENT_SMALL_MAX_SIZE
      then entry_fill (tag_set ns ELEMENT_SMALL TAG_FRAG_NO_DEFAULT) (ucast ?n) key 0 (take (unat ?n) buf)
      else entry_fill (tag_set ns ELEMENT_MIDDLE TAG_FRAG_NO_DEFAULT) (ucast ?n) key 4
             (le32 (element_data_crc32_calc (take (unat ?n) buf)))) = e"
    unfolding un ul e plain_entry_def by simp
  have alter: "\<exists>env3. entry_state_range_alter rom env2 p (of_nat ?nf) (of_nat (?nf + ?k)) ENTRY_USED = (NVDS_OK, env3) \<and>
      altered env2 p {?nf..?nf + ?k} ENTRY_USED env3" if g: "grown env p (1 + ?k) (e @ dat) env2" for env2 dat
  proof -
    have im: "nv_img env2 = img_put (4096 * p + 64 + 32 * ?nf) (e @ dat) (nv_img env)" using g by (simp add: grown_def)
    have "table_ok env2 p"
      using ok g img_bytes_put_other [OF im, of "4096 * p + 32" 32] by (simp add: grown_def table_ok_def page_ok_def)
    moreover have "st_at env2 p j = ENTRY_FREE" if "?nf \<le> j" "j \<le> ?nf + ?k" for j
      using ok g that fit by (auto simp: grown_def page_ok_def)
    then have "ENTRY_USED AND st_at env2 p j = ENTRY_USED" if "?nf \<le> j" "j \<le> ?nf + ?k" for j
      using that by (simp add: entry_states)
    moreover have "nv_region env2" "?nf + ?k < 126" using g reg fit by (auto simp: grown_def)
    ultimately show ?thesis
      using entry_state_range_alter_ok [of env2 p ?nf ?k ENTRY_USED] by (metis (no_types, lifting))
  qed
  show thesis
  proof (cases "length buf \<le> 8")
    case True
    then have k0: "?k = 0" using k by simp
    have "grown env p (1 + ?k) (e @ []) env1" using g1 k0 by simp
    from alter [OF this] obtain env3 where
      r: "entry_state_range_alter rom env1 p (of_nat ?nf) (of_nat ?nf) ENTRY_USED = (NVDS_OK, env3)"
      "altered env1 p {?nf..?nf} ENTRY_USED env3"
      unfolding k0 add_0_right by blast
    then have "put_element rom ns key buf ?n p env = (NVDS_OK, env3)"
      unfolding put_element_def Let_def fill using w1 True by (simp add: un)
    then show thesis using g1 r(2) k0 fit True by (intro that [of env3 "[]" env1]) auto
  next
    case False
    let ?c = "\<lambda>pg. pg_cnt_used pg + of_nat ?k"
    have dk: "data_entries (length buf) = ?k" using False k by simp
    have dat: "0 < length buf" "length buf \<le> 32 * ?k" using False dk data_entries_le [of "length buf" ?k] by auto
    from ok reg g1 le fit dat show thesis
    proof (rule entry_data_write_grown [where c = ?c])
      fix env2
      assume w2: "entry_data_write rom env1 (entry_address (nv_page env1 p) (pg_next_free (nv_page env1 p))) ?n buf = (NVDS_OK, env2)"
      let ?env2 = "set_page p (\<lambda>pg. pg\<lparr>pg_next_free := pg_next_free pg + of_nat ?k, pg_cnt_used := ?c pg\<rparr>) env2"
      assume g2: "grown env p (1 + ?k) (e @ buf) ?env2"
      obtain env3 where r: "entry_state_range_alter rom ?env2 p (of_nat ?nf) (of_nat (?nf + ?k)) ENTRY_USED = (NVDS_OK, env3)"
        "altered ?env2 p {?nf..?nf + ?k} ENTRY_USED env3"
        using alter [OF g2] by blast
      then have "put_element rom ns key buf ?n p env = (NVDS_OK, env3)"
        unfolding put_element_def Let_def fill using w1 w2 False by (simp add: un dk)
      then show thesis using g2 r(2) dat(2) fit by (intro that [of env3 buf ?env2]) auto
    qed
  qed
qed

end

end
