(* ===== verification/Nvds_Pages.thy ===== *)
theory Nvds_Pages
  imports Nvds_Put "HOL-Library.Multiset"
begin

text \<open>
  The lists of free and used pages. Every page stays in exactly one of them whatever the flash
  functions return, and the last free page is kept for recycling.
\<close>

section \<open>What the operations on the flash leave alone\<close>

text \<open>
  A view of a storage that depends neither on the device nor on the RAM images of the pages.
\<close>

locale page_view =
  fixes view :: "nvds_env \<Rightarrow> 'a"
  assumes view_dev: "view (env\<lparr>nv_dev := d\<rparr>) = view env" and view_page: "view (set_page p f env) = view env"
begin

lemma flash_write_keeps: "nvds_flash_write rom env off len b = (r, env') \<Longrightarrow> view env' = view env"
  by (auto simp: nvds_flash_write_def view_dev split: if_splits prod.splits)

lemma flash_erase_keeps: "nvds_flash_erase rom env off sz = (r, env') \<Longrightarrow> view env' = view env"
  by (auto simp: nvds_flash_erase_def view_dev split: if_splits prod.splits)

lemma page_clear_keeps: "view (page_clear p env) = view env"
  by (simp add: page_clear_def view_page)

lemma page_state_alter_keeps: "page_state_alter rom env p s = (r, env') \<Longrightarrow> view env' = view env"
  by (auto simp: page_state_alter_def Let_def view_page split: if_splits prod.splits dest!: flash_write_keeps)

lemma entry_write_keeps: "entry_write rom env p e = (r, env') \<Longrightarrow> view env' = view env"
  by (auto simp: entry_write_def view_page split: if_splits prod.splits dest!: flash_write_keeps)

lemma entry_state_alter_keeps: "entry_state_alter rom env p i s = (r, env') \<Longrightarrow> view env' = view env"
  by (auto simp: entry_state_alter_def entry_states_table_write_def Let_def view_page
      split: if_splits sum.splits dest!: flash_write_keeps)

lemma copy_keeps: "copy_used_entries rom q p n i env = (ok, env') \<Longrightarrow> view env' = view env"
proof (induction n arbitrary: i env)
  case (Suc n)
  then show ?case
    by (auto split: if_splits sum.splits prod.splits dest!: Suc.IH entry_write_keeps entry_state_alter_keeps)
qed simp

lemma page_open_keeps: "page_open rom p seq env = (ok, env') \<Longrightarrow> view env' = view env"
  by (auto simp: page_open_def Let_def view_page page_clear_keeps split: if_splits prod.splits
      dest!: page_state_alter_keeps flash_write_keeps flash_erase_keeps)

end

definition page_lists :: "nvds_env \<Rightarrow> nat list \<times> nat list" where
  "page_lists env = (nv_free env, nv_used env)"

interpretation lists: page_view page_lists
  by unfold_locales (simp_all add: page_lists_def set_page_def)

lemma lists_upd [simp]:
  "page_lists (env\<lparr>nv_free := f\<rparr>) = (f, nv_used env)" "page_lists (env\<lparr>nv_used := u\<rparr>) = (nv_free env, u)"
  by (simp_all add: page_lists_def)

section \<open>Requesting a page\<close>

lemma recycle_lists:
  assumes "recycle_page rom q p env = (r, env')"
  shows "page_lists env' = (nv_free env @ [q], remove1 q (nv_used env))" and "r = None \<or> r = Some p"
  using assms
  by (auto simp: recycle_page_def Let_def lists.page_clear_keeps split: if_splits prod.splits
      dest!: lists.page_state_alter_keeps lists.copy_keeps lists.flash_erase_keeps)

lemma min_used_page_in: "min_used_page pg ps n q = Some p \<Longrightarrow> p \<in> set ps \<or> q = Some p"
  by (induction ps arbitrary: n q) (auto split: if_splits)

text \<open>
  The lists after a request: unchanged, or the first free page is moved to the end of the used
  pages and, when it was the last free page, a used page takes its place.
\<close>

lemma new_page_lists:
  assumes "new_page_request rom seq env = (r, env')"
  shows "(page_lists env' = page_lists env \<and> r = None) \<or>
    (\<exists>p ps. nv_free env = p # ps \<and> ps \<noteq> [] \<and> page_lists env' = (ps, nv_used env @ [p]) \<and> r = Some p) \<or>
    (\<exists>p q. nv_free env = [p] \<and> q \<in> set (nv_used env) \<and> page_lists env' = ([q], remove1 q (nv_used env) @ [p]) \<and>
       (r = None \<or> r = Some p))"
proof (cases "nv_free env")
  case Nil
  then show ?thesis using assms by (simp add: new_page_request_def)
next
  case (Cons p ps)
  define q where "q = (if length (nv_free env) = 1
    then min_used_page (nv_page env) (nv_used env) (of_nat ENTRY_COUNT_PER_PAGE) None else None)"
  show ?thesis
  proof (cases "length (nv_free env) = 1 \<and> q = None")
    case True
    then show ?thesis using assms Cons unfolding new_page_request_def q_def [symmetric] Let_def by simp
  next
    case False
    obtain ok env4 where o: "page_open rom p seq env = (ok, env4)" by fastforce
    let ?env5 = "env4\<lparr>nv_free := remove1 p (nv_free env4), nv_used := nv_used env4 @ [p]\<rparr>"
    have l4: "page_lists env4 = page_lists env" using lists.page_open_keeps [OF o] .
    then have f4: "nv_free env4 = p # ps" "nv_used env4 = nv_used env" using Cons by (simp_all add: page_lists_def)
    have res: "(r, env') = (if \<not> ok then (None, env4) else if ps \<noteq> [] then (Some p, ?env5) else recycle_page rom (the q) p ?env5)"
      using assms False o Cons f4 unfolding new_page_request_def q_def [symmetric] Let_def by auto
    show ?thesis
    proof (cases ok)
      case ok: True
      show ?thesis
      proof (cases "ps = []")
        case True
        then have "q \<noteq> None" using False Cons by simp
        then obtain k where k: "q = Some k" by blast
        then have kin: "k \<in> set (nv_used env)" using min_used_page_in by (fastforce simp: q_def split: if_splits)
        have "recycle_page rom k p ?env5 = (r, env')" using res ok True k by simp
        from recycle_lists [OF this] have "page_lists env' = ([k], remove1 k (nv_used env) @ [p])" "r = None \<or> r = Some p"
          using kin True by (simp_all add: f4 remove1_append)
        then show ?thesis using Cons True kin by blast
      next
        case False
        then have "page_lists env' = (ps, nv_used env @ [p])" "r = Some p" using res ok by (simp_all add: f4 page_lists_def)
        then show ?thesis using Cons False by blast
      qed
    next
      case False
      then show ?thesis using res l4 by auto
    qed
  qed
qed

text \<open>
  An erased storage with one open page, for the witnesses.
\<close>

definition nv_example_page :: page_env where
  "nv_example_page = \<lparr>pg_header = \<lparr>ph_magic = NVDS_FLASH_MAGIC, ph_version = NVDS_FLASH_VERSION, ph_state = PAGE_ACTIVE,
       ph_seqno = 0, ph_rsv = replicate 16 0xFF, ph_crc32 = 0\<rparr>,
     pg_states = replicate 8 0xFFFFFFFF, pg_base = 0, pg_cnt_used = 0, pg_next_free = 0\<rparr>"

definition nv_example :: nvds_env where
  "nv_example = \<lparr>nv_dev = \<lparr>fd_mem = \<lambda>_. 0xFF, fd_ofrg = (0, 0), fd_ofvr = 0, fd_irq_off = False, fd_unlocked = False,
       fd_handlers = [], fd_events = []\<rparr>, nv_base = 0x3F0000, nv_length = 0x2000, nv_page = \<lambda>_. nv_example_page,
     nv_free = [1], nv_used = [0], nv_ns = [], nv_ns_states = replicate 8 0\<rparr>"

text \<open>
  Property C10: requesting a page loses none. Whatever the flash functions return, and also when
  the request fails half way, every page is afterwards in the list of free pages or in the list
  of used pages as often as before, the list of free pages does not become empty, so that there
  is always an erased or erasable page to recycle into, and a page that is handed out is the
  first free one and is now the last used page, the one that the writing functions pick up.
\<close>

theorem nvds_pages_conserved:
  assumes "new_page_request rom seq env = (r, env')"
  shows "mset (nv_free env') + mset (nv_used env') = mset (nv_free env) + mset (nv_used env) \<and>
    (nv_free env \<noteq> [] \<longrightarrow> nv_free env' \<noteq> []) \<and>
    (\<forall>p. r = Some p \<longrightarrow> p = hd (nv_free env) \<and> nv_used env' \<noteq> [] \<and> last (nv_used env') = p)"
  using new_page_lists [OF assms] by (auto simp: page_lists_def)

theorem nvds_pages_conserved_witness:
  "\<exists>r env'. new_page_request ideal_flash 1 nv_example = (r, env') \<and>
     mset (nv_free env') + mset (nv_used env') = {#0, 1#} \<and> nv_free env' \<noteq> []"
proof -
  obtain r env' where e: "new_page_request ideal_flash 1 nv_example = (r, env')" by fastforce
  from nvds_pages_conserved [OF e] e show ?thesis
    by (intro exI [of _ r] exI [of _ env']) (simp add: nv_example_def add_mset_commute)
qed

end
