(* ===== verification/Nvds_Api.thy ===== *)
theory Nvds_Api
  imports Nvds_Put
begin

text \<open>
  Namespaces, the loading of the storage after a reset and the exported operations of
  \<open>nvds_flash.c\<close>. The results of allocations are arguments, as is whether the mutex could be
  taken. A string pointer that may be \<open>NULL\<close> is an option. The handle of the storage is the
  state \<open>nvds_env\<close>, which is the internal storage when the handle is \<open>NULL\<close>.
\<close>

section \<open>Namespaces\<close>

definition namespace_create ::
    "rom_flash \<Rightarrow> bool \<Rightarrow> u8 list \<Rightarrow> nvds_env \<Rightarrow> (nvds_ret \<times> u8 \<times> nvds_env) option" where
  "namespace_create rom malloc_ok namespace env =
     (case find (\<lambda>i. \<not> ns_state_get (nv_ns_states env) (of_nat i)) [1..<unat NAMESPACE_NULL_IDX] of
        None \<Rightarrow> Some (NVDS_E_NO_SPACE, 0, env)
      | Some i \<Rightarrow>
          if \<not> malloc_ok then Some (NVDS_E_NO_SPACE, 0, env)
          else
          let ns_idx = of_nat i in
          (case data_element_put rom 0 namespace [ns_idx] 1 env of
             None \<Rightarrow> None
           | Some (ret, env) \<Rightarrow>
               if ret \<noteq> NVDS_OK then Some (ret, 0, env)
               else Some (NVDS_OK, ns_idx,
                 env\<lparr>nv_ns_states := ns_state_set (nv_ns_states env) ns_idx True,
                     nv_ns := nv_ns env @ [\<lparr>ns_name = namespace, ns_index = ns_idx, ns_used_cnt = 0\<rparr>]\<rparr>)))"

definition ns_index_by_namespace ::
    "rom_flash \<Rightarrow> bool \<Rightarrow> u8 list option \<Rightarrow> bool \<Rightarrow> nvds_env \<Rightarrow> (nvds_ret \<times> u8 \<times> nvds_env) option" where
  "ns_index_by_namespace rom malloc_ok namespace create env =
     (case namespace of
        None \<Rightarrow> Some (NVDS_OK, NAMESPACE_NULL_IDX, env)
      | Some name \<Rightarrow>
          if length name > KEY_NAME_MAX_SIZE - 1 then Some (NVDS_E_INVAL_PARAM, 0, env)
          else case find (\<lambda>ns. length (ns_name ns) = length name \<and> ns_name ns = name) (nv_ns env) of
            Some ns \<Rightarrow> Some (NVDS_OK, ns_index ns, env)
          | None \<Rightarrow>
              if create then namespace_create rom malloc_ok name env
              else Some (NVDS_E_NOT_FOUND, 0, env))"

section \<open>Loading\<close>

text \<open>
  The check that a page marked uninitialised is erased: the blocks \<open>n\<close> to 7 of 512 bytes.
\<close>

fun page_blank :: "rom_flash \<Rightarrow> nvds_env \<Rightarrow> u32 \<Rightarrow> nat list \<Rightarrow> u16" where
  "page_blank rom env base [] = PAGE_UNINITIALIZED"
| "page_blank rom env base (k # ks) =
     (case nvds_flash_read rom env (base + of_nat PAGE_HEADER_OFFSET + of_nat (512 * k)) 512 of
        Inl _ \<Rightarrow> PAGE_INVALID
      | Inr bs \<Rightarrow> if list_all (\<lambda>b. b = 0xFF) bs then page_blank rom env base ks else PAGE_ERROR)"

definition page_header_read :: "rom_flash \<Rightarrow> nat \<Rightarrow> nvds_env \<Rightarrow> nvds_env" where
  "page_header_read rom p env =
     (let base = pg_base (nv_page env p);
          set_hdr = (\<lambda>h. set_page p (\<lambda>pg. pg\<lparr>pg_header := h\<rparr>) env) in
      case nvds_flash_read rom env (base + of_nat PAGE_HEADER_OFFSET) 32 of
        Inl _ \<Rightarrow> set_hdr ((pg_header (nv_page env p))\<lparr>ph_state := PAGE_INVALID\<rparr>)
      | Inr b \<Rightarrow>
          let header = bytes_header b in
          if ph_state header = PAGE_UNINITIALIZED
          then set_hdr (header\<lparr>ph_state := page_blank rom env base [0..<8]\<rparr>)
          else if ph_crc32 header \<noteq> page_header_crc32_calc header then set_hdr (header\<lparr>ph_state := PAGE_ERROR\<rparr>)
          else if ph_magic header \<noteq> NVDS_FLASH_MAGIC then set_hdr (header\<lparr>ph_state := PAGE_ERROR\<rparr>)
          else set_hdr header)"

definition cmp_sequence_no :: "page_env \<Rightarrow> page_env \<Rightarrow> bool" where
  "cmp_sequence_no a b \<longleftrightarrow>
     ph_seqno (pg_header a) AND NOT 0x80000000 < ph_seqno (pg_header b) AND NOT 0x80000000"

text \<open>
  \<open>list_insert\<close> with \<open>cmp_sequence_no\<close>: in front of the first page with a larger number.
\<close>

fun insert_page :: "(nat \<Rightarrow> page_env) \<Rightarrow> nat \<Rightarrow> nat list \<Rightarrow> nat list" where
  "insert_page pg p [] = [p]"
| "insert_page pg p (q # qs) =
     (if cmp_sequence_no (pg p) (pg q) then p # q # qs else q # insert_page pg p qs)"

datatype load_result = Load_ok | Load_is_err | Load_no_mem

text \<open>
  The walk over the entries of a page when it is loaded. \<open>alloc_ns\<close> says for which entries a
  namespace record can be allocated.
\<close>

function load_entries ::
    "rom_flash \<Rightarrow> (nat \<Rightarrow> bool) \<Rightarrow> nat \<Rightarrow> nat \<Rightarrow> nvds_env \<Rightarrow> load_result \<times> nvds_env" where
  "load_entries rom alloc_ns p entry_idx env =
     (if entry_idx \<ge> ENTRY_COUNT_PER_PAGE then (Load_ok, env)
      else
        let idx = (of_nat entry_idx :: u8);
            state = (case entry_state_get (pg_states (nv_page env p)) idx of Inr s \<Rightarrow> s | Inl _ \<Rightarrow> ENTRY_ERROR) in
        if state = ENTRY_FREE
        then (Load_ok, set_page p (\<lambda>pg. pg\<lparr>pg_next_free := of_nat entry_idx\<rparr>) env)
        else if state = ENTRY_ILLEGAL
        then load_entries rom alloc_ns p (entry_idx + 1) (snd (entry_state_alter rom env p idx ENTRY_UPDATED))
        else if state = ENTRY_UPDATED then load_entries rom alloc_ns p (entry_idx + 1) env
        else case entry_read rom env p idx of
          Inl _ \<Rightarrow> (Load_is_err, env)
        | Inr entry \<Rightarrow>
            let env = (if entry_crc32 entry \<noteq> element_header_crc32_calc entry
                       then snd (entry_state_alter rom env p idx ENTRY_UPDATED) else env);
                is_ns = (tag_namespace_get (entry_tag entry) = 0) in
            if is_ns \<and> \<not> alloc_ns entry_idx then (Load_no_mem, env)
            else
              let env = (if is_ns
                    then env\<lparr>nv_ns := nv_ns env @ [\<lparr>ns_name = entry_key entry, ns_index = entry_value entry ! 0,
                               ns_used_cnt = 0\<rparr>],
                             nv_ns_states := ns_state_set (nv_ns_states env) (entry_value entry ! 0) True\<rparr>
                    else env);
                  cnt = (if has_data (tag_element_type_get (entry_tag entry))
                         then data_entries (unat (entry_length entry)) else 0)
              in load_entries rom alloc_ns p (entry_idx + 1 + cnt)
                   (set_page p (\<lambda>pg. pg\<lparr>pg_cnt_used := pg_cnt_used pg + 1 + of_nat cnt\<rparr>) env))"
  by pat_completeness auto
termination by (relation "measure (\<lambda>(_, _, _, i, _). ENTRY_COUNT_PER_PAGE - i)") auto

definition zero_page :: page_env where
  "zero_page = \<lparr>pg_header = bytes_header (replicate 32 0), pg_states = replicate ENTRY_STATES_TABLE_SIZE 0,
     pg_base = 0, pg_cnt_used = 0, pg_next_free = 0\<rparr>"

text \<open>
  The loop over the sectors. \<open>is_err\<close> is never reset, as in the code. The result is \<open>True\<close>
  unless an allocation failed.
\<close>

fun load_sectors ::
    "rom_flash \<Rightarrow> (nat \<Rightarrow> bool) \<Rightarrow> (nat \<Rightarrow> nat \<Rightarrow> bool) \<Rightarrow> nat list \<Rightarrow> bool \<Rightarrow> nvds_env \<Rightarrow> bool \<times> nvds_env" where
  "load_sectors rom alloc_page alloc_ns [] is_err env = (True, env)"
| "load_sectors rom alloc_page alloc_ns (p # ps) is_err env =
     (if \<not> alloc_page p then (False, env)
      else
        let env = set_page p (\<lambda>_. zero_page\<lparr>pg_base := of_nat (p * SPI_FLASH_SEC_SIZE)\<rparr>) env;
            env = page_header_read rom p env;
            st = ph_state (pg_header (nv_page env p)) in
        if st = PAGE_UNINITIALIZED \<or> st = PAGE_ERROR \<or> st = PAGE_INVALID
        then load_sectors rom alloc_page alloc_ns ps is_err (env\<lparr>nv_free := nv_free env @ [p]\<rparr>)
        else case entry_states_table_read rom env (pg_base (nv_page env p)) of
          Inl _ \<Rightarrow> load_sectors rom alloc_page alloc_ns ps is_err (env\<lparr>nv_free := nv_free env @ [p]\<rparr>)
        | Inr states \<Rightarrow>
            let env = set_page p (\<lambda>pg. pg\<lparr>pg_states := states, pg_next_free := of_nat ENTRY_COUNT_PER_PAGE,
                        pg_cnt_used := 0\<rparr>) env in
            (case load_entries rom (alloc_ns p) p 0 env of
               (Load_no_mem, env) \<Rightarrow> (False, env)
             | (r, env) \<Rightarrow>
                 let is_err = (is_err \<or> r = Load_is_err);
                     env = (if is_err then env\<lparr>nv_free := nv_free env @ [p]\<rparr>
                            else env\<lparr>nv_used := insert_page (nv_page env) p (nv_used env)\<rparr>)
                 in load_sectors rom alloc_page alloc_ns ps is_err env))"

text \<open>
  The walk over a used page that counts the elements of the namespaces.
\<close>

function count_entries :: "rom_flash \<Rightarrow> nat \<Rightarrow> nat \<Rightarrow> nvds_env \<Rightarrow> nvds_env" where
  "count_entries rom p entry_idx env =
     (if entry_idx \<ge> ENTRY_COUNT_PER_PAGE then env
      else case entry_read rom env p (of_nat entry_idx) of
        Inl _ \<Rightarrow> env
      | Inr entry \<Rightarrow>
          let env = (if entry_state_get (pg_states (nv_page env p)) (of_nat entry_idx) = Inr ENTRY_USED
                then env\<lparr>nv_ns := ns_update (tag_namespace_get (entry_tag entry))
                           (\<lambda>ns. ns\<lparr>ns_used_cnt := ns_used_cnt ns + 1\<rparr>) (nv_ns env)\<rparr>
                else env);
              cnt = (if has_data (tag_element_type_get (entry_tag entry))
                     then data_entries (unat (entry_length entry)) else 0)
          in count_entries rom p (entry_idx + 1 + cnt) env)"
  by pat_completeness auto
termination by (relation "measure (\<lambda>(_, _, i, _). ENTRY_COUNT_PER_PAGE - i)") auto

definition pages_load ::
    "rom_flash \<Rightarrow> (nat \<Rightarrow> bool) \<Rightarrow> (nat \<Rightarrow> nat \<Rightarrow> bool) \<Rightarrow> nvds_env \<Rightarrow> nvds_ret \<times> nvds_env" where
  "pages_load rom alloc_page alloc_ns env =
     (if unat (nv_length env) mod SPI_FLASH_SEC_SIZE \<noteq> 0 then (NVDS_E_INVAL_PARAM, env)
      else
        case load_sectors rom alloc_page alloc_ns [0..<unat (nv_length env) div SPI_FLASH_SEC_SIZE] False env of
          (False, env) \<Rightarrow> (NVDS_E_NO_SPACE, env)
        | (True, env) \<Rightarrow>
            let env = fold (\<lambda>p. count_entries rom p 0) (nv_used env) env
            in (NVDS_OK, if nv_used env = [] then snd (new_page_request rom 0 env) else env))"

text \<open>
  The part of \<open>nvds_flash_env_init\<close> that concerns one storage.
\<close>

definition nvds_env_load ::
    "rom_flash \<Rightarrow> (nat \<Rightarrow> bool) \<Rightarrow> (nat \<Rightarrow> nat \<Rightarrow> bool) \<Rightarrow> u32 \<Rightarrow> u32 \<Rightarrow> nvds_env \<Rightarrow> nvds_ret \<times> nvds_env" where
  "nvds_env_load rom alloc_page alloc_ns start_adr sz env =
     pages_load rom alloc_page alloc_ns (env\<lparr>nv_base := start_adr, nv_length := sz\<rparr>)"

section \<open>Exported operations\<close>

definition nvds_data_put ::
    "rom_flash \<Rightarrow> bool \<Rightarrow> bool \<Rightarrow> u8 list option \<Rightarrow> u8 list option \<Rightarrow> u8 list option \<Rightarrow> u32 \<Rightarrow> nvds_env
      \<Rightarrow> (nvds_ret \<times> nvds_env) option" where
  "nvds_data_put rom mutex_ok malloc_ok namespace key data len env =
     (case (key, data) of
        (Some key, Some data) \<Rightarrow>
          if len = 0 \<or> unat len > ELEMENT_BULK_MAX_SIZE \<or> length key > KEY_NAME_MAX_SIZE - 1
          then Some (NVDS_E_INVAL_PARAM, env)
          else if \<not> mutex_ok then Some (NVDS_E_FAIL, env)
          else
          (case ns_index_by_namespace rom malloc_ok namespace True env of
             None \<Rightarrow> None
           | Some (ret, ns_idx, env) \<Rightarrow>
               if ret \<noteq> NVDS_OK then Some (ret, env)
               else map_option (\<lambda>(ret, env). (ret, if ret = NVDS_OK then snd (ns_add_used_cnt ns_idx env) else env))
                      (data_element_put rom ns_idx key data len env))
      | _ \<Rightarrow> Some (NVDS_E_INVAL_PARAM, env))"

definition nvds_data_get ::
    "rom_flash \<Rightarrow> bool \<Rightarrow> u8 list option \<Rightarrow> u8 list option \<Rightarrow> u8 list option \<Rightarrow> u32 option \<Rightarrow> nvds_env
      \<Rightarrow> (nvds_ret \<times> u32 option \<times> u8 list option) option" where
  "nvds_data_get rom mutex_ok namespace key data len env =
     (case (key, len) of
        (Some key, Some n) \<Rightarrow>
          if length key > KEY_NAME_MAX_SIZE - 1 then Some (NVDS_E_INVAL_PARAM, len, data)
          else if \<not> mutex_ok then Some (NVDS_E_FAIL, len, data)
          else
          (case ns_index_by_namespace rom False namespace False env of
             None \<Rightarrow> None
           | Some (ret, ns_idx, _) \<Rightarrow>
               if ret \<noteq> NVDS_OK then Some (ret, len, data)
               else map_option (\<lambda>(ret, n, data). (ret, Some n, data))
                      (data_element_get rom env ns_idx key data n))
      | _ \<Rightarrow> Some (NVDS_E_INVAL_PARAM, len, data))"

definition nvds_data_del ::
    "rom_flash \<Rightarrow> bool \<Rightarrow> u8 list option \<Rightarrow> u8 list option \<Rightarrow> nvds_env \<Rightarrow> (nvds_ret \<times> nvds_env) option" where
  "nvds_data_del rom mutex_ok namespace key env =
     (case key of
        None \<Rightarrow> Some (NVDS_E_INVAL_PARAM, env)
      | Some key \<Rightarrow>
          if length key > KEY_NAME_MAX_SIZE - 1 then Some (NVDS_E_INVAL_PARAM, env)
          else if \<not> mutex_ok then Some (NVDS_E_FAIL, env)
          else
          (case ns_index_by_namespace rom False namespace False env of
             None \<Rightarrow> None
           | Some (ret, ns_idx, env) \<Rightarrow>
               if ret \<noteq> NVDS_OK then Some (ret, env)
               else
               (case data_element_del rom ns_idx key env of
                  None \<Rightarrow> None
                | Some (ret, env) \<Rightarrow>
                    if ret = NVDS_OK
                    then map_option (\<lambda>(_, env). (ret, env)) (ns_del_used_cnt rom ns_idx True env)
                    else Some (ret, env))))"

definition nvds_data_find ::
    "rom_flash \<Rightarrow> bool \<Rightarrow> u8 list option \<Rightarrow> u8 list option \<Rightarrow> nvds_env \<Rightarrow> nvds_ret option" where
  "nvds_data_find rom mutex_ok namespace key env =
     (case key of
        None \<Rightarrow> Some NVDS_E_INVAL_PARAM
      | Some key \<Rightarrow>
          if length key > KEY_NAME_MAX_SIZE - 1 then Some NVDS_E_INVAL_PARAM
          else if \<not> mutex_ok then Some NVDS_E_FAIL
          else
          (case ns_index_by_namespace rom False namespace False env of
             None \<Rightarrow> None
           | Some (ret, ns_idx, _) \<Rightarrow>
               if ret \<noteq> NVDS_OK then Some ret else data_element_find rom env ns_idx key))"

text \<open>
  \<open>nvds_find_keys_by_namespace\<close>: the calls of the callback, as pairs of key and length.
\<close>

partial_function (option) keys_in_page ::
    "rom_flash \<Rightarrow> nvds_env \<Rightarrow> u8 \<Rightarrow> nat \<Rightarrow> u8 \<Rightarrow> (u8 list \<times> u16) list \<Rightarrow> (nvds_ret \<times> (u8 list \<times> u16) list) option" where
  "keys_in_page rom env ns_idx p entry_idx calls =
     (if unat entry_idx < ENTRY_COUNT_PER_PAGE then
        (case entry_state_get (pg_states (nv_page env p)) entry_idx of
           Inl e \<Rightarrow> Some (e, calls)
         | Inr state \<Rightarrow>
             if state = ENTRY_FREE then Some (NVDS_OK, calls)
             else (case entry_read rom env p entry_idx of
                     Inl e \<Rightarrow> Some (e, calls)
                   | Inr entry \<Rightarrow>
                       keys_in_page rom env ns_idx p (entry_skip entry entry_idx)
                         (if state = ENTRY_USED \<and> tag_namespace_get (entry_tag entry) = ns_idx \<and>
                             tag_element_type_get (entry_tag entry) \<noteq> ELEMENT_BULK
                          then calls @ [(entry_key entry, entry_length entry)] else calls)))
      else Some (NVDS_OK, calls))"

fun keys_in_pages ::
    "rom_flash \<Rightarrow> nvds_env \<Rightarrow> u8 \<Rightarrow> nat list \<Rightarrow> (u8 list \<times> u16) list \<Rightarrow> (nvds_ret \<times> (u8 list \<times> u16) list) option" where
  "keys_in_pages rom env ns_idx [] calls = Some (NVDS_OK, calls)"
| "keys_in_pages rom env ns_idx (p # ps) calls =
     (let st = ph_state (pg_header (nv_page env p)) in
      if st \<noteq> PAGE_ACTIVE \<and> st \<noteq> PAGE_FULL then keys_in_pages rom env ns_idx ps calls
      else case keys_in_page rom env ns_idx p 0 calls of
        None \<Rightarrow> None
      | Some (ret, calls) \<Rightarrow>
          if ret \<noteq> NVDS_OK then Some (ret, calls) else keys_in_pages rom env ns_idx ps calls)"

definition nvds_find_keys_by_namespace ::
    "rom_flash \<Rightarrow> u8 list option \<Rightarrow> nvds_env \<Rightarrow> (nvds_ret \<times> (u8 list \<times> u16) list) option" where
  "nvds_find_keys_by_namespace rom namespace env =
     (case ns_index_by_namespace rom False namespace False env of
        None \<Rightarrow> None
      | Some (ret, ns_idx, _) \<Rightarrow>
          if ret \<noteq> NVDS_OK then Some (ret, []) else keys_in_pages rom env ns_idx (nv_used env) [])"

definition nvds_find_all_namespace :: "nvds_env \<Rightarrow> nvds_ret \<times> u8 list list" where
  "nvds_find_all_namespace env = (NVDS_OK, map ns_name (nv_ns env))"

end
