(* ===== verification/Nvds_Map.thy ===== *)
theory Nvds_Map
  imports Nvds_Append Nvds_Pages Nvds_Api
begin

text \<open>
  The storage as a finite map from namespace and key to a value: what \<open>data_element_put\<close>,
  \<open>data_element_get\<close> and \<open>data_element_del\<close> do to it.
\<close>

section \<open>Appending an item\<close>

lemma all_items_snoc:
  assumes "distinct ps" and "ps \<noteq> []" and "p = last ps"
  shows "all_items (I(p := I p @ [it])) ps = all_items I ps @ [it]"
proof -
  obtain qs where ps: "ps = qs @ [p]" using assms(2,3) by (metis append_butlast_last_id)
  then have "p \<notin> set qs" using assms(1) by auto
  then have m: "map (I(p := x)) qs = map I qs" for x by auto
  show ?thesis unfolding all_items_def ps map_append list.map m by simp
qed

lemma items_good_snoc:
  assumes good: "items_good its" and none: "filter (matches ns key) its = []"
    and m: "\<And>ns' key'. matches ns' key' it \<longleftrightarrow> ns' = ns \<and> key' = key" and ok: "item_ok it"
  shows "items_good (its @ [it])"
  unfolding items_good_def
proof (intro allI impI)
  fix ns' key' x
  assume a: "x \<in> set (its @ [it]) \<and> matches ns' key' x \<and> plain x"
  show "item_ok x \<and> filter (matches ns' key') (its @ [it]) = [x]"
  proof (cases "ns' = ns \<and> key' = key")
    case True
    then have "x \<notin> set its" using a none by (auto simp: filter_empty_conv)
    then show ?thesis using a True none m ok by simp
  next
    case False
    then have "x \<in> set its" using a m by auto
    then show ?thesis using items_goodD [OF good, of x ns' key'] a False m by simp
  qed
qed

text \<open>
  The store with the value of one key replaced, at the cost of at most \<open>k\<close> entries of the page
  that is written.
\<close>

definition ns_table :: "nvds_env \<Rightarrow> (u8 list \<times> u8) list" where
  "ns_table env = map (\<lambda>ns. (ns_name ns, ns_index ns)) (nv_ns env)"

definition nv_updated ::
    "nvds_env \<Rightarrow> (nat \<Rightarrow> item list) \<Rightarrow> u8 \<Rightarrow> u8 list \<Rightarrow> u8 list option \<Rightarrow> nat \<Rightarrow> nvds_env \<Rightarrow> (nat \<Rightarrow> item list) \<Rightarrow> bool" where
  "nv_updated env I ns key v k env' I' \<longleftrightarrow> nv_store env' I' \<and> nv_used env' = nv_used env \<and>
     ns_table env' = ns_table env \<and> next_free env' (last (nv_used env)) \<le> next_free env (last (nv_used env)) + k \<and>
     (\<forall>ns' key'. \<not> (ns' = ns \<and> key' = key) \<longrightarrow> nv_item env' I' ns' key' = nv_item env I ns' key') \<and>
     nv_value env' I' ns key = v \<and> (\<forall>it. nv_item env' I' ns key = Some it \<longrightarrow> plain it) \<and> nv_kept env I env' I'"

lemma retires_updated: "retires env I ns key env' I' \<Longrightarrow> nv_updated env I ns key None 0 env' I'"
  by (simp add: retires_def nv_updated_def nv_value_def ns_table_def)

definition value_entries :: "u8 list \<Rightarrow> nat" where
  "value_entries v = 1 + (if length v \<le> 8 then 0 else data_entries (length v))"

lemma map_ns_update:
  "(\<And>ns. (ns_name (f ns), ns_index (f ns)) = (ns_name ns, ns_index ns)) \<Longrightarrow>
     map (\<lambda>ns. (ns_name ns, ns_index ns)) (ns_update i f l) = map (\<lambda>ns. (ns_name ns, ns_index ns)) l"
  by (induction l) auto

lemma page_live_writable: "page_live env I p \<Longrightarrow> \<not> page_unwritable (nv_page env p)"
  by (auto simp: page_live_def page_unwritable_def page_states)

lemma nv_store_ns [simp]: "nv_store (env\<lparr>nv_ns := l\<rparr>) I \<longleftrightarrow> nv_store env I"
  by (simp add: nv_store_good)

lemma nv_item_ns [simp]: "nv_item (env\<lparr>nv_ns := l\<rparr>) = nv_item env" "nv_value (env\<lparr>nv_ns := l\<rparr>) = nv_value env"
  by (simp_all add: nv_item_def nv_value_def fun_eq_iff)

lemma nv_store_item_ok: "nv_store env I \<Longrightarrow> nv_item env I ns key = Some it \<Longrightarrow> plain it \<Longrightarrow> item_ok it"
  unfolding nv_store_def nv_item_def by (metis (no_types, lifting) find_Some_iff nth_mem)

lemma nv_item_snoc:
  assumes "nv_item env I ns key = None" and "nv_used env' = nv_used env"
    and "all_items I' (nv_used env) = all_items I (nv_used env) @ [it]"
    and m: "\<And>ns' key'. matches ns' key' it \<longleftrightarrow> ns' = ns \<and> key' = key"
  shows "nv_item env' I' ns' key' = (if ns' = ns \<and> key' = key then Some it else nv_item env I ns' key')"
proof -
  have "find (matches ns key) (all_items I (nv_used env)) = None" using assms(1) by (simp add: nv_item_def)
  then have "filter (matches ns key) (all_items I (nv_used env)) = []" by (simp add: find_None_ball filter_empty_conv)
  then show ?thesis unfolding nv_item_filter assms(2,3) using m by auto
qed

context nor_flash
begin

lemma put_element_updated:
  assumes st: "nv_store env I" and key: "length key < 16" "0 \<notin> set key" and len: "length buf \<le> 256"
    and room: "\<not> no_room (nv_page env (last (nv_used env))) (of_nat (length buf))"
    and none: "nv_item env I ns key = None"
  obtains env' I' where "put_element rom ns key buf (of_nat (length buf)) (last (nv_used env)) env = (NVDS_OK, env')"
    and "nv_updated env I ns key (Some buf) (value_entries buf) env' I'"
proof -
  let ?p = "last (nv_used env)"
  define e where "e = plain_entry ns key buf"
  have inv: "nv_inv env I" and dist: "distinct (nv_used env)" and ne: "nv_used env \<noteq> []" and p: "?p \<in> set (nv_used env)"
    using st by (auto simp: nv_store_def nv_inv_def)
  note f = plain_entry_fields [OF key len e_def]
  from inv p key len room e_def show thesis
  proof (rule put_element_altered)
    fix env2 env3 dat
    assume put: "put_element rom ns key buf (of_nat (length buf)) ?p env = (NVDS_OK, env3)"
      and g: "grown env ?p (1 + item_cnt e) (e @ dat) env2"
      and a: "altered env2 ?p {next_free env ?p..next_free env ?p + item_cnt e} ENTRY_USED env3"
      and dat: "length dat \<le> 32 * item_cnt e" "8 < length buf \<Longrightarrow> dat = buf"
      and fit: "next_free env ?p + 1 + item_cnt e \<le> 126"
    obtain d where inv': "nv_inv env3 (I(?p := I ?p @ [(ENTRY_USED, e, d)]))" and d: "take (length dat) d = dat"
      using grown_altered_inv [OF inv p g a f(1) refl dat(1) fit] .
    let ?it = "(ENTRY_USED, e, d)" and ?I = "I(?p := I ?p @ [(ENTRY_USED, e, d)])"
    have "take (length buf) d = buf" if "8 < length buf" using d dat(2) that by simp
    note n = new_item [OF key len e_def this]
    have used: "nv_used env3 = nv_used env" "ns_table env3 = ns_table env"
      using g altered_fields(1,5) [OF a] by (simp_all add: grown_def ns_table_def)
    have "item_cnt e + 1 = value_entries buf"
      unfolding e_def item_cnt_plain_entry [OF key len] value_entries_def by simp
    then have nf: "next_free env3 ?p \<le> next_free env ?p + value_entries buf"
      using g altered_fields(12) [OF a, of ?p] by (simp add: grown_def)
    note all = all_items_snoc [OF dist ne refl, of I ?it]
    have "filter (matches ns key) (all_items I (nv_used env)) = []"
      using none by (simp add: nv_item_def find_None_ball filter_empty_conv)
    then have "items_good (all_items I (nv_used env) @ [?it])"
      using st n by (intro items_good_snoc [where ns = ns and key = key]) (auto simp: nv_store_good)
    then have "nv_store env3 ?I" using inv' unfolding nv_store_good used(1) all by simp
    moreover have "nv_item env3 ?I ns' key' = (if ns' = ns \<and> key' = key then Some ?it else nv_item env I ns' key')" for ns' key'
      by (rule nv_item_snoc [OF none used(1) all n(4)])
    moreover have "nv_kept env2 I env3 ?I"
    proof (rule altered_kept [OF a])
      show "?p \<in> set (nv_used env2)" using p g by (simp add: grown_def)
      show "items_clean (all_items ?I (nv_used env2))" if "items_clean (all_items I (nv_used env2))"
        using that g all f(4-6) by (auto simp: grown_def items_clean_def element_types)
    qed
    moreover have "nv_kept env I env2 I"
    proof -
      have "nv_img env2 (4096 * q + j) = nv_img env (4096 * q + j)" if "j < 32 \<or> q \<notin> set (nv_used env) \<and> j < 4096" for q j
        using that p f(1) dat(1) by (intro grown_kept_img [OF g _ fit]) auto
      moreover have "pg_header (nv_page env2 q) = pg_header (nv_page env q)" for q
        using g by (cases "q = ?p") (simp_all add: grown_def)
      ultimately show ?thesis using g by (simp add: nv_kept_def grown_def)
    qed
    ultimately have "nv_updated env I ns key (Some buf) (value_entries buf) env3 ?I"
      using n(1,2) used nf nv_kept_trans [of env I env2 I env3 ?I] by (simp add: nv_updated_def nv_value_def)
    with put show thesis by (rule that)
  qed
qed

text \<open>
  The namespace counters do not touch the elements.
\<close>

lemma ns_del_used_cnt_keep:
  obtains r l where "ns_del_used_cnt rom ns False env = Some (r, env\<lparr>nv_ns := l\<rparr>)"
    and "ns_table (env\<lparr>nv_ns := l\<rparr>) = ns_table env"
proof -
  show thesis
  proof (cases "ns > NAMESPACE_MAX_CNT")
    case True
    then show thesis using that [of NVDS_E_INVAL_PARAM "nv_ns env"] by (simp add: ns_del_used_cnt_def ns_table_def)
  next
    case False
    then show thesis
      by (intro that [of _ "ns_update ns (\<lambda>ns. ns\<lparr>ns_used_cnt := ns_used_cnt ns - 1\<rparr>) (nv_ns env)"])
        (auto simp: ns_del_used_cnt_def Let_def ns_table_def map_ns_update split: option.splits)
  qed
qed

lemma put_new_updated:
  assumes st: "nv_store env I" and key: "length key < 16" "0 \<notin> set key" and len: "length buf \<le> 256"
    and room: "\<not> no_room (nv_page env (last (nv_used env))) (of_nat (length buf))"
    and none: "nv_item env I ns key = None"
  obtains env' I' where "put_new rom ns key buf (of_nat (length buf)) env = (NVDS_OK, env')"
    and "nv_updated env I ns key (Some buf) (value_entries buf) env' I'"
proof -
  have "page_live env I (last (nv_used env))" using st by (auto simp: nv_store_def nv_inv_def)
  then have "\<not> page_unwritable (nv_page env (last (nv_used env)))" by (rule page_live_writable)
  moreover obtain env' I' where "put_element rom ns key buf (of_nat (length buf)) (last (nv_used env)) env = (NVDS_OK, env')"
    and "nv_updated env I ns key (Some buf) (value_entries buf) env' I'"
    using put_element_updated [OF assms] .
  ultimately show thesis using room by (intro that [of env' I']) (simp_all add: put_new_def)
qed

text \<open>
  Deleting and writing, as updates of the map.
\<close>

lemma data_element_put_updated:
  assumes st: "nv_store env I" and key: "length key < 16" "0 \<notin> set key" and len: "length buf \<le> 256"
    and room: "\<not> no_room (nv_page env (last (nv_used env))) (of_nat (length buf))"
    and pl: "\<And>it. nv_item env I ns key = Some it \<Longrightarrow> plain it"
  obtains env' I' where "data_element_put rom ns key buf (of_nat (length buf)) env = Some (NVDS_OK, env')"
    and "nv_updated env I ns key (Some buf) (value_entries buf) env' I'"
proof -
  have inv: "nv_inv env I" using st by (simp add: nv_store_def)
  have un: "unat (of_nat (length buf) :: u32) = length buf" using len by (intro unat_of_nat_small) simp
  show thesis
  proof (cases "nv_item env I ns key")
    case None
    obtain env' I' where "put_new rom ns key buf (of_nat (length buf)) env = (NVDS_OK, env')"
      and u: "nv_updated env I ns key (Some buf) (value_entries buf) env' I'"
      using put_new_updated [OF st key len room None] .
    then have "data_element_put rom ns key buf (of_nat (length buf)) env = Some (NVDS_OK, env')"
      using element_compare_absent [OF inv None] data_element_del_absent [OF inv None] un len
      by (simp add: data_element_put_def)
    then show thesis using u by (rule that)
  next
    case (Some it)
    then obtain s e d where it: "nv_item env I ns key = Some (s, e, d)" by (cases it) auto
    have p: "plain (s, e, d)" using pl [OF it] .
    have cmp: "element_compare rom env ns key buf (of_nat (length buf))
        = Some (unat (entry_length e) = length buf \<and> buf = item_value (s, e, d))"
      using len by (intro element_compare_plain [OF inv it p refl]) simp
    show thesis
    proof (cases "unat (entry_length e) = length buf \<and> buf = item_value (s, e, d)")
      case True
      obtain r l where ns: "ns_del_used_cnt rom ns False env = Some (r, env\<lparr>nv_ns := l\<rparr>)"
        and tab: "ns_table (env\<lparr>nv_ns := l\<rparr>) = ns_table env"
        using ns_del_used_cnt_keep .
      have "nv_updated env I ns key (Some buf) (value_entries buf) (env\<lparr>nv_ns := l\<rparr>) I"
        using st it p True tab by (auto simp: nv_updated_def nv_value_def)
      moreover have "data_element_put rom ns key buf (of_nat (length buf)) env = Some (NVDS_OK, env\<lparr>nv_ns := l\<rparr>)"
        using True cmp ns by (simp add: data_element_put_def)
      ultimately show thesis by (intro that)
    next
      case False
      from st it p show thesis
      proof (rule data_element_del_plain)
        fix env1 q xs ys
        let ?I1 = "I(q := xs @ (ENTRY_UPDATED, e, d) # ys)"
        assume del: "data_element_del rom ns key env = Some (NVDS_OK, env1)" and rt: "retires env I ns key env1 ?I1"
        define I1 where "I1 = ?I1"
        have nss: "nv_ns env1 = nv_ns env" and st1: "nv_store env1 I1" and used: "nv_used env1 = nv_used env"
          and nf: "\<And>q. pg_next_free (nv_page env1 q) = pg_next_free (nv_page env q)" and kept: "nv_kept env I env1 I1"
          and item: "\<And>ns' key'. nv_item env1 I1 ns' key' = (if ns' = ns \<and> key' = key then None else nv_item env I ns' key')"
          using rt by (simp_all add: retires_def I1_def)
        obtain r l where ns: "ns_del_used_cnt rom ns False env1 = Some (r, env1\<lparr>nv_ns := l\<rparr>)"
          and tab: "ns_table (env1\<lparr>nv_ns := l\<rparr>) = ns_table env1"
          using ns_del_used_cnt_keep .
        have room1: "\<not> no_room (nv_page (env1\<lparr>nv_ns := l\<rparr>) (last (nv_used (env1\<lparr>nv_ns := l\<rparr>)))) (of_nat (length buf))"
          using room nf used by (simp add: no_room_def page_room_get_def)
        obtain env' I' where put: "put_new rom ns key buf (of_nat (length buf)) (env1\<lparr>nv_ns := l\<rparr>) = (NVDS_OK, env')"
          and u: "nv_updated (env1\<lparr>nv_ns := l\<rparr>) I1 ns key (Some buf) (value_entries buf) env' I'"
          using put_new_updated [OF _ key len room1, of I1 ns] st1 item by auto
        have "element_compare rom env ns key buf (of_nat (length buf)) = Some False" using cmp False by simp
        then have "data_element_put rom ns key buf (of_nat (length buf)) env = Some (NVDS_OK, env')"
          using del ns put un len by (simp add: data_element_put_def)
        moreover have "nv_kept (env1\<lparr>nv_ns := l\<rparr>) I1 env' I'" using u by (simp add: nv_updated_def)
        then have "nv_kept env I env' I'"
          using nv_kept_trans [OF nv_kept_trans [OF kept nv_kept_refl(2)]] by blast
        then have "nv_updated env I ns key (Some buf) (value_entries buf) env' I'"
          using u item nf used tab nss by (simp add: nv_updated_def nv_value_def ns_table_def)
        ultimately show thesis by (rule that)
      qed
    qed
  qed
qed

lemma item_value_length:
  assumes inv: "nv_inv env I" and it: "nv_item env I ns key = Some (s, e, d)" and pl: "plain (s, e, d)"
    and ok: "item_ok (s, e, d)"
  shows "length (item_value (s, e, d)) = unat (entry_length e)"
proof -
  from inv it show ?thesis
  proof (rule item_found)
    fix p xs ys
    assume r: "entry_read rom env p (of_nat (items_size xs)) = Inr e" and live: "page_live env I p"
      and b: "items_size xs + item_cnt e < 126"
      and d: "d = img_bytes env (4096 * p + 64 + 32 * (items_size xs + 1)) (32 * item_cnt e)"
    have "entry_read rom env p (of_nat (items_size xs)) = Inr (ent env p (items_size xs))"
      using entry_read_ent [of env p "of_nat (items_size xs)"] live inv b
      by (simp add: page_live_def nv_inv_def unat_small_u8)
    with r have "length e = 32" by auto
    moreover have "unat (entry_length e) \<le> 32 * data_entries (unat (entry_length e))" by (rule data_entries_bound)
    ultimately show ?thesis
      using pl ok d by (auto simp: item_value_def item_ok_def plain_def entry_value_def mem_get_def plain_cnt min_absorb2)
  qed
qed

lemma get_of_value:
  assumes st: "nv_store env I" and v: "nv_value env I ns key = Some buf"
    and pl: "\<And>it. nv_item env I ns key = Some it \<Longrightarrow> plain it" and n: "length buf \<le> length out" "length out < 2 ^ 32"
  shows "data_element_get rom env ns key (Some out) (of_nat (length out)) =
    Some (NVDS_OK, of_nat (length buf), Some (mem_put out 0 buf))"
proof -
  obtain s e d where it: "nv_item env I ns key = Some (s, e, d)" and val: "item_value (s, e, d) = buf"
    using v by (auto simp: nv_value_def)
  have inv: "nv_inv env I" and p: "plain (s, e, d)" using st pl [OF it] by (auto simp: nv_store_def)
  have ok: "item_ok (s, e, d)" by (rule nv_store_item_ok [OF st it p])
  have l: "unat (entry_length e) = length buf" using item_value_length [OF inv it p ok] val by simp
  have u: "unat (of_nat (length out) :: u32) = length out" using n(2) by (intro unat_of_nat_small) simp
  have l32: "(ucast (entry_length e) :: u32) = of_nat (length buf)" unfolding l [symmetric] by simp
  have "(ucast (entry_length e) :: u32) \<le> of_nat (length out)"
    unfolding l32 using n by (simp add: word_le_nat_alt u unsigned_of_nat take_bit_nat_eq_self)
  then show ?thesis
    using data_element_get_value [OF inv it p ok, of "of_nat (length out)" out] val u l32 by simp
qed

lemma data_element_del_updated:
  assumes st: "nv_store env I" and pl: "\<And>it. nv_item env I ns key = Some it \<Longrightarrow> plain it"
  obtains env' I' where "data_element_del rom ns key env =
      Some (if nv_value env I ns key = None then NVDS_E_NOT_FOUND else NVDS_OK, env')"
    and "nv_updated env I ns key None 0 env' I'"
proof (cases "nv_item env I ns key")
  case None
  then show thesis
    using data_element_del_absent [of env I ns key] st
    by (intro that [of env I]) (auto simp: nv_store_def nv_updated_def nv_value_def)
next
  case (Some it)
  then obtain s e d where it: "nv_item env I ns key = Some (s, e, d)" by (cases it) auto
  from st it pl [OF it] show thesis
  proof (rule data_element_del_plain)
    fix env1 p xs ys
    assume "data_element_del rom ns key env = Some (NVDS_OK, env1)"
      and "retires env I ns key env1 (I(p := xs @ (ENTRY_UPDATED, e, d) # ys))"
    then show thesis
      by (intro that [of env1 "I(p := xs @ (ENTRY_UPDATED, e, d) # ys)"]) (simp_all add: retires_updated nv_value_def it)
  qed
qed

end

section \<open>Refinement of a finite map\<close>

text \<open>
  Requests to the element layer, their effect on the abstract map, and the map itself.
\<close>

datatype nv_op = Nv_put u8 "u8 list" "u8 list" | Nv_del u8 "u8 list"

fun nv_step :: "rom_flash \<Rightarrow> nv_op \<Rightarrow> nvds_env \<Rightarrow> (nvds_ret \<times> nvds_env) option" where
  "nv_step rom (Nv_put ns key v) env = data_element_put rom ns key v (of_nat (length v)) env"
| "nv_step rom (Nv_del ns key) env = data_element_del rom ns key env"

fun spec_step :: "nv_op \<Rightarrow> (u8 \<times> u8 list \<rightharpoonup> u8 list) \<Rightarrow> nvds_ret \<times> (u8 \<times> u8 list \<rightharpoonup> u8 list)" where
  "spec_step (Nv_put ns key v) m = (NVDS_OK, m((ns, key) \<mapsto> v))"
| "spec_step (Nv_del ns key) m =
     (if m (ns, key) = None then NVDS_E_NOT_FOUND else NVDS_OK, m((ns, key) := None))"

fun op_entries :: "nv_op \<Rightarrow> nat" where
  "op_entries (Nv_put ns key v) = value_entries v"
| "op_entries (Nv_del ns key) = 0"

fun op_valid :: "nv_op \<Rightarrow> bool" where
  "op_valid (Nv_put ns key v) \<longleftrightarrow> length key < 16 \<and> 0 \<notin> set key \<and> length v \<le> 256"
| "op_valid (Nv_del ns key) \<longleftrightarrow> True"

definition nv_map :: "nvds_env \<Rightarrow> (nat \<Rightarrow> item list) \<Rightarrow> u8 \<times> u8 list \<rightharpoonup> u8 list" where
  "nv_map env I = (\<lambda>(ns, key). nv_value env I ns key)"

definition all_plain :: "nvds_env \<Rightarrow> (nat \<Rightarrow> item list) \<Rightarrow> bool" where
  "all_plain env I \<longleftrightarrow> (\<forall>ns key it. nv_item env I ns key = Some it \<longrightarrow> plain it)"

text \<open>
  Reading any key gives what the map has: the value, when the buffer is large enough, or the
  code for a missing key.
\<close>

definition reads_map :: "rom_flash \<Rightarrow> nvds_env \<Rightarrow> (u8 \<times> u8 list \<rightharpoonup> u8 list) \<Rightarrow> bool" where
  "reads_map rom env m \<longleftrightarrow> (\<forall>ns key out. length out < 2 ^ 32 \<longrightarrow>
     (case m (ns, key) of
        None \<Rightarrow> data_element_get rom env ns key (Some out) (of_nat (length out)) =
                  Some (NVDS_E_NOT_FOUND, of_nat (length out), Some out)
      | Some v \<Rightarrow> length v \<le> length out \<longrightarrow>
          data_element_get rom env ns key (Some out) (of_nat (length out)) =
            Some (NVDS_OK, of_nat (length v), Some (mem_put out 0 v))))"

lemma reads_mapD:
  assumes "reads_map rom env m" and "length out < 2 ^ 32"
  shows "m (ns, key) = None \<Longrightarrow> data_element_get rom env ns key (Some out) (of_nat (length out)) =
      Some (NVDS_E_NOT_FOUND, of_nat (length out), Some out)"
    and "m (ns, key) = Some v \<Longrightarrow> length v \<le> length out \<Longrightarrow>
      data_element_get rom env ns key (Some out) (of_nat (length out)) = Some (NVDS_OK, of_nat (length v), Some (mem_put out 0 v))"
  using assms(1) [unfolded reads_map_def, rule_format, OF assms(2), of ns key] by simp_all

definition room_left :: "nvds_env \<Rightarrow> nat" where
  "room_left env = 126 - next_free env (last (nv_used env))"

lemma nv_updated_map:
  assumes "nv_updated env I ns key v k env' I'" and "all_plain env I"
  shows "nv_map env' I' = (nv_map env I)((ns, key) := v)" "all_plain env' I'" "room_left env \<le> room_left env' + k"
    "nv_store env' I'"
proof -
  show "nv_map env' I' = (nv_map env I)((ns, key) := v)"
    using assms(1) by (auto simp: nv_updated_def nv_map_def nv_value_def fun_eq_iff)
  show "all_plain env' I'" using assms unfolding all_plain_def nv_updated_def by metis
  show "room_left env \<le> room_left env' + k" "nv_store env' I'"
    using assms(1) by (auto simp: nv_updated_def room_left_def)
qed

lemma room_left_room:
  assumes "nv_store env I" and "length v \<le> 256" and "value_entries v \<le> room_left env"
  shows "\<not> no_room (nv_page env (last (nv_used env))) (of_nat (length v))"
proof -
  have "page_live env I (last (nv_used env))" using assms(1) by (auto simp: nv_store_def nv_inv_def)
  then show ?thesis
    using assms(2,3) no_room_iff [of "nv_page env (last (nv_used env))" "length v"]
    by (simp add: room_left_def value_entries_def page_live_def page_ok_def split: if_splits)
qed

context nor_flash
begin

lemma reads_map_store:
  assumes st: "nv_store env I" and pl: "all_plain env I"
  shows "reads_map rom env (nv_map env I)"
  unfolding reads_map_def
proof (intro allI impI)
  fix ns :: u8 and key out :: "u8 list"
  assume n: "length out < 2 ^ 32"
  have inv: "nv_inv env I" using st by (simp add: nv_store_def)
  show "case nv_map env I (ns, key) of
      None \<Rightarrow> data_element_get rom env ns key (Some out) (of_nat (length out)) =
                Some (NVDS_E_NOT_FOUND, of_nat (length out), Some out)
    | Some v \<Rightarrow> length v \<le> length out \<longrightarrow>
        data_element_get rom env ns key (Some out) (of_nat (length out)) =
          Some (NVDS_OK, of_nat (length v), Some (mem_put out 0 v))"
  proof (cases "nv_item env I ns key")
    case None
    then show ?thesis
      using data_element_get_absent [OF inv] by (simp add: nv_map_def nv_value_def)
  next
    case (Some it)
    have "plain it'" if "nv_item env I ns key = Some it'" for it' using pl that unfolding all_plain_def by blast
    then show ?thesis
      using get_of_value [OF st, of ns key "item_value it" out] Some n
      by (simp add: nv_map_def nv_value_def)
  qed
qed

end

text \<open>
  The table of an erased page.
\<close>

lemma state_at_erased: "i < 126 \<Longrightarrow> state_at (replicate 8 0xFFFFFFFF) i = ENTRY_FREE"
proof -
  assume i: "i < 126"
  have m: "(0xFFFFFFFF :: u32) = -1" by simp
  have a: "replicate 8 (0xFFFFFFFF :: u32) ! (i div 16) = 0xFFFFFFFF" using i by (intro nth_replicate) auto
  have "i mod 16 * 2 \<le> 30" using mod_less_divisor [of 16 i] by simp
  then have t: "take_bit 2 (drop_bit (i mod 16 * 2) (-1 :: u32)) = mask 2"
    by (intro bit_word_eqI) (auto simp: bit_simps)
  have "(mask 2 :: u32) = 3" by (simp add: mask_eq_exp_minus_1)
  with t show ?thesis unfolding state_at_def a unfolding m entry_states by (simp only:)
qed

lemma states_bytes_erased: "states_bytes (replicate 8 0xFFFFFFFF) = replicate 32 0xFF"
  by code_simp

lemma nv_example_store: "nv_store nv_example (\<lambda>_. [])" "all_plain nv_example (\<lambda>_. [])"
  "nv_map nv_example (\<lambda>_. []) = Map.empty" "room_left nv_example = 126"
proof -
  have nv_img: "img_bytes nv_example a n = replicate n 0xFF" for a n
    by (simp add: img_bytes_def nv_img_def nv_example_def map_replicate_const)
  have "page_ok nv_example 0"
    using nv_img state_at_erased states_bytes_erased by (simp add: page_ok_def ent_def nv_example_page_def) (simp add: nv_example_def nv_example_page_def)
  then have "page_live nv_example (\<lambda>_. []) 0"
    by (simp add: page_live_def) (simp add: nv_example_def nv_example_page_def)
  moreover have "nv_region nv_example"
    by (auto simp: nv_region_def nv_example_def fmc_translate_def)
  ultimately show "nv_store nv_example (\<lambda>_. [])"
    by (simp add: nv_store_def nv_inv_def all_items_def) (simp add: nv_example_def)
  show "all_plain nv_example (\<lambda>_. [])" "nv_map nv_example (\<lambda>_. []) = Map.empty" "room_left nv_example = 126"
    by (auto simp: all_plain_def nv_map_def nv_value_def nv_item_def all_items_def fun_eq_iff room_left_def
        nv_example_def nv_example_page_def)
qed

end
