(* ===== verification/Nvds_Spaces.thy ===== *)
theory Nvds_Spaces
  imports Nvds_Map
begin

text \<open>
  The exported operations on named values: a namespace is an element of namespace 0 with the
  index as its value, and the values of the namespace are elements with that index.
\<close>

section \<open>Looking up and creating namespaces\<close>

lemma find_namespace:
  "map_option ns_index (find (\<lambda>ns. length (ns_name ns) = length name \<and> ns_name ns = name) l)
     = map_of (map (\<lambda>ns. (ns_name ns, ns_index ns)) l) name"
  by (induction l) auto

lemma ns_index_known:
  assumes "length name \<le> 15" and "map_of (ns_table env) name = Some i"
  shows "ns_index_by_namespace rom m (Some name) c env = Some (NVDS_OK, i, env)"
  using assms find_namespace [of name "nv_ns env"]
  by (auto simp: ns_index_by_namespace_def ns_table_def split: option.splits)

lemma ns_table_add [simp]:
  "ns_table (env\<lparr>nv_ns_states := s, nv_ns := nv_ns env @ [ns]\<rparr>) = ns_table env @ [(ns_name ns, ns_index ns)]"
  by (simp add: ns_table_def)

lemma nv_irrelevant [simp]:
  "nv_store (env\<lparr>nv_ns_states := s\<rparr>) I \<longleftrightarrow> nv_store env I" "nv_item (env\<lparr>nv_ns_states := s\<rparr>) = nv_item env"
  "nv_map (env\<lparr>nv_ns_states := s\<rparr>) = nv_map env" "all_plain (env\<lparr>nv_ns_states := s\<rparr>) = all_plain env"
  "room_left (env\<lparr>nv_ns_states := s\<rparr>) = room_left env"
  "nv_map (env\<lparr>nv_ns := l\<rparr>) = nv_map env" "all_plain (env\<lparr>nv_ns := l\<rparr>) = all_plain env"
  "room_left (env\<lparr>nv_ns := l\<rparr>) = room_left env"
proof -
  have "page_live (env\<lparr>nv_ns_states := s\<rparr>) I q \<longleftrightarrow> page_live env I q" for q
    by (rule iffI; erule page_live_cong) (simp_all add: nv_img_def)
  then show "nv_store (env\<lparr>nv_ns_states := s\<rparr>) I \<longleftrightarrow> nv_store env I"
    by (simp add: nv_store_good nv_inv_def nv_region_def)
qed (simp_all add: nv_item_def nv_map_def nv_value_def all_plain_def room_left_def fun_eq_iff)

lemma ns_add_used_cnt_keep:
  obtains l where "snd (ns_add_used_cnt i env) = env\<lparr>nv_ns := l\<rparr>" and "ns_table (env\<lparr>nv_ns := l\<rparr>) = ns_table env"
proof (cases "i > NAMESPACE_MAX_CNT")
  case True
  then show thesis using that [of "nv_ns env"] by (simp add: ns_add_used_cnt_def ns_table_def)
next
  case False
  then show thesis
    by (intro that [of "ns_update i (\<lambda>ns. ns\<lparr>ns_used_cnt := ns_used_cnt ns + 1\<rparr>) (nv_ns env)"])
      (simp_all add: ns_add_used_cnt_def ns_table_def map_ns_update)
qed

text \<open>
  What an operation on the storage needs: the ROM programs a NOR flash, the storage is well
  formed and holds small and middle elements.
\<close>

definition nv_ready :: "nvds_env \<Rightarrow> (nat \<Rightarrow> item list) \<Rightarrow> bool" where
  "nv_ready env I \<longleftrightarrow> nv_store env I \<and> all_plain env I"

definition ns_free :: "nvds_env \<Rightarrow> nat option" where
  "ns_free env = find (\<lambda>i. \<not> ns_state_get (nv_ns_states env) (of_nat i)) [1..<254]"

end
