(* ===== verification/Nvds_Reload.thy ===== *)
theory Nvds_Reload
  imports Nvds_Spaces
begin

text \<open>
  What survives a reset: loading a storage from the flash rebuilds the pages, their order and
  their elements, and an erased flash is formatted into an empty storage.
\<close>

section \<open>Durable storages\<close>

definition flash_header :: "nvds_env \<Rightarrow> nat \<Rightarrow> page_header" where
  "flash_header env p = bytes_header (img_bytes env (4096 * p) 32)"

definition header_ok :: "page_header \<Rightarrow> bool" where
  "header_ok h \<longleftrightarrow> ph_crc32 h = page_header_crc32_calc h \<and> ph_magic h = NVDS_FLASH_MAGIC"

definition seq_key :: "page_header \<Rightarrow> u32" where
  "seq_key h = ph_seqno h AND NOT 0x80000000"

definition page_erased :: "nvds_env \<Rightarrow> nat \<Rightarrow> bool" where
  "page_erased env p \<longleftrightarrow> (\<forall>k < 4096. nv_img env (4096 * p + k) = 0xFF)"

text \<open>
  A storage whose flash alone determines its elements: the headers of the used pages are in the
  flash, the list of used pages follows the sequence numbers, and the other pages are erased.
\<close>

definition nv_durable :: "nvds_env \<Rightarrow> (nat \<Rightarrow> item list) \<Rightarrow> bool" where
  "nv_durable env I \<longleftrightarrow> nv_ready env I \<and> items_clean (all_items I (nv_used env)) \<and>
     (\<forall>p \<in> set (nv_used env). pg_header (nv_page env p) = flash_header env p \<and> header_ok (flash_header env p)) \<and>
     sorted_wrt (\<lambda>p q. seq_key (flash_header env p) < seq_key (flash_header env q)) (nv_used env) \<and>
     (\<forall>p. 4096 * (p + 1) \<le> unat (nv_length env) \<and> p \<notin> set (nv_used env) \<longrightarrow> page_erased env p)"

lemma nv_durable_kept:
  assumes d: "nv_durable env I" and k: "nv_kept env I env' I'" and r: "nv_ready env' I'"
  shows "nv_durable env' I'"
proof -
  have "flash_header env' p = flash_header env p" for p
    unfolding flash_header_def using k by (intro arg_cong [where f = bytes_header] img_bytes_cong) (simp add: nv_kept_def)
  moreover have "page_erased env' p" if "page_erased env p" "p \<notin> set (nv_used env)" for p
    using that k by (simp add: page_erased_def nv_kept_def)
  ultimately show ?thesis using d k r by (simp add: nv_durable_def nv_kept_def)
qed

section \<open>Loading a page\<close>

text \<open>
  The namespaces that the entries of a page define.
\<close>

definition ns_entry :: "item \<Rightarrow> bool" where
  "ns_entry it \<longleftrightarrow> (case it of (s, e, d) \<Rightarrow> s = ENTRY_USED \<and> tag_namespace_get (entry_tag e) = 0)"

definition load_ns :: "item list \<Rightarrow> namespace_info list" where
  "load_ns its = map (\<lambda>(s, e, d). \<lparr>ns_name = entry_key e, ns_index = entry_value e ! 0, ns_used_cnt = 0\<rparr>)
     (filter ns_entry its)"

text \<open>
  The indices that are marked in the bit set of used indices are those of the namespaces.
\<close>

definition ns_marked :: "namespace_info list \<Rightarrow> u32 list \<Rightarrow> bool" where
  "ns_marked l st \<longleftrightarrow> length st = 8 \<and> (\<forall>i. ns_state_get st i \<longleftrightarrow> i \<in> ns_index ` set l)"

lemma ns_state_get_bit: "ns_state_get st i \<longleftrightarrow> bit (st ! (unat i div 32)) (unat i mod 32)"
  by (simp add: ns_state_get_def Let_def bit_iff_odd_drop_bit and_one_eq odd_iff_mod_2_eq_one)

lemma ns_state_get_set:
  assumes "length st = 8"
  shows "ns_state_get (ns_state_set st i True) j \<longleftrightarrow> j = i \<or> ns_state_get st j"
proof -
  have i: "unat i div 32 < length st" using assms unat_bound [of i] by simp
  have "j = i \<longleftrightarrow> unat j div 32 = unat i div 32 \<and> unat j mod 32 = unat i mod 32"
    by (metis div_mult_mod_eq word_unat_eq_iff)
  then show ?thesis
    using i by (auto simp: ns_state_get_bit ns_state_set_def Let_def nth_list_update bit_simps)
qed

lemma ns_marked_add:
  "ns_marked l st \<Longrightarrow> ns_marked (l @ [ns]) (ns_state_set st (ns_index ns) True)"
  using ns_state_get_set [of st "ns_index ns"] by (auto simp: ns_marked_def ns_state_set_def Let_def)

lemma ns_marked_table:
  "map (\<lambda>ns. (ns_name ns, ns_index ns)) l = map (\<lambda>ns. (ns_name ns, ns_index ns)) l' \<Longrightarrow> ns_marked l st \<longleftrightarrow> ns_marked l' st"
proof -
  assume "map (\<lambda>ns. (ns_name ns, ns_index ns)) l = map (\<lambda>ns. (ns_name ns, ns_index ns)) l'"
  then have "map snd (map (\<lambda>ns. (ns_name ns, ns_index ns)) l) = map snd (map (\<lambda>ns. (ns_name ns, ns_index ns)) l')" by simp
  then have "set (map ns_index l) = set (map ns_index l')" by (simp add: comp_def)
  then have "ns_index ` set l = ns_index ` set l'" by simp
  then show ?thesis by (simp add: ns_marked_def)
qed

lemma ns_marked_empty: "ns_marked [] (replicate 8 0)"
proof -
  have "unat (i :: u8) div 32 < 8" for i using unat_bound [of i] by simp
  then show ?thesis by (simp add: ns_marked_def ns_state_get_bit)
qed

lemma page_ok_irrelevant [simp]:
  "page_ok (env\<lparr>nv_ns := l\<rparr>) p \<longleftrightarrow> page_ok env p" "page_ok (env\<lparr>nv_ns_states := s\<rparr>) p \<longleftrightarrow> page_ok env p"
  "page_ok (set_page p (\<lambda>pg. pg\<lparr>pg_cnt_used := c pg\<rparr>) env) p \<longleftrightarrow> page_ok env p"
  by (simp_all add: page_ok_def ent_def heap_simps img_bytes_def nv_img_def)

lemma nv_region_irrelevant [simp]:
  "nv_region (env\<lparr>nv_ns := l\<rparr>) \<longleftrightarrow> nv_region env" "nv_region (env\<lparr>nv_ns_states := s\<rparr>) \<longleftrightarrow> nv_region env"
  by (simp_all add: nv_region_def)

lemma items_at_irrelevant [simp]:
  "items_at (env\<lparr>nv_ns := l\<rparr>) p i its \<longleftrightarrow> items_at env p i its"
  "items_at (env\<lparr>nv_ns_states := s\<rparr>) p i its \<longleftrightarrow> items_at env p i its"
  "items_at (set_page p (\<lambda>pg. pg\<lparr>pg_cnt_used := c pg\<rparr>) env) p i its \<longleftrightarrow> items_at env p i its"
  by (rule items_at_cong; simp add: heap_simps nv_img_def)+

declare load_entries.simps [simp del]

lemma load_skip:
  assumes "\<forall>k < n. st_at env p (i + k) = ENTRY_UPDATED" and "i + n \<le> 126"
  shows "load_entries rom al p i env = load_entries rom al p (i + n) env"
  using assms
proof (induction n arbitrary: i)
  case (Suc n)
  have "unat (of_nat i :: u8) = i" using Suc.prems(2) by (intro unat_of_nat_small) simp
  then have "entry_state_get (pg_states (nv_page env p)) (of_nat i) = Inr ENTRY_UPDATED"
    using Suc.prems by (subst entry_state_get_state_at) auto
  then have "load_entries rom al p i env = load_entries rom al p (Suc i) env"
    using Suc.prems(2) by (subst load_entries.simps) (simp add: Let_def entry_states)
  also have "\<dots> = load_entries rom al p (Suc i + n) env"
    using Suc.prems by (intro Suc.IH) (auto dest: spec [of _ "Suc _"])
  finally show ?case by simp
qed simp

context nor_flash
begin

lemma load_entries_items:
  assumes "page_ok env p" and "nv_region env" and "items_clean its" and "items_at env p i its"
    and "i + items_size its \<le> 126" and "i + items_size its < 126 \<Longrightarrow> st_at env p (i + items_size its) = ENTRY_FREE"
  shows "\<exists>c st. load_entries rom (\<lambda>_. True) p i env =
    (Load_ok, set_page p (\<lambda>pg. pg\<lparr>pg_cnt_used := c, pg_next_free :=
        if i + items_size its < 126 then of_nat (i + items_size its) else pg_next_free pg\<rparr>)
      (env\<lparr>nv_ns := nv_ns env @ load_ns its, nv_ns_states := st\<rparr>)) \<and>
    (\<forall>l. ns_marked l (nv_ns_states env) \<longrightarrow> ns_marked (l @ load_ns its) st)"
  using assms
proof (induction its arbitrary: i env)
  case Nil
  show ?case
  proof (cases "i < 126")
    case True
    then have "unat (of_nat i :: u8) = i" by (intro unat_small_u8) simp
    then have "entry_state_get (pg_states (nv_page env p)) (of_nat i) = Inr ENTRY_FREE"
      using True Nil.prems(6) by (subst entry_state_get_state_at) auto
    then show ?thesis using True
      by (intro exI [of _ "pg_cnt_used (nv_page env p)"] exI [of _ "nv_ns_states env"])
        (subst load_entries.simps, simp add: load_ns_def set_page_def)
  next
    case False
    then show ?thesis
      by (intro exI [of _ "pg_cnt_used (nv_page env p)"] exI [of _ "nv_ns_states env"])
        (subst load_entries.simps, simp add: load_ns_def set_page_def)
  qed
next
  case (Cons it its)
  obtain s e d where it: "it = (s, e, d)" by (cases it)
  let ?i = "i + 1 + item_cnt e"
  have clean: "items_clean its" and s: "s = ENTRY_UPDATED \<or> s = ENTRY_USED \<and> entry_crc32 e = element_header_crc32_calc e"
    using Cons.prems(3) by (auto simp: items_clean_def it)
  have at: "\<forall>k \<le> item_cnt e. st_at env p (i + k) = s" "ent env p i = e" "items_at env p ?i its"
    using Cons.prems(4) by (auto simp: it)
  have sz: "i + items_size (it # its) = ?i + items_size its" by (simp add: it)
  show ?case
  proof (cases "s = ENTRY_UPDATED")
    case True
    have "load_entries rom (\<lambda>_. True) p i env = load_entries rom (\<lambda>_. True) p (i + (1 + item_cnt e)) env"
      using at(1) True Cons.prems(5) by (intro load_skip) (auto simp: it)
    moreover have "load_ns (it # its) = load_ns its" using True by (simp add: load_ns_def ns_entry_def it entry_states)
    ultimately show ?thesis
      using Cons.IH [OF Cons.prems(1,2) clean at(3)] Cons.prems(5,6) unfolding sz by (simp add: add.assoc)
  next
    case False
    then have s: "s = ENTRY_USED" "entry_crc32 e = element_header_crc32_calc e" using s by auto
    have i: "i < 126" using Cons.prems(5) by (simp add: it)
    then have u: "unat (of_nat i :: u8) = i" by (intro unat_small_u8) simp
    have st: "entry_state_get (pg_states (nv_page env p)) (of_nat i) = Inr ENTRY_USED"
      using i u at(1) s by (subst entry_state_get_state_at) auto
    have rd: "entry_read rom env p (of_nat i) = Inr e"
      using entry_read_ent [OF Cons.prems(1,2), of "of_nat i"] u i at(2) by simp
    let ?ns = "tag_namespace_get (entry_tag e) = 0"
    define env1 where "env1 = (if ?ns
       then env\<lparr>nv_ns := nv_ns env @ [\<lparr>ns_name = entry_key e, ns_index = entry_value e ! 0, ns_used_cnt = 0\<rparr>],
               nv_ns_states := ns_state_set (nv_ns_states env) (entry_value e ! 0) True\<rparr> else env)"
    define env2 where "env2 = set_page p (\<lambda>pg. pg\<lparr>pg_cnt_used := pg_cnt_used pg + 1 + of_nat (item_cnt e)\<rparr>) env1"
    have step: "load_entries rom (\<lambda>_. True) p i env = load_entries rom (\<lambda>_. True) p ?i env2"
      using i st rd s unfolding env2_def env1_def item_cnt_def
      by (subst load_entries.simps) (simp add: Let_def entry_states)
    have "page_ok env2 p" "nv_region env2" "items_at env2 p ?i its" "st_at env2 p = st_at env p"
      using Cons.prems(1,2) at(3) by (simp_all add: env2_def env1_def heap_simps)
    from Cons.IH [OF this(1,2) clean this(3)] this(4) Cons.prems(5,6) obtain c st where
      mk: "\<forall>l. ns_marked l (nv_ns_states env2) \<longrightarrow> ns_marked (l @ load_ns its) st" and
      "load_entries rom (\<lambda>_. True) p ?i env2 =
       (Load_ok, set_page p (\<lambda>pg. pg\<lparr>pg_cnt_used := c, pg_next_free :=
           if ?i + items_size its < 126 then of_nat (?i + items_size its) else pg_next_free pg\<rparr>)
         (env2\<lparr>nv_ns := nv_ns env2 @ load_ns its, nv_ns_states := st\<rparr>))"
      unfolding sz by auto
    moreover have "nv_ns env2 @ load_ns its = nv_ns env @ load_ns (it # its)"
      using s by (simp add: env2_def env1_def heap_simps load_ns_def ns_entry_def it)
    moreover have "set_page p (\<lambda>pg. pg\<lparr>pg_cnt_used := c, pg_next_free := f pg\<rparr>) (env2\<lparr>nv_ns := l, nv_ns_states := st\<rparr>) =
        set_page p (\<lambda>pg. pg\<lparr>pg_cnt_used := c, pg_next_free := f' pg\<rparr>) (env\<lparr>nv_ns := l, nv_ns_states := st\<rparr>)"
      if "\<And>pg c. f (pg\<lparr>pg_cnt_used := c\<rparr>) = f' pg" for f f' l
      using that by (simp add: env2_def env1_def set_page_def)
    moreover have "ns_marked (l @ load_ns (it # its)) st" if "ns_marked l (nv_ns_states env)" for l
    proof (cases ?ns)
      case True
      let ?n = "\<lparr>ns_name = entry_key e, ns_index = entry_value e ! 0, ns_used_cnt = 0\<rparr>"
      have "ns_marked (l @ [?n]) (nv_ns_states env2)"
        using ns_marked_add [OF that, of ?n] True by (simp add: env2_def env1_def heap_simps)
      then show ?thesis using mk True s by (fastforce simp: load_ns_def ns_entry_def it)
    next
      case False
      then show ?thesis using mk that by (simp add: load_ns_def ns_entry_def it env2_def env1_def heap_simps)
    qed
    ultimately show ?thesis
      unfolding step sz by (intro exI [of _ c] exI [of _ st]) simp
  qed
qed

end

section \<open>Page headers\<close>

text \<open>
  Two states with the same flash region.
\<close>

definition same_flash :: "nvds_env \<Rightarrow> nvds_env \<Rightarrow> bool" where
  "same_flash env' env \<longleftrightarrow> nv_dev env' = nv_dev env \<and> nv_base env' = nv_base env \<and> nv_length env' = nv_length env"

lemma same_flash_img:
  assumes "same_flash env' env"
  shows "nv_img env' = nv_img env" "img_bytes env' a n = img_bytes env a n" "nv_region env' \<longleftrightarrow> nv_region env"
    "flash_header env' p = flash_header env p" "nv_length env' = nv_length env"
  using assms by (simp_all add: same_flash_def nv_img_def img_bytes_def nv_region_def flash_header_def fun_eq_iff)

lemma same_flash_upd [simp]:
  "same_flash (set_page p f env) env0 \<longleftrightarrow> same_flash env env0" "same_flash (env\<lparr>nv_ns := l\<rparr>) env0 \<longleftrightarrow> same_flash env env0"
  "same_flash (env\<lparr>nv_ns_states := st\<rparr>) env0 \<longleftrightarrow> same_flash env env0" "same_flash (env\<lparr>nv_free := ps\<rparr>) env0 \<longleftrightarrow> same_flash env env0"
  "same_flash (env\<lparr>nv_used := ps\<rparr>) env0 \<longleftrightarrow> same_flash env env0"
  by (simp_all add: same_flash_def heap_simps)

lemma erased_bytes: "page_erased env p \<Longrightarrow> k + n \<le> 4096 \<Longrightarrow> img_bytes env (4096 * p + k) n = replicate n 0xFF"
  by (rule nth_equalityI) (auto simp: nth_img_bytes page_erased_def add.assoc)

lemma header_erased: "ph_state (bytes_header (replicate 32 0xFF)) = PAGE_UNINITIALIZED"
  by (simp add: bytes_header_def get16_def page_states)

context nor_flash
begin

lemma page_read:
  assumes "nv_region env" and "4096 * (p + 1) \<le> unat (nv_length env)" and "pg_base (nv_page env p) = of_nat (4096 * p)"
    and "k + n \<le> 4096" and "0 < n"
  shows "nvds_flash_read rom env (pg_base (nv_page env p) + of_nat k) (of_nat n) = Inr (img_bytes env (4096 * p + k) n)"
proof -
  have l: "4096 * (p + 1) \<le> flash_end" using assms(1,2) by (auto simp: nv_region_def)
  have "pg_base (nv_page env p) + of_nat k = (of_nat (4096 * p + k) :: u32)" using assms(3) by simp
  moreover have "unat (of_nat (4096 * p + k) :: u32) = 4096 * p + k" using l assms(4) by (intro unat_of_nat_small) simp
  moreover have "unat (of_nat n :: u32) = n" using assms(4) by (intro unat_of_nat_small) simp
  ultimately show ?thesis
    using nv_read [OF assms(1), of "of_nat n" "pg_base (nv_page env p) + of_nat k"] assms(2,4,5) by simp
qed

lemma page_blank_erased:
  assumes "nv_region env" and "4096 * (p + 1) \<le> unat (nv_length env)" and "pg_base (nv_page env p) = of_nat (4096 * p)"
    and "page_erased env p" and "\<forall>k \<in> set ks. k < 8"
  shows "page_blank rom env (pg_base (nv_page env p)) ks = PAGE_UNINITIALIZED"
  using assms(5)
proof (induction ks)
  case (Cons k ks)
  then have "nvds_flash_read rom env (pg_base (nv_page env p) + of_nat (512 * k)) 512 = Inr (replicate 512 0xFF)"
    using page_read [OF assms(1-3), of "512 * k" 512] erased_bytes [OF assms(4), of "512 * k" 512] by simp
  moreover have "list_all (\<lambda>b. b = (0xFF :: u8)) (replicate 512 0xFF)" by (simp add: list_all_iff)
  ultimately show ?case using Cons by simp
qed simp

lemma page_header_read_used:
  assumes "nv_region env" and "4096 * (p + 1) \<le> unat (nv_length env)" and "pg_base (nv_page env p) = of_nat (4096 * p)"
    and "header_ok (flash_header env p)" and "ph_state (flash_header env p) \<noteq> PAGE_UNINITIALIZED"
  shows "page_header_read rom p env = set_page p (\<lambda>pg. pg\<lparr>pg_header := flash_header env p\<rparr>) env"
  using page_read [OF assms(1-3), of 0 32] assms(4,5)
  by (simp add: page_header_read_def flash_header_def header_ok_def Let_def)

lemma page_header_read_erased:
  assumes "nv_region env" and "4096 * (p + 1) \<le> unat (nv_length env)" and "pg_base (nv_page env p) = of_nat (4096 * p)"
    and "page_erased env p"
  shows "page_header_read rom p env =
    set_page p (\<lambda>pg. pg\<lparr>pg_header := (bytes_header (replicate 32 0xFF))\<lparr>ph_state := PAGE_UNINITIALIZED\<rparr>\<rparr>) env"
  using page_read [OF assms(1-3), of 0 32] erased_bytes [OF assms(4), of 0 32] page_blank_erased [OF assms, of "[0..<8]"]
  by (simp add: page_header_read_def header_erased Let_def)

end

section \<open>Loading the sectors\<close>

text \<open>
  A page whose RAM image was rebuilt, up to the counter of used entries.
\<close>

definition page_loaded :: "nvds_env \<Rightarrow> nvds_env \<Rightarrow> nat \<Rightarrow> bool" where
  "page_loaded env0 env p \<longleftrightarrow> pg_header (nv_page env p) = pg_header (nv_page env0 p) \<and>
     pg_states (nv_page env p) = pg_states (nv_page env0 p) \<and> pg_base (nv_page env p) = pg_base (nv_page env0 p) \<and>
     pg_next_free (nv_page env p) = pg_next_free (nv_page env0 p)"

lemma page_loaded_live:
  assumes "page_loaded env0 env p" and "same_flash env env0" and "page_live env0 I p"
  shows "page_live env I p"
  using assms by (intro page_live_cong [OF assms(3)]) (simp_all add: page_loaded_def same_flash_img)

context nor_flash
begin

lemma load_sector_erased:
  assumes "nv_region env" and "4096 * (p + 1) \<le> unat (nv_length env)" and "page_erased env p"
  obtains f where "load_sectors rom (\<lambda>_. True) al (p # ps) is_err env =
    load_sectors rom (\<lambda>_. True) al ps is_err ((set_page p f env)\<lparr>nv_free := nv_free env @ [p]\<rparr>)"
    and "\<And>pg. ph_state (pg_header (f pg)) = PAGE_UNINITIALIZED" and "\<And>pg. pg_base (f pg) = of_nat (4096 * p)"
proof -
  let ?pg = "zero_page\<lparr>pg_base := of_nat (4096 * p)\<rparr>"
  let ?env = "set_page p (\<lambda>_. ?pg) env"
  let ?h = "(bytes_header (replicate 32 0xFF))\<lparr>ph_state := PAGE_UNINITIALIZED\<rparr>"
  have "page_header_read rom p ?env = set_page p (\<lambda>pg. pg\<lparr>pg_header := ?h\<rparr>) ?env"
    using assms by (intro page_header_read_erased) (simp_all add: heap_simps page_erased_def)
  also have "\<dots> = set_page p (\<lambda>_. ?pg\<lparr>pg_header := ?h\<rparr>) env" by (simp add: set_page_def)
  finally show thesis
    by (intro that [of "\<lambda>_. ?pg\<lparr>pg_header := ?h\<rparr>"]) (simp_all add: Let_def mult.commute heap_simps)
qed

lemma load_sector_used:
  assumes sf: "same_flash env env0" and reg: "nv_region env0" and live: "page_live env0 I p" and clean: "items_clean (I p)"
    and hdr: "pg_header (nv_page env0 p) = flash_header env0 p" "header_ok (flash_header env0 p)"
  obtains env1 where "load_sectors rom (\<lambda>_. True) (\<lambda>_ _. True) (p # ps) False env =
      load_sectors rom (\<lambda>_. True) (\<lambda>_ _. True) ps False (env1\<lparr>nv_used := insert_page (nv_page env1) p (nv_used env)\<rparr>)"
    and "same_flash env1 env0" and "\<And>q. q \<noteq> p \<Longrightarrow> nv_page env1 q = nv_page env q" and "page_loaded env0 env1 p"
    and "nv_free env1 = nv_free env" and "nv_ns env1 = nv_ns env @ load_ns (I p)"
    and "ns_marked (nv_ns env) (nv_ns_states env) \<Longrightarrow> ns_marked (nv_ns env1) (nv_ns_states env1)"
proof -
  let ?pg = "zero_page\<lparr>pg_base := of_nat p * 4096\<rparr>" and ?st = "pg_states (nv_page env0 p)"
  have ok: "page_ok env0 p" and at: "items_at env0 p 0 (I p)" and sz: "items_size (I p) = next_free env0 p"
    and state: "ph_state (flash_header env0 p) = PAGE_ACTIVE \<or> ph_state (flash_header env0 p) = PAGE_FULL"
    using live hdr(1) by (auto simp: page_live_def)
  have len: "4096 * (p + 1) \<le> unat (nv_length env)" and reg': "nv_region env"
    using ok sf reg by (auto simp: page_ok_def same_flash_img)
  define env1 where "env1 = set_page p (\<lambda>_. ?pg\<lparr>pg_header := flash_header env0 p\<rparr>) env"
  have "page_header_read rom p (set_page p (\<lambda>_. ?pg) env) =
      set_page p (\<lambda>pg. pg\<lparr>pg_header := flash_header (set_page p (\<lambda>_. ?pg) env) p\<rparr>) (set_page p (\<lambda>_. ?pg) env)"
    using reg' len hdr(2) sf state by (intro page_header_read_used) (auto simp: heap_simps flash_header_def same_flash_img page_states mult.commute)
  also have "\<dots> = env1"
    unfolding env1_def using sf by (simp add: set_page_def flash_header_def img_bytes_def nv_img_def same_flash_def)
  finally have h: "page_header_read rom p (set_page p (\<lambda>_. ?pg) env) = env1" .
  have rd: "entry_states_table_read rom env1 (pg_base (nv_page env1 p)) = Inr ?st"
  proof -
    have "nvds_flash_read rom env1 (pg_base (nv_page env1 p) + of_nat 32) (of_nat 32) = Inr (img_bytes env1 (4096 * p + 32) 32)"
      using reg' len by (intro page_read) (simp_all add: env1_def heap_simps mult.commute)
    moreover have "img_bytes env1 (4096 * p + 32) 32 = states_bytes ?st"
      using ok sf by (simp add: env1_def heap_simps same_flash_img page_ok_def)
    moreover have "length ?st = 8" using ok by (simp add: page_ok_def)
    ultimately show ?thesis by (simp add: entry_states_table_read_def bytes_states_bytes)
  qed
  define env2 where "env2 = set_page p (\<lambda>pg. pg\<lparr>pg_states := ?st, pg_next_free := of_nat 126, pg_cnt_used := 0\<rparr>) env1"
  have sf2: "same_flash env2 env0" using sf by (simp add: env2_def env1_def)
  have pg2: "nv_page env2 p = \<lparr>pg_header = flash_header env0 p, pg_states = ?st, pg_base = of_nat (4096 * p), pg_cnt_used = 0,
      pg_next_free = 126\<rparr>" by (simp add: env2_def env1_def heap_simps zero_page_def mult.commute)
  have "page_ok env2 p" using ok sf2 by (simp add: page_ok_def pg2 same_flash_img)
  moreover have "items_at env2 p 0 (I p)"
    using at items_at_cong [of 0 "I p" env2 p env0] by (simp add: pg2 same_flash_img [OF sf2])
  moreover have nf: "items_size (I p) \<le> 126" "items_size (I p) < 126 \<Longrightarrow> state_at ?st (items_size (I p)) = ENTRY_FREE"
    using ok by (simp_all add: sz page_ok_def)
  ultimately obtain c st where l': "load_entries rom (\<lambda>_. True) p 0 env2 =
    (Load_ok, set_page p (\<lambda>pg. pg\<lparr>pg_cnt_used := c, pg_next_free :=
        if items_size (I p) < 126 then of_nat (items_size (I p)) else pg_next_free pg\<rparr>)
      (env2\<lparr>nv_ns := nv_ns env2 @ load_ns (I p), nv_ns_states := st\<rparr>))" (is "_ = (_, ?env3)")
    and mk: "\<forall>l. ns_marked l (nv_ns_states env2) \<longrightarrow> ns_marked (l @ load_ns (I p)) st"
    using load_entries_items [of env2 p "I p" 0, unfolded add_0_left] clean reg sf2 by (auto simp: pg2 same_flash_img)
  define env3 where "env3 = ?env3"
  have l: "load_entries rom (\<lambda>_. True) p 0 env2 = (Load_ok, env3)" using l' by (simp add: env3_def)
  have "load_sectors rom (\<lambda>_. True) (\<lambda>_ _. True) (p # ps) False env =
      load_sectors rom (\<lambda>_. True) (\<lambda>_ _. True) ps False (env3\<lparr>nv_used := insert_page (nv_page env3) p (nv_used env3)\<rparr>)"
  proof -
    have st1: "pg_header (nv_page env1 p) = flash_header env0 p" by (simp add: env1_def heap_simps)
    have ns: "ph_state (flash_header env0 p) \<noteq> PAGE_UNINITIALIZED" "ph_state (flash_header env0 p) \<noteq> PAGE_ERROR"
      "ph_state (flash_header env0 p) \<noteq> PAGE_INVALID" using state by (auto simp: page_states)
    have e2: "set_page p (\<lambda>pg. pg\<lparr>pg_states := ?st, pg_next_free := 126, pg_cnt_used := 0\<rparr>) env1 = env2"
      by (simp add: env2_def)
    show ?thesis by (simp add: Let_def h rd st1 ns e2 l)
  qed
  moreover have "nv_used env3 = nv_used env" by (simp add: heap_simps env3_def env2_def env1_def)
  moreover have "page_loaded env0 env3 p"
  proof -
    have "pg_next_free (nv_page env0 p) = (if items_size (I p) < 126 then of_nat (items_size (I p)) else 126)"
      using nf(1) unfolding sz by (simp add: word_unat_eq_iff)
    then show ?thesis using hdr(1) ok by (simp add: page_loaded_def heap_simps env3_def pg2 page_ok_def)
  qed
  moreover have "same_flash env3 env0" using sf2 by (simp add: env3_def)
  moreover have "ns_marked (nv_ns env3) (nv_ns_states env3)" if "ns_marked (nv_ns env) (nv_ns_states env)"
    using mk that by (simp add: env3_def env2_def env1_def heap_simps)
  ultimately show thesis by (intro that [of env3]) (simp_all add: heap_simps env3_def env2_def env1_def)
qed

end

text \<open>
  The list of used pages is kept sorted by the sequence numbers, which determine it.
\<close>

lemma insert_page_set: "set (insert_page pg p ps) = insert p (set ps)"
  by (induction ps) auto

lemma insert_page_sorted:
  assumes "sorted_wrt (\<lambda>p q. k p < k q) ps" and "\<And>q. q \<in> insert p (set ps) \<Longrightarrow> seq_key (pg_header (pg q)) = k q"
    and "\<And>q. q \<in> set ps \<Longrightarrow> k q \<noteq> k p"
  shows "sorted_wrt (\<lambda>p q. k p < k q) (insert_page pg p ps)"
  using assms
proof (induction ps)
  case (Cons q ps)
  have c: "cmp_sequence_no (pg p) (pg q) \<longleftrightarrow> k p < k q"
    using Cons.prems(2) [of p] Cons.prems(2) [of q] by (simp add: cmp_sequence_no_def seq_key_def)
  have "sorted_wrt (\<lambda>p q. k p < k q) (insert_page pg p ps)" using Cons.prems by (intro Cons.IH) auto
  moreover have "k q < k p" if "\<not> k p < k q" using that Cons.prems(3) [of q] by auto
  ultimately show ?case using Cons.prems(1) by (auto simp: c insert_page_set)
qed simp

lemma sorted_wrt_unique:
  fixes k :: "'a \<Rightarrow> 'b :: linorder"
  assumes "sorted_wrt (\<lambda>x y. k x < k y) xs" and "sorted_wrt (\<lambda>x y. k x < k y) ys" and "set xs = set ys"
  shows "xs = ys"
  using assms
proof (induction xs arbitrary: ys)
  case (Cons x xs)
  then obtain y ys' where ys: "ys = y # ys'" by (cases ys) auto
  have less: "k x < k z" if "z \<in> set xs" for z using Cons.prems(1) that by simp
  have less': "k y < k z" if "z \<in> set ys'" for z using Cons.prems(2) that by (simp add: ys)
  have "x = y"
  proof (rule ccontr)
    assume "x \<noteq> y"
    then have "x \<in> set ys'" "y \<in> set xs" using Cons.prems(3) by (auto simp: ys)
    from less' [OF this(1)] less [OF this(2)] show False by simp
  qed
  moreover have "x \<notin> set xs" "y \<notin> set ys'" using less less' by blast+
  ultimately have "set xs = set ys'" using Cons.prems(3) by (auto simp: ys)
  then show ?case using Cons.IH [of ys'] Cons.prems(1,2) \<open>x = y\<close> by (simp add: ys)
qed simp

text \<open>
  A part of the pages of the storage \<open>env0\<close> has been loaded.
\<close>

definition part_loaded :: "nvds_env \<Rightarrow> nvds_env \<Rightarrow> bool" where
  "part_loaded env0 env \<longleftrightarrow> same_flash env env0 \<and> set (nv_used env) \<subseteq> set (nv_used env0) \<and>
     (\<forall>p \<in> set (nv_used env). page_loaded env0 env p) \<and>
     sorted_wrt (\<lambda>p q. seq_key (flash_header env0 p) < seq_key (flash_header env0 q)) (nv_used env)"

lemma sorted_wrt_key_inj:
  fixes k :: "'a \<Rightarrow> 'b :: linorder"
  assumes "sorted_wrt (\<lambda>x y. k x < k y) xs" and "x \<in> set xs" and "y \<in> set xs" and "k x = k y"
  shows "x = y"
  using assms
proof (induction xs)
  case (Cons z zs)
  then show ?case by (metis less_irrefl set_ConsD sorted_wrt.simps(2))
qed simp

lemma items_clean_page: "items_clean (all_items I ps) \<Longrightarrow> p \<in> set ps \<Longrightarrow> items_clean (I p)"
proof -
  assume a: "items_clean (all_items I ps)" "p \<in> set ps"
  then have "set (I p) \<subseteq> set (all_items I ps)" by (auto simp: all_items_def)
  then show ?thesis using a(1) unfolding items_clean_def by blast
qed

context nor_flash
begin

lemma load_sectors_ok:
  assumes d: "nv_durable env0 I" and ps: "distinct ps" "\<forall>p \<in> set ps. 4096 * (p + 1) \<le> unat (nv_length env0)"
    and l: "part_loaded env0 env" "set (nv_used env) \<inter> set ps = {}"
  shows "\<exists>env'. load_sectors rom (\<lambda>_. True) (\<lambda>_ _. True) ps False env = (True, env') \<and> part_loaded env0 env' \<and>
    set (nv_used env') = set (nv_used env) \<union> (set ps \<inter> set (nv_used env0)) \<and>
    nv_ns env' = nv_ns env @ concat (map (\<lambda>p. load_ns (I p)) (filter (\<lambda>p. p \<in> set (nv_used env0)) ps)) \<and>
    (ns_marked (nv_ns env) (nv_ns_states env) \<longrightarrow> ns_marked (nv_ns env') (nv_ns_states env'))"
  using ps l
proof (induction ps arbitrary: env)
  case (Cons p ps)
  have inv: "nv_inv env0 I" and reg: "nv_region env0" and clean: "items_clean (all_items I (nv_used env0))"
    and hdr: "\<And>p. p \<in> set (nv_used env0) \<Longrightarrow> pg_header (nv_page env0 p) = flash_header env0 p \<and> header_ok (flash_header env0 p)"
    and sorted: "sorted_wrt (\<lambda>p q. seq_key (flash_header env0 p) < seq_key (flash_header env0 q)) (nv_used env0)"
    using d by (auto simp: nv_durable_def nv_ready_def nv_store_def nv_inv_def)
  have sf: "same_flash env env0" using Cons.prems(3) by (simp add: part_loaded_def)
  show ?case
  proof (cases "p \<in> set (nv_used env0)")
    case True
    have live: "page_live env0 I p" using inv True by (simp add: nv_inv_def)
    obtain env1 where e1: "load_sectors rom (\<lambda>_. True) (\<lambda>_ _. True) (p # ps) False env =
        load_sectors rom (\<lambda>_. True) (\<lambda>_ _. True) ps False (env1\<lparr>nv_used := insert_page (nv_page env1) p (nv_used env)\<rparr>)"
      and f1: "same_flash env1 env0" "\<And>q. q \<noteq> p \<Longrightarrow> nv_page env1 q = nv_page env q" "page_loaded env0 env1 p"
        "nv_ns env1 = nv_ns env @ load_ns (I p)"
        "ns_marked (nv_ns env) (nv_ns_states env) \<Longrightarrow> ns_marked (nv_ns env1) (nv_ns_states env1)"
      using load_sector_used [OF sf reg live items_clean_page [OF clean True]] hdr [OF True] by blast
    let ?env1 = "env1\<lparr>nv_used := insert_page (nv_page env1) p (nv_used env)\<rparr>"
    have p: "p \<notin> set (nv_used env)" and sub: "set (nv_used env) \<subseteq> set (nv_used env0)"
      using Cons.prems(3,4) by (auto simp: part_loaded_def)
    have loaded: "page_loaded env0 env1 q" if "q \<in> insert p (set (nv_used env))" for q
      using that Cons.prems(3) f1(2,3) p by (cases "q = p") (auto simp: part_loaded_def page_loaded_def)
    have "sorted_wrt (\<lambda>p q. seq_key (flash_header env0 p) < seq_key (flash_header env0 q)) (insert_page (nv_page env1) p (nv_used env))"
    proof (rule insert_page_sorted)
      show "seq_key (pg_header (nv_page env1 q)) = seq_key (flash_header env0 q)" if "q \<in> insert p (set (nv_used env))" for q
      proof -
        have "q \<in> set (nv_used env0)" using that sub True by blast
        then show ?thesis using loaded [OF that] hdr by (simp add: page_loaded_def)
      qed
      show "seq_key (flash_header env0 q) \<noteq> seq_key (flash_header env0 p)" if "q \<in> set (nv_used env)" for q
        using sorted_wrt_key_inj [OF sorted, of q p] that sub True p by blast
    qed (use Cons.prems(3) in \<open>simp add: part_loaded_def\<close>)
    then have "part_loaded env0 ?env1"
      using f1(1) loaded sub True by (auto simp: part_loaded_def insert_page_set page_loaded_def)
    then show ?thesis
      using Cons.IH [of ?env1] Cons.prems e1 f1(4,5) True by (auto simp: insert_page_set)
  next
    case False
    have er: "page_erased env0 p" using d False Cons.prems(2) by (simp add: nv_durable_def)
    have "nv_region env" "4096 * (p + 1) \<le> unat (nv_length env)" "page_erased env p"
      using reg Cons.prems(2) er by (simp_all add: same_flash_img [OF sf] page_erased_def)
    then obtain f where e1: "load_sectors rom (\<lambda>_. True) (\<lambda>_ _. True) (p # ps) False env =
        load_sectors rom (\<lambda>_. True) (\<lambda>_ _. True) ps False ((set_page p f env)\<lparr>nv_free := nv_free env @ [p]\<rparr>)"
      using load_sector_erased by metis
    let ?env1 = "(set_page p f env)\<lparr>nv_free := nv_free env @ [p]\<rparr>"
    have "page_loaded env0 ?env1 q" if "q \<in> set (nv_used env)" for q
    proof -
      have "q \<noteq> p" using that Cons.prems(4) by auto
      then show ?thesis using that Cons.prems(3) by (simp add: part_loaded_def page_loaded_def heap_simps)
    qed
    then have "part_loaded env0 ?env1" using Cons.prems(3) by (simp add: part_loaded_def heap_simps)
    then show ?thesis
      using Cons.IH [of ?env1] Cons.prems e1 False by (auto simp: heap_simps)
  qed
qed simp

end

section \<open>Loading a storage\<close>

declare count_entries.simps [simp del]

lemma count_entries_keep:
  "\<exists>l. count_entries rom p i env = env\<lparr>nv_ns := l\<rparr> \<and> ns_table (env\<lparr>nv_ns := l\<rparr>) = ns_table env"
proof (induction rom p i env rule: count_entries.induct)
  case (1 rom p i env)
  show ?case
  proof (cases "i \<ge> 126")
    case True
    then show ?thesis by (subst count_entries.simps) (auto intro: exI [of _ "nv_ns env"])
  next
    case False
    show ?thesis
    proof (cases "entry_read rom env p (of_nat i)")
      case (Inl e)
      then show ?thesis by (subst count_entries.simps) (auto intro: exI [of _ "nv_ns env"])
    next
      case (Inr entry)
      define l where "l = (if entry_state_get (pg_states (nv_page env p)) (of_nat i) = Inr ENTRY_USED
        then ns_update (tag_namespace_get (entry_tag entry)) (\<lambda>ns. ns\<lparr>ns_used_cnt := ns_used_cnt ns + 1\<rparr>) (nv_ns env)
        else nv_ns env)"
      have t: "ns_table (env\<lparr>nv_ns := l\<rparr>) = ns_table env" by (simp add: l_def ns_table_def map_ns_update)
      have "count_entries rom p i env = count_entries rom p (i + 1 + item_cnt entry) (env\<lparr>nv_ns := l\<rparr>)"
        using False Inr by (subst count_entries.simps) (simp add: l_def item_cnt_def)
      moreover have "\<exists>l'. count_entries rom p (i + 1 + item_cnt entry) (env\<lparr>nv_ns := l\<rparr>) = env\<lparr>nv_ns := l'\<rparr> \<and>
          ns_table (env\<lparr>nv_ns := l'\<rparr>) = ns_table env"
        using "1.IH" [OF _ Inr refl refl] False t by (simp add: l_def item_cnt_def split: if_splits)
      ultimately show ?thesis by simp
    qed
  qed
qed

lemma count_pages_keep:
  "\<exists>l. fold (\<lambda>p. count_entries rom p 0) ps env = env\<lparr>nv_ns := l\<rparr> \<and> ns_table (env\<lparr>nv_ns := l\<rparr>) = ns_table env"
proof (induction ps arbitrary: env)
  case Nil
  show ?case by (rule exI [of _ "nv_ns env"]) simp
next
  case (Cons p ps)
  obtain l where l: "count_entries rom p 0 env = env\<lparr>nv_ns := l\<rparr>" "ns_table (env\<lparr>nv_ns := l\<rparr>) = ns_table env"
    using count_entries_keep by blast
  show ?case using Cons.IH [of "env\<lparr>nv_ns := l\<rparr>"] l by simp
qed

lemma nv_durable_ns [simp]: "nv_durable (env\<lparr>nv_ns := l\<rparr>) I \<longleftrightarrow> nv_durable env I"
  by (simp add: nv_durable_def nv_ready_def flash_header_def img_bytes_def nv_img_def page_erased_def)

lemma part_loaded_durable:
  assumes l: "part_loaded env0 env" and d: "nv_durable env0 I" and u: "set (nv_used env) = set (nv_used env0)"
  shows "nv_used env = nv_used env0" "nv_durable env I" "nv_map env I = nv_map env0 I" "room_left env = room_left env0"
proof -
  have sf: "same_flash env env0" and ld: "\<And>p. p \<in> set (nv_used env0) \<Longrightarrow> page_loaded env0 env p"
    using l u by (auto simp: part_loaded_def)
  show used: "nv_used env = nv_used env0"
    using l d u unfolding part_loaded_def nv_durable_def by (intro sorted_wrt_unique) auto
  then show m: "nv_map env I = nv_map env0 I" and "room_left env = room_left env0"
    using ld d by (auto simp: nv_map_def nv_value_def nv_item_def fun_eq_iff room_left_def nv_durable_def nv_ready_def
        nv_store_def nv_inv_def page_loaded_def)
  have "page_live env I p" if "p \<in> set (nv_used env0)" for p
    using that d by (intro page_loaded_live [OF ld [OF that] sf]) (simp add: nv_durable_def nv_ready_def nv_store_def nv_inv_def)
  then have "nv_ready env I"
    using d used nv_item_cong [OF used, of I]
    by (simp add: nv_durable_def nv_ready_def nv_store_good nv_inv_def same_flash_img [OF sf] all_plain_def)
  then show "nv_durable env I"
    using d used ld by (simp add: nv_durable_def same_flash_img [OF sf] page_loaded_def page_erased_def)
qed

context nor_flash
begin

lemma pages_load_durable:
  assumes d: "nv_durable env0 I" and sf: "same_flash env env0" and e: "nv_used env = []" "nv_ns env = []"
      "nv_ns_states env = replicate 8 0"
  obtains env' where "pages_load rom (\<lambda>_. True) (\<lambda>_ _. True) env = (NVDS_OK, env')" and "nv_durable env' I"
    and "nv_map env' I = nv_map env0 I" and "room_left env' = room_left env0" and "same_flash env' env0"
    and "ns_table env' = map (\<lambda>ns. (ns_name ns, ns_index ns)) (concat (map (\<lambda>p. load_ns (I p))
       (filter (\<lambda>p. p \<in> set (nv_used env0)) [0..<unat (nv_length env0) div 4096])))"
    and "nv_used env' = nv_used env0" and "ns_marked (nv_ns env') (nv_ns_states env')"
proof -
  let ?ps = "[0..<unat (nv_length env0) div 4096]"
  have inv: "nv_inv env0 I" using d by (simp add: nv_durable_def nv_ready_def nv_store_def)
  have "part_loaded env0 env" using sf e by (simp add: part_loaded_def)
  moreover have b: "4096 * (p + 1) \<le> unat (nv_length env0) \<longleftrightarrow> p \<in> set ?ps" for p
    by (auto simp: less_eq_div_iff_mult_less_eq Suc_le_eq [symmetric] mult.commute simp del: mult_Suc_right)
  ultimately obtain env1 where s: "load_sectors rom (\<lambda>_. True) (\<lambda>_ _. True) ?ps False env = (True, env1)"
    and l: "part_loaded env0 env1" and u: "set (nv_used env1) = set ?ps \<inter> set (nv_used env0)"
    and ns: "nv_ns env1 = concat (map (\<lambda>p. load_ns (I p)) (filter (\<lambda>p. p \<in> set (nv_used env0)) ?ps))"
    and mk: "ns_marked (nv_ns env) (nv_ns_states env) \<Longrightarrow> ns_marked (nv_ns env1) (nv_ns_states env1)"
    using load_sectors_ok [OF d, of ?ps env] e by auto
  have "set (nv_used env0) \<subseteq> set ?ps"
    using inv by (auto simp: nv_inv_def page_live_def page_ok_def b [symmetric] simp del: set_upt)
  then have "set (nv_used env1) = set (nv_used env0)" using u by auto
  note ld = part_loaded_durable [OF l d this]
  obtain k where c: "fold (\<lambda>p. count_entries rom p 0) (nv_used env1) env1 = env1\<lparr>nv_ns := k\<rparr>"
    and t: "ns_table (env1\<lparr>nv_ns := k\<rparr>) = ns_table env1" using count_pages_keep by blast
  have "4096 dvd unat (nv_length env0)" "nv_used env0 \<noteq> []" using inv by (auto simp: nv_inv_def nv_region_def)
  then have "pages_load rom (\<lambda>_. True) (\<lambda>_ _. True) env = (NVDS_OK, env1\<lparr>nv_ns := k\<rparr>)"
    using s c ld(1) by (simp add: pages_load_def same_flash_img [OF sf] dvd_eq_mod_eq_0)
  moreover have "nv_durable (env1\<lparr>nv_ns := k\<rparr>) I" "nv_map (env1\<lparr>nv_ns := k\<rparr>) I = nv_map env0 I"
    "room_left (env1\<lparr>nv_ns := k\<rparr>) = room_left env0" "same_flash (env1\<lparr>nv_ns := k\<rparr>) env0"
    using ld l by (simp_all add: part_loaded_def)
  moreover have "ns_table (env1\<lparr>nv_ns := k\<rparr>) = map (\<lambda>ns. (ns_name ns, ns_index ns)) (concat (map (\<lambda>p. load_ns (I p))
       (filter (\<lambda>p. p \<in> set (nv_used env0)) ?ps)))" using t by (simp add: ns_table_def ns)
  moreover have "ns_marked k (nv_ns_states env1)"
    using t mk e(2,3) ns_marked_table [of k "nv_ns env1"] ns_marked_empty by (simp add: ns_table_def)
  ultimately show thesis using ld(1) by (intro that [of "env1\<lparr>nv_ns := k\<rparr>"]) auto
qed

end

end
