(* ===== verification/Simulation.thy ===== *)
theory Simulation
  imports Fw_Prelude
begin

text \<open>
  Sequences of operations of a component and of its abstract specification, and the contract
  under which the component follows the specification as long as a resource lasts.
\<close>

fun run_ops :: "('op \<Rightarrow> 's \<Rightarrow> ('r \<times> 's) option) \<Rightarrow> 'op list \<Rightarrow> 's \<Rightarrow> ('r list \<times> 's) option" where
  "run_ops step [] s = Some ([], s)"
| "run_ops step (op # ops) s =
     (case step op s of
        None \<Rightarrow> None
      | Some (r, s) \<Rightarrow> map_option (apfst (Cons r)) (run_ops step ops s))"

fun spec_ops :: "('op \<Rightarrow> 'a \<Rightarrow> 'r \<times> 'a) \<Rightarrow> 'op list \<Rightarrow> 'a \<Rightarrow> 'r list \<times> 'a" where
  "spec_ops spec [] a = ([], a)"
| "spec_ops spec (op # ops) a = (let (r, a) = spec op a in apfst (Cons r) (spec_ops spec ops a))"

text \<open>
  Every valid operation that the remaining room admits ends, returns the code of the
  specification, keeps the simulation relation and uses up no more than its cost.
\<close>

locale budget_refinement =
  fixes step :: "'op \<Rightarrow> 's \<Rightarrow> ('r \<times> 's) option" and spec :: "'op \<Rightarrow> 'a \<Rightarrow> 'r \<times> 'a" and rel :: "'s \<Rightarrow> 'a \<Rightarrow> bool"
    and valid :: "'op \<Rightarrow> bool" and cost :: "'op \<Rightarrow> nat" and room :: "'s \<Rightarrow> nat"
  assumes step_sim: "rel s a \<Longrightarrow> valid op \<Longrightarrow> cost op \<le> room s \<Longrightarrow>
    \<exists>s'. step op s = Some (fst (spec op a), s') \<and> rel s' (snd (spec op a)) \<and> room s \<le> room s' + cost op"
begin

lemma run_refines:
  assumes "rel s a" and "\<forall>op \<in> set ops. valid op" and "sum_list (map cost ops) \<le> room s"
  shows "\<exists>s'. run_ops step ops s = Some (fst (spec_ops spec ops a), s') \<and> rel s' (snd (spec_ops spec ops a)) \<and>
    room s \<le> room s' + sum_list (map cost ops)"
  using assms
proof (induction ops arbitrary: s a)
  case (Cons op ops)
  obtain s1 where 1: "step op s = Some (fst (spec op a), s1)" "rel s1 (snd (spec op a))" "room s \<le> room s1 + cost op"
    using step_sim [OF Cons.prems(1), of op] Cons.prems(2,3) by auto
  moreover have "sum_list (map cost ops) \<le> room s1" using 1(3) Cons.prems(3) by simp
  ultimately obtain s' where 2: "run_ops step ops s1 = Some (fst (spec_ops spec ops (snd (spec op a))), s')"
    "rel s' (snd (spec_ops spec ops (snd (spec op a))))" "room s1 \<le> room s' + sum_list (map cost ops)"
    using Cons.IH [of s1 "snd (spec op a)"] Cons.prems(2) by auto
  then show ?case using 1 by (intro exI [of _ s']) (simp add: split_beta Let_def)
qed simp

end

end
