(* ===== verification/Nvds_Format.thy ===== *)
theory Nvds_Format
  imports Nvds_Reload Simulation
begin

text \<open>
  An erased flash region becomes an empty storage when it is loaded, and the storage behaves as
  a finite map across resets.
\<close>

section \<open>Opening an erased page\<close>

definition new_header :: "u32 \<Rightarrow> page_header" where
  "new_header seq = (let h = (bytes_header (replicate 32 0xFF))\<lparr>ph_magic := NVDS_FLASH_MAGIC,
       ph_version := NVDS_FLASH_VERSION, ph_state := PAGE_ACTIVE, ph_seqno := seq\<rparr>
     in h\<lparr>ph_crc32 := page_header_crc32_calc h\<rparr>)"

lemma header_crc_field: "length (ph_rsv h) = 16 \<Longrightarrow> page_header_crc32_calc (h\<lparr>ph_crc32 := c\<rparr>) = page_header_crc32_calc h"
  by (simp add: page_header_crc32_calc_def header_bytes_def mem_get_def le16_def le32_def)

lemma new_header_fields:
  "length (ph_rsv (new_header seq)) = 16" "header_ok (new_header seq)" "ph_state (new_header seq) = PAGE_ACTIVE"
  "ph_seqno (new_header seq) = seq"
proof -
  have r: "length (ph_rsv (bytes_header (replicate 32 0xFF))) = 16" by (simp add: bytes_header_def mem_get_def)
  then show "length (ph_rsv (new_header seq)) = 16" "ph_state (new_header seq) = PAGE_ACTIVE" "ph_seqno (new_header seq) = seq"
    by (simp_all add: new_header_def Let_def)
  show "header_ok (new_header seq)"
    unfolding header_ok_def new_header_def Let_def by (subst header_crc_field) (simp_all add: r)
qed

lemma length_header_bytes: "length (ph_rsv h) = 16 \<Longrightarrow> length (header_bytes h) = 32"
  by (simp add: header_bytes_def)

lemma header_bytes_state: "length (ph_rsv h) = 16 \<Longrightarrow> mem_get (header_bytes h) 6 2 = le16 (ph_state h)"
  by (simp add: header_bytes_def mem_get_def le16_def le32_def)

lemma img_put_same:
  assumes "\<And>i. i < length bs \<Longrightarrow> m (off + i) = bs ! i"
  shows "img_put off bs m = m"
  using assms by (auto simp: img_put_def fun_eq_iff) (metis add_diff_inverse_nat add_less_cancel_left not_less)

definition erased_page :: "nat \<Rightarrow> page_header \<Rightarrow> page_env" where
  "erased_page p h = \<lparr>pg_header = h, pg_states = replicate 8 0xFFFFFFFF, pg_base = of_nat (4096 * p), pg_cnt_used = 0,
     pg_next_free = 0\<rparr>"

context nor_flash
begin

lemma page_open_erased:
  assumes reg: "nv_region env" and len: "4096 * (p + 1) \<le> unat (nv_length env)" and er: "page_erased env p"
    and pg: "pg_base (nv_page env p) = of_nat (4096 * p)" "ph_state (pg_header (nv_page env p)) = PAGE_UNINITIALIZED"
  obtains m env' where "page_open rom p seq env = (True, env')"
    and "env' = set_page p (\<lambda>_. erased_page p (new_header seq)) (env\<lparr>nv_dev := (nv_dev env)\<lparr>fd_mem := m\<rparr>\<rparr>)"
    and "nv_img env' = img_put (4096 * p) (header_bytes (new_header seq)) (nv_img env)"
proof -
  let ?h = "new_header seq" and ?hb = "header_bytes (new_header seq)"
  note h = new_header_fields [of seq]
  have hl: "length ?hb = 32" using h(1) by (rule length_header_bytes)
  define env1 where "env1 = set_page p (\<lambda>_. erased_page p ?h) env"
  have reg1: "nv_region env1" and len1: "4096 * (p + 1) \<le> unat (nv_length env1)" and lim: "4096 * (p + 1) \<le> flash_end"
    using reg len by (auto simp: env1_def heap_simps nv_region_def)
  have clear: "set_page p (\<lambda>pg. pg\<lparr>pg_header := ?h\<rparr>) (page_clear p env) = env1"
    using pg(1) by (cases "nv_page env p") (simp add: env1_def page_clear_def set_page_def erased_page_def)
  define b where "b = (of_nat (4096 * p) :: u32)"
  have ub: "unat b = 4096 * p" unfolding b_def using lim by (intro unat_of_nat_small) simp
  have ub6: "unat (b + 6) = 4096 * p + 6" using lim by (simp add: unat_word_ariths ub)
  have "img_bytes env1 (4096 * p) 32 = replicate 32 0xFF"
    using erased_bytes [OF er, of 0 32] by (simp add: env1_def heap_simps)
  then obtain env2 where w: "nvds_flash_write rom env1 b 32 ?hb = (NVDS_OK, env2)"
    and s2: "same_but_mem env2 env1" and i2: "nv_img env2 = img_put (4096 * p) ?hb (nv_img env1)"
    using nv_write [OF reg1, of 32 b ?hb] len1 hl clears_erased [of ?hb] by (auto simp: ub)
  have st: "img_bytes env2 (4096 * p + 6) 2 = le16 PAGE_ACTIVE"
  proof -
    have "img_bytes env2 (4096 * p + 6) 2 = mem_get (img_bytes env2 (4096 * p) 32) 6 2"
      by (rule nth_equalityI) (auto simp: nth_img_bytes mem_get_def add.assoc)
    then show ?thesis using img_bytes_put_same [OF i2] hl header_bytes_state [OF h(1)] h(3) by simp
  qed
  have "nv_region env2" "unat (b + 6) + unat (2 :: u32) \<le> unat (nv_length env2)"
    using reg1 len1 same_but_memD [OF s2] unfolding ub6 by auto
  then obtain env3 where w3: "nvds_flash_write rom env2 (b + 6) 2 (le16 PAGE_ACTIVE) = (NVDS_OK, env3)"
    and s3: "same_but_mem env3 env2" and i3: "nv_img env3 = img_put (4096 * p + 6) (le16 PAGE_ACTIVE) (nv_img env2)"
    using nv_write [of env2 2 "b + 6" "le16 PAGE_ACTIVE"] st
    unfolding ub6 by (auto simp: clears_refl)
  have "nv_img env3 = nv_img env2"
    unfolding i3 using st by (intro img_put_same) (metis length_img_bytes nth_img_bytes)
  then have i: "nv_img env3 = img_put (4096 * p) ?hb (nv_img env)" unfolding i2 by (simp add: env1_def heap_simps)
  obtain m m' where "env2 = env1\<lparr>nv_dev := (nv_dev env1)\<lparr>fd_mem := m'\<rparr>\<rparr>" "env3 = env2\<lparr>nv_dev := (nv_dev env2)\<lparr>fd_mem := m\<rparr>\<rparr>"
    using s2 s3 unfolding same_but_mem_def by blast
  then have e3: "env3 = set_page p (\<lambda>_. erased_page p ?h) (env\<lparr>nv_dev := (nv_dev env)\<lparr>fd_mem := m\<rparr>\<rparr>)"
    by (simp add: env1_def set_page_def)
  have hdr: "(pg_header (nv_page (page_clear p env) p))\<lparr>ph_magic := NVDS_FLASH_MAGIC,
      ph_version := NVDS_FLASH_VERSION, ph_state := PAGE_ACTIVE, ph_seqno := seq,
      ph_crc32 := page_header_crc32_calc ((pg_header (nv_page (page_clear p env) p))\<lparr>ph_magic := NVDS_FLASH_MAGIC,
        ph_version := NVDS_FLASH_VERSION, ph_state := PAGE_ACTIVE, ph_seqno := seq\<rparr>)\<rparr> = ?h"
    by (simp add: page_clear_def heap_simps new_header_def Let_def)
  have pb: "pg_base (nv_page env1 p) = b" "pg_base (nv_page env2 p) = b"
    using same_but_memD(1) [OF s2] by (simp_all add: env1_def heap_simps erased_page_def b_def)
  have alter: "page_state_alter rom env2 p PAGE_ACTIVE = (NVDS_OK, set_page p (\<lambda>pg. pg\<lparr>pg_header := (pg_header pg)\<lparr>ph_state := PAGE_ACTIVE\<rparr>\<rparr>) env3)"
    using w3 by (simp add: page_state_alter_def pb)
  have "set_page p (\<lambda>pg. pg\<lparr>pg_header := (pg_header pg)\<lparr>ph_state := PAGE_ACTIVE\<rparr>\<rparr>) env3 = env3"
    using h(3) by (cases "new_header seq") (simp add: e3 set_page_def erased_page_def)
  then have "page_open rom p seq env = (True, env3)"
    using w alter by (simp add: page_open_def Let_def pg(2) hdr clear pb)
  then show thesis using e3 i by (rule that)
qed

end

section \<open>Loading an erased region\<close>

definition region_erased :: "nvds_env \<Rightarrow> bool" where
  "region_erased env \<longleftrightarrow> nv_region env \<and> 8192 \<le> unat (nv_length env) \<and>
     (\<forall>p. 4096 * (p + 1) \<le> unat (nv_length env) \<longrightarrow> page_erased env p)"

lemma sector_in_range: "4096 * (p + 1) \<le> n \<longleftrightarrow> p < n div 4096" for n :: nat
  by (simp add: less_eq_div_iff_mult_less_eq Suc_le_eq [symmetric] mult.commute)

lemma erased_page_live:
  assumes "4096 * (p + 1) \<le> unat (nv_length env)" and "nv_page env p = erased_page p h" and "ph_state h = PAGE_ACTIVE"
    and er: "\<And>k. 32 \<le> k \<Longrightarrow> k < 4096 \<Longrightarrow> nv_img env (4096 * p + k) = 0xFF"
  shows "page_live env (\<lambda>_. []) p"
proof -
  have bytes: "img_bytes env (4096 * p + k) 32 = replicate 32 0xFF" if "32 \<le> k" "k + 32 \<le> 4096" for k
    using er that by (intro nth_equalityI) (auto simp: nth_img_bytes add.assoc)
  have "ent env p i = replicate 32 0xFF" if "i < 126" for i
    using bytes [of "64 + 32 * i"] that by (simp add: ent_def add.assoc)
  then show ?thesis
    using assms(1-3) bytes [of 32] state_at_erased states_bytes_erased
    by (simp add: page_live_def page_ok_def erased_page_def)
qed

context nor_flash
begin

lemma load_sectors_erased:
  assumes "nv_region env" and "\<forall>p \<in> set ps. 4096 * (p + 1) \<le> unat (nv_length env) \<and> page_erased env p" and "distinct ps"
  shows "\<exists>env'. load_sectors rom (\<lambda>_. True) al ps is_err env = (True, env') \<and> same_flash env' env \<and>
    nv_free env' = nv_free env @ ps \<and> nv_used env' = nv_used env \<and> nv_ns env' = nv_ns env \<and>
    nv_ns_states env' = nv_ns_states env \<and> (\<forall>p. p \<notin> set ps \<longrightarrow> nv_page env' p = nv_page env p) \<and>
    (\<forall>p \<in> set ps. pg_base (nv_page env' p) = of_nat (4096 * p) \<and> ph_state (pg_header (nv_page env' p)) = PAGE_UNINITIALIZED)"
  using assms
proof (induction ps arbitrary: env)
  case Nil
  then show ?case by (simp add: same_flash_def)
next
  case (Cons p ps)
  have p: "4096 * (p + 1) \<le> unat (nv_length env)" "page_erased env p" using Cons.prems(2) by auto
  obtain f where l: "load_sectors rom (\<lambda>_. True) al (p # ps) is_err env =
      load_sectors rom (\<lambda>_. True) al ps is_err ((set_page p f env)\<lparr>nv_free := nv_free env @ [p]\<rparr>)"
    and f: "\<And>pg. ph_state (pg_header (f pg)) = PAGE_UNINITIALIZED" "\<And>pg. pg_base (f pg) = of_nat (4096 * p)"
    using load_sector_erased [OF Cons.prems(1) p] by metis
  let ?env = "(set_page p f env)\<lparr>nv_free := nv_free env @ [p]\<rparr>"
  have sf: "same_flash ?env env" by (simp add: same_flash_def heap_simps)
  have "nv_region ?env" "\<forall>p \<in> set ps. 4096 * (p + 1) \<le> unat (nv_length ?env) \<and> page_erased ?env p" "distinct ps"
    using Cons.prems by (simp_all add: same_flash_img [OF sf] page_erased_def)
  from Cons.IH [OF this] obtain env' where
    "load_sectors rom (\<lambda>_. True) al ps is_err ?env = (True, env')" "same_flash env' ?env" "nv_free env' = nv_free env @ p # ps"
    "nv_used env' = nv_used env" "nv_ns env' = nv_ns env" "nv_ns_states env' = nv_ns_states env"
    "\<forall>q. q \<notin> set ps \<longrightarrow> nv_page env' q = nv_page ?env q"
    "\<forall>p \<in> set ps. pg_base (nv_page env' p) = of_nat (4096 * p) \<and> ph_state (pg_header (nv_page env' p)) = PAGE_UNINITIALIZED"
    by (auto simp: heap_simps)
  then show ?case
    using l f Cons.prems(3) by (intro exI [of _ env']) (auto simp: heap_simps same_flash_def)
qed

lemma pages_load_erased:
  assumes er: "region_erased env" and e: "nv_used env = []" "nv_free env = []" "nv_ns env = []"
  obtains env' where "pages_load rom (\<lambda>_. True) (\<lambda>_ _. True) env = (NVDS_OK, env')" and "nv_durable env' (\<lambda>_. [])"
    and "nv_map env' (\<lambda>_. []) = Map.empty" and "room_left env' = 126" and "ns_table env' = []"
    and "nv_base env' = nv_base env" and "nv_length env' = nv_length env" and "nv_ns_states env' = nv_ns_states env"
proof -
  let ?n = "unat (nv_length env) div 4096"
  have reg: "nv_region env" and n: "2 \<le> ?n" using er by (auto simp: region_erased_def)
  have len: "4096 * (p + 1) \<le> unat (nv_length env) \<and> page_erased env p" if "p < ?n" for p
    using er that by (simp add: region_erased_def sector_in_range)
  obtain env1 where l: "load_sectors rom (\<lambda>_. True) (\<lambda>_ _. True) [0..<?n] False env = (True, env1)" and sf: "same_flash env1 env"
    and f1: "nv_free env1 = [0..<?n]" "nv_used env1 = []" "nv_ns env1 = []" "nv_ns_states env1 = nv_ns_states env"
    and pg: "pg_base (nv_page env1 0) = of_nat (4096 * 0)" "ph_state (pg_header (nv_page env1 0)) = PAGE_UNINITIALIZED"
    using load_sectors_erased [of env "[0..<?n]" "\<lambda>_ _. True" False] reg len e n by auto
  have er1: "page_erased env1 p" if "4096 * (p + 1) \<le> unat (nv_length env1)" for p
    using er that by (simp add: region_erased_def page_erased_def same_flash_img [OF sf])
  have reg1: "nv_region env1" and len1: "4096 * (0 + 1) \<le> unat (nv_length env1)"
    using reg n by (simp_all add: same_flash_img [OF sf])
  obtain m env2 where o: "page_open rom 0 0 env1 = (True, env2)"
    and e2: "env2 = set_page 0 (\<lambda>_. erased_page 0 (new_header 0)) (env1\<lparr>nv_dev := (nv_dev env1)\<lparr>fd_mem := m\<rparr>\<rparr>)"
    and i2: "nv_img env2 = img_put 0 (header_bytes (new_header 0)) (nv_img env1)"
    using page_open_erased [OF reg1 len1 er1 [OF len1] pg, of 0, unfolded mult_0_right] .
  define env3 where "env3 = env2\<lparr>nv_free := [1..<?n], nv_used := [0]\<rparr>"
  have up: "[0..<?n] = 0 # [1..<?n]" "[1..<?n] \<noteq> []" using n by (simp_all add: upt_conv_Cons)
  have "new_page_request rom 0 env1 = (Some 0, env3)"
    using o up unfolding new_page_request_def f1 Let_def by (simp add: f1 e2 heap_simps env3_def)
  moreover have "unat (nv_length env) mod 4096 = 0" using reg by (auto simp: nv_region_def dvd_eq_mod_eq_0)
  ultimately have load: "pages_load rom (\<lambda>_. True) (\<lambda>_ _. True) env = (NVDS_OK, env3)"
    using l by (simp add: pages_load_def f1)
  have i3: "nv_img env3 = img_put 0 (header_bytes (new_header 0)) (nv_img env1)"
    unfolding i2 [symmetric] by (simp add: env3_def nv_img_def fun_eq_iff)
  note h = new_header_fields [of 0]
  have hl: "length (header_bytes (new_header 0)) = 32" using h(1) by (rule length_header_bytes)
  have pg3: "nv_page env3 0 = erased_page 0 (new_header 0)" "nv_length env3 = nv_length env" "nv_base env3 = nv_base env"
    "nv_used env3 = [0]" "nv_ns env3 = []" "nv_ns_states env3 = nv_ns_states env"
    using sf f1 by (simp_all add: env3_def e2 heap_simps same_flash_def)
  have other: "nv_img env3 a = 0xFF" if "32 \<le> a" "a < unat (nv_length env)" for a
  proof -
    have "4096 * (a div 4096 + 1) \<le> unat (nv_length env1)"
      using that n reg unfolding sector_in_range same_flash_img [OF sf] by (auto simp: nv_region_def div_less_iff_less_mult)
    from er1 [OF this] have "nv_img env1 a = 0xFF"
      unfolding page_erased_def by (metis mod_less_divisor mult_div_mod_eq zero_less_numeral)
    then show ?thesis using that hl by (simp add: i3 img_put_def)
  qed
  have live: "page_live env3 (\<lambda>_. []) 0"
    using n pg3 h(3) other by (intro erased_page_live [of 0 env3 "new_header 0"]) auto
  have "nv_region env3" using reg1 by (auto simp: env3_def e2 heap_simps nv_region_def fmc_translate_def split: if_splits)
  then have rd: "nv_ready env3 (\<lambda>_. [])"
    using live pg3 by (simp add: nv_ready_def nv_store_def nv_inv_def all_items_def all_plain_def nv_item_def)
  have fh: "flash_header env3 0 = new_header 0"
    using img_bytes_put_same [OF i3] hl bytes_header_bytes [OF h(1)] by (simp add: flash_header_def)
  have "page_erased env3 p" if "4096 * (p + 1) \<le> unat (nv_length env3)" "p \<noteq> 0" for p
    using that other pg3(2) by (auto simp: page_erased_def)
  then have "nv_durable env3 (\<lambda>_. [])"
    using rd fh h pg3 by (simp add: nv_durable_def items_clean_def all_items_def erased_page_def)
  moreover have "nv_map env3 (\<lambda>_. []) = Map.empty" "room_left env3 = 126" "ns_table env3 = []"
    using pg3 by (simp_all add: nv_map_def nv_value_def nv_item_def all_items_def fun_eq_iff room_left_def erased_page_def ns_table_def)
  ultimately show thesis using load pg3 by (intro that [of env3]) auto
qed

end

section \<open>Operations and resets\<close>

text \<open>
  After a reset the RAM is that of a fresh start; the flash is as it was.
\<close>

definition nv_reset :: "nvds_env \<Rightarrow> nvds_env" where
  "nv_reset env = env\<lparr>nv_page := (\<lambda>_. zero_page), nv_free := [], nv_used := [], nv_ns := [],
     nv_ns_states := replicate 8 0\<rparr>"

datatype nv_event = Nv_do nv_op | Nv_restart

fun nv_event_step :: "rom_flash \<Rightarrow> nv_event \<Rightarrow> nvds_env \<Rightarrow> (nvds_ret \<times> nvds_env) option" where
  "nv_event_step rom (Nv_do op) env = nv_step rom op env"
| "nv_event_step rom Nv_restart env =
     Some (nvds_env_load rom (\<lambda>_. True) (\<lambda>_ _. True) (nv_base env) (nv_length env) (nv_reset env))"

fun spec_event :: "nv_event \<Rightarrow> (u8 \<times> u8 list \<rightharpoonup> u8 list) \<Rightarrow> nvds_ret \<times> (u8 \<times> u8 list \<rightharpoonup> u8 list)" where
  "spec_event (Nv_do op) m = spec_step op m"
| "spec_event Nv_restart m = (NVDS_OK, m)"

fun event_entries :: "nv_event \<Rightarrow> nat" where
  "event_entries (Nv_do op) = op_entries op"
| "event_entries Nv_restart = 0"

fun event_valid :: "nv_event \<Rightarrow> bool" where
  "event_valid (Nv_do op) \<longleftrightarrow> op_valid op"
| "event_valid Nv_restart \<longleftrightarrow> True"

lemma nv_updated_durable:
  "nv_durable env I \<Longrightarrow> nv_updated env I ns key v k env' I' \<Longrightarrow> nv_durable env' I'"
  using nv_updated_map [of env I ns key v k env' I'] nv_durable_kept [of env I env' I']
  by (simp add: nv_durable_def [of env] nv_ready_def nv_updated_def)

context nor_flash
begin

lemma nv_step_durable:
  assumes d: "nv_durable env I" and v: "op_valid op" and room: "op_entries op \<le> room_left env"
  obtains env' I' where "nv_step rom op env = Some (fst (spec_step op (nv_map env I)), env')"
    and "nv_map env' I' = snd (spec_step op (nv_map env I))" and "nv_durable env' I'"
    and "room_left env \<le> room_left env' + op_entries op"
proof -
  have st: "nv_store env I" and pl: "all_plain env I" using d by (auto simp: nv_durable_def nv_ready_def)
  have p: "nv_item env I ns key = Some it \<Longrightarrow> plain it" for ns key it using pl unfolding all_plain_def by blast
  show thesis
  proof (cases op)
    case (Nv_put ns key b)
    have "\<not> no_room (nv_page env (last (nv_used env))) (of_nat (length b))"
      using room v by (intro room_left_room [OF st]) (simp_all add: Nv_put)
    then obtain env' I' where "data_element_put rom ns key b (of_nat (length b)) env = Some (NVDS_OK, env')"
      and u: "nv_updated env I ns key (Some b) (value_entries b) env' I'"
      using data_element_put_updated [OF st, of key b ns] v p by (auto simp: Nv_put)
    with nv_updated_map [OF u pl] nv_updated_durable [OF d u] show thesis
      by (intro that [of env' I']) (simp_all add: Nv_put)
  next
    case (Nv_del ns key)
    obtain env' I' where "data_element_del rom ns key env =
        Some (if nv_value env I ns key = None then NVDS_E_NOT_FOUND else NVDS_OK, env')"
      and u: "nv_updated env I ns key None 0 env' I'"
      using data_element_del_updated [OF st p] .
    with nv_updated_map [OF u pl] nv_updated_durable [OF d u] show thesis
      by (intro that [of env' I']) (simp_all add: Nv_del nv_map_def)
  qed
qed

lemma nv_restart_durable:
  assumes d: "nv_durable env I"
  obtains env' where "nvds_env_load rom (\<lambda>_. True) (\<lambda>_ _. True) (nv_base env) (nv_length env) (nv_reset env) = (NVDS_OK, env')"
    and "nv_durable env' I" and "nv_map env' I = nv_map env I" and "room_left env' = room_left env"
    and "ns_table env' = map (\<lambda>ns. (ns_name ns, ns_index ns)) (concat (map (\<lambda>p. load_ns (I p))
       (filter (\<lambda>p. p \<in> set (nv_used env)) [0..<unat (nv_length env) div 4096])))"
    and "nv_used env' = nv_used env" and "ns_marked (nv_ns env') (nv_ns_states env')"
proof -
  let ?env = "(nv_reset env)\<lparr>nv_base := nv_base env, nv_length := nv_length env\<rparr>"
  have "same_flash ?env env" "nv_used ?env = []" "nv_ns ?env = []" "nv_ns_states ?env = replicate 8 0"
    by (simp_all add: same_flash_def nv_reset_def)
  from pages_load_durable [OF d this] obtain env' where
    "pages_load rom (\<lambda>_. True) (\<lambda>_ _. True) ?env = (NVDS_OK, env')" "nv_durable env' I" "nv_map env' I = nv_map env I"
    "room_left env' = room_left env" "same_flash env' env" "ns_table env' = map (\<lambda>ns. (ns_name ns, ns_index ns)) (concat (map (\<lambda>p. load_ns (I p))
       (filter (\<lambda>p. p \<in> set (nv_used env)) [0..<unat (nv_length env) div 4096])))"
    "nv_used env' = nv_used env" "ns_marked (nv_ns env') (nv_ns_states env')" .
  then show thesis by (intro that [of env']) (simp_all add: nvds_env_load_def)
qed

end

text \<open>
  The storage as an implementation of the map, for every ROM that programs a NOR flash.
\<close>

definition nv_represents :: "nvds_env \<Rightarrow> (u8 \<times> u8 list \<rightharpoonup> u8 list) \<Rightarrow> bool" where
  "nv_represents env m \<longleftrightarrow> (\<exists>I. nv_durable env I \<and> nv_map env I = m)"

sublocale nor_flash \<subseteq> life: budget_refinement "nv_event_step rom" spec_event nv_represents event_valid event_entries room_left
proof unfold_locales
  fix env m ev
  assume "nv_represents env m" and ev: "event_valid ev" "event_entries ev \<le> room_left env"
  then obtain I where d: "nv_durable env I" and m: "m = nv_map env I" by (auto simp: nv_represents_def)
  show "\<exists>env'. nv_event_step rom ev env = Some (fst (spec_event ev m), env') \<and>
      nv_represents env' (snd (spec_event ev m)) \<and> room_left env \<le> room_left env' + event_entries ev"
  proof (cases ev)
    case (Nv_do op)
    have "op_valid op" "op_entries op \<le> room_left env" using ev by (simp_all add: Nv_do)
    from d this obtain env' I' where "nv_step rom op env = Some (fst (spec_step op (nv_map env I)), env')"
      "nv_map env' I' = snd (spec_step op (nv_map env I))" "nv_durable env' I'" "room_left env \<le> room_left env' + op_entries op"
      by (rule nv_step_durable)
    then show ?thesis by (auto simp: Nv_do m nv_represents_def)
  next
    case Nv_restart
    obtain env' where "nvds_env_load rom (\<lambda>_. True) (\<lambda>_ _. True) (nv_base env) (nv_length env) (nv_reset env) = (NVDS_OK, env')"
      "nv_durable env' I" "nv_map env' I = nv_map env I" "room_left env' = room_left env"
      using nv_restart_durable [OF d] .
    then show ?thesis by (auto simp: Nv_restart m nv_represents_def)
  qed
qed

context nor_flash
begin

lemmas events_refine = life.run_refines

end

section \<open>Properties\<close>

text \<open>
  Property C11: an erased region is formatted. Loading a storage on at least two erased sectors
  returns success and leaves a well-formed storage without elements and namespaces, with all
  126 entries of its first page free, whose header in the flash is valid, so that the next
  load finds it.
\<close>

theorem nvds_format_empty:
  assumes "nor_flash rom" and "region_erased (env\<lparr>nv_base := start_adr, nv_length := sz\<rparr>)"
  shows "\<exists>env'. nvds_env_load rom (\<lambda>_. True) (\<lambda>_ _. True) start_adr sz (nv_reset env) = (NVDS_OK, env') \<and>
    nv_durable env' (\<lambda>_. []) \<and> nv_map env' (\<lambda>_. []) = Map.empty \<and> ns_table env' = [] \<and> room_left env' = 126 \<and>
    nv_base env' = start_adr \<and> nv_length env' = sz"
proof -
  let ?env = "(nv_reset env)\<lparr>nv_base := start_adr, nv_length := sz\<rparr>"
  have "region_erased ?env"
    using assms(2) by (simp add: region_erased_def nv_reset_def nv_region_def page_erased_def nv_img_def)
  moreover have "nv_used ?env = []" "nv_free ?env = []" "nv_ns ?env = []" by (simp_all add: nv_reset_def)
  ultimately obtain env' where "pages_load rom (\<lambda>_. True) (\<lambda>_ _. True) ?env = (NVDS_OK, env')" "nv_durable env' (\<lambda>_. [])"
    "nv_map env' (\<lambda>_. []) = Map.empty" "room_left env' = 126" "ns_table env' = []"
    "nv_base env' = nv_base ?env" "nv_length env' = nv_length ?env"
    by (rule nor_flash.pages_load_erased [OF assms(1)])
  then show ?thesis by (intro exI [of _ env']) (simp add: nvds_env_load_def)
qed

lemma nv_example_erased: "region_erased nv_example" "nv_example\<lparr>nv_base := 0x3F0000, nv_length := 0x2000\<rparr> = nv_example"
  by (auto simp: region_erased_def page_erased_def nv_img_def nv_region_def nv_example_def fmc_translate_def)

theorem nvds_format_empty_witness:
  "\<exists>env'. nvds_env_load ideal_flash (\<lambda>_. True) (\<lambda>_ _. True) 0x3F0000 0x2000 (nv_reset nv_example) = (NVDS_OK, env') \<and>
     nv_map env' (\<lambda>_. []) = Map.empty \<and> room_left env' = 126"
  using nvds_format_empty [OF ideal.nor_flash_axioms, where env = nv_example and start_adr = "0x3F0000" and sz = "0x2000"] nv_example_erased by auto

text \<open>
  Property C2: a storage behaves as a finite map, and a reset does not change the map. From any
  well-formed storage that the code has written, every sequence of writes and deletions of small
  and middle elements, interleaved with resets after which the storage is loaded from the flash
  alone, returns the codes of the same sequence on a map from namespace and key to value, where
  a reset keeps the map, as long as the new entries fit into the page being written. At the end
  reading any key gives what the map has. A freshly formatted storage is such a storage.
\<close>

theorem nvds_survives_resets:
  assumes "nor_flash rom" and "nv_represents env m" and "\<forall>ev \<in> set evs. event_valid ev"
    and "sum_list (map event_entries evs) \<le> room_left env"
  shows "\<exists>env'. run_ops (nv_event_step rom) evs env = Some (fst (spec_ops spec_event evs m), env') \<and>
    nv_represents env' (snd (spec_ops spec_event evs m)) \<and> reads_map rom env' (snd (spec_ops spec_event evs m))"
proof -
  obtain env' where r: "run_ops (nv_event_step rom) evs env = Some (fst (spec_ops spec_event evs m), env')"
    "nv_represents env' (snd (spec_ops spec_event evs m))"
    using nor_flash.events_refine [OF assms] by blast
  then have "reads_map rom env' (snd (spec_ops spec_event evs m))"
    using nor_flash.reads_map_store [OF assms(1)] unfolding nv_represents_def nv_durable_def nv_ready_def by metis
  with r show ?thesis by blast
qed

theorem nvds_survives_resets_witness:
  "\<exists>env env'. nvds_env_load ideal_flash (\<lambda>_. True) (\<lambda>_ _. True) 0x3F0000 0x2000 (nv_reset nv_example) = (NVDS_OK, env) \<and>
     run_ops (nv_event_step ideal_flash) [Nv_do (Nv_put 1 [97] [1, 2]), Nv_restart, Nv_do (Nv_put 1 [98] (replicate 40 9)), Nv_do (Nv_del 1 [97]), Nv_restart]
       env = Some ([NVDS_OK, NVDS_OK, NVDS_OK, NVDS_OK, NVDS_OK], env') \<and>
     data_element_get ideal_flash env' 1 [98] (Some (replicate 40 0)) 40 = Some (NVDS_OK, 40, Some (replicate 40 9)) \<and>
     data_element_get ideal_flash env' 1 [97] (Some [0, 0]) 2 = Some (NVDS_E_NOT_FOUND, 2, Some [0, 0])"
proof -
  let ?evs = "[Nv_do (Nv_put 1 [97] [1, 2]), Nv_restart, Nv_do (Nv_put 1 [98] (replicate 40 9)), Nv_do (Nv_del 1 [97]), Nv_restart]"
  let ?env = "(nv_reset nv_example)\<lparr>nv_base := 0x3F0000, nv_length := 0x2000\<rparr>"
  have "region_erased ?env"
    using nv_example_erased(1) by (simp add: region_erased_def nv_reset_def nv_region_def page_erased_def nv_img_def nv_example_def)
  moreover have "nv_used ?env = []" "nv_free ?env = []" "nv_ns ?env = []" by (simp_all add: nv_reset_def)
  ultimately obtain env where l: "pages_load ideal_flash (\<lambda>_. True) (\<lambda>_ _. True) ?env = (NVDS_OK, env)"
    and d: "nv_durable env (\<lambda>_. [])" and m: "nv_map env (\<lambda>_. []) = Map.empty" and r: "room_left env = 126"
    by (rule ideal.pages_load_erased)
  have "\<forall>ev \<in> set ?evs. event_valid ev" "sum_list (map event_entries ?evs) \<le> room_left env"
    by (simp_all add: r value_entries_def data_entries_def)
  moreover have "nv_represents env Map.empty" using d m by (auto simp: nv_represents_def)
  moreover have "spec_ops spec_event ?evs Map.empty =
      ([NVDS_OK, NVDS_OK, NVDS_OK, NVDS_OK, NVDS_OK], Map.empty((1, [98]) \<mapsto> replicate 40 9))" by (simp add: fun_upd_twist)
  ultimately obtain env' where
    e: "run_ops (nv_event_step ideal_flash) ?evs env = Some ([NVDS_OK, NVDS_OK, NVDS_OK, NVDS_OK, NVDS_OK], env')"
    and g: "reads_map ideal_flash env' (Map.empty((1, [98]) \<mapsto> replicate 40 9))"
    using nvds_survives_resets [OF ideal.nor_flash_axioms, of env Map.empty ?evs] by auto
  have "data_element_get ideal_flash env' 1 [98] (Some (replicate 40 0)) 40 = Some (NVDS_OK, 40, Some (replicate 40 9))"
    using reads_mapD(2) [OF g, of "replicate 40 0" 1 "[98]" "replicate 40 9"] by (simp add: mem_put_def)
  moreover have "data_element_get ideal_flash env' 1 [97] (Some [0, 0]) 2 = Some (NVDS_E_NOT_FOUND, 2, Some [0, 0])"
    using reads_mapD(1) [OF g, of "[0, 0]" 1 "[97]"] by simp
  ultimately show ?thesis using l e by (intro exI [of _ env] exI [of _ env']) (simp add: nvds_env_load_def)
qed

end
