(* ===== verification/Nvds_Named.thy ===== *)
theory Nvds_Named
  imports Nvds_Format
begin

text \<open>
  The exported operations on named values across resets: a storage behaves as a map from the
  name of a namespace and a key to a value.
\<close>

section \<open>Namespaces in the flash\<close>

text \<open>
  The elements of namespace 0 give the indices of the namespaces: one byte each, distinct, in
  the range of indices that the code gives out; an element with such an index belongs to a
  namespace.
\<close>

definition names_ok :: "(u8 \<times> u8 list \<rightharpoonup> u8 list) \<Rightarrow> bool" where
  "names_ok M \<longleftrightarrow> (\<forall>name v. M (0, name) = Some v \<longrightarrow> (\<exists>i. v = [i] \<and> i \<noteq> 0 \<and> unat i < 254)) \<and>
     (\<forall>n n' i. M (0, n) = Some [i] \<longrightarrow> M (0, n') = Some [i] \<longrightarrow> n = n') \<and>
     (\<forall>i key. M (i, key) \<noteq> None \<longrightarrow> i \<noteq> 0 \<longrightarrow> unat i < 254 \<longrightarrow> (\<exists>name. M (0, name) = Some [i]))"

text \<open>
  The table of namespaces and the bit set in RAM agree with them.
\<close>

definition names_loaded :: "nvds_env \<Rightarrow> (u8 \<times> u8 list \<rightharpoonup> u8 list) \<Rightarrow> bool" where
  "names_loaded env M \<longleftrightarrow> (\<forall>name i. map_of (ns_table env) name = Some i \<longleftrightarrow> M (0, name) = Some [i]) \<and>
     length (nv_ns_states env) = 8 \<and>
     (\<forall>i. ns_state_get (nv_ns_states env) i \<longleftrightarrow> (\<exists>name. M (0, name) = Some [i]))"

lemma map_of_unique: "(k, v) \<in> set xs \<Longrightarrow> (\<And>v'. (k, v') \<in> set xs \<Longrightarrow> v' = v) \<Longrightarrow> map_of xs k = Some v"
  using weak_map_of_SomeI [of k v xs] map_of_SomeD [of xs k] by metis

lemma clean_item_matches:
  "items_clean its \<Longrightarrow> (ENTRY_USED, e, d) \<in> set its \<Longrightarrow>
     matches (tag_namespace_get (entry_tag e)) (entry_key e) (ENTRY_USED, e, d)"
  by (fastforce simp: items_clean_def matches_def element_match_def entry_states)

context nor_flash
begin

text \<open>
  A namespace entry of a loaded page is the element that the map has for its name.
\<close>

lemma ns_item_value:
  assumes d: "nv_durable env I" and it: "(s, e, d) \<in> set (all_items I (nv_used env))" "ns_entry (s, e, d)"
    and v: "nv_map env I (0, entry_key e) = Some v" "length v = 1"
  shows "v = [entry_value e ! 0]"
proof -
  have st: "nv_store env I" and clean: "items_clean (all_items I (nv_used env))" and pl: "all_plain env I"
    using d by (auto simp: nv_durable_def nv_ready_def)
  have s: "s = ENTRY_USED" and ns: "tag_namespace_get (entry_tag e) = 0" using it(2) by (auto simp: ns_entry_def)
  have m: "matches 0 (entry_key e) (s, e, d)" using clean_item_matches [OF clean, of e d] it(1) ns s by simp
  obtain it' where it': "nv_item env I 0 (entry_key e) = Some it'" and v': "v = item_value it'"
    using v(1) by (auto simp: nv_map_def nv_value_def)
  have p: "plain it'" using pl it' unfolding all_plain_def by blast
  have "it' \<in> set (all_items I (nv_used env))" "matches 0 (entry_key e) it'"
    using it' by (auto simp: nv_item_def find_Some_iff)
  with st p have "filter (matches 0 (entry_key e)) (all_items I (nv_used env)) = [it']" unfolding nv_store_def by blast
  moreover have "(s, e, d) \<in> set (filter (matches 0 (entry_key e)) (all_items I (nv_used env)))" using it(1) m by simp
  ultimately have eq: "it' = (s, e, d)" by simp
  have ok: "item_ok (s, e, d)" using nv_store_item_ok [OF st it' p] eq by simp
  have len: "unat (entry_length e) = 1"
    using item_value_length [of env I 0 "entry_key e" s e d] st it' p ok v' v(2) by (simp add: eq nv_store_def)
  have small: "item_type e = ELEMENT_SMALL"
  proof (rule ccontr)
    assume "item_type e \<noteq> ELEMENT_SMALL"
    then have "item_type e = ELEMENT_MIDDLE" using p by (simp add: eq plain_def)
    then have "8 < unat (entry_length e)" using clean it(1) s by (fastforce simp: items_clean_def entry_states)
    then show False using len by simp
  qed
  have "v = take 1 (entry_value e)" using v' small len by (simp add: eq item_value_def)
  moreover from this v(2) have "entry_value e \<noteq> []" by auto
  ultimately show ?thesis by (cases "entry_value e") simp_all
qed

lemma restart_names:
  assumes d: "nv_durable env I" and ok: "names_ok (nv_map env I)"
    and tab: "ns_table env' = map (\<lambda>ns. (ns_name ns, ns_index ns)) (concat (map (\<lambda>p. load_ns (I p))
       (filter (\<lambda>p. p \<in> set (nv_used env)) [0..<unat (nv_length env) div 4096])))"
    and mk: "ns_marked (nv_ns env') (nv_ns_states env')"
  shows "names_loaded env' (nv_map env I)"
proof -
  let ?M = "nv_map env I" and ?all = "all_items I (nv_used env)"
  have "set (nv_used env) \<subseteq> {..<unat (nv_length env) div 4096}"
    using d by (auto simp: nv_durable_def nv_ready_def nv_store_def nv_inv_def page_live_def page_ok_def sector_in_range)
  then have items: "set (concat (map I (filter (\<lambda>p. p \<in> set (nv_used env)) [0..<unat (nv_length env) div 4096]))) = set ?all"
    by (auto simp: all_items_def)
  have mem: "(name, i) \<in> set (ns_table env') \<longleftrightarrow>
      (\<exists>s e d. (s, e, d) \<in> set ?all \<and> ns_entry (s, e, d) \<and> name = entry_key e \<and> i = entry_value e ! 0)" for name i
    unfolding tab items [symmetric] by (force simp: load_ns_def)
  have val: "?M (0, entry_key e) = Some [entry_value e ! 0]" if "(s, e, d) \<in> set ?all" "ns_entry (s, e, d)" for s e d
  proof -
    have "matches 0 (entry_key e) (s, e, d)"
      using d that clean_item_matches [of ?all e d] by (auto simp: nv_durable_def ns_entry_def)
    then have "nv_item env I 0 (entry_key e) \<noteq> None" using that(1) by (auto simp: nv_item_def find_None_iff)
    then obtain v where v: "?M (0, entry_key e) = Some v" by (auto simp: nv_map_def nv_value_def)
    then have "length v = 1" using ok unfolding names_ok_def by fastforce
    from ns_item_value [OF d that v this] v show ?thesis by simp
  qed
  have tabM: "(name, i) \<in> set (ns_table env') \<longleftrightarrow> ?M (0, name) = Some [i]" for name i
  proof
    assume "(name, i) \<in> set (ns_table env')"
    then show "?M (0, name) = Some [i]" using val by (auto simp: mem)
  next
    assume a: "?M (0, name) = Some [i]"
    then obtain s e b where it: "nv_item env I 0 name = Some (s, e, b)" by (auto simp: nv_map_def nv_value_def)
    then have "(s, e, b) \<in> set ?all" and m: "matches 0 name (s, e, b)" by (auto simp: nv_item_def find_Some_iff)
    moreover have "ns_entry (s, e, b)" "entry_key e = name" using m by (auto simp: matches_def element_match_def ns_entry_def)
    ultimately show "(name, i) \<in> set (ns_table env')" using val [of s e b] a by (auto simp: mem)
  qed
  have "map_of (ns_table env') name = Some i \<longleftrightarrow> ?M (0, name) = Some [i]" for name i
    using tabM map_of_unique [of name i "ns_table env'"] map_of_SomeD [of "ns_table env'" name i] by auto
  moreover have "ns_index ` set (nv_ns env') = snd ` set (ns_table env')" by (force simp: ns_table_def)
  then have "ns_state_get (nv_ns_states env') i \<longleftrightarrow> (\<exists>name. ?M (0, name) = Some [i])" for i
  proof -
    have "i \<in> snd ` set (ns_table env') \<longleftrightarrow> (\<exists>name. (name, i) \<in> set (ns_table env'))" by force
    then show ?thesis using mk \<open>ns_index ` _ = _\<close> by (simp add: ns_marked_def tabM)
  qed
  ultimately show ?thesis using mk by (simp add: names_loaded_def ns_marked_def)
qed

end

section \<open>Named values\<close>

definition named_map :: "(u8 \<times> u8 list \<rightharpoonup> u8 list) \<Rightarrow> u8 list option \<times> u8 list \<rightharpoonup> u8 list" where
  "named_map M = (\<lambda>(name, key). case name of
     None \<Rightarrow> M (NAMESPACE_NULL_IDX, key)
   | Some n \<Rightarrow> (case M (0, n) of None \<Rightarrow> None | Some v \<Rightarrow> M (hd v, key)))"

lemma names_okD:
  assumes "names_ok M"
  shows "M (0, n) = Some v \<Longrightarrow> \<exists>i. v = [i] \<and> i \<noteq> 0 \<and> unat i < 254"
    "M (0, n) = Some [i] \<Longrightarrow> M (0, n') = Some [i] \<Longrightarrow> n = n'"
    "M (i, key) \<noteq> None \<Longrightarrow> i \<noteq> 0 \<Longrightarrow> unat i < 254 \<Longrightarrow> \<exists>name. M (0, name) = Some [i]"
  using assms unfolding names_ok_def by blast+

lemma null_idx: "NAMESPACE_NULL_IDX \<noteq> 0" "unat NAMESPACE_NULL_IDX = 254"
  by (simp_all add: NAMESPACE_NULL_IDX_def)

text \<open>
  A value in a namespace that exists, in the storage without a name and for a new namespace.
\<close>

lemma named_put:
  assumes ok: "names_ok M" and n: "M (0, n) = Some [i]"
  shows "names_ok (M((i, key) \<mapsto> v))" "named_map (M((i, key) \<mapsto> v)) = (named_map M)((Some n, key) \<mapsto> v)"
proof -
  have i: "i \<noteq> 0" "unat i < 254" using names_okD(1) [OF ok n] by auto
  then have nn: "i \<noteq> NAMESPACE_NULL_IDX" using null_idx by auto
  have i': "n' = n" if "M (0, n') = Some (i # xs)" for n' xs
  proof -
    have "xs = []" using names_okD(1) [OF ok that] by simp
    then show ?thesis using names_okD(2) [OF ok n, of n'] that by simp
  qed
  have e: "(M((i, key) \<mapsto> v)) (0, n') = M (0, n')" for n' using i(1) by simp
  show "names_ok (M((i, key) \<mapsto> v))"
    unfolding names_ok_def e
  proof (intro conjI allI impI)
    show "\<exists>name. M (0, name) = Some [j]" if "(M((i, key) \<mapsto> v)) (j, key') \<noteq> None" "j \<noteq> 0" "unat j < 254" for j key'
      using that n names_okD(3) [OF ok, of j key'] by (cases "j = i") (auto split: if_splits)
  qed (use names_okD(1,2) [OF ok] in blast)+
  show "named_map (M((i, key) \<mapsto> v)) = (named_map M)((Some n, key) \<mapsto> v)"
  proof (rule ext, clarify)
    fix name key'
    show "named_map (M((i, key) \<mapsto> v)) (name, key') = ((named_map M)((Some n, key) \<mapsto> v)) (name, key')"
    proof (cases name)
      case None
      then show ?thesis using nn by (simp add: named_map_def)
    next
      case (Some n')
      show ?thesis
      proof (cases "M (0, n')")
        case None
        then show ?thesis using n by (auto simp: named_map_def Some e simp del: fun_upd_apply) (auto simp: named_map_def)
      next
        case s: (Some w)
        then obtain j where w: "w = [j]" using names_okD(1) [OF ok] by blast
        have "j = i \<longleftrightarrow> n' = n" using n s w i' [of n' "[]"] by auto
        then show ?thesis using s w i(1) by (auto simp: named_map_def Some)
      qed
    qed
  qed
qed

lemma named_put_null:
  assumes "names_ok M"
  shows "names_ok (M((NAMESPACE_NULL_IDX, key) \<mapsto> v))"
    "named_map (M((NAMESPACE_NULL_IDX, key) \<mapsto> v)) = (named_map M)((None, key) \<mapsto> v)"
proof -
  let ?M = "M((NAMESPACE_NULL_IDX, key) \<mapsto> v)"
  have e: "?M (0, n) = M (0, n)" for n using null_idx(1) by simp
  have k: "?M (i, key') = M (i, key')" if "unat i < 254" for i key' using null_idx(2) that by auto
  show "names_ok ?M"
    unfolding names_ok_def e
  proof (intro conjI allI impI)
    show "\<exists>name. M (0, name) = Some [i]" if "?M (i, key') \<noteq> None" "i \<noteq> 0" "unat i < 254" for i key'
      using that names_okD(3) [OF assms, of i key'] unfolding k [OF that(3)] by blast
  qed (use names_okD(1,2) [OF assms] in blast)+
  show "named_map ?M = (named_map M)((None, key) \<mapsto> v)"
  proof (rule ext, clarify)
    fix name key'
    show "named_map ?M (name, key') = ((named_map M)((None, key) \<mapsto> v)) (name, key')"
    proof (cases name)
      case (Some n)
      show ?thesis
      proof (cases "M (0, n)")
        case None
        then show ?thesis using null_idx(1) by (simp add: named_map_def Some)
      next
        case s: (Some w)
        then have "hd w \<noteq> NAMESPACE_NULL_IDX" using names_okD(1) [OF assms s] null_idx(2) by auto
        then show ?thesis using null_idx(1) s by (simp add: named_map_def Some)
      qed
    qed (simp add: named_map_def)
  qed
qed

lemma named_create:
  assumes ok: "names_ok M" and n: "M (0, n) = None" and i: "i \<noteq> 0" "unat i < 254" "\<nexists>n'. M (0, n') = Some [i]"
  shows "names_ok (M((0, n) \<mapsto> [i]))" "named_map (M((0, n) \<mapsto> [i])) = named_map M"
proof -
  let ?M = "M((0, n) \<mapsto> [i])"
  have e: "?M (0, n') = (if n' = n then Some [i] else M (0, n'))" for n' by simp
  have k: "?M (j, key) = M (j, key)" if "j \<noteq> 0" for j key using that by simp
  have free: "M (i, key) = None" for key using names_okD(3) [OF ok, of i key] i by blast
  show "names_ok ?M"
    unfolding names_ok_def
  proof (intro conjI allI impI)
    show "\<exists>j. w = [j] \<and> j \<noteq> 0 \<and> unat j < 254" if "?M (0, n') = Some w" for n' w
      using that i names_okD(1) [OF ok, of n'] unfolding e by (auto split: if_splits)
    show "n1 = n2" if "?M (0, n1) = Some [j]" "?M (0, n2) = Some [j]" for n1 n2 j
      using that i(3) names_okD(2) [OF ok, of n1 j n2] unfolding e by (auto split: if_splits)
    show "\<exists>name. ?M (0, name) = Some [j]" if "?M (j, key) \<noteq> None" "j \<noteq> 0" "unat j < 254" for j key
      using that names_okD(3) [OF ok, of j key] n unfolding e k [OF that(2)] by (metis option.distinct(1))
  qed
  show "named_map ?M = named_map M"
  proof (rule ext, clarify)
    fix name key'
    show "named_map ?M (name, key') = named_map M (name, key')"
    proof (cases name)
      case None
      then show ?thesis using k [OF null_idx(1)] by (simp add: named_map_def)
    next
      case (Some n')
      have "hd w \<noteq> 0" if "M (0, n') = Some w" for w using names_okD(1) [OF ok that] by auto
      then show ?thesis using n i(1) free by (auto simp: named_map_def Some split: option.splits)
    qed
  qed
qed

lemma names_loaded_put:
  assumes "names_loaded env M" and "i \<noteq> 0" and "ns_table env' = ns_table env" and "nv_ns_states env' = nv_ns_states env"
  shows "names_loaded env' (M((i, key) \<mapsto> v))"
  using assms by (simp add: names_loaded_def)

lemma names_loaded_create:
  assumes l: "names_loaded env M" and n: "M (0, n) = None" and i: "\<nexists>n'. M (0, n') = Some [i]"
    and t: "ns_table env' = ns_table env @ [(n, i)]" and s: "nv_ns_states env' = ns_state_set (nv_ns_states env) i True"
  shows "names_loaded env' (M((0, n) \<mapsto> [i]))"
proof -
  have len: "length (nv_ns_states env) = 8" and get: "ns_state_get (nv_ns_states env) j \<longleftrightarrow> (\<exists>n'. M (0, n') = Some [j])"
    and tab: "map_of (ns_table env) n' = Some j \<longleftrightarrow> M (0, n') = Some [j]" for n' j
    using l by (auto simp: names_loaded_def)
  have nn: "map_of (ns_table env) n = None" using tab [of n] n by (cases "map_of (ns_table env) n") auto
  have "map_of (ns_table env') n' = Some j \<longleftrightarrow> (M((0, n) \<mapsto> [i])) (0, n') = Some [j]" for n' j
    using nn tab [of n' j] by (auto simp: t map_add_def split: option.splits)
  moreover have "ns_state_get (nv_ns_states env') j \<longleftrightarrow> (\<exists>n'. (M((0, n) \<mapsto> [i])) (0, n') = Some [j])" for j
  proof -
    have "(\<exists>n'. (M((0, n) \<mapsto> [i])) (0, n') = Some [j]) \<longleftrightarrow> j = i \<or> (\<exists>n'. M (0, n') = Some [j])"
    proof (cases "j = i")
      case True
      have "(M((0, n) \<mapsto> [i])) (0, n) = Some [i]" by simp
      then show ?thesis unfolding True by blast
    next
      case False
      then have "(M((0, n) \<mapsto> [i])) (0, n') = Some [j] \<longleftrightarrow> M (0, n') = Some [j]" for n' using n by simp
      then show ?thesis using False by blast
    qed
    then show ?thesis by (simp add: s ns_state_get_set [OF len] get)
  qed
  ultimately show ?thesis using len by (simp add: names_loaded_def s ns_state_set_def Let_def)
qed

text \<open>
  The indices that are left for new namespaces.
\<close>

definition free_indices :: "u32 list \<Rightarrow> nat list" where
  "free_indices st = filter (\<lambda>i. \<not> ns_state_get st (of_nat i)) [1..<254]"

lemma length_filter_but_one:
  "distinct xs \<Longrightarrow> length (filter P xs) \<le> length (filter (\<lambda>x. P x \<and> x \<noteq> a) xs) + 1"
proof (induction xs)
  case (Cons x xs)
  show ?case
  proof (cases "x = a")
    case True
    then have "filter (\<lambda>x. P x \<and> x \<noteq> a) xs = filter P xs" using Cons.prems by (intro filter_cong) auto
    then show ?thesis using True by simp
  qed (use Cons in simp)
qed simp

lemma free_indices_set:
  assumes "length st = 8" and "i < 254"
  shows "length (free_indices st) \<le> length (free_indices (ns_state_set st (of_nat i) True)) + 1"
proof -
  have "(of_nat j = (of_nat i :: u8)) \<longleftrightarrow> j = i" if "j < 254" for j
    using that assms(2) unat_of_nat_small [of j, where 'a = 8] unat_of_nat_small [of i, where 'a = 8] by (auto simp: word_unat_eq_iff)
  then have "free_indices (ns_state_set st (of_nat i) True) = filter (\<lambda>j. \<not> ns_state_get st (of_nat j) \<and> j \<noteq> i) [1..<254]"
    unfolding free_indices_def by (intro filter_cong) (auto simp: ns_state_get_set [OF assms(1)])
  then show ?thesis
    using length_filter_but_one [of "[1..<254]" "\<lambda>j. \<not> ns_state_get st (of_nat j)" i] by (simp add: free_indices_def)
qed

section \<open>Writing by name\<close>

lemma nv_durable_ns_states [simp]: "nv_durable (env\<lparr>nv_ns_states := st\<rparr>) I \<longleftrightarrow> nv_durable env I"
  by (simp add: nv_durable_def nv_ready_def flash_header_def img_bytes_def nv_img_def page_erased_def)

context nor_flash
begin

lemma put_durable:
  assumes d: "nv_durable env I" and key: "length key < 16" "0 \<notin> set key" and len: "length v \<le> 256"
    and room: "value_entries v \<le> room_left env"
  obtains env' I' where "data_element_put rom ns key v (of_nat (length v)) env = Some (NVDS_OK, env')"
    and "nv_durable env' I'" and "nv_map env' I' = (nv_map env I)((ns, key) \<mapsto> v)"
    and "room_left env \<le> room_left env' + value_entries v" and "ns_table env' = ns_table env"
    and "nv_ns_states env' = nv_ns_states env"
proof -
  have st: "nv_store env I" and pl: "all_plain env I" using d by (auto simp: nv_durable_def nv_ready_def)
  have p: "nv_item env I ns key = Some it \<Longrightarrow> plain it" for it using pl unfolding all_plain_def by blast
  obtain env' I' where put: "data_element_put rom ns key v (of_nat (length v)) env = Some (NVDS_OK, env')"
    and u: "nv_updated env I ns key (Some v) (value_entries v) env' I'"
    using data_element_put_updated [OF st key len room_left_room [OF st len room] p] .
  from put nv_updated_map [OF u pl] nv_updated_durable [OF d u] u show thesis
    by (intro that [of env' I']) (simp_all add: nv_updated_def nv_kept_def)
qed

lemma namespace_create_durable:
  assumes d: "nv_durable env I" and name: "length name < 16" "0 \<notin> set name" and room: "1 \<le> room_left env"
    and i: "ns_free env = Some i"
  obtains env' I' where "namespace_create rom True name env = Some (NVDS_OK, of_nat i, env')"
    and "nv_durable env' I'" and "nv_map env' I' = (nv_map env I)((0, name) \<mapsto> [of_nat i])"
    and "room_left env \<le> room_left env' + 1" and "ns_table env' = ns_table env @ [(name, of_nat i)]"
    and "nv_ns_states env' = ns_state_set (nv_ns_states env) (of_nat i) True"
proof -
  have e: "value_entries [of_nat i] = 1" by (simp add: value_entries_def)
  obtain env1 I1 where p: "data_element_put rom 0 name [of_nat i] (of_nat (length [of_nat i])) env = Some (NVDS_OK, env1)"
    and r: "nv_durable env1 I1" "nv_map env1 I1 = (nv_map env I)((0, name) \<mapsto> [of_nat i])"
      "room_left env \<le> room_left env1 + 1" "ns_table env1 = ns_table env" "nv_ns_states env1 = nv_ns_states env"
    using put_durable [OF d name, of "[of_nat i]" 0, unfolded e] room by auto
  let ?env = "env1\<lparr>nv_ns_states := ns_state_set (nv_ns_states env1) (of_nat i) True,
      nv_ns := nv_ns env1 @ [\<lparr>ns_name = name, ns_index = of_nat i, ns_used_cnt = 0\<rparr>]\<rparr>"
  have "namespace_create rom True name env = Some (NVDS_OK, of_nat i, ?env)"
    using p i by (simp add: namespace_create_def ns_free_def NAMESPACE_NULL_IDX_def Let_def)
  moreover have "nv_durable ?env I1" "nv_map ?env I1 = (nv_map env I)((0, name) \<mapsto> [of_nat i])"
    "room_left env \<le> room_left ?env + 1" "ns_table ?env = ns_table env @ [(name, of_nat i)]"
    "nv_ns_states ?env = ns_state_set (nv_ns_states env) (of_nat i) True"
    using r by simp_all
  ultimately show thesis by (rule that)
qed

end

text \<open>
  The state of a storage that the exported operations work on, and what is left of it.
\<close>

definition named_represents :: "nvds_env \<Rightarrow> (u8 list option \<times> u8 list \<rightharpoonup> u8 list) \<Rightarrow> bool" where
  "named_represents env m \<longleftrightarrow> (\<exists>I. nv_durable env I \<and> names_ok (nv_map env I) \<and> names_loaded env (nv_map env I) \<and>
     m = named_map (nv_map env I))"

definition named_room :: "nvds_env \<Rightarrow> nat" where
  "named_room env = min (room_left env) (length (free_indices (nv_ns_states env)))"

definition name_valid :: "u8 list \<Rightarrow> bool" where
  "name_valid name \<longleftrightarrow> length name < 16 \<and> 0 \<notin> set name"

context nor_flash
begin

text \<open>
  The namespace of a name is found or created.
\<close>

lemma named_index:
  assumes d: "nv_durable env I" "names_ok (nv_map env I)" "names_loaded env (nv_map env I)"
    and name: "name_valid n" and room: "1 \<le> named_room env"
  obtains env' I' i where "ns_index_by_namespace rom True (Some n) True env = Some (NVDS_OK, i, env')"
    and "nv_durable env' I'" and "names_ok (nv_map env' I')" and "names_loaded env' (nv_map env' I')"
    and "named_map (nv_map env' I') = named_map (nv_map env I)" and "nv_map env' I' (0, n) = Some [i]"
    and "room_left env \<le> room_left env' + 1"
    and "length (free_indices (nv_ns_states env)) \<le> length (free_indices (nv_ns_states env')) + 1"
proof -
  let ?M = "nv_map env I"
  have len: "length n \<le> 15" and l8: "length (nv_ns_states env) = 8"
    using name d(3) by (auto simp: name_valid_def names_loaded_def)
  show thesis
  proof (cases "?M (0, n)")
    case None
    then have "map_of (ns_table env) n = None" using d(3) by (cases "map_of (ns_table env) n") (auto simp: names_loaded_def)
    then have look: "ns_index_by_namespace rom True (Some n) True env = namespace_create rom True n env"
      using find_namespace [of n "nv_ns env"] len by (simp add: ns_index_by_namespace_def ns_table_def split: option.splits)
    have "free_indices (nv_ns_states env) \<noteq> []" using room by (auto simp: named_room_def)
    then have "ns_free env \<noteq> None" unfolding ns_free_def free_indices_def find_None_iff by (auto simp: filter_empty_conv)
    then obtain k where k: "ns_free env = Some k" by auto
    then have kk: "1 \<le> k" "k < 254" "\<not> ns_state_get (nv_ns_states env) (of_nat k)"
      by (auto simp: ns_free_def find_Some_iff)
    have u: "unat (of_nat k :: u8) = k" using kk by (intro unat_of_nat_small) simp
    then have k0: "(of_nat k :: u8) \<noteq> 0" using kk(1) by (metis unat_0 not_one_le_zero)
    have nk: "\<nexists>n'. ?M (0, n') = Some [of_nat k]" using kk(3) d(3) by (simp add: names_loaded_def)
    have r1: "1 \<le> room_left env" using room by (simp add: named_room_def)
    obtain env' I' where c: "namespace_create rom True n env = Some (NVDS_OK, of_nat k, env')"
      and f: "nv_durable env' I'" "nv_map env' I' = ?M((0, n) \<mapsto> [of_nat k])" "room_left env \<le> room_left env' + 1"
        "ns_table env' = ns_table env @ [(n, of_nat k)]" "nv_ns_states env' = ns_state_set (nv_ns_states env) (of_nat k) True"
      using namespace_create_durable [OF d(1) _ _ r1 k] name unfolding name_valid_def by blast
    have "names_ok (nv_map env' I')" "named_map (nv_map env' I') = named_map ?M"
      unfolding f(2) using kk(2) u k0 nk by (intro named_create [OF d(2) None]; simp)+
    moreover have "names_loaded env' (nv_map env' I')"
      unfolding f(2) by (rule names_loaded_create [OF d(3) None nk f(4,5)])
    moreover have "length (free_indices (nv_ns_states env)) \<le> length (free_indices (nv_ns_states env')) + 1"
      unfolding f(5) using l8 kk(2) by (intro free_indices_set) auto
    ultimately show thesis using c f look by (intro that [of "of_nat k" env' I']) simp_all
  next
    case (Some w)
    then obtain i where w: "?M (0, n) = Some [i]" using names_okD(1) [OF d(2)] by blast
    then have "map_of (ns_table env) n = Some i" using d(3) by (simp add: names_loaded_def)
    from ns_index_known [OF len this, of rom True True] show thesis using d w by (intro that [of i env I]) simp_all
  qed
qed

lemma named_put_step:
  assumes r: "named_represents env m" and name: "\<And>n. name = Some n \<Longrightarrow> name_valid n" and key: "name_valid key"
    and v: "0 < length v" "length v \<le> 256" and room: "1 + value_entries v \<le> named_room env"
  obtains env' where "nvds_data_put rom True True name (Some key) (Some v) (of_nat (length v)) env = Some (NVDS_OK, env')"
    and "named_represents env' (m((name, key) \<mapsto> v))" and "named_room env \<le> named_room env' + (1 + value_entries v)"
proof -
  obtain I where d: "nv_durable env I" "names_ok (nv_map env I)" "names_loaded env (nv_map env I)" and m: "m = named_map (nv_map env I)"
    using r by (auto simp: named_represents_def)
  obtain env1 I1 i where ix: "ns_index_by_namespace rom True name True env = Some (NVDS_OK, i, env1)"
    and d1: "nv_durable env1 I1" "names_ok (nv_map env1 I1)" "names_loaded env1 (nv_map env1 I1)"
    and m1: "named_map (nv_map env1 I1) = m" and r1: "room_left env \<le> room_left env1 + 1"
      "length (free_indices (nv_ns_states env)) \<le> length (free_indices (nv_ns_states env1)) + 1"
    and i: "case name of None \<Rightarrow> i = NAMESPACE_NULL_IDX | Some n \<Rightarrow> nv_map env1 I1 (0, n) = Some [i]"
  proof (cases name)
    case None
    then show thesis using d m by (intro that [of NAMESPACE_NULL_IDX env I]) (simp_all add: ns_index_by_namespace_def)
  next
    case (Some n)
    have "1 \<le> named_room env" using room by simp
    with d name [OF Some] obtain env' I' i where "ns_index_by_namespace rom True (Some n) True env = Some (NVDS_OK, i, env')"
      "nv_durable env' I'" "names_ok (nv_map env' I')" "names_loaded env' (nv_map env' I')"
      "named_map (nv_map env' I') = named_map (nv_map env I)" "nv_map env' I' (0, n) = Some [i]"
      "room_left env \<le> room_left env' + 1"
      "length (free_indices (nv_ns_states env)) \<le> length (free_indices (nv_ns_states env')) + 1"
      by (rule named_index)
    then show thesis using m by (intro that [of i env' I']) (simp_all add: Some)
  qed
  have i0: "i \<noteq> 0" using i null_idx(1) names_okD(1) [OF d1(2)] by (cases name) fastforce+
  have k: "length key < 16" "0 \<notin> set key" using key by (auto simp: name_valid_def)
  have "value_entries v \<le> room_left env1" using r1(1) room by (simp add: named_room_def)
  then obtain env2 I2 where p: "data_element_put rom i key v (of_nat (length v)) env1 = Some (NVDS_OK, env2)"
    and f: "nv_durable env2 I2" "nv_map env2 I2 = (nv_map env1 I1)((i, key) \<mapsto> v)"
      "room_left env1 \<le> room_left env2 + value_entries v" "ns_table env2 = ns_table env1" "nv_ns_states env2 = nv_ns_states env1"
    using put_durable [OF d1(1) k v(2)] by blast
  obtain l where l: "snd (ns_add_used_cnt i env2) = env2\<lparr>nv_ns := l\<rparr>" "ns_table (env2\<lparr>nv_ns := l\<rparr>) = ns_table env2"
    using ns_add_used_cnt_keep .
  let ?env = "env2\<lparr>nv_ns := l\<rparr>"
  have un: "unat (of_nat (length v) :: u32) = length v" using v(2) by (intro unat_of_nat_small) simp
  then have "(of_nat (length v) :: u32) \<noteq> 0" using v(1) by (auto simp: unat_eq_0 [symmetric] simp del: unat_eq_0)
  then have put: "nvds_data_put rom True True name (Some key) (Some v) (of_nat (length v)) env = Some (NVDS_OK, ?env)"
    using ix p l(1) un k(1) v(2) by (simp add: nvds_data_put_def)
  have "names_ok (nv_map ?env I2)" "named_map (nv_map ?env I2) = m((name, key) \<mapsto> v)"
    using i named_put [OF d1(2)] named_put_null [OF d1(2)] m1 f(2) by (cases name; simp)+
  moreover have "names_loaded ?env (nv_map ?env I2)"
    using names_loaded_put [OF d1(3) i0, of ?env key v] f(2,4,5) l(2) by simp
  ultimately have "named_represents ?env (m((name, key) \<mapsto> v))"
    using f(1) by (auto simp: named_represents_def)
  moreover have "named_room env \<le> named_room ?env + (1 + value_entries v)"
    using r1 f(3,5) by (simp add: named_room_def)
  ultimately show thesis using put by (intro that [of ?env])
qed

end

section \<open>Sequences of writes and resets\<close>

datatype named_op = Named_put "u8 list option" "u8 list" "u8 list" | Named_restart

fun named_step :: "rom_flash \<Rightarrow> named_op \<Rightarrow> nvds_env \<Rightarrow> (nvds_ret \<times> nvds_env) option" where
  "named_step rom (Named_put name key v) env =
     nvds_data_put rom True True name (Some key) (Some v) (of_nat (length v)) env"
| "named_step rom Named_restart env =
     Some (nvds_env_load rom (\<lambda>_. True) (\<lambda>_ _. True) (nv_base env) (nv_length env) (nv_reset env))"

fun spec_named :: "named_op \<Rightarrow> (u8 list option \<times> u8 list \<rightharpoonup> u8 list) \<Rightarrow> nvds_ret \<times> (u8 list option \<times> u8 list \<rightharpoonup> u8 list)" where
  "spec_named (Named_put name key v) m = (NVDS_OK, m((name, key) \<mapsto> v))"
| "spec_named Named_restart m = (NVDS_OK, m)"

fun named_valid :: "named_op \<Rightarrow> bool" where
  "named_valid (Named_put name key v) \<longleftrightarrow>
     (case name of None \<Rightarrow> True | Some n \<Rightarrow> name_valid n) \<and> name_valid key \<and> 0 < length v \<and> length v \<le> 256"
| "named_valid Named_restart \<longleftrightarrow> True"

fun named_cost :: "named_op \<Rightarrow> nat" where
  "named_cost (Named_put name key v) = 1 + value_entries v"
| "named_cost Named_restart = 0"

text \<open>
  Reading any value by name gives what the map has.
\<close>

definition reads_named :: "rom_flash \<Rightarrow> nvds_env \<Rightarrow> (u8 list option \<times> u8 list \<rightharpoonup> u8 list) \<Rightarrow> bool" where
  "reads_named rom env m \<longleftrightarrow> (\<forall>name key out. (\<forall>n. name = Some n \<longrightarrow> name_valid n) \<and> name_valid key \<and> length out < 2 ^ 32 \<longrightarrow>
     (case m (name, key) of
        None \<Rightarrow> nvds_data_get rom True name (Some key) (Some out) (Some (of_nat (length out))) env =
          Some (NVDS_E_NOT_FOUND, Some (of_nat (length out)), Some out)
      | Some v \<Rightarrow> length v \<le> length out \<longrightarrow>
          nvds_data_get rom True name (Some key) (Some out) (Some (of_nat (length out))) env =
            Some (NVDS_OK, Some (of_nat (length v)), Some (mem_put out 0 v))))"

lemma reads_namedD:
  assumes "reads_named rom env m" and "\<And>n. name = Some n \<Longrightarrow> name_valid n" and "name_valid key" and "length out < 2 ^ 32"
    and "m (name, key) = Some v" and "length v \<le> length out"
  shows "nvds_data_get rom True name (Some key) (Some out) (Some (of_nat (length out))) env =
    Some (NVDS_OK, Some (of_nat (length v)), Some (mem_put out 0 v))"
  using assms(1) [unfolded reads_named_def, rule_format, of name key out] assms(2-6) by simp

context nor_flash
begin

lemma named_restart_step:
  assumes "named_represents env m"
  obtains env' where "nvds_env_load rom (\<lambda>_. True) (\<lambda>_ _. True) (nv_base env) (nv_length env) (nv_reset env) = (NVDS_OK, env')"
    and "named_represents env' m" and "named_room env' = named_room env"
proof -
  obtain I where d: "nv_durable env I" and ok: "names_ok (nv_map env I)" and nl: "names_loaded env (nv_map env I)"
    and m: "m = named_map (nv_map env I)" using assms by (auto simp: named_represents_def)
  obtain env' where l: "nvds_env_load rom (\<lambda>_. True) (\<lambda>_ _. True) (nv_base env) (nv_length env) (nv_reset env) = (NVDS_OK, env')"
    and f: "nv_durable env' I" "nv_map env' I = nv_map env I" "room_left env' = room_left env"
    and t: "ns_table env' = map (\<lambda>ns. (ns_name ns, ns_index ns)) (concat (map (\<lambda>p. load_ns (I p))
       (filter (\<lambda>p. p \<in> set (nv_used env)) [0..<unat (nv_length env) div 4096])))" "nv_used env' = nv_used env"
    and mk: "ns_marked (nv_ns env') (nv_ns_states env')"
    using nv_restart_durable [OF d] .
  have nl': "names_loaded env' (nv_map env I)" by (rule restart_names [OF d ok t(1) mk])
  then have "named_represents env' m" using f ok m by (auto simp: named_represents_def)
  moreover have "free_indices (nv_ns_states env') = free_indices (nv_ns_states env)"
    using nl nl' by (simp add: names_loaded_def free_indices_def)
  ultimately show thesis using l f(3) by (intro that [of env']) (simp_all add: named_room_def)
qed

lemma named_get:
  assumes r: "named_represents env m" and name: "\<And>n. name = Some n \<Longrightarrow> name_valid n" and key: "name_valid key"
    and n: "length out < 2 ^ 32"
  shows "case m (name, key) of
      None \<Rightarrow> nvds_data_get rom True name (Some key) (Some out) (Some (of_nat (length out))) env =
        Some (NVDS_E_NOT_FOUND, Some (of_nat (length out)), Some out)
    | Some v \<Rightarrow> length v \<le> length out \<longrightarrow>
        nvds_data_get rom True name (Some key) (Some out) (Some (of_nat (length out))) env =
          Some (NVDS_OK, Some (of_nat (length v)), Some (mem_put out 0 v))"
proof -
  obtain I where d: "nv_durable env I" "names_ok (nv_map env I)" "names_loaded env (nv_map env I)" and m: "m = named_map (nv_map env I)"
    using r by (auto simp: named_represents_def)
  have rm: "reads_map rom env (nv_map env I)" using d(1) by (intro reads_map_store) (auto simp: nv_durable_def nv_ready_def)
  note get = reads_mapD [OF rm n]
  have k: "\<not> length key > KEY_NAME_MAX_SIZE - 1" using key by (simp add: name_valid_def)
  have via: ?thesis if ix: "ns_index_by_namespace rom False name False env = Some (NVDS_OK, i, env)"
    and mi: "m (name, key) = nv_map env I (i, key)" for i
    using get [of i key] ix k by (cases "nv_map env I (i, key)") (auto simp: nvds_data_get_def mi)
  show ?thesis
  proof (cases name)
    case None
    then show ?thesis by (intro via [of NAMESPACE_NULL_IDX]) (simp_all add: ns_index_by_namespace_def m named_map_def)
  next
    case (Some n')
    have len: "length n' \<le> 15" using name [OF Some] by (simp add: name_valid_def)
    show ?thesis
    proof (cases "nv_map env I (0, n')")
      case None
      then have "map_of (ns_table env) n' = None" using d(3) by (cases "map_of (ns_table env) n'") (auto simp: names_loaded_def)
      then have "ns_index_by_namespace rom False (Some n') False env = Some (NVDS_E_NOT_FOUND, 0, env)"
        using find_namespace [of n' "nv_ns env"] len by (simp add: ns_index_by_namespace_def ns_table_def split: option.splits)
      moreover have "m (name, key) = None" using None by (simp add: m named_map_def Some)
      ultimately show ?thesis using k by (simp add: nvds_data_get_def Some)
    next
      case w: (Some w)
      then obtain i where i: "nv_map env I (0, n') = Some [i]" using names_okD(1) [OF d(2)] by blast
      then have "map_of (ns_table env) n' = Some i" using d(3) by (simp add: names_loaded_def)
      from ns_index_known [OF len this, of rom False False] show ?thesis
        by (intro via [of i]) (simp_all add: Some m named_map_def i)
    qed
  qed
qed

end

sublocale nor_flash \<subseteq> named: budget_refinement "named_step rom" spec_named named_represents named_valid named_cost named_room
proof unfold_locales
  fix env m op
  assume r: "named_represents env m" and op: "named_valid op" "named_cost op \<le> named_room env"
  show "\<exists>env'. named_step rom op env = Some (fst (spec_named op m), env') \<and>
      named_represents env' (snd (spec_named op m)) \<and> named_room env \<le> named_room env' + named_cost op"
  proof (cases op)
    case (Named_put name key v)
    have "name = Some n \<Longrightarrow> name_valid n" for n using op(1) by (simp add: Named_put)
    moreover have "name_valid key" "0 < length v" "length v \<le> 256" "1 + value_entries v \<le> named_room env"
      using op by (simp_all add: Named_put)
    ultimately obtain env' where
      "nvds_data_put rom True True name (Some key) (Some v) (of_nat (length v)) env = Some (NVDS_OK, env')"
      "named_represents env' (m((name, key) \<mapsto> v))" "named_room env \<le> named_room env' + (1 + value_entries v)"
      by (rule named_put_step [OF r])
    then show ?thesis by (auto simp: Named_put)
  next
    case Named_restart
    obtain env' where "nvds_env_load rom (\<lambda>_. True) (\<lambda>_ _. True) (nv_base env) (nv_length env) (nv_reset env) = (NVDS_OK, env')"
      "named_represents env' m" "named_room env' = named_room env"
      using named_restart_step [OF r] .
    then show ?thesis by (auto simp: Named_restart)
  qed
qed

context nor_flash
begin

lemmas named_refine = named.run_refines

end

text \<open>
  A formatted storage has no names and room for every index.
\<close>

lemma named_empty:
  assumes "nv_durable env (\<lambda>_. [])" and "nv_map env (\<lambda>_. []) = Map.empty" and "ns_table env = []"
    and "nv_ns_states env = replicate 8 0"
  shows "named_represents env Map.empty" "named_room env = min (room_left env) 253"
proof -
  have g: "\<not> ns_state_get (replicate 8 0) i" for i using ns_marked_empty by (simp add: ns_marked_def)
  have "names_ok Map.empty" "names_loaded env Map.empty" "named_map Map.empty = Map.empty"
    using assms(3,4) g by (auto simp: names_ok_def names_loaded_def named_map_def fun_eq_iff split: option.splits)
  then show "named_represents env Map.empty" using assms(1,2) by (auto simp: named_represents_def)
  have "free_indices (replicate 8 0) = [1..<254]" using g by (simp add: free_indices_def)
  then show "named_room env = min (room_left env) 253" by (simp add: named_room_def assms(4))
qed

section \<open>Properties\<close>

text \<open>
  Property C8: the exported operations store values by name, and the values survive resets. From
  a storage that represents a map from the name of a namespace (or none) and a key to a value,
  every sequence of \<open>nvds_data_put\<close> with valid names and values of 1 to 256 bytes and of resets with
  a load from the flash, whose entries (one for the namespace and those of the value, per write) fit
  into the page being written and of which each could take a free index,
  returns success throughout and ends in a storage that represents the map with the writes
  applied and nothing else changed: a namespace is created when its name is new, with an index
  that no other name has, and the table of names is rebuilt from the flash after a reset. Then
  \<open>nvds_data_get\<close> returns for any valid name and key the value of the map, or that it was not
  found.
\<close>

theorem nvds_named_survives_resets:
  assumes "nor_flash rom" and "named_represents env m" and "\<forall>op \<in> set ops. named_valid op"
    and "sum_list (map named_cost ops) \<le> named_room env"
  shows "\<exists>env'. run_ops (named_step rom) ops env = Some (fst (spec_ops spec_named ops m), env') \<and>
    named_represents env' (snd (spec_ops spec_named ops m)) \<and> reads_named rom env' (snd (spec_ops spec_named ops m))"
proof -
  obtain env' where r: "run_ops (named_step rom) ops env = Some (fst (spec_ops spec_named ops m), env')"
    "named_represents env' (snd (spec_ops spec_named ops m))"
    using nor_flash.named_refine [OF assms] by blast
  moreover have "reads_named rom env' (snd (spec_ops spec_named ops m))"
    unfolding reads_named_def by (intro allI impI nor_flash.named_get [OF assms(1) r(2)]) auto
  ultimately show ?thesis by blast
qed

theorem nvds_named_survives_resets_witness:
  "\<exists>env env'. nvds_env_load ideal_flash (\<lambda>_. True) (\<lambda>_ _. True) 0x3F0000 0x2000 (nv_reset nv_example) = (NVDS_OK, env) \<and>
     run_ops (named_step ideal_flash) [Named_put (Some [119]) [97] [7, 8, 9], Named_restart, Named_put (Some [120]) [97] [1], Named_restart]
       env = Some ([NVDS_OK, NVDS_OK, NVDS_OK, NVDS_OK], env') \<and>
     nvds_data_get ideal_flash True (Some [119]) (Some [97]) (Some [0, 0, 0, 0]) (Some 4) env' =
       Some (NVDS_OK, Some 3, Some [7, 8, 9, 0])"
proof -
  let ?ops = "[Named_put (Some [119]) [97] [7, 8, 9], Named_restart, Named_put (Some [120]) [97] [1], Named_restart]"
  let ?env = "(nv_reset nv_example)\<lparr>nv_base := 0x3F0000, nv_length := 0x2000\<rparr>"
  have "region_erased ?env"
    using nv_example_erased(1) by (simp add: region_erased_def nv_reset_def nv_region_def page_erased_def nv_img_def nv_example_def)
  moreover have "nv_used ?env = []" "nv_free ?env = []" "nv_ns ?env = []" by (simp_all add: nv_reset_def)
  ultimately obtain env where l: "pages_load ideal_flash (\<lambda>_. True) (\<lambda>_ _. True) ?env = (NVDS_OK, env)"
    and e: "nv_durable env (\<lambda>_. [])" "nv_map env (\<lambda>_. []) = Map.empty" "ns_table env = []" "nv_ns_states env = nv_ns_states ?env"
    and r: "room_left env = 126"
    by (rule ideal.pages_load_erased)
  have "nv_ns_states env = replicate 8 0" using e(4) by (simp add: nv_reset_def)
  note em = named_empty [OF e(1-3) this]
  have "\<forall>op \<in> set ?ops. named_valid op" "sum_list (map named_cost ?ops) \<le> named_room env"
    by (simp_all add: em(2) r value_entries_def name_valid_def)
  moreover have "spec_ops spec_named ?ops Map.empty = ([NVDS_OK, NVDS_OK, NVDS_OK, NVDS_OK],
      Map.empty((Some [119], [97]) \<mapsto> [7, 8, 9], (Some [120], [97]) \<mapsto> [1]))" by simp
  ultimately obtain env' where
    run: "run_ops (named_step ideal_flash) ?ops env = Some ([NVDS_OK, NVDS_OK, NVDS_OK, NVDS_OK], env')"
    and g: "reads_named ideal_flash env' (Map.empty((Some [119], [97]) \<mapsto> [7, 8, 9], (Some [120], [97]) \<mapsto> [1]))"
    using nvds_named_survives_resets [OF ideal.nor_flash_axioms em(1), of ?ops] by auto
  have "nvds_data_get ideal_flash True (Some [119]) (Some [97]) (Some [0, 0, 0, 0]) (Some 4) env' =
      Some (NVDS_OK, Some 3, Some [7, 8, 9, 0])"
    using reads_namedD [OF g, of "Some [119]" "[97]" "[0, 0, 0, 0]" "[7, 8, 9]"] by (simp add: name_valid_def mem_put_def)
  then show ?thesis using l run by (intro exI [of _ env] exI [of _ env']) (simp add: nvds_env_load_def)
qed

end
