(* ===== verification/Slist.thy ===== *)
theory Slist
  imports Fw_Prelude
begin

text \<open>
  The singly linked list of the SDK (\<open>slist.c\<close>, \<open>slist.h\<close>), on which the NVDS storage keeps its
  pages and namespaces. A list is the pair of its first and last element, the links are a map
  from elements to their successors that all lists share; \<open>0\<close> is \<open>NULL\<close>. The loops need not end
  on a damaged list, hence the option type.
\<close>

section \<open>Operations\<close>

record slist =
  sl_first :: addr
  sl_last :: addr

type_synonym slinks = "addr \<Rightarrow> addr"

definition list_init :: "slist \<Rightarrow> slist" where
  "list_init l = l\<lparr>sl_first := 0, sl_last := 0\<rparr>"

definition list_is_empty :: "slist \<Rightarrow> bool" where "list_is_empty l \<longleftrightarrow> sl_first l = 0"
definition list_pick :: "slist \<Rightarrow> addr" where "list_pick l = sl_first l"
definition list_pick_last :: "slist \<Rightarrow> addr" where "list_pick_last l = sl_last l"
definition list_next :: "slinks \<Rightarrow> addr \<Rightarrow> addr" where "list_next nx x = nx x"

definition list_push_back :: "slist \<Rightarrow> addr \<Rightarrow> slinks \<Rightarrow> slist \<times> slinks" where
  "list_push_back l x nx =
     (let (l, nx) = (if list_is_empty l then (l\<lparr>sl_first := x\<rparr>, nx) else (l, nx(sl_last l := x)))
      in (l\<lparr>sl_last := x\<rparr>, nx(x := 0)))"

definition list_push_front :: "slist \<Rightarrow> addr \<Rightarrow> slinks \<Rightarrow> slist \<times> slinks" where
  "list_push_front l x nx =
     (let l = (if list_is_empty l then l\<lparr>sl_last := x\<rparr> else l);
          nx = nx(x := sl_first l)
      in (l\<lparr>sl_first := x\<rparr>, nx))"

text \<open>
  The default value that is copied over an element is data of the caller and has no part in
  the list; it sets the link, which \<open>list_push_back\<close> then sets again.
\<close>

fun list_pool_init :: "slist \<Rightarrow> addr \<Rightarrow> nat \<Rightarrow> nat \<Rightarrow> slinks \<Rightarrow> slist \<times> slinks" where
  "list_pool_init l pool elmt_size 0 nx = (list_init l, nx)"
| "list_pool_init l pool elmt_size (Suc n) nx =
     (let (l, nx) = list_pool_init l pool elmt_size n nx
      in list_push_back l (pool + n * elmt_size) nx)"

definition list_pop_front :: "slist \<Rightarrow> slinks \<Rightarrow> addr \<times> slist" where
  "list_pop_front l nx =
     (let element = sl_first l in
      if element \<noteq> 0 then
        let l = l\<lparr>sl_first := nx (sl_first l)\<rparr>
        in (element, if sl_last l = element then l\<lparr>sl_last := 0\<rparr> else l)
      else (element, l))"

partial_function (option) scan_to :: "slinks \<Rightarrow> addr \<Rightarrow> addr \<Rightarrow> addr option" where
  "scan_to nx x scan = (if nx scan \<noteq> 0 \<and> nx scan \<noteq> x then scan_to nx x (nx scan) else Some scan)"

definition list_extract :: "slist \<Rightarrow> addr \<Rightarrow> slinks \<Rightarrow> (slist \<times> slinks) option" where
  "list_extract l x nx =
     (let scan = sl_first l in
      if scan = 0 then Some (l, nx)
      else if scan = x then
        let l = l\<lparr>sl_first := nx scan\<rparr>
        in Some (if sl_last l = scan then l\<lparr>sl_last := 0\<rparr> else l, nx)
      else
        (case scan_to nx x scan of
           None \<Rightarrow> None
         | Some scan \<Rightarrow>
             if nx scan \<noteq> 0
             then Some (if sl_last l = x then l\<lparr>sl_last := scan\<rparr> else l, nx(scan := nx x))
             else Some (l, nx)))"

partial_function (option) find_node :: "slinks \<Rightarrow> addr \<Rightarrow> addr \<Rightarrow> addr option" where
  "find_node nx x tmp = (if tmp \<noteq> x \<and> tmp \<noteq> 0 then find_node nx x (nx tmp) else Some tmp)"

definition list_find :: "slist \<Rightarrow> addr \<Rightarrow> slinks \<Rightarrow> bool option" where
  "list_find l x nx = map_option (\<lambda>tmp. tmp = x) (find_node nx x (sl_first l))"

partial_function (option) cnt_loop :: "slinks \<Rightarrow> addr \<Rightarrow> u32 \<Rightarrow> u32 option" where
  "cnt_loop nx elt cnt = (if elt \<noteq> 0 then cnt_loop nx (list_next nx elt) (cnt + 1) else Some cnt)"

definition list_cnt :: "slist \<Rightarrow> slinks \<Rightarrow> u32 option" where
  "list_cnt l nx = cnt_loop nx (list_pick l) 0"

text \<open>
  The scan of \<open>list_insert\<close>: the predecessor and the successor of the place.
\<close>

partial_function (option) insert_scan :: "slinks \<Rightarrow> (addr \<Rightarrow> bool) \<Rightarrow> addr \<Rightarrow> addr \<Rightarrow> (addr \<times> addr) option" where
  "insert_scan nx before prev scan =
     (if scan \<noteq> 0 then if before scan then Some (prev, scan) else insert_scan nx before scan (nx scan)
      else Some (prev, 0))"

definition list_insert :: "(addr \<Rightarrow> addr \<Rightarrow> bool) \<Rightarrow> slist \<Rightarrow> addr \<Rightarrow> slinks \<Rightarrow> (slist \<times> slinks) option" where
  "list_insert cmp l element nx =
     map_option (\<lambda>(prev, scan).
         let l = (if scan = 0 then l\<lparr>sl_last := element\<rparr> else l);
             nx = nx(element := scan)
         in if prev \<noteq> 0 then (l, nx(prev := element)) else (l\<lparr>sl_first := element\<rparr>, nx))
       (insert_scan nx (cmp element) 0 (sl_first l))"

definition list_insert_after_fast :: "slist \<Rightarrow> addr \<Rightarrow> addr \<Rightarrow> slinks \<Rightarrow> slist \<times> slinks" where
  "list_insert_after_fast l prev_element element nx =
     (if prev_element = 0 then list_push_front l element nx
      else
        let nx = nx(element := nx prev_element);
            nx = nx(prev_element := element)
        in (if sl_last l = prev_element then l\<lparr>sl_last := element\<rparr> else l, nx))"

definition list_insert_after :: "slist \<Rightarrow> addr \<Rightarrow> addr \<Rightarrow> slinks \<Rightarrow> (slist \<times> slinks) option" where
  "list_insert_after l prev_element element nx =
     (if prev_element = 0 then Some (list_push_front l element nx)
      else
        map_option (\<lambda>scan.
            if scan \<noteq> 0
            then let nx = nx(element := nx prev_element);
                     nx = nx(prev_element := element)
                 in (if sl_last l = prev_element then l\<lparr>sl_last := element\<rparr> else l, nx)
            else (l, nx))
          (find_node nx prev_element (sl_first l)))"

partial_function (option) before_scan :: "slinks \<Rightarrow> addr \<Rightarrow> addr \<Rightarrow> addr option" where
  "before_scan nx x scan = (if scan \<noteq> 0 \<and> nx scan \<noteq> x then before_scan nx x (nx scan) else Some scan)"

definition list_insert_before :: "slist \<Rightarrow> addr \<Rightarrow> addr \<Rightarrow> slinks \<Rightarrow> (slist \<times> slinks) option" where
  "list_insert_before l next_element element nx =
     (if next_element = 0 then Some (list_push_back l element nx)
      else if next_element = sl_first l then Some (list_push_front l element nx)
      else
        map_option (\<lambda>scan.
            if scan \<noteq> 0 then (l, nx(element := next_element, scan := element)) else (l, nx))
          (before_scan nx next_element (sl_first l)))"

definition list_concat :: "slist \<Rightarrow> slist \<Rightarrow> slinks \<Rightarrow> slist \<times> slist \<times> slinks" where
  "list_concat l1 l2 nx =
     (if sl_first l2 \<noteq> 0 then
        let (l1, nx) = (if sl_first l1 = 0 then (l2, nx)
              else (l1\<lparr>sl_last := sl_last l2\<rparr>, nx(sl_last l1 := sl_first l2)))
        in (l1, l2\<lparr>sl_first := 0\<rparr>, nx)
      else (l1, l2, nx))"

definition list_remove :: "slist \<Rightarrow> addr \<Rightarrow> addr \<Rightarrow> slinks \<Rightarrow> slist \<times> slinks" where
  "list_remove l prev_element element nx =
     (let (l, nx) = (if prev_element = 0 then (l\<lparr>sl_first := nx element\<rparr>, nx)
            else (l, nx(prev_element := nx element)));
          l = (if sl_last l = element then l\<lparr>sl_last := prev_element\<rparr> else l)
      in (l, nx(element := 0)))"

section \<open>Chains\<close>

text \<open>
  \<open>chain nx a xs b\<close>: from \<open>a\<close> on, the elements \<open>xs\<close> follow each other, and the next is \<open>b\<close>.
\<close>

fun chain :: "slinks \<Rightarrow> addr \<Rightarrow> addr list \<Rightarrow> addr \<Rightarrow> bool" where
  "chain nx a [] b \<longleftrightarrow> a = b"
| "chain nx a (x # xs) b \<longleftrightarrow> a = x \<and> chain nx (nx x) xs b"

definition sl_list :: "slinks \<Rightarrow> slist \<Rightarrow> addr list \<Rightarrow> bool" where
  "sl_list nx l xs \<longleftrightarrow> distinct xs \<and> 0 \<notin> set xs \<and> chain nx (sl_first l) xs 0 \<and> (xs \<noteq> [] \<longrightarrow> sl_last l = last xs)"

lemma chain_append: "chain nx a (xs @ ys) b \<longleftrightarrow> (\<exists>c. chain nx a xs c \<and> chain nx c ys b)"
  by (induction xs arbitrary: a) auto

lemma chain_cong: "(\<And>x. x \<in> set xs \<Longrightarrow> nx' x = nx x) \<Longrightarrow> chain nx' a xs b \<longleftrightarrow> chain nx a xs b"
  by (induction xs arbitrary: a) auto

lemma chain_upd [simp]: "x \<notin> set xs \<Longrightarrow> chain (nx(x := y)) a xs b \<longleftrightarrow> chain nx a xs b"
  by (rule chain_cong) auto

lemma chain_hd: "chain nx a xs b \<Longrightarrow> a = hd (xs @ [b])"
  by (cases xs) auto

lemma chain_snoc: "chain nx a (xs @ [x]) b \<longleftrightarrow> chain nx a xs x \<and> nx x = b"
  by (auto simp: chain_append)

lemma chain_relink: "x \<notin> set xs \<Longrightarrow> chain nx a (xs @ [x]) b \<Longrightarrow> chain (nx(x := c)) a (xs @ [x]) c"
  by (simp add: chain_snoc)

lemma sl_list_first: "sl_list nx l xs \<Longrightarrow> sl_first l = (case xs of [] \<Rightarrow> 0 | x # _ \<Rightarrow> x)"
  by (cases xs) (auto simp: sl_list_def)

lemma sl_nonzero: "sl_list nx l xs \<Longrightarrow> x \<in> set xs \<Longrightarrow> x \<noteq> 0"
  unfolding sl_list_def by metis

lemma sl_list_frame: "sl_list nx l xs \<Longrightarrow> (\<And>x. x \<in> set xs \<Longrightarrow> nx' x = nx x) \<Longrightarrow> sl_list nx' l xs"
  using chain_cong [of xs nx' nx] by (simp add: sl_list_def)

text \<open>
  Linking an element in at any place, and out again.
\<close>

definition same_links :: "addr set \<Rightarrow> slinks \<Rightarrow> slinks \<Rightarrow> bool" where
  "same_links A nx nx' \<longleftrightarrow> (\<forall>y. y \<notin> A \<longrightarrow> nx' y = nx y)"

lemma sl_link_in:
  assumes l: "sl_list nx l (us @ vs)" and x: "x \<noteq> 0" "x \<notin> set (us @ vs)"
    and f: "sl_first l' = (if us = [] then x else sl_first l)" and la: "sl_last l' = (if vs = [] then x else sl_last l)"
    and n: "nx' x = hd (vs @ [0])" "us \<noteq> [] \<Longrightarrow> nx' (last us) = x"
      "same_links (insert x (if us = [] then {} else {last us})) nx nx'"
  shows "sl_list nx' l' (us @ x # vs)"
proof -
  have d: "distinct (us @ vs)" "0 \<notin> set (us @ vs)" "chain nx (sl_first l) (us @ vs) 0"
    and la0: "us @ vs \<noteq> [] \<Longrightarrow> sl_last l = last (us @ vs)" using l by (auto simp: sl_list_def)
  have "chain nx' (sl_first l') (us @ x # vs) 0"
  proof (cases us rule: rev_cases)
    case Nil
    then have "chain nx (hd (vs @ [0])) vs 0" using d(3) chain_hd by fastforce
    moreover have "chain nx' a vs 0 \<longleftrightarrow> chain nx a vs 0" for a
      using n(3) x Nil by (intro chain_cong) (auto simp: same_links_def)
    ultimately show ?thesis using Nil f n(1) by simp
  next
    case (snoc ws p)
    then have c: "chain nx (sl_first l) ws p" "chain nx (nx p) vs 0" using d(3) by (auto simp: chain_append)
    have "chain nx' a vs 0 \<longleftrightarrow> chain nx a vs 0" for a
      using n(3) x snoc d(1) by (intro chain_cong) (auto simp: same_links_def)
    moreover have "chain nx' (sl_first l) ws p \<longleftrightarrow> chain nx (sl_first l) ws p"
      using n(3) x snoc d(1) by (intro chain_cong) (auto simp: same_links_def)
    moreover have "nx p = hd (vs @ [0])" using chain_hd [OF c(2)] .
    ultimately show ?thesis using c snoc f n by (auto simp: chain_append)
  qed
  then show ?thesis using d x la la0 by (auto simp: sl_list_def)
qed

lemma sl_link_out:
  assumes l: "sl_list nx l (us @ x # vs)"
    and f: "sl_first l' = (if us = [] then nx x else sl_first l)"
    and la: "vs = [] \<Longrightarrow> us \<noteq> [] \<Longrightarrow> sl_last l' = last us" "vs \<noteq> [] \<Longrightarrow> sl_last l' = sl_last l"
    and n: "us \<noteq> [] \<Longrightarrow> nx' (last us) = nx x" "same_links (insert x (if us = [] then {} else {last us})) nx nx'"
  shows "sl_list nx' l' (us @ vs)"
proof -
  have d: "distinct (us @ x # vs)" "0 \<notin> set (us @ x # vs)" "chain nx (sl_first l) (us @ x # vs) 0"
    and la0: "sl_last l = last (us @ x # vs)" using l by (auto simp: sl_list_def)
  have "us \<noteq> [] \<Longrightarrow> last us \<notin> set vs" using d(1) last_in_set by fastforce
  then have vs: "chain nx' a vs 0 \<longleftrightarrow> chain nx a vs 0" for a
    using n(2) d(1) by (intro chain_cong) (auto simp: same_links_def split: if_splits)
  have "chain nx' (sl_first l') (us @ vs) 0"
  proof (cases us rule: rev_cases)
    case Nil
    then show ?thesis using d(3) vs f by simp
  next
    case (snoc ws p)
    have "chain nx' (sl_first l) ws p \<longleftrightarrow> chain nx (sl_first l) ws p"
      using n(2) snoc d(1) by (intro chain_cong) (auto simp: same_links_def)
    then show ?thesis using d(3) vs snoc f n by (auto simp: chain_append)
  qed
  then show ?thesis using d la la0 by (cases "vs = []") (auto simp: sl_list_def)
qed

section \<open>The operations on lists\<close>

lemma push_back_ok:
  assumes "sl_list nx l xs" and "x \<noteq> 0" "x \<notin> set xs" and "list_push_back l x nx = (l', nx')"
  shows "sl_list nx' l' (xs @ [x])" "same_links (insert x (set xs)) nx nx'"
proof -
  have e: "list_is_empty l \<longleftrightarrow> xs = []"
    using sl_list_first [OF assms(1)] assms(1) by (cases xs) (auto simp: list_is_empty_def sl_list_def)
  have l': "sl_list nx l (xs @ [])" using assms(1) by simp
  have la: "xs \<noteq> [] \<Longrightarrow> sl_last l = last xs" "xs \<noteq> [] \<Longrightarrow> last xs \<noteq> x" using assms by (auto simp: sl_list_def)
  show "sl_list nx' l' (xs @ [x])"
    using assms e la by (intro sl_link_in [OF l'])
      (auto simp: list_push_back_def same_links_def split: if_splits)
  show "same_links (insert x (set xs)) nx nx'"
    using assms(4) e la by (auto simp: list_push_back_def same_links_def split: if_splits)
qed

lemma push_front_ok:
  assumes "sl_list nx l xs" and "x \<noteq> 0" "x \<notin> set xs" and "list_push_front l x nx = (l', nx')"
  shows "sl_list nx' l' (x # xs)" "same_links (insert x (set xs)) nx nx'"
proof -
  have e: "list_is_empty l \<longleftrightarrow> xs = []" "sl_first l = hd (xs @ [0])"
    using sl_list_first [OF assms(1)] assms(1) by (cases xs; auto simp: list_is_empty_def sl_list_def)+
  have l': "sl_list nx l ([] @ xs)" using assms(1) by simp
  have "sl_list nx' l' ([] @ x # xs)"
    using assms e by (intro sl_link_in [OF l'])
      (auto simp: list_push_front_def same_links_def split: if_splits)
  then show "sl_list nx' l' (x # xs)" by simp
  show "same_links (insert x (set xs)) nx nx'"
    using assms(4) by (auto simp: list_push_front_def same_links_def split: if_splits)
qed

lemma pop_front_ok:
  assumes "sl_list nx l xs"
  shows "fst (list_pop_front l nx) = (case xs of [] \<Rightarrow> 0 | x # _ \<Rightarrow> x)"
    and "sl_list nx (snd (list_pop_front l nx)) (tl xs)"
proof -
  have f: "fst (list_pop_front l nx) = (case xs of [] \<Rightarrow> 0 | x # _ \<Rightarrow> x) \<and> sl_list nx (snd (list_pop_front l nx)) (tl xs)"
  proof (cases xs)
    case Nil
    then show ?thesis using assms by (simp add: list_pop_front_def sl_list_def)
  next
    case (Cons x ys)
    have "sl_first l = x" "x \<noteq> 0" "x \<notin> set ys" using assms Cons by (auto simp: sl_list_def)
    moreover from this have "ys \<noteq> [] \<Longrightarrow> last ys \<noteq> x" using last_in_set [of ys] by metis
    ultimately show ?thesis using assms Cons by (cases ys) (simp_all add: list_pop_front_def Let_def sl_list_def)
  qed
  then show "fst (list_pop_front l nx) = (case xs of [] \<Rightarrow> 0 | x # _ \<Rightarrow> x)"
    "sl_list nx (snd (list_pop_front l nx)) (tl xs)" by blast+
qed

text \<open>
  The loops end on a list and find what they look for.
\<close>

lemma scan_to_ok:
  "chain nx a (us @ [p]) b \<Longrightarrow> b = 0 \<or> b = x \<Longrightarrow> {0, x} \<inter> set (us @ [p]) = {} \<Longrightarrow> scan_to nx x a = Some p"
proof (induction us arbitrary: a)
  case Nil
  then show ?case by (subst scan_to.simps) auto
next
  case (Cons u us)
  then have "nx a = hd (us @ [p])" by (cases us) auto
  moreover have "hd (us @ [p]) \<in> set (us @ [p])" by (cases us) auto
  moreover have "0 \<notin> set (us @ [p])" "x \<notin> set (us @ [p])" using Cons.prems(3) by auto
  ultimately have "nx a \<noteq> 0 \<and> nx a \<noteq> x" by metis
  then show ?case using Cons by (subst scan_to.simps) auto
qed

lemma find_node_ok:
  "chain nx a us b \<Longrightarrow> b = 0 \<or> b = x \<Longrightarrow> {0, x} \<inter> set us = {} \<Longrightarrow> find_node nx x a = Some b"
proof (induction us arbitrary: a)
  case Nil
  then show ?case by (subst find_node.simps) auto
next
  case (Cons u us)
  then show ?case by (subst find_node.simps) auto
qed

lemma before_scan_found:
  "chain nx a (us @ [p]) x \<Longrightarrow> {0, x} \<inter> set (us @ [p]) = {} \<Longrightarrow> before_scan nx x a = Some p"
proof (induction us arbitrary: a)
  case Nil
  then show ?case by (subst before_scan.simps) auto
next
  case (Cons u us)
  then have "nx a = hd (us @ [p])" by (cases us) auto
  moreover have "hd (us @ [p]) \<in> set (us @ [p])" by (cases us) auto
  moreover have "x \<notin> set (us @ [p])" using Cons.prems(2) by auto
  ultimately have "nx a \<noteq> x" by metis
  then show ?case using Cons by (subst before_scan.simps) auto
qed

lemma before_scan_absent:
  "chain nx a us 0 \<Longrightarrow> x \<noteq> 0 \<Longrightarrow> {0, x} \<inter> set us = {} \<Longrightarrow> before_scan nx x a = Some 0"
proof (induction us arbitrary: a)
  case Nil
  then show ?case by (subst before_scan.simps) auto
next
  case (Cons u us)
  then have "nx a = hd (us @ [0])" by (cases us) auto
  moreover have "hd (us @ [0]) \<in> insert 0 (set us)" by (cases us) auto
  ultimately have "nx a \<noteq> x" using Cons.prems(2,3) by auto
  then show ?case using Cons by (subst before_scan.simps) auto
qed

lemma cnt_loop_ok: "chain nx a xs 0 \<Longrightarrow> 0 \<notin> set xs \<Longrightarrow> cnt_loop nx a n = Some (n + of_nat (length xs))"
proof (induction xs arbitrary: a n)
  case Nil
  then show ?case by (subst cnt_loop.simps) auto
next
  case (Cons x xs)
  then show ?case by (subst cnt_loop.simps) (auto simp: list_next_def algebra_simps)
qed

lemma insert_scan_ok:
  "chain nx a (us @ vs) 0 \<Longrightarrow> 0 \<notin> set (us @ vs) \<Longrightarrow> \<forall>u \<in> set us. \<not> before u \<Longrightarrow> vs = [] \<or> before (hd vs) \<Longrightarrow>
     insert_scan nx before prev a = Some (last (prev # us), hd (vs @ [0]))"
proof (induction us arbitrary: a prev)
  case Nil
  then show ?case by (subst insert_scan.simps) (cases vs, auto)
next
  case (Cons u us)
  then show ?case by (subst insert_scan.simps) auto
qed

lemma sl_split:
  assumes "sl_list nx l xs" and "x \<in> set xs"
  obtains us vs where "xs = us @ x # vs" and "x \<notin> set us" and "x \<noteq> 0" and "0 \<notin> set us"
    and "chain nx (sl_first l) us x" and "chain nx (nx x) vs 0"
proof -
  obtain us vs where "xs = us @ x # vs" "x \<notin> set us" using split_list_first [OF assms(2)] by blast
  then show thesis using assms(1) by (intro that [of us vs]) (auto simp: sl_list_def chain_append)
qed

lemma extract_ok:
  assumes l: "sl_list nx l xs" and x: "x \<noteq> 0"
  obtains l' nx' where "list_extract l x nx = Some (l', nx')" and "sl_list nx' l' (remove1 x xs)" and "same_links (set xs) nx nx'"
proof (cases "x \<in> set xs")
  case True
  from sl_split [OF l True] obtain us vs where xs: "xs = us @ x # vs" "x \<notin> set us" "0 \<notin> set us"
    and c: "chain nx (sl_first l) us x" "chain nx (nx x) vs 0" by metis
  have l': "sl_list nx l (us @ x # vs)" using l xs(1) by simp
  have rm: "remove1 x xs = us @ vs" using xs by (simp add: remove1_append)
  have la: "sl_last l = last xs" "x \<notin> set vs" using l xs by (auto simp: sl_list_def)
  have lx: "sl_last l = x \<longleftrightarrow> vs = []" using la xs by (cases vs rule: rev_cases) auto
  show thesis
  proof (cases us rule: rev_cases)
    case Nil
    then have f: "sl_first l = x" using c by simp
    let ?l = "if sl_last l = x then l\<lparr>sl_first := nx x, sl_last := 0\<rparr> else l\<lparr>sl_first := nx x\<rparr>"
    have "list_extract l x nx = Some (?l, nx)" using f x by (simp add: list_extract_def Let_def)
    moreover have "sl_list nx ?l (us @ vs)"
      using lx Nil by (intro sl_link_out [OF l']) (auto simp: same_links_def)
    ultimately show thesis unfolding rm [symmetric] by (rule that) (simp add: same_links_def)
  next
    case (snoc ws p)
    have sc: "scan_to nx x (sl_first l) = Some p"
      using c(1) snoc xs by (intro scan_to_ok [where us = ws and b = x]) auto
    have "sl_first l = hd us" "hd us \<in> set us" using chain_hd [OF c(1)] snoc by (cases ws; simp)+
    then have f: "sl_first l \<noteq> 0" "sl_first l \<noteq> x" "nx p = x"
      using c(1) snoc xs(2,3) by (metis, metis, simp add: chain_snoc)
    let ?l = "if sl_last l = x then l\<lparr>sl_last := p\<rparr> else l" and ?nx = "nx(p := nx x)"
    have "list_extract l x nx = Some (?l, ?nx)" using f sc x by (simp add: list_extract_def Let_def)
    moreover have "sl_list ?nx ?l (us @ vs)"
      using lx snoc by (intro sl_link_out [OF l']) (auto simp: same_links_def)
    ultimately show thesis unfolding rm [symmetric] by (rule that) (auto simp: same_links_def xs snoc)
  qed
next
  case False
  then have rm: "remove1 x xs = xs" by (rule remove1_idem)
  have "list_extract l x nx = Some (l, nx)"
  proof (cases xs rule: rev_cases)
    case Nil
    then show ?thesis using l by (simp add: list_extract_def sl_list_def)
  next
    case (snoc ys p)
    have c: "chain nx (sl_first l) (ys @ [p]) 0" "0 \<notin> set (ys @ [p])" using l snoc by (auto simp: sl_list_def)
    have "scan_to nx x (sl_first l) = Some p" using c False snoc by (intro scan_to_ok) auto
    moreover have "sl_first l = hd xs" "hd xs \<in> set xs" using chain_hd [OF c(1)] snoc by (cases ys; simp)+
    then have "nx p = 0" "sl_first l \<noteq> x" using c False by (simp add: chain_snoc, metis)
    ultimately show ?thesis by (simp add: list_extract_def Let_def)
  qed
  then show thesis using l by (intro that [of l nx]) (simp_all add: rm same_links_def)
qed

lemma find_ok:
  assumes "sl_list nx l xs" and "x \<noteq> 0"
  shows "list_find l x nx = Some (x \<in> set xs)"
proof (cases "x \<in> set xs")
  case True
  from sl_split [OF assms(1) True] obtain us where "chain nx (sl_first l) us x" "x \<notin> set us" "0 \<notin> set us" by metis
  then show ?thesis using True find_node_ok [of nx "sl_first l" us x x] by (simp add: list_find_def)
next
  case False
  then show ?thesis
    using assms find_node_ok [of nx "sl_first l" xs 0 x] by (simp add: list_find_def sl_list_def)
qed

lemma cnt_ok: "sl_list nx l xs \<Longrightarrow> list_cnt l nx = Some (of_nat (length xs))"
  using cnt_loop_ok [of nx "sl_first l" xs 0] by (simp add: list_cnt_def list_pick_def sl_list_def)

lemma insert_ok:
  assumes l: "sl_list nx l xs" and x: "x \<noteq> 0" "x \<notin> set xs"
  obtains l' nx' where "list_insert cmp l x nx = Some (l', nx')"
    and "sl_list nx' l' (takeWhile (\<lambda>y. \<not> cmp x y) xs @ x # dropWhile (\<lambda>y. \<not> cmp x y) xs)"
    and "same_links (insert x (set xs)) nx nx'"
proof -
  let ?us = "takeWhile (\<lambda>y. \<not> cmp x y) xs" and ?vs = "dropWhile (\<lambda>y. \<not> cmp x y) xs"
  have l': "sl_list nx l (?us @ ?vs)" and x': "x \<notin> set (?us @ ?vs)" using l x by simp_all
  have vs: "?vs = [] \<or> cmp x (hd ?vs)" using hd_dropWhile [of "\<lambda>y. \<not> cmp x y" xs] by blast
  have sc: "insert_scan nx (cmp x) 0 (sl_first l) = Some (last (0 # ?us), hd (?vs @ [0]))"
    using l' vs by (intro insert_scan_ok) (auto simp: sl_list_def dest: set_takeWhileD)
  have pr: "last (0 # ?us) \<noteq> 0 \<longleftrightarrow> ?us \<noteq> []" "?us \<noteq> [] \<Longrightarrow> last ?us \<noteq> x" "?us \<noteq> [] \<Longrightarrow> last ?us \<in> set xs"
  proof -
    show i: "last ?us \<in> set xs" if "?us \<noteq> []" using last_in_set [OF that] by (auto dest: set_takeWhileD)
    then show "last ?us \<noteq> x" if "?us \<noteq> []" using x(2) that by auto
    show "last (0 # ?us) \<noteq> 0 \<longleftrightarrow> ?us \<noteq> []" using i sl_nonzero [OF l] by (cases "?us = []") auto
  qed
  have sn: "hd (?vs @ [0]) = 0 \<longleftrightarrow> ?vs = []"
  proof (cases "?vs = []")
    case True
    show ?thesis unfolding True by simp
  next
    case False
    have "hd (?vs @ [0]) \<in> set ?vs" unfolding hd_append2 [OF False] by (rule hd_in_set [OF False])
    then have "hd (?vs @ [0]) \<in> set xs" by (rule set_dropWhileD)
    then show ?thesis using sl_nonzero [OF l] False by blast
  qed
  obtain l1 nx1 where r: "list_insert cmp l x nx = Some (l1, nx1)" by (simp add: list_insert_def sc Let_def) (metis surj_pair)
  have "sl_list nx1 l1 (?us @ x # ?vs)"
    using r pr sn by (intro sl_link_in [OF l' x(1) x'])
      (auto simp: list_insert_def sc Let_def same_links_def split: if_splits)
  moreover have "same_links (insert x (set xs)) nx nx1"
    using r pr sn by (auto simp: list_insert_def sc Let_def same_links_def split: if_splits)
  ultimately show thesis using r by (intro that)
qed

lemma insert_after_link:
  assumes l: "sl_list nx l (us @ p # vs)" and x: "x \<noteq> 0" "x \<notin> set (us @ p # vs)"
  shows "sl_list (nx(x := nx p, p := x)) (if sl_last l = p then l\<lparr>sl_last := x\<rparr> else l) (us @ p # x # vs)"
proof -
  have l': "sl_list nx l ((us @ [p]) @ vs)" and x': "x \<notin> set ((us @ [p]) @ vs)" using l x by simp_all
  have c: "nx p = hd (vs @ [0])" using l chain_hd by (auto simp: sl_list_def chain_append)
  have la: "sl_last l = p \<longleftrightarrow> vs = []" using l by (cases vs rule: rev_cases) (auto simp: sl_list_def)
  have "sl_list (nx(x := nx p, p := x)) (if sl_last l = p then l\<lparr>sl_last := x\<rparr> else l) ((us @ [p]) @ x # vs)"
    using x c la by (intro sl_link_in [OF l' x(1) x']) (auto simp: same_links_def)
  then show ?thesis by simp
qed

lemma insert_after_ok:
  assumes l: "sl_list nx l xs" and x: "x \<noteq> 0" "x \<notin> set xs" and p: "p \<noteq> 0"
  obtains l' nx' where "list_insert_after l p x nx = Some (l', nx')"
    and "p \<in> set xs \<Longrightarrow> list_insert_after_fast l p x nx = (l', nx')"
    and "\<And>us vs. xs = us @ p # vs \<Longrightarrow> sl_list nx' l' (us @ p # x # vs)" and "p \<notin> set xs \<Longrightarrow> sl_list nx' l' xs"
proof (cases "p \<in> set xs")
  case True
  let ?l = "if sl_last l = p then l\<lparr>sl_last := x\<rparr> else l" and ?nx = "nx(x := nx p, p := x)"
  from sl_split [OF l True] obtain us where "chain nx (sl_first l) us p" "p \<notin> set us" "0 \<notin> set us" by metis
  then have "list_insert_after l p x nx = Some (?l, ?nx)"
    using p find_node_ok [of nx "sl_first l" us p p] by (simp add: list_insert_after_def Let_def)
  moreover have "list_insert_after_fast l p x nx = (?l, ?nx)" using p by (simp add: list_insert_after_fast_def Let_def)
  moreover have "sl_list ?nx ?l (us @ p # x # vs)" if "xs = us @ p # vs" for us vs
    using l x that by (intro insert_after_link) simp_all
  ultimately show thesis using True by (intro that) auto
next
  case False
  then have "list_insert_after l p x nx = Some (l, nx)"
    using l p find_node_ok [of nx "sl_first l" xs 0 p] by (simp add: list_insert_after_def sl_list_def)
  then show thesis using False l by (intro that) auto
qed

lemma insert_before_ok:
  assumes l: "sl_list nx l xs" and x: "x \<noteq> 0" "x \<notin> set xs" and p: "p \<noteq> 0"
  obtains l' nx' where "list_insert_before l p x nx = Some (l', nx')"
    and "\<And>us vs. xs = us @ p # vs \<Longrightarrow> sl_list nx' l' (us @ x # p # vs)" and "p \<notin> set xs \<Longrightarrow> sl_list nx' l' xs"
proof (cases "p \<in> set xs")
  case True
  from sl_split [OF l True] obtain us vs where xs: "xs = us @ p # vs" "p \<notin> set us" "0 \<notin> set us"
    and c: "chain nx (sl_first l) us p" by metis
  have uniq: "us' = us \<and> vs' = vs" if "xs = us' @ p # vs'" for us' vs'
  proof -
    have "p \<notin> set vs" using l xs(1) by (simp add: sl_list_def)
    then show ?thesis using that xs append_Cons_eq_iff [of p us vs us' vs'] by auto
  qed
  show thesis
  proof (cases us rule: rev_cases)
    case Nil
    then have f: "sl_first l = p" using c by simp
    obtain l' nx' where r: "list_push_front l x nx = (l', nx')" by fastforce
    then have "sl_list nx' l' (x # xs)" using push_front_ok(1) [OF l x] by blast
    then show thesis using f r p xs Nil uniq True by (intro that [of l' nx']) (auto simp: list_insert_before_def)
  next
    case (snoc ws q)
    have sc: "before_scan nx p (sl_first l) = Some q" using c snoc xs by (intro before_scan_found) auto
    have "sl_first l = hd us" "hd us \<in> set us" using chain_hd [OF c] snoc by (cases ws; simp)+
    then have f: "sl_first l \<noteq> p" "q \<noteq> 0" "nx q = p" "q \<noteq> x" using c snoc xs x by (metis, auto simp: chain_snoc)
    have l': "sl_list nx l (us @ p # vs)" and x': "x \<notin> set (us @ p # vs)" using l xs x by simp_all
    have "sl_list (nx(x := p, q := x)) l (us @ x # p # vs)"
      using f snoc by (intro sl_link_in [OF l' x(1) x']) (auto simp: same_links_def)
    moreover have "list_insert_before l p x nx = Some (l, nx(x := p, q := x))"
      using sc f p by (simp add: list_insert_before_def)
    ultimately show thesis using uniq True by (intro that) auto
  qed
next
  case False
  moreover have "sl_first l \<noteq> p" using False l p by (cases xs) (auto simp: sl_list_def)
  ultimately have "list_insert_before l p x nx = Some (l, nx)"
    using l p before_scan_absent [of nx "sl_first l" xs p] by (simp add: list_insert_before_def sl_list_def)
  then show thesis using False l by (intro that) auto
qed

lemma concat_ok:
  assumes l: "sl_list nx l1 xs" "sl_list nx l2 ys" and d: "set xs \<inter> set ys = {}"
  obtains l1' l2' nx' where "list_concat l1 l2 nx = (l1', l2', nx')" and "sl_list nx' l1' (xs @ ys)" and "sl_list nx' l2' []"
proof (cases "ys = []")
  case True
  then show thesis using l that [of l1 l2 nx] by (simp add: list_concat_def sl_list_def)
next
  case ys: False
  then have f2: "sl_first l2 \<noteq> 0" using l(2) by (cases ys) (auto simp: sl_list_def)
  show thesis
  proof (cases xs rule: rev_cases)
    case Nil
    then have "sl_first l1 = 0" using l(1) by (simp add: sl_list_def)
    then show thesis using f2 l Nil that [of l2 "l2\<lparr>sl_first := 0\<rparr>" nx] by (simp add: list_concat_def sl_list_def)
  next
    case (snoc ws p)
    then have p: "sl_last l1 = p" "sl_first l1 \<noteq> 0" "p \<notin> set ys" "p \<notin> set ws"
      using l(1) d by (cases ws; auto simp: sl_list_def)+
    let ?nx = "nx(p := sl_first l2)"
    have "sl_list ?nx (l1\<lparr>sl_last := sl_last l2\<rparr>) (xs @ ys)"
      using l d p ys snoc by (auto simp: sl_list_def chain_append)
    then show thesis
      using f2 p that [of "l1\<lparr>sl_last := sl_last l2\<rparr>" "l2\<lparr>sl_first := 0\<rparr>" ?nx] by (simp add: list_concat_def sl_list_def)
  qed
qed

lemma remove_ok:
  assumes l: "sl_list nx l (us @ x # vs)"
  shows "case list_remove l (if us = [] then 0 else last us) x nx of (l', nx') \<Rightarrow> sl_list nx' l' (us @ vs)"
proof -
  have la: "sl_last l = x \<longleftrightarrow> vs = []" using l by (cases vs rule: rev_cases) (auto simp: sl_list_def)
  have "us \<noteq> [] \<Longrightarrow> last us \<in> set (us @ x # vs)" "x \<notin> set us" using l by (auto simp: sl_list_def)
  then have ne: "us \<noteq> [] \<Longrightarrow> last us \<noteq> 0" "us \<noteq> [] \<Longrightarrow> last us \<noteq> x"
    using sl_nonzero [OF l] last_in_set [of us] by (blast, metis)
  obtain l' nx' where r: "list_remove l (if us = [] then 0 else last us) x nx = (l', nx')" by fastforce
  have "sl_list nx' l' (us @ vs)"
    using r la ne by (intro sl_link_out [OF l]) (auto simp: list_remove_def Let_def same_links_def split: if_splits)
  then show ?thesis using r by simp
qed

lemma pool_init_ok:
  assumes "0 < pool" and "0 < sz" and "list_pool_init l pool sz n nx = (l', nx')"
  shows "sl_list nx' l' (map (\<lambda>i. pool + i * sz) [0..<n])"
  using assms(3)
proof (induction n arbitrary: l' nx')
  case 0
  then show ?case by (auto simp: list_init_def sl_list_def)
next
  case (Suc n)
  obtain l1 nx1 where r: "list_pool_init l pool sz n nx = (l1, nx1)" by fastforce
  have "list_push_back l1 (pool + n * sz) nx1 = (l', nx')" using Suc.prems r by simp
  moreover have "pool + n * sz \<notin> set (map (\<lambda>i. pool + i * sz) [0..<n])"
    using assms(2) by (simp add: image_iff)
  ultimately show ?case
    using push_back_ok(1) [OF Suc.IH [OF r], of "pool + n * sz" l' nx'] assms(1) by simp
qed

section \<open>The contract of the clients\<close>

text \<open>
  What the clients of a list that share the links rely on: appending and taking out an element
  of one list have the effect on its sequence, and lists with other elements stay as they are.
\<close>

locale element_list =
  fixes inv :: "'h \<Rightarrow> 'l \<Rightarrow> addr list \<Rightarrow> bool"
    and push_back :: "'l \<Rightarrow> addr \<Rightarrow> 'h \<Rightarrow> 'l \<times> 'h"
    and pull :: "'l \<Rightarrow> addr \<Rightarrow> 'h \<Rightarrow> ('l \<times> 'h) option"
  assumes push: "inv h l xs \<Longrightarrow> x \<noteq> 0 \<Longrightarrow> x \<notin> set xs \<Longrightarrow> push_back l x h = (l', h') \<Longrightarrow> inv h' l' (xs @ [x])"
    and push_other: "inv h l xs \<Longrightarrow> x \<noteq> 0 \<Longrightarrow> x \<notin> set xs \<Longrightarrow> push_back l x h = (l', h') \<Longrightarrow> inv h m ys \<Longrightarrow>
      set ys \<inter> insert x (set xs) = {} \<Longrightarrow> inv h' m ys"
    and take_out: "inv h l xs \<Longrightarrow> x \<noteq> 0 \<Longrightarrow> \<exists>l' h'. pull l x h = Some (l', h') \<and> inv h' l' (remove1 x xs) \<and>
      (\<forall>m ys. inv h m ys \<longrightarrow> set ys \<inter> set xs = {} \<longrightarrow> inv h' m ys)"
begin

text \<open>
  Moving an element from one list to the end of another, as the storage does with its pages.
\<close>

lemma move:
  assumes "inv h l xs" and "inv h m ys" and "set xs \<inter> set ys = {}" and "x \<in> set xs" and "x \<noteq> 0" and "distinct xs"
  shows "\<exists>l' m' h1 h2. pull l x h = Some (l', h1) \<and> push_back m x h1 = (m', h2) \<and>
    inv h2 l' (remove1 x xs) \<and> inv h2 m' (ys @ [x])"
proof -
  obtain l' h1 where e: "pull l x h = Some (l', h1)" "inv h1 l' (remove1 x xs)" "inv h1 m ys"
    using take_out [OF assms(1,5)] assms(2,3) by blast
  obtain m' h2 where p: "push_back m x h1 = (m', h2)" by fastforce
  have x: "x \<notin> set ys" using assms(3,4) by blast
  have "set (remove1 x xs) \<inter> insert x (set ys) = {}" using assms(3,6) by auto
  then have "inv h2 l' (remove1 x xs)" by (rule push_other [OF e(3) assms(5) x p e(2)])
  moreover have "inv h2 m' (ys @ [x])" by (rule push [OF e(3) assms(5) x p])
  ultimately show ?thesis using e(1) p by blast
qed

end

interpretation sl: element_list sl_list list_push_back list_extract
proof
  fix nx l xs x l' nx' m ys
  assume l: "sl_list nx l xs" "x \<noteq> 0" "x \<notin> set xs" "list_push_back l x nx = (l', nx')"
  show "sl_list nx' l' (xs @ [x])" by (rule push_back_ok(1) [OF l])
  assume "sl_list nx m ys" "set ys \<inter> insert x (set xs) = {}"
  then show "sl_list nx' m ys"
    using push_back_ok(2) [OF l] by (elim sl_list_frame) (auto simp: same_links_def)
next
  fix nx l xs and x :: addr
  assume "sl_list nx l xs" "x \<noteq> 0"
  then obtain l' nx' where e: "list_extract l x nx = Some (l', nx')" "sl_list nx' l' (remove1 x xs)" "same_links (set xs) nx nx'"
    by (rule extract_ok)
  have "sl_list nx' m ys" if "sl_list nx m ys" "set ys \<inter> set xs = {}" for m ys
    using that e(3) by (elim sl_list_frame) (auto simp: same_links_def)
  with e show "\<exists>l' nx'. list_extract l x nx = Some (l', nx') \<and> sl_list nx' l' (remove1 x xs) \<and>
      (\<forall>m ys. sl_list nx m ys \<longrightarrow> set ys \<inter> set xs = {} \<longrightarrow> sl_list nx' m ys)" by blast
qed

section \<open>Properties\<close>

text \<open>
  Property C28: the singly linked list behaves as a sequence. On a well-formed list \<open>xs\<close> with an
  element \<open>x\<close> that is not in it, every loop ends, the length and membership are reported
  correctly, appending, prepending and sorted insertion give the expected sequences, and
  removal of any element gives the sequence without it, with the last element kept up to date.
\<close>

theorem slist_functional:
  assumes "sl_list nx l xs" and "x \<noteq> 0" and "x \<notin> set xs"
  shows "list_cnt l nx = Some (of_nat (length xs)) \<and> (\<forall>y. y \<noteq> 0 \<longrightarrow> list_find l y nx = Some (y \<in> set xs)) \<and>
    (case list_push_back l x nx of (l', nx') \<Rightarrow> sl_list nx' l' (xs @ [x])) \<and>
    (case list_push_front l x nx of (l', nx') \<Rightarrow> sl_list nx' l' (x # xs)) \<and>
    (\<forall>cmp. \<exists>l' nx'. list_insert cmp l x nx = Some (l', nx') \<and>
       sl_list nx' l' (takeWhile (\<lambda>y. \<not> cmp x y) xs @ x # dropWhile (\<lambda>y. \<not> cmp x y) xs)) \<and>
    (\<forall>y. y \<noteq> 0 \<longrightarrow> (\<exists>l' nx'. list_extract l y nx = Some (l', nx') \<and> sl_list nx' l' (remove1 y xs) \<and>
       (remove1 y xs \<noteq> [] \<longrightarrow> list_pick_last l' = last (remove1 y xs)))) \<and>
    (case list_pop_front l nx of (e, l') \<Rightarrow> e = (if xs = [] then 0 else hd xs) \<and> sl_list nx l' (tl xs))"
proof (intro conjI allI impI)
  show "case list_push_back l x nx of (l', nx') \<Rightarrow> sl_list nx' l' (xs @ [x])"
    using push_back_ok(1) [OF assms] by (auto split: prod.splits)
  show "case list_push_front l x nx of (l', nx') \<Rightarrow> sl_list nx' l' (x # xs)"
    using push_front_ok(1) [OF assms] by (auto split: prod.splits)
  show "\<exists>l' nx'. list_insert cmp l x nx = Some (l', nx') \<and>
      sl_list nx' l' (takeWhile (\<lambda>y. \<not> cmp x y) xs @ x # dropWhile (\<lambda>y. \<not> cmp x y) xs)" for cmp
    using insert_ok [OF assms, of cmp] by metis
  show "\<exists>l' nx'. list_extract l y nx = Some (l', nx') \<and> sl_list nx' l' (remove1 y xs) \<and>
      (remove1 y xs \<noteq> [] \<longrightarrow> list_pick_last l' = last (remove1 y xs))" if "y \<noteq> 0" for y
    using extract_ok [OF assms(1) that] by (metis list_pick_last_def sl_list_def)
  show "case list_pop_front l nx of (e, l') \<Rightarrow> e = (if xs = [] then 0 else hd xs) \<and> sl_list nx l' (tl xs)"
    using pop_front_ok [OF assms(1)] by (cases "list_pop_front l nx") (auto split: list.splits)
qed (use assms cnt_ok find_ok in auto)

theorem slist_functional_witness:
  "\<exists>nx l. list_pool_init \<lparr>sl_first = 0, sl_last = 0\<rparr> 100 8 3 (\<lambda>_. 0) = (l, nx) \<and> list_cnt l nx = Some 3 \<and>
     list_find l 108 nx = Some True \<and> (\<exists>l' nx'. list_extract l 116 nx = Some (l', nx') \<and> list_pick_last l' = 108)"
proof -
  obtain l nx where i: "list_pool_init \<lparr>sl_first = 0, sl_last = 0\<rparr> 100 8 3 (\<lambda>_. 0) = (l, nx)" by fastforce
  have sl: "sl_list nx l [100, 108, 116]" using pool_init_ok [OF _ _ i] by (simp add: upt_rec)
  have x: "(200 :: addr) \<noteq> 0" "200 \<notin> set [100, 108, 116 :: addr]" by simp_all
  note f = slist_functional [OF sl x]
  have c: "list_cnt l nx = Some 3" "list_find l 108 nx = Some True"
    using f [THEN conjunct1] f [THEN conjunct2, THEN conjunct1, rule_format, of 108] by simp_all
  have e: "\<exists>l' nx'. list_extract l 116 nx = Some (l', nx') \<and> list_pick_last l' = 108"
    using f [THEN conjunct2, THEN conjunct2, THEN conjunct2, THEN conjunct2, THEN conjunct2, THEN conjunct1, rule_format, of 116]
    by auto
  show ?thesis by (rule exI [of _ nx], rule exI [of _ l], intro conjI) (fact i c e)+
qed

text \<open>
  An element is moved between two lists that share their links, as
  \<open>new_page_request\<close> does with the pages of the storage: after \<open>list_extract\<close> from the first and
  \<open>list_push_back\<close> to the second the first list has the remaining elements in order and the
  second has the element at its end.
\<close>

theorem slist_move:
  assumes "sl_list nx l xs" and "sl_list nx m ys" and "set xs \<inter> set ys = {}" and "x \<in> set xs"
  shows "\<exists>l' m' nx1 nx2. list_extract l x nx = Some (l', nx1) \<and> list_push_back m x nx1 = (m', nx2) \<and>
    sl_list nx2 l' (remove1 x xs) \<and> sl_list nx2 m' (ys @ [x])"
  using sl.move [OF assms] sl_nonzero [OF assms(1,4)] assms(1) by (simp add: sl_list_def)

theorem slist_move_witness:
  "\<exists>l' m' nx1 nx2. list_extract \<lparr>sl_first = 5, sl_last = 6\<rparr> 5 ((\<lambda>_. 0)(5 := 6)) = Some (l', nx1) \<and>
     list_push_back \<lparr>sl_first = 7, sl_last = 7\<rparr> 5 nx1 = (m', nx2) \<and> sl_list nx2 l' [6] \<and> sl_list nx2 m' [7, 5]"
  using slist_move [of "(\<lambda>_. 0)(5 := 6)" "\<lparr>sl_first = 5, sl_last = 6\<rparr>" "[5, 6]" "\<lparr>sl_first = 7, sl_last = 7\<rparr>" "[7]" 5]
  by (simp add: sl_list_def)

end
