(* ===== verification/Nvds_System.thy ===== *)
theory Nvds_System
  imports Nvds_Named Slist
begin

text \<open>
  The storages of a device: the list of open storages, the internal storage that the firmware
  opens at its start, further storages on other parts of the flash, and the functions that
  open, close and clean them. A storage is known by its address; the links of the list are
  part of the storages, and all storages work on one flash device.
\<close>

section \<open>Model\<close>

definition NVDS_FLASH_INTERNAL_ADDR :: u32 where "NVDS_FLASH_INTERNAL_ADDR = RE_NVDS_DATA_OFFSET"
definition NVDS_FLASH_INTERNAL_SIZE :: u32 where "NVDS_FLASH_INTERNAL_SIZE = 0x4000"
definition LABEL_NAME_MAX_SIZE :: nat where "LABEL_NAME_MAX_SIZE = 32"

text \<open>
  The string \<open>"inner_nvds"\<close>.
\<close>

definition LABEL_INNER_NVDS_FLASH :: "u8 list" where
  "LABEL_INNER_NVDS_FLASH = [105, 110, 110, 101, 114, 95, 110, 118, 100, 115]"

record nvds_tag =
  tg_env :: nvds_env
  tg_label :: "u8 list"

text \<open>
  \<open>sy_inner\<close> is the address of the variable \<open>nvds_flash_env\<close>, \<open>sy_mutex\<close> whether \<open>nvds_mutex\<close> exists,
  \<open>sy_freed\<close> the storages that were passed to \<open>sys_mfree\<close>, and \<open>sy_nodec\<close> the flash regions that are
  read without decryption.
\<close>

record nvds_sys =
  sy_dev :: flash_dev
  sy_inner :: addr
  sy_list :: slist
  sy_next :: slinks
  sy_tag :: "addr \<Rightarrow> nvds_tag"
  sy_mutex :: bool
  sy_freed :: "addr list"
  sy_nodec :: "u32 \<rightharpoonup> u32 \<times> u32"

definition storage :: "nvds_sys \<Rightarrow> addr \<Rightarrow> nvds_env" where
  "storage sys h = (tg_env (sy_tag sys h))\<lparr>nv_dev := sy_dev sys\<rparr>"

definition set_storage :: "addr \<Rightarrow> nvds_env \<Rightarrow> nvds_sys \<Rightarrow> nvds_sys" where
  "set_storage h env sys = sys\<lparr>sy_dev := nv_dev env, sy_tag := (sy_tag sys)(h := (sy_tag sys h)\<lparr>tg_env := env\<rparr>)\<rparr>"

definition raw_flash_nodec_config :: "u32 \<Rightarrow> u32 \<Rightarrow> u32 \<Rightarrow> nvds_sys \<Rightarrow> nvds_sys" where
  "raw_flash_nodec_config nd_idx start_page end_page sys =
     (let sys = sys\<lparr>sy_dev := fmc_unlock (sy_dev sys)\<rparr>;
          sys = sys\<lparr>sy_nodec := (sy_nodec sys)(nd_idx \<mapsto> (start_page, end_page))\<rparr>
      in sys\<lparr>sy_dev := fmc_lock (sy_dev sys)\<rparr>)"

text \<open>
  A storage whose memory was cleared; the link in it is cleared too.
\<close>

definition zero_env :: "flash_dev \<Rightarrow> nvds_env" where
  "zero_env d = \<lparr>nv_dev = d, nv_base = 0, nv_length = 0, nv_page = (\<lambda>_. zero_page), nv_free = [], nv_used = [],
     nv_ns = [], nv_ns_states = replicate 8 0\<rparr>"

definition clear_storage :: "addr \<Rightarrow> nvds_sys \<Rightarrow> nvds_sys" where
  "clear_storage h sys = sys\<lparr>sy_next := (sy_next sys)(h := 0),
     sy_tag := (sy_tag sys)(h := \<lparr>tg_env = zero_env (sy_dev sys), tg_label = []\<rparr>)\<rparr>"

text \<open>
  The comparison with the open storages; the sums are computed in 32 bits. The loop over the
  list need not end on a damaged list, hence the option type.
\<close>

partial_function (option) env_check_loop :: "nvds_sys \<Rightarrow> u32 \<Rightarrow> u32 \<Rightarrow> addr \<Rightarrow> nvds_ret option" where
  "env_check_loop sys start_adr sz h =
     (if h \<noteq> 0 then
        let env = tg_env (sy_tag sys h) in
        if start_adr + sz < nv_base env \<or> start_adr > nv_base env + nv_length env
        then env_check_loop sys start_adr sz (list_next (sy_next sys) h)
        else Some NVDS_E_INVAL_PARAM
      else Some NVDS_OK)"

definition flash_env_check :: "nvds_sys \<Rightarrow> u32 \<Rightarrow> u32 \<Rightarrow> nvds_ret option" where
  "flash_env_check sys start_adr sz = env_check_loop sys start_adr sz (list_pick (sy_list sys))"

definition nvds_flash_env_init ::
    "rom_flash \<Rightarrow> (nat \<Rightarrow> bool) \<Rightarrow> (nat \<Rightarrow> nat \<Rightarrow> bool) \<Rightarrow> addr \<Rightarrow> u32 \<Rightarrow> u32 \<Rightarrow> u8 list \<Rightarrow> nvds_sys \<Rightarrow> nvds_ret \<times> nvds_sys" where
  "nvds_flash_env_init rom alloc_page alloc_ns h start_adr sz label sys =
     (let (ret, env) = nvds_env_load rom alloc_page alloc_ns start_adr sz (storage sys h);
          sys = sys\<lparr>sy_tag := (sy_tag sys)(h := (sy_tag sys h)\<lparr>tg_label := take LABEL_NAME_MAX_SIZE label\<rparr>)\<rparr>;
          sys = set_storage h env sys in
      if ret \<noteq> NVDS_OK then (ret, sys)
      else
        let (l, nx) = list_push_back (sy_list sys) h (sy_next sys)
        in (NVDS_OK, sys\<lparr>sy_list := l, sy_next := nx\<rparr>))"

text \<open>
  Closing releases the namespaces and pages and the storage itself.
\<close>

definition nvds_flash_deinit :: "addr \<Rightarrow> nvds_sys \<Rightarrow> nvds_sys option" where
  "nvds_flash_deinit h sys =
     (case list_extract (sy_list sys) h (sy_next sys) of
        None \<Rightarrow> None
      | Some (l, nx) \<Rightarrow>
          let sys = sys\<lparr>sy_list := l, sy_next := nx\<rparr> in
          if h \<noteq> 0 then
            let env = (storage sys h)\<lparr>nv_ns := [], nv_used := [], nv_free := []\<rparr>;
                sys = set_storage h env sys
            in Some (sys\<lparr>sy_freed := sy_freed sys @ [h]\<rparr>)
          else Some sys)"

text \<open>
  Opening a storage. \<open>mutex_new\<close> says whether a mutex can be created, \<open>ptr\<close> is the block that the
  allocator returns. The result is the handle, \<open>0\<close> on failure.
\<close>

definition nvds_flash_init ::
    "rom_flash \<Rightarrow> (nat \<Rightarrow> bool) \<Rightarrow> (nat \<Rightarrow> nat \<Rightarrow> bool) \<Rightarrow> bool \<Rightarrow> addr \<Rightarrow> u32 \<Rightarrow> u32 \<Rightarrow> u8 list \<Rightarrow> nvds_sys
      \<Rightarrow> (addr \<times> nvds_sys) option" where
  "nvds_flash_init rom alloc_page alloc_ns mutex_new ptr start_adr sz label sys =
     (case flash_env_check sys start_adr sz of
        None \<Rightarrow> None
      | Some ret \<Rightarrow>
          if ret \<noteq> NVDS_OK then Some (0, sys)
          else
            let sys = (if \<not> sy_mutex sys then sys\<lparr>sy_mutex := mutex_new\<rparr> else sys) in
            if \<not> sy_mutex sys then Some (0, sys)
            else if ptr = 0 then Some (0, sys\<lparr>sy_mutex := False\<rparr>)
            else
              let (ret, sys) = nvds_flash_env_init rom alloc_page alloc_ns ptr start_adr sz label (clear_storage ptr sys) in
              if ret \<noteq> NVDS_OK then Some (0, sys\<lparr>sy_mutex := False, sy_freed := sy_freed sys @ [ptr]\<rparr>)
              else Some (ptr, sys))"

definition nvds_flash_internal_init ::
    "rom_flash \<Rightarrow> (nat \<Rightarrow> bool) \<Rightarrow> (nat \<Rightarrow> nat \<Rightarrow> bool) \<Rightarrow> bool \<Rightarrow> nvds_sys \<Rightarrow> (nvds_ret \<times> nvds_sys) option" where
  "nvds_flash_internal_init rom alloc_page alloc_ns mutex_new sys =
     (let sys = (if \<not> sy_mutex sys then sys\<lparr>sy_mutex := mutex_new\<rparr> else sys) in
      if \<not> sy_mutex sys then Some (NVDS_E_FAIL, sys)
      else
        let sys = sys\<lparr>sy_list := list_init (sy_list sys)\<rparr> in
        (case flash_env_check sys NVDS_FLASH_INTERNAL_ADDR NVDS_FLASH_INTERNAL_SIZE of
           None \<Rightarrow> None
         | Some ret \<Rightarrow>
             if ret \<noteq> NVDS_OK then Some (ret, sys\<lparr>sy_mutex := False\<rparr>)
             else
               let sys = raw_flash_nodec_config 1 (drop_bit 12 RE_IMG_1_END) (drop_bit 12 RE_END_OFFSET - 1) sys;
                   (ret, sys) = nvds_flash_env_init rom alloc_page alloc_ns (sy_inner sys)
                     NVDS_FLASH_INTERNAL_ADDR NVDS_FLASH_INTERNAL_SIZE LABEL_INNER_NVDS_FLASH sys in
               if ret \<noteq> NVDS_OK then Some (ret, sys\<lparr>sy_mutex := False\<rparr>) else Some (ret, sys)))"

partial_function (option) find_label :: "nvds_sys \<Rightarrow> u8 list \<Rightarrow> addr \<Rightarrow> addr option" where
  "find_label sys label h =
     (if h \<noteq> 0 then
        if length (tg_label (sy_tag sys h)) = length label \<and> tg_label (sy_tag sys h) = label then Some h
        else find_label sys label (list_next (sy_next sys) h)
      else Some 0)"

text \<open>
  Cleaning the storage with a label, or the internal storage when there is none.
\<close>

definition nvds_clean ::
    "rom_flash \<Rightarrow> (nat \<Rightarrow> bool) \<Rightarrow> (nat \<Rightarrow> nat \<Rightarrow> bool) \<Rightarrow> bool \<Rightarrow> u8 list option \<Rightarrow> nvds_sys
      \<Rightarrow> (nvds_ret \<times> nvds_sys) option" where
  "nvds_clean rom alloc_page alloc_ns mutex_ok nvds_label sys =
     (if \<not> mutex_ok then Some (NVDS_E_FAIL, sys)
      else
        let (internal, label) = (case nvds_label of None \<Rightarrow> (True, LABEL_INNER_NVDS_FLASH) | Some l \<Rightarrow> (False, l)) in
        (case find_label sys label (list_pick (sy_list sys)) of
           None \<Rightarrow> None
         | Some h \<Rightarrow>
             if h = 0 then Some (NVDS_E_NOT_FOUND, sys)
             else
               let env = storage sys h;
                   (ret, env) = nvds_flash_erase rom env 0 (nv_length env);
                   sys = set_storage h env sys in
               if ret \<noteq> NVDS_OK then Some (ret, sys)
               else if internal then
                 Some (ret, snd (nvds_flash_env_init rom alloc_page alloc_ns (sy_inner sys)
                   NVDS_FLASH_INTERNAL_ADDR NVDS_FLASH_INTERNAL_SIZE LABEL_INNER_NVDS_FLASH (clear_storage (sy_inner sys) sys)))
               else map_option (\<lambda>sys. (ret, sys)) (nvds_flash_deinit h sys)))"

section \<open>The place of a storage\<close>

definition place :: "nvds_env \<Rightarrow> u32 \<times> u32" where
  "place env = (nv_base env, nv_length env)"

interpretation place: page_view place
  by unfold_locales (simp_all add: place_def set_page_def)

lemma place_upd [simp]:
  "place (env\<lparr>nv_free := ps\<rparr>) = place env" "place (env\<lparr>nv_used := ps\<rparr>) = place env" "place (env\<lparr>nv_ns := l\<rparr>) = place env"
  "place (env\<lparr>nv_ns_states := st\<rparr>) = place env"
  by (simp_all add: place_def)

lemma recycle_place: "recycle_page rom q p env = (r, env') \<Longrightarrow> place env' = place env"
  by (auto simp: recycle_page_def Let_def place.page_clear_keeps split: if_splits prod.splits
      dest!: place.page_state_alter_keeps place.copy_keeps place.flash_erase_keeps)

lemma recycle_place_snd: "place (snd (recycle_page rom q p env)) = place env"
  using recycle_place by (metis prod.collapse)

lemma new_page_place: "place (snd (new_page_request rom seq env)) = place env"
  by (auto simp: new_page_request_def Let_def recycle_place_snd split: if_splits prod.splits dest!: place.page_open_keeps)

lemma alter_place: "place (snd (entry_state_alter rom env p i s)) = place env"
  using place.entry_state_alter_keeps by (metis prod.collapse)

lemma header_read_place: "place (page_header_read rom p env) = place env"
  by (auto simp: page_header_read_def Let_def place.view_page split: sum.splits)

lemma load_entries_place: "place (snd (load_entries rom al p i env)) = place env"
proof (induction "126 - i" arbitrary: i env rule: less_induct)
  case less
  have IH: "place (snd (load_entries rom al p k env')) = place env'" if "i < k" "i < 126" for k env'
    using that by (intro less.hyps) auto
  show ?case
    by (subst load_entries.simps) (simp add: Let_def place.view_page alter_place IH split: sum.split)
qed

lemma load_sectors_place: "place (snd (load_sectors rom ap al ps is_err env)) = place env"
proof (induction ps arbitrary: is_err env)
  case (Cons p ps)
  have "place (snd (load_entries rom (al p) p 0 env)) = place env" for env by (rule load_entries_place)
  then have l: "load_entries rom (al p) p 0 env = (r, env') \<Longrightarrow> place env' = place env" for env r env' by (metis snd_conv)
  show ?case
    by (auto simp: Let_def Cons.IH place.view_page header_read_place split: sum.splits prod.splits load_result.splits dest!: l)
qed simp

lemma env_load_place: "place (snd (nvds_env_load rom ap al start_adr sz env)) = (start_adr, sz)"
proof -
  have c: "place (fold (\<lambda>p. count_entries rom p 0) ps env) = place env" for ps env
    using count_pages_keep [of rom ps env] by auto
  have l: "load_sectors rom ap al ps False env = (b, env') \<Longrightarrow> place env' = place env" for ps env b env'
    using load_sectors_place [of rom ap al ps False env] by simp
  have "place (snd (pages_load rom ap al env)) = place env" for env
    by (auto simp: pages_load_def Let_def c new_page_place split: prod.splits bool.splits dest!: l)
  then show ?thesis by (simp add: nvds_env_load_def place_def)
qed

section \<open>The list of open storages\<close>

text \<open>
  The bytes of a storage, from its first address on, fit in the address space, and those of
  two storages are apart, with at least one byte between them.
\<close>

definition region_fits :: "u32 \<times> u32 \<Rightarrow> bool" where
  "region_fits r \<longleftrightarrow> unat (fst r) + unat (snd r) < 2 ^ 32"

definition regions_apart :: "u32 \<times> u32 \<Rightarrow> u32 \<times> u32 \<Rightarrow> bool" where
  "regions_apart r s \<longleftrightarrow> unat (fst r) + unat (snd r) < unat (fst s) \<or> unat (fst s) + unat (snd s) < unat (fst r)"

definition region :: "nvds_sys \<Rightarrow> addr \<Rightarrow> u32 \<times> u32" where
  "region sys h = place (tg_env (sy_tag sys h))"

definition storages :: "nvds_sys \<Rightarrow> addr list \<Rightarrow> bool" where
  "storages sys xs \<longleftrightarrow> sl_list (sy_next sys) (sy_list sys) (sy_inner sys # xs) \<and>
     tg_label (sy_tag sys (sy_inner sys)) = LABEL_INNER_NVDS_FLASH \<and>
     region sys (sy_inner sys) = (NVDS_FLASH_INTERNAL_ADDR, NVDS_FLASH_INTERNAL_SIZE) \<and>
     (\<forall>h \<in> set xs. region_fits (region sys h)) \<and>
     pairwise (\<lambda>h k. regions_apart (region sys h) (region sys k)) (set (sy_inner sys # xs))"

lemma regions_apart_sym: "regions_apart r s \<Longrightarrow> regions_apart s r"
  by (auto simp: regions_apart_def)

lemma inner_fits: "region_fits (NVDS_FLASH_INTERNAL_ADDR, NVDS_FLASH_INTERNAL_SIZE)"
  by (simp add: region_fits_def NVDS_FLASH_INTERNAL_ADDR_def NVDS_FLASH_INTERNAL_SIZE_def RE_NVDS_DATA_OFFSET_def)

lemma region_end: "region_fits r \<Longrightarrow> unat (fst r + snd r) = unat (fst r) + unat (snd r)"
  by (subst unat_add_lem [THEN iffD1]) (auto simp: region_fits_def)

text \<open>
  On a list the check ends, and it accepts exactly the regions that are apart from all others.
\<close>

lemma env_check_chain:
  assumes "chain (sy_next sys) a xs 0" and "0 \<notin> set xs" and "region_fits (start_adr, sz)"
    and "\<forall>h \<in> set xs. region_fits (region sys h)"
  shows "env_check_loop sys start_adr sz a =
    Some (if \<forall>h \<in> set xs. regions_apart (start_adr, sz) (region sys h) then NVDS_OK else NVDS_E_INVAL_PARAM)"
  using assms
proof (induction xs arbitrary: a)
  case Nil
  then show ?case by (subst env_check_loop.simps) simp
next
  case (Cons h xs)
  let ?env = "tg_env (sy_tag sys h)"
  have e: "unat (start_adr + sz) = unat start_adr + unat sz"
    "unat (nv_base ?env + nv_length ?env) = unat (nv_base ?env) + unat (nv_length ?env)"
    using region_end [OF Cons.prems(3)] region_end [of "region sys h"] Cons.prems(4) by (simp_all add: region_def place_def)
  have "start_adr + sz < nv_base ?env \<or> start_adr > nv_base ?env + nv_length ?env \<longleftrightarrow> regions_apart (start_adr, sz) (region sys h)"
    by (simp add: regions_apart_def region_def place_def word_less_nat_alt e)
  then show ?case using Cons by (subst env_check_loop.simps) (auto simp: Let_def list_next_def)
qed

lemma flash_env_check_ok:
  assumes "storages sys xs" and "region_fits (start_adr, sz)"
  shows "flash_env_check sys start_adr sz =
    Some (if \<forall>h \<in> set (sy_inner sys # xs). regions_apart (start_adr, sz) (region sys h) then NVDS_OK else NVDS_E_INVAL_PARAM)"
  unfolding flash_env_check_def list_pick_def
  using assms inner_fits by (intro env_check_chain) (auto simp: storages_def sl_list_def)

text \<open>
  The invariant depends on the list, the links of its elements and their tags.
\<close>

lemma storages_frame:
  assumes "storages sys xs" and "sy_inner sys' = sy_inner sys" "sy_list sys' = sy_list sys"
    and "\<And>k. k \<in> set (sy_inner sys # xs) \<Longrightarrow> sy_next sys' k = sy_next sys k \<and> sy_tag sys' k = sy_tag sys k"
  shows "storages sys' xs"
proof -
  have "region sys' k = region sys k" if "k \<in> set (sy_inner sys # xs)" for k using assms(4) [OF that] by (simp add: region_def)
  then show ?thesis
    using assms sl_list_frame [of "sy_next sys" "sy_list sys" "sy_inner sys # xs" "sy_next sys'"] unfolding storages_def pairwise_def
    by auto
qed

lemma set_storage_inner [simp]: "sy_inner (set_storage h env sys) = sy_inner sys"
  by (simp add: set_storage_def)

lemma clear_storage_fields [simp]:
  "sy_dev (clear_storage h sys) = sy_dev sys" "sy_inner (clear_storage h sys) = sy_inner sys"
  "sy_list (clear_storage h sys) = sy_list sys" "sy_mutex (clear_storage h sys) = sy_mutex sys"
  "sy_freed (clear_storage h sys) = sy_freed sys"
  "k \<noteq> h \<Longrightarrow> sy_next (clear_storage h sys) k = sy_next sys k"
  "k \<noteq> h \<Longrightarrow> sy_tag (clear_storage h sys) k = sy_tag sys k"
  by (simp_all add: clear_storage_def)

text \<open>
  What \<open>nvds_flash_env_init\<close> does to the system: the tag of the storage gets its label and its
  place, and on success the storage is appended to the list.
\<close>

lemma env_init_cases:
  assumes "nvds_flash_env_init rom ap al h a sz label sys = (ret, sys')"
  shows "sy_inner sys' = sy_inner sys" "k \<noteq> h \<Longrightarrow> sy_tag sys' k = sy_tag sys k"
    "tg_label (sy_tag sys' h) = take LABEL_NAME_MAX_SIZE label" "region sys' h = (a, sz)" "sy_freed sys' = sy_freed sys"
    "sy_mutex sys' = sy_mutex sys"
    "(sy_list sys', sy_next sys') = (if ret = NVDS_OK then list_push_back (sy_list sys) h (sy_next sys) else (sy_list sys, sy_next sys))"
  using assms env_load_place [of rom ap al a sz "storage sys h"]
  by (auto simp: nvds_flash_env_init_def set_storage_def Let_def region_def split: prod.splits if_splits)

lemma env_init_ret:
  "fst (nvds_flash_env_init rom ap al h a sz label (clear_storage h sys)) = fst (nvds_env_load rom ap al a sz (zero_env (sy_dev sys)))"
proof -
  have "storage (clear_storage h sys) h = zero_env (sy_dev sys)" by (simp add: storage_def clear_storage_def zero_env_def)
  then show ?thesis by (auto simp: nvds_flash_env_init_def Let_def split: prod.splits)
qed

lemma storages_open:
  assumes s: "storages sys xs" and p: "ptr \<noteq> 0" "ptr \<notin> set (sy_inner sys # xs)" and r: "region_fits (a, sz)"
    and ap: "\<forall>h \<in> set (sy_inner sys # xs). regions_apart (a, sz) (region sys h)"
    and i: "nvds_flash_env_init rom ap al ptr a sz label (clear_storage ptr sys) = (NVDS_OK, sys')"
  shows "storages sys' (xs @ [ptr])"
proof -
  let ?c = "clear_storage ptr sys"
  note e = env_init_cases [OF i]
  have c: "storages ?c xs" using p by (intro storages_frame [OF s]) (auto simp: clear_storage_def)
  have "sl_list (sy_next ?c) (sy_list ?c) (sy_inner sys # xs)" using c by (simp add: storages_def)
  moreover have "list_push_back (sy_list ?c) ptr (sy_next ?c) = (sy_list sys', sy_next sys')" using e(7) by simp
  ultimately have l: "sl_list (sy_next sys') (sy_list sys') ((sy_inner sys # xs) @ [ptr])"
    by (intro push_back_ok(1)) (use p in auto)
  have o: "region sys' k = region sys k" "tg_label (sy_tag sys' k) = tg_label (sy_tag sys k)"
    if "k \<in> set (sy_inner sys # xs)" for k
  proof -
    have "k \<noteq> ptr" using p that by metis
    then show "region sys' k = region sys k" "tg_label (sy_tag sys' k) = tg_label (sy_tag sys k)"
      using e(2) by (simp_all add: region_def)
  qed
  have "regions_apart (a, sz) (region sys' k) \<and> regions_apart (region sys' k) (a, sz)" if "k \<in> set (sy_inner sys # xs)" for k
    using ap that regions_apart_sym o(1) by metis
  moreover have "pairwise (\<lambda>h k. regions_apart (region sys' h) (region sys' k)) (set (sy_inner sys # xs))"
    using s o(1) by (auto simp: storages_def pairwise_def)
  ultimately have "pairwise (\<lambda>h k. regions_apart (region sys' h) (region sys' k)) (insert ptr (set (sy_inner sys # xs)))"
    unfolding pairwise_insert e(4) by blast
  moreover have "insert ptr (set (sy_inner sys # xs)) = set (sy_inner sys' # xs @ [ptr])" using e(1) by auto
  ultimately show ?thesis using s l o r e(1,4) unfolding storages_def by auto
qed

text \<open>
  Opening returns, refuses every region that is not apart from the open ones, and keeps the
  invariant and the open storages in every case.
\<close>

lemma flash_init_cases:
  assumes s: "storages sys xs" and p: "ptr \<notin> set (sy_inner sys # xs)" and r: "region_fits (a, sz)"
  obtains h sys' where "nvds_flash_init rom ap al mx ptr a sz label sys = Some (h, sys')" and "sy_inner sys' = sy_inner sys"
    and "\<forall>k \<in> set (sy_inner sys # xs). sy_tag sys' k = sy_tag sys k"
    and "storages sys' (if h = 0 then xs else xs @ [h])" and "h \<noteq> 0 \<Longrightarrow> h = ptr \<and> region sys' h = (a, sz)"
    and "\<not> (\<forall>k \<in> set (sy_inner sys # xs). regions_apart (a, sz) (region sys k)) \<Longrightarrow> h = 0 \<and> sys' = sys"
    and "h \<noteq> 0 \<longleftrightarrow> (\<forall>k \<in> set (sy_inner sys # xs). regions_apart (a, sz) (region sys k)) \<and> (sy_mutex sys \<or> mx) \<and> ptr \<noteq> 0 \<and>
      fst (nvds_env_load rom ap al a sz (zero_env (sy_dev sys))) = NVDS_OK"
    and "\<forall>k \<in> set (sy_inner sys # xs). regions_apart (a, sz) (region sys k) \<Longrightarrow> h = 0 \<Longrightarrow> \<not> sy_mutex sys'"
proof -
  let ?ok = "\<forall>k \<in> set (sy_inner sys # xs). regions_apart (a, sz) (region sys k)"
  let ?m = "if \<not> sy_mutex sys then sys\<lparr>sy_mutex := mx\<rparr> else sys"
  note ck = flash_env_check_ok [OF s r]
  have fr: "storages (sys\<lparr>sy_mutex := b\<rparr>) xs" for b by (rule storages_frame [OF s]) simp_all
  have m: "storages ?m xs" "sy_inner ?m = sy_inner sys" "sy_tag ?m = sy_tag sys" "region ?m = region sys"
    using s fr by (simp_all add: region_def fun_eq_iff)
  show thesis
  proof (cases "?ok \<and> sy_mutex ?m \<and> ptr \<noteq> 0")
    case False
    then have "nvds_flash_init rom ap al mx ptr a sz label sys =
        Some (0, if \<not> ?ok then sys else if \<not> sy_mutex ?m then ?m else ?m\<lparr>sy_mutex := False\<rparr>)"
      using ck by (auto simp: nvds_flash_init_def Let_def)
    then show thesis by (rule that) (use s fr False in \<open>auto split: if_splits\<close>)
  next
    case True
    obtain ret sys2 where i: "nvds_flash_env_init rom ap al ptr a sz label (clear_storage ptr ?m) = (ret, sys2)"
      by (cases "nvds_flash_env_init rom ap al ptr a sz label (clear_storage ptr ?m)")
    note e = env_init_cases [OF i]
    have rt: "fst (nvds_env_load rom ap al a sz (zero_env (sy_dev sys))) = ret"
      using env_init_ret [of rom ap al ptr a sz label ?m] i by auto
    have t: "\<forall>k \<in> set (sy_inner sys # xs). sy_tag sys2 k = sy_tag sys k"
    proof
      fix k
      assume "k \<in> set (sy_inner sys # xs)"
      then have "k \<noteq> ptr" using p by metis
      then show "sy_tag sys2 k = sy_tag sys k" using e(2) m(3) by (simp add: clear_storage_def)
    qed
    show thesis
    proof (cases "ret = NVDS_OK")
      case ok: True
      have "nvds_flash_init rom ap al mx ptr a sz label sys = Some (ptr, sys2)"
        using ck True i ok by (auto simp: nvds_flash_init_def Let_def)
      moreover have "storages sys2 (xs @ [ptr])"
        by (rule storages_open [OF m(1) _ _ r]) (use True p m i ok in auto)
      ultimately show thesis using that [of ptr sys2] True t rt ok e(1,4) m(2) by (auto split: if_splits)
    next
      case bad: False
      let ?s = "sys2\<lparr>sy_mutex := False, sy_freed := sy_freed sys2 @ [ptr]\<rparr>"
      have "nvds_flash_init rom ap al mx ptr a sz label sys = Some (0, ?s)"
        using ck True i bad by (auto simp: nvds_flash_init_def Let_def)
      moreover have "sy_list sys2 = sy_list sys" "sy_next sys2 = (sy_next sys)(ptr := 0)"
        using e(7) bad by (auto simp: clear_storage_def)
      then have "storages ?s xs" by (intro storages_frame [OF s]) (use t p e(1) m(2) in auto)
      ultimately show thesis using that [of 0 ?s] True t rt bad e(1) m(2) by auto
    qed
  qed
qed

text \<open>
  Closing takes a storage other than the internal one off the list.
\<close>

lemma flash_deinit_cases:
  assumes s: "storages sys xs" and h: "h \<noteq> sy_inner sys" "h \<noteq> 0"
  obtains sys' where "nvds_flash_deinit h sys = Some sys'" and "storages sys' (remove1 h xs)" and "sy_inner sys' = sy_inner sys"
    and "\<forall>k. k \<noteq> h \<longrightarrow> sy_tag sys' k = sy_tag sys k" and "sy_dev sys' = sy_dev sys" and "sy_freed sys' = sy_freed sys @ [h]"
proof -
  have l: "sl_list (sy_next sys) (sy_list sys) (sy_inner sys # xs)" using s by (simp add: storages_def)
  obtain l' nx' where x: "list_extract (sy_list sys) h (sy_next sys) = Some (l', nx')"
    and l': "sl_list nx' l' (remove1 h (sy_inner sys # xs))" by (rule extract_ok [OF l h(2)])
  let ?env = "(storage sys h)\<lparr>nv_ns := [], nv_used := [], nv_free := []\<rparr>"
  let ?s = "(set_storage h ?env (sys\<lparr>sy_list := l', sy_next := nx'\<rparr>))\<lparr>sy_freed := sy_freed sys @ [h]\<rparr>"
  have d: "nvds_flash_deinit h sys = Some ?s"
    using x h by (simp add: nvds_flash_deinit_def Let_def storage_def set_storage_def)
  have rg: "region ?s k = region sys k" for k by (simp add: region_def set_storage_def storage_def place_def)
  have sub: "set (sy_inner sys # remove1 h xs) \<subseteq> set (sy_inner sys # xs)" using set_remove1_subset [of h xs] by auto
  have "storages ?s (remove1 h xs)"
    using s l' h(1) pairwise_subset [OF _ sub] sub unfolding storages_def rg by (auto simp: set_storage_def)
  then show thesis by (rule that [OF d]) (simp_all add: set_storage_def storage_def)
qed

lemma find_label_chain:
  "chain (sy_next sys) a xs 0 \<Longrightarrow> 0 \<notin> set xs \<Longrightarrow>
   find_label sys label a = Some (case filter (\<lambda>h. tg_label (sy_tag sys h) = label) xs of [] \<Rightarrow> 0 | h # _ \<Rightarrow> h)"
proof (induction xs arbitrary: a)
  case Nil
  then show ?case by (subst find_label.simps) simp
next
  case (Cons h xs)
  then show ?case by (subst find_label.simps) (auto simp: list_next_def)
qed

lemma find_label_ok:
  "storages sys xs \<Longrightarrow> find_label sys label (list_pick (sy_list sys)) =
     Some (case filter (\<lambda>h. tg_label (sy_tag sys h) = label) (sy_inner sys # xs) of [] \<Rightarrow> 0 | h # _ \<Rightarrow> h)"
  unfolding list_pick_def by (intro find_label_chain) (auto simp: storages_def sl_list_def)

lemma internal_init_storages:
  assumes i: "nvds_flash_internal_init rom ap al mx sys = Some (NVDS_OK, sys')" and h: "sy_inner sys \<noteq> 0"
  shows "storages sys' []" "sy_inner sys' = sy_inner sys"
proof -
  let ?m = "(if \<not> sy_mutex sys then sys\<lparr>sy_mutex := mx\<rparr> else sys)\<lparr>sy_list := list_init (sy_list sys)\<rparr>"
  let ?n = "raw_flash_nodec_config 1 (drop_bit 12 RE_IMG_1_END) (drop_bit 12 RE_END_OFFSET - 1) ?m"
  have n: "sy_inner ?n = sy_inner sys" "sy_list ?n = list_init (sy_list sys)" by (simp_all add: raw_flash_nodec_config_def Let_def)
  have "flash_env_check ?m NVDS_FLASH_INTERNAL_ADDR NVDS_FLASH_INTERNAL_SIZE = Some NVDS_OK"
    by (simp add: flash_env_check_def list_pick_def list_init_def env_check_loop.simps)
  then have e: "nvds_flash_env_init rom ap al (sy_inner sys) NVDS_FLASH_INTERNAL_ADDR NVDS_FLASH_INTERNAL_SIZE
      LABEL_INNER_NVDS_FLASH ?n = (NVDS_OK, sys')"
    using i n(1) by (auto simp: nvds_flash_internal_init_def Let_def split: if_splits prod.splits)
  note c = env_init_cases [OF e, unfolded n]
  have "sl_list (sy_next sys') (sy_list sys') [sy_inner sys]"
    using c(7) h by (auto simp: list_push_back_def list_init_def list_is_empty_def sl_list_def)
  then show "storages sys' []" "sy_inner sys' = sy_inner sys"
    using c by (simp_all add: storages_def pairwise_def LABEL_INNER_NVDS_FLASH_def LABEL_NAME_MAX_SIZE_def)
qed

text \<open>
  Cleaning a storage with a label of its own erases it and closes it.
\<close>

lemma clean_label_cases:
  assumes s: "storages sys xs" and l: "label \<noteq> LABEL_INNER_NVDS_FLASH"
  obtains ret sys' ys where "nvds_clean rom ap al mx (Some label) sys = Some (ret, sys')" and "storages sys' ys"
    and "sy_inner sys' = sy_inner sys" and "set ys \<subseteq> set xs"
proof (cases "mx \<and> (\<exists>h \<in> set xs. tg_label (sy_tag sys h) = label)")
  case False
  have "nvds_clean rom ap al mx (Some label) sys = Some (if mx then NVDS_E_NOT_FOUND else NVDS_E_FAIL, sys)"
  proof (cases mx)
    case True
    then have "filter (\<lambda>h. tg_label (sy_tag sys h) = label) (sy_inner sys # xs) = []"
      using False s l by (auto simp: storages_def filter_empty_conv)
    then show ?thesis using True find_label_ok [OF s, of label] by (simp add: nvds_clean_def)
  qed (simp add: nvds_clean_def)
  then show thesis by (rule that [of _ _ xs]) (use s in auto)
next
  case True
  have fl: "filter (\<lambda>h. tg_label (sy_tag sys h) = label) (sy_inner sys # xs) = filter (\<lambda>h. tg_label (sy_tag sys h) = label) xs"
    using s l by (auto simp: storages_def)
  from True obtain h hs where f: "filter (\<lambda>h. tg_label (sy_tag sys h) = label) xs = h # hs"
    by (cases "filter (\<lambda>h. tg_label (sy_tag sys h) = label) xs") (auto simp: filter_empty_conv)
  have "h \<in> set (filter (\<lambda>h. tg_label (sy_tag sys h) = label) xs)" unfolding f by simp
  then have hx: "h \<in> set xs" by simp
  have "0 \<notin> set xs" "sy_inner sys \<notin> set xs" using s by (auto simp: storages_def sl_list_def)
  then have h: "h \<noteq> 0" "h \<noteq> sy_inner sys" using hx by metis+
  obtain r env where e: "nvds_flash_erase rom (storage sys h) 0 (nv_length (storage sys h)) = (r, env)"
    by (cases "nvds_flash_erase rom (storage sys h) 0 (nv_length (storage sys h))")
  let ?s = "set_storage h env sys"
  have "place env = place (storage sys h)" using place.flash_erase_keeps [OF e] .
  then have rg: "region ?s k = region sys k" for k by (auto simp: region_def set_storage_def storage_def place_def)
  have st: "storages ?s xs" using s unfolding storages_def rg by (auto simp: set_storage_def)
  have h': "h \<noteq> sy_inner ?s" using h(2) by (simp add: set_storage_def)
  obtain sys2 where d: "nvds_flash_deinit h ?s = Some sys2" "storages sys2 (remove1 h xs)" "sy_inner sys2 = sy_inner ?s"
    by (rule flash_deinit_cases [OF st h' h(1)])
  have "nvds_clean rom ap al mx (Some label) sys = Some (if r \<noteq> NVDS_OK then (r, ?s) else (r, sys2))"
    using True find_label_ok [OF s, of label] f e h(1) d(1) unfolding fl by (simp add: nvds_clean_def Let_def)
  moreover have i: "sy_inner ?s = sy_inner sys" by (simp add: set_storage_def)
  ultimately have "nvds_clean rom ap al mx (Some label) sys = Some (r, if r \<noteq> NVDS_OK then ?s else sys2)" by simp
  then show thesis
    by (rule that [of _ _ "if r \<noteq> NVDS_OK then xs else remove1 h xs"]) (use st d(2,3) i set_remove1_subset [of h xs] in \<open>simp_all split: if_split\<close>)
qed

section \<open>Reachable systems\<close>

text \<open>
  A device that has opened its internal storage and has then made the calls \<open>cs\<close>, with any
  arguments and any result. The allocator returns no block that is in use.
\<close>

datatype nvds_call = Open u32 u32 "u8 list" | Close addr | Clean "u8 list option"

inductive nvds_step :: "rom_flash \<Rightarrow> nvds_call \<Rightarrow> nvds_sys \<Rightarrow> nvds_sys \<Rightarrow> bool" for rom where
  opened: "nvds_flash_init rom ap al mx ptr a sz label sys = Some (h, sys') \<Longrightarrow> ptr \<noteq> sy_inner sys \<Longrightarrow>
    (\<And>xs. sl_list (sy_next sys) (sy_list sys) xs \<Longrightarrow> ptr \<notin> set xs) \<Longrightarrow> nvds_step rom (Open a sz label) sys sys'"
| closed: "nvds_flash_deinit h sys = Some sys' \<Longrightarrow> nvds_step rom (Close h) sys sys'"
| cleaned: "nvds_clean rom ap al mx label sys = Some (ret, sys') \<Longrightarrow> nvds_step rom (Clean label) sys sys'"

inductive device :: "rom_flash \<Rightarrow> nvds_call list \<Rightarrow> nvds_sys \<Rightarrow> bool" for rom where
  booted: "nvds_flash_internal_init rom ap al mx sys = Some (NVDS_OK, sys') \<Longrightarrow> sy_inner sys \<noteq> 0 \<Longrightarrow> device rom [] sys'"
| called: "device rom cs sys \<Longrightarrow> nvds_step rom c sys sys' \<Longrightarrow> device rom (cs @ [c]) sys'"

text \<open>
  The calls for which the storages stay apart: a region that is opened ends inside the address
  space, and the internal storage, whose address is \<open>inner\<close>, is neither closed nor cleaned.
\<close>

fun careful :: "addr \<Rightarrow> nvds_call \<Rightarrow> bool" where
  "careful inner (Open a sz label) = region_fits (a, sz)"
| "careful inner (Close h) = (h \<noteq> inner \<and> h \<noteq> 0)"
| "careful inner (Clean label) = (label \<noteq> None \<and> label \<noteq> Some LABEL_INNER_NVDS_FLASH)"

lemma careful_step:
  assumes st: "nvds_step rom c sys sys'" and s: "storages sys xs" and c: "careful (sy_inner sys) c"
  shows "\<exists>ys. storages sys' ys \<and> sy_inner sys' = sy_inner sys"
  using st
proof (cases rule: nvds_step.cases)
  case (opened ap al mx ptr a sz label h)
  have "sl_list (sy_next sys) (sy_list sys) (sy_inner sys # xs)" using s by (simp add: storages_def)
  then have p: "ptr \<notin> set (sy_inner sys # xs)" by (rule opened(4))
  have r: "region_fits (a, sz)" using c opened(1) by simp
  show ?thesis by (rule flash_init_cases [OF s p r, of rom ap al mx label]) (use opened(2) in auto)
next
  case (closed h)
  then have h: "h \<noteq> sy_inner sys" "h \<noteq> 0" using c by simp_all
  show ?thesis by (rule flash_deinit_cases [OF s h]) (use closed(2) in auto)
next
  case (cleaned ap al mx label ret)
  then obtain l where l: "label = Some l" "l \<noteq> LABEL_INNER_NVDS_FLASH" using c by auto
  show ?thesis by (rule clean_label_cases [OF s l(2), of rom ap al mx]) (use cleaned(2) l(1) in auto)
qed

text \<open>
  The address of the internal storage never changes.
\<close>

lemma env_init_inner: "sy_inner (snd (nvds_flash_env_init rom ap al h a sz label sys)) = sy_inner sys"
  using env_init_cases(1) [of rom ap al h a sz label sys] by (metis prod.collapse)

lemma deinit_inner: "nvds_flash_deinit h sys = Some sys' \<Longrightarrow> sy_inner sys' = sy_inner sys"
  by (auto simp: nvds_flash_deinit_def Let_def split: option.splits if_splits)

lemma step_inner:
  assumes "nvds_step rom c sys sys'"
  shows "sy_inner sys' = sy_inner sys"
  using assms
proof (cases rule: nvds_step.cases)
  case (opened ap al mx ptr a sz label h)
  then show ?thesis
    by (auto simp: nvds_flash_init_def Let_def case_prod_beta env_init_inner split: option.splits if_splits)
next
  case (closed h)
  then show ?thesis using deinit_inner by blast
next
  case (cleaned ap al mx label ret)
  then show ?thesis
    by (auto simp: nvds_clean_def Let_def case_prod_beta env_init_inner dest!: deinit_inner split: option.splits if_splits)
qed

lemma device_storages: "device rom cs sys \<Longrightarrow> \<forall>c \<in> set cs. careful (sy_inner sys) c \<Longrightarrow> \<exists>xs. storages sys xs"
proof (induction rule: device.induct)
  case booted
  then show ?case using internal_init_storages(1) by blast
next
  case (called cs sys c sys')
  have i: "sy_inner sys' = sy_inner sys" by (rule step_inner [OF called(2)])
  then obtain xs where "storages sys xs" using called.IH called.prems by auto
  from careful_step [OF called(2) this] called.prems i show ?case by auto
qed

section \<open>Cleaning the internal storage\<close>

text \<open>
  The part of the flash that holds the internal storage is erased and not remapped.
\<close>

definition inner_erased :: "flash_dev \<Rightarrow> bool" where
  "inner_erased d \<longleftrightarrow> (\<forall>a \<ge> unat NVDS_FLASH_INTERNAL_ADDR. fmc_translate d a = a) \<and>
     (\<forall>k < unat NVDS_FLASH_INTERNAL_SIZE. fd_mem d (unat NVDS_FLASH_INTERNAL_ADDR + k) = 0xFF)"

lemma inner_erased_cong:
  assumes "fd_ofrg d' = fd_ofrg d" "fd_ofvr d' = fd_ofvr d" "fd_mem d' = fd_mem d"
  shows "inner_erased d' \<longleftrightarrow> inner_erased d"
proof -
  have "fmc_translate d' = fmc_translate d" using assms by (simp add: fmc_translate_def fun_eq_iff)
  then show ?thesis using assms(3) by (simp add: inner_erased_def)
qed

context nor_flash
begin

lemma erase_storage:
  assumes r: "nv_region env" and l: "0 < unat (nv_length env)"
  obtains ev where "nvds_flash_erase rom env 0 (nv_length env) =
    (NVDS_OK, env\<lparr>nv_dev := (nv_dev env)\<lparr>fd_mem := nor_erase (unat (nv_base env)) (unat (nv_length env)) (fd_mem (nv_dev env)),
       fd_events := ev\<rparr>\<rparr>)"
proof -
  define n where "n = unat (nv_length env)"
  have "n < 2 ^ 31" using r by (simp add: nv_region_def n_def)
  then have si: "sint (nv_length env) = int n" using sint_small [of n] by (simp add: n_def)
  have rn: "unat (nv_base env) + n \<le> flash_end" "4096 dvd unat (nv_base env)" "4096 dvd n" "0 < n"
    using r l by (simp_all add: nv_region_def n_def)
  have "\<exists>ev. raw_flash_erase rom (nv_base env) (sint (nv_length env)) (nv_dev env) = (0, (nv_dev env)
      \<lparr>fd_mem := nor_erase (unat (nv_base env)) (nat (sint (nv_length env))) (fd_mem (nv_dev env)), fd_events := ev\<rparr>)"
    unfolding si using rn by (intro raw_erase) simp_all
  then show thesis using that by (auto simp: nvds_flash_erase_def si n_def [symmetric])
qed

lemma load_inner_erased:
  assumes "inner_erased d"
  shows "\<exists>env'. nvds_env_load rom (\<lambda>_. True) (\<lambda>_ _. True) NVDS_FLASH_INTERNAL_ADDR NVDS_FLASH_INTERNAL_SIZE (zero_env d) =
    (NVDS_OK, env') \<and> named_represents env' Map.empty"
proof -
  let ?z = "(zero_env d)\<lparr>nv_base := NVDS_FLASH_INTERNAL_ADDR, nv_length := NVDS_FLASH_INTERNAL_SIZE\<rparr>"
  have "region_erased ?z"
    using assms unfolding region_erased_def page_erased_def nv_region_def nv_img_def inner_erased_def
    by (simp add: zero_env_def) (simp add: NVDS_FLASH_INTERNAL_ADDR_def NVDS_FLASH_INTERNAL_SIZE_def RE_NVDS_DATA_OFFSET_def)
  moreover have "nv_used ?z = []" "nv_free ?z = []" "nv_ns ?z = []" by (simp_all add: zero_env_def)
  ultimately obtain env' where l: "pages_load rom (\<lambda>_. True) (\<lambda>_ _. True) ?z = (NVDS_OK, env')"
    and e: "nv_durable env' (\<lambda>_. [])" "nv_map env' (\<lambda>_. []) = Map.empty" "ns_table env' = []" "nv_ns_states env' = nv_ns_states ?z"
    by (rule pages_load_erased)
  have "nv_ns_states env' = replicate 8 0" using e(4) by (simp add: zero_env_def)
  from named_empty(1) [OF e(1-3) this] l show ?thesis by (simp add: nvds_env_load_def)
qed

text \<open>
  Cleaning the internal storage clears its link too: the storages behind it leave the list.
\<close>

lemma clean_internal:
  assumes s: "storages sys xs" and t: "\<forall>a \<ge> unat NVDS_FLASH_INTERNAL_ADDR. fmc_translate (sy_dev sys) a = a"
  obtains sys' where "nvds_clean rom (\<lambda>_. True) (\<lambda>_ _. True) True None sys = Some (NVDS_OK, sys')" and "storages sys' []"
    and "named_represents (storage sys' (sy_inner sys)) Map.empty" and "sy_inner sys' = sy_inner sys"
    and "\<forall>k. k \<noteq> sy_inner sys \<longrightarrow> sy_tag sys' k = sy_tag sys k"
proof -
  let ?h = "sy_inner sys" and ?A = NVDS_FLASH_INTERNAL_ADDR and ?S = NVDS_FLASH_INTERNAL_SIZE
  note nums = NVDS_FLASH_INTERNAL_ADDR_def NVDS_FLASH_INTERNAL_SIZE_def RE_NVDS_DATA_OFFSET_def
  let ?env = "storage sys ?h"
  have h: "?h \<noteq> 0" using s by (simp add: storages_def sl_list_def)
  have pl: "nv_base ?env = ?A" "nv_length ?env = ?S" using s by (simp_all add: storages_def storage_def region_def place_def)
  have rg: "nv_region ?env" using t by (simp add: nv_region_def pl) (simp add: nums storage_def)
  then obtain ev where er: "nvds_flash_erase rom ?env 0 (nv_length ?env) = (NVDS_OK, ?env\<lparr>nv_dev := (nv_dev ?env)
      \<lparr>fd_mem := nor_erase (unat (nv_base ?env)) (unat (nv_length ?env)) (fd_mem (nv_dev ?env)), fd_events := ev\<rparr>\<rparr>)"
    using erase_storage [OF rg] by (auto simp: pl nums)
  define d where "d = (sy_dev sys)\<lparr>fd_mem := nor_erase (unat ?A) (unat ?S) (fd_mem (sy_dev sys)), fd_events := ev\<rparr>"
  have "nv_dev ?env = sy_dev sys" by (simp add: storage_def)
  then have er': "nvds_flash_erase rom ?env 0 (nv_length ?env) = (NVDS_OK, ?env\<lparr>nv_dev := d\<rparr>)" using er by (simp add: pl d_def)
  define c where "c = clear_storage ?h (set_storage ?h (?env\<lparr>nv_dev := d\<rparr>) sys)"
  have "fmc_translate d = fmc_translate (sy_dev sys)" by (simp add: d_def fmc_translate_def fun_eq_iff)
  then have "inner_erased d" using t by (simp add: inner_erased_def) (simp add: d_def nor_erase_def)
  then obtain env' where l: "nvds_env_load rom (\<lambda>_. True) (\<lambda>_ _. True) ?A ?S (zero_env d) = (NVDS_OK, env')"
    and em: "named_represents env' Map.empty" using load_inner_erased by blast
  have "storage c ?h = zero_env d" by (simp add: c_def storage_def clear_storage_def set_storage_def zero_env_def)
  then have l': "nvds_env_load rom (\<lambda>_. True) (\<lambda>_ _. True) ?A ?S (storage c ?h) = (NVDS_OK, env')" using l by simp
  obtain ret sys' where i: "nvds_flash_env_init rom (\<lambda>_. True) (\<lambda>_ _. True) ?h ?A ?S LABEL_INNER_NVDS_FLASH c = (ret, sys')"
    by (cases "nvds_flash_env_init rom (\<lambda>_. True) (\<lambda>_ _. True) ?h ?A ?S LABEL_INNER_NVDS_FLASH c")
  have st: "storage sys' ?h = env'" and r: "ret = NVDS_OK"
    using i l' by (auto simp: nvds_flash_env_init_def Let_def set_storage_def storage_def split: prod.splits)
  note ic = env_init_cases [OF i]
  have cf: "sy_inner c = ?h" "sy_list c = sy_list sys" "sy_next c = (sy_next sys)(?h := 0)" "k \<noteq> ?h \<Longrightarrow> sy_tag c k = sy_tag sys k" for k
    by (simp_all add: c_def clear_storage_def set_storage_def)
  have "sl_first (sy_list sys) = ?h" using s by (simp add: storages_def sl_list_def)
  then have "sl_list (sy_next sys') (sy_list sys') [?h]"
    using ic(7) r h cf by (auto simp: list_push_back_def list_is_empty_def sl_list_def)
  then have "storages sys' []"
    using ic cf by (simp add: storages_def pairwise_def LABEL_INNER_NVDS_FLASH_def LABEL_NAME_MAX_SIZE_def)
  moreover have "find_label sys LABEL_INNER_NVDS_FLASH (list_pick (sy_list sys)) = Some ?h"
    using find_label_ok [OF s, of LABEL_INNER_NVDS_FLASH] s by (simp add: storages_def)
  then have "nvds_clean rom (\<lambda>_. True) (\<lambda>_ _. True) True None sys = Some (NVDS_OK, sys')"
    using er' i h by (simp add: nvds_clean_def Let_def set_storage_inner c_def)
  ultimately show thesis using that [of sys'] em st ic(1,2) cf by auto
qed

lemma internal_init_erased:
  assumes e: "inner_erased (sy_dev sys)" and h: "sy_inner sys \<noteq> 0" "tg_env (sy_tag sys (sy_inner sys)) = zero_env d0"
  obtains sys' where "nvds_flash_internal_init rom (\<lambda>_. True) (\<lambda>_ _. True) True sys = Some (NVDS_OK, sys')"
    and "storages sys' []" and "named_represents (storage sys' (sy_inner sys)) Map.empty" and "sy_inner sys' = sy_inner sys"
proof -
  let ?h = "sy_inner sys"
  define m where "m = (if \<not> sy_mutex sys then sys\<lparr>sy_mutex := True\<rparr> else sys)\<lparr>sy_list := list_init (sy_list sys)\<rparr>"
  define n where "n = raw_flash_nodec_config 1 (drop_bit 12 RE_IMG_1_END) (drop_bit 12 RE_END_OFFSET - 1) m"
  have ck: "flash_env_check m NVDS_FLASH_INTERNAL_ADDR NVDS_FLASH_INTERNAL_SIZE = Some NVDS_OK"
    by (simp add: m_def flash_env_check_def list_pick_def list_init_def env_check_loop.simps)
  have "inner_erased (sy_dev n) \<longleftrightarrow> inner_erased (sy_dev sys)"
    by (rule inner_erased_cong) (simp_all add: n_def m_def raw_flash_nodec_config_def Let_def fmc_unlock_def fmc_lock_def)
  with e have "inner_erased (sy_dev n)" by simp
  then obtain env' where l: "nvds_env_load rom (\<lambda>_. True) (\<lambda>_ _. True) NVDS_FLASH_INTERNAL_ADDR NVDS_FLASH_INTERNAL_SIZE
      (zero_env (sy_dev n)) = (NVDS_OK, env')" and em: "named_represents env' Map.empty" using load_inner_erased by blast
  have hn: "sy_inner n = ?h" "storage n ?h = zero_env (sy_dev n)"
    using h(2) by (simp_all add: n_def m_def raw_flash_nodec_config_def Let_def storage_def zero_env_def)
  obtain ret sys' where i: "nvds_flash_env_init rom (\<lambda>_. True) (\<lambda>_ _. True) ?h NVDS_FLASH_INTERNAL_ADDR NVDS_FLASH_INTERNAL_SIZE
      LABEL_INNER_NVDS_FLASH n = (ret, sys')"
    by (metis surj_pair)
  then have st: "storage sys' ?h = env'" "ret = NVDS_OK"
    using l hn by (auto simp: nvds_flash_env_init_def Let_def set_storage_def storage_def split: prod.splits)
  have "nvds_flash_internal_init rom (\<lambda>_. True) (\<lambda>_ _. True) True sys = Some (NVDS_OK, sys')"
    using ck i st(2) hn(1) unfolding nvds_flash_internal_init_def m_def n_def by (simp add: Let_def split: if_splits)
  then show thesis using that internal_init_storages h(1) em st(1) by metis
qed

end

section \<open>Properties\<close>

text \<open>
  Property C12: the storages of a device never share flash, as long as it makes careful calls.
  After the internal storage was opened, and after any sequence of openings of regions that end
  inside the address space, closings of other storages than the internal one, and cleanings with
  another label than that of the internal storage, whatever the flash and the allocator return,
  the list of storages is a well-formed list that starts with the internal storage, and the regions
  of two different storages on it are apart. (The other calls are possible and break this: see the
  cleaning without a label and the lemmas at the end of the theory.)
\<close>

theorem nvds_storages_apart:
  assumes "device rom cs sys" and "\<forall>c \<in> set cs. careful (sy_inner sys) c"
  shows "\<exists>xs. sl_list (sy_next sys) (sy_list sys) (sy_inner sys # xs) \<and>
    region sys (sy_inner sys) = (NVDS_FLASH_INTERNAL_ADDR, NVDS_FLASH_INTERNAL_SIZE) \<and>
    (\<forall>h \<in> set (sy_inner sys # xs). \<forall>k \<in> set (sy_inner sys # xs). h \<noteq> k \<longrightarrow> regions_apart (region sys h) (region sys k))"
  using device_storages [OF assms] unfolding storages_def pairwise_def by blast

definition example_tag :: "u32 \<Rightarrow> u32 \<Rightarrow> u8 list \<Rightarrow> nvds_tag" where
  "example_tag a sz label = \<lparr>tg_env = (zero_env (nv_dev nv_example))\<lparr>nv_base := a, nv_length := sz\<rparr>, tg_label = label\<rparr>"

text \<open>
  A device before its start, with an erased flash, and a device with the internal storage and
  a second one.
\<close>

definition example_sys :: nvds_sys where
  "example_sys = \<lparr>sy_dev = nv_dev nv_example, sy_inner = 100, sy_list = \<lparr>sl_first = 0, sl_last = 0\<rparr>, sy_next = \<lambda>_. 0,
     sy_tag = \<lambda>_. example_tag 0 0 [], sy_mutex = False, sy_freed = [], sy_nodec = Map.empty\<rparr>"

definition example_two :: nvds_sys where
  "example_two = example_sys\<lparr>sy_list := \<lparr>sl_first = 100, sl_last = 200\<rparr>, sy_next := (\<lambda>_. 0)(100 := 200),
     sy_tag := (\<lambda>_. example_tag 0 0 [])(100 := example_tag NVDS_FLASH_INTERNAL_ADDR NVDS_FLASH_INTERNAL_SIZE LABEL_INNER_NVDS_FLASH,
       200 := example_tag 0x3F0000 0x2000 [98]), sy_mutex := True\<rparr>"

lemma example_erased: "inner_erased (nv_dev nv_example)"
  by (auto simp: inner_erased_def nv_example_def fmc_translate_def NVDS_FLASH_INTERNAL_ADDR_def RE_NVDS_DATA_OFFSET_def)

lemma example_two_storages: "storages example_two [200]" "sy_inner example_two = 100" "region example_two 200 = (0x3F0000, 0x2000)"
  by (auto simp: storages_def example_two_def example_sys_def example_tag_def sl_list_def region_def place_def pairwise_def
      regions_apart_def region_fits_def NVDS_FLASH_INTERNAL_ADDR_def NVDS_FLASH_INTERNAL_SIZE_def RE_NVDS_DATA_OFFSET_def)

theorem nvds_storages_apart_witness:
  "\<exists>sys. device ideal_flash [Open 0x3F0000 0x2000 [98]] sys \<and>
     region sys (sy_inner sys) = (NVDS_FLASH_INTERNAL_ADDR, NVDS_FLASH_INTERNAL_SIZE)"
proof -
  obtain sys where i: "nvds_flash_internal_init ideal_flash (\<lambda>_. True) (\<lambda>_ _. True) True example_sys = Some (NVDS_OK, sys)"
    and s: "storages sys []" "sy_inner sys = 100"
    by (rule ideal.internal_init_erased [of example_sys]) (auto simp: example_sys_def example_tag_def example_erased zero_env_def)
  have d: "device ideal_flash [] sys" using i by (rule device.booted) (simp add: example_sys_def)
  have p: "0 \<notin> set (sy_inner sys # [])" using s(2) by simp
  have r: "region_fits (0x3F0000, 0x2000)" by (simp add: region_fits_def)
  obtain h sys' where o: "nvds_flash_init ideal_flash (\<lambda>_. True) (\<lambda>_ _. True) True 0 0x3F0000 0x2000 [98] sys = Some (h, sys')"
    using flash_init_cases [OF s(1) p r, of ideal_flash "\<lambda>_. True" "\<lambda>_ _. True" True "[98]"] by metis
  have "nvds_step ideal_flash (Open 0x3F0000 0x2000 [98]) sys sys'"
    by (rule nvds_step.opened [OF o]) (use s(2) in \<open>auto simp: sl_list_def\<close>)
  from device.called [OF d this] have d': "device ideal_flash [Open 0x3F0000 0x2000 [98]] sys'" by simp
  with nvds_storages_apart [OF d'] r show ?thesis by auto
qed

text \<open>
  Property C17: opening a storage whose region ends inside the address space ends and returns a
  handle exactly if the region is apart from all open storages, there is a mutex and a block, and
  the pages of the region can be loaded. The storage then stands at the end of the list; in every
  other case the list is unchanged. A region that is not apart is refused without any effect; an
  opening that fails later leaves the device without the mutex that all storages share. The records
  of the storages that were open are the same in every case.
\<close>

theorem nvds_flash_init_decides:
  assumes "storages sys xs" and "ptr \<notin> set (sy_inner sys # xs)" and "region_fits (a, sz)"
  shows "\<exists>h sys'. nvds_flash_init rom ap al mx ptr a sz label sys = Some (h, sys') \<and>
    (h \<noteq> 0 \<longleftrightarrow> (\<forall>k \<in> set (sy_inner sys # xs). regions_apart (a, sz) (region sys k)) \<and> (sy_mutex sys \<or> mx) \<and> ptr \<noteq> 0 \<and>
       fst (nvds_env_load rom ap al a sz (zero_env (sy_dev sys))) = NVDS_OK) \<and>
    (h \<noteq> 0 \<longrightarrow> h = ptr \<and> region sys' h = (a, sz)) \<and> storages sys' (if h = 0 then xs else xs @ [h]) \<and>
    (h = 0 \<longrightarrow> (if \<forall>k \<in> set (sy_inner sys # xs). regions_apart (a, sz) (region sys k) then \<not> sy_mutex sys' else sys' = sys)) \<and>
    (\<forall>k \<in> set (sy_inner sys # xs). sy_tag sys' k = sy_tag sys k)"
  by (rule flash_init_cases [OF assms, of rom ap al mx label]) (simp, blast)

theorem nvds_flash_init_decides_witness:
  "\<exists>sys'. nvds_flash_init ideal_flash (\<lambda>_. True) (\<lambda>_ _. True) True 300 0x3F0000 0x2000 [98] example_two = Some (0, sys') \<and>
     storages sys' [200]"
proof -
  have "300 \<notin> set (sy_inner example_two # [200])" "region_fits (0x3F0000, 0x2000)"
    by (simp_all add: example_two_storages region_fits_def)
  from nvds_flash_init_decides [OF example_two_storages(1) this, of ideal_flash "\<lambda>_. True" "\<lambda>_ _. True" True "[98]"]
  show ?thesis by (auto simp: example_two_storages(3) regions_apart_def)
qed

text \<open>
  Property C18: cleaning without a label empties the internal storage, and the storages that are
  open besides it stay open but are taken off the list with its link. The check of a new region
  then no longer sees them: it accepts the region of every one of them.
\<close>

theorem nvds_clean_forgets_storages:
  assumes "nor_flash rom" and "storages sys xs" and "\<forall>a \<ge> unat NVDS_FLASH_INTERNAL_ADDR. fmc_translate (sy_dev sys) a = a"
  shows "\<exists>sys'. nvds_clean rom (\<lambda>_. True) (\<lambda>_ _. True) True None sys = Some (NVDS_OK, sys') \<and>
    named_represents (storage sys' (sy_inner sys)) Map.empty \<and> storages sys' [] \<and>
    (\<forall>h \<in> set xs. sy_tag sys' h = sy_tag sys h \<and> flash_env_check sys' (fst (region sys h)) (snd (region sys h)) = Some NVDS_OK \<and>
       flash_env_check sys (fst (region sys h)) (snd (region sys h)) = Some NVDS_E_INVAL_PARAM)"
proof -
  obtain sys' where c: "nvds_clean rom (\<lambda>_. True) (\<lambda>_ _. True) True None sys = Some (NVDS_OK, sys')" "storages sys' []"
    "named_represents (storage sys' (sy_inner sys)) Map.empty"
    and i: "sy_inner sys' = sy_inner sys" and t: "\<forall>k. k \<noteq> sy_inner sys \<longrightarrow> sy_tag sys' k = sy_tag sys k"
    by (rule nor_flash.clean_internal [OF assms])
  have "sy_tag sys' h = sy_tag sys h \<and> flash_env_check sys' (fst (region sys h)) (snd (region sys h)) = Some NVDS_OK \<and>
      flash_env_check sys (fst (region sys h)) (snd (region sys h)) = Some NVDS_E_INVAL_PARAM" if h: "h \<in> set xs" for h
  proof -
    have "sy_inner sys \<notin> set xs" using assms(2) by (simp add: storages_def sl_list_def)
    then have ne: "h \<noteq> sy_inner sys" using h by metis
    have f: "region_fits (fst (region sys h), snd (region sys h))" using assms(2) h by (simp add: storages_def)
    have "regions_apart (region sys h) (region sys (sy_inner sys))"
      using assms(2) h ne unfolding storages_def list.set pairwise_insert by blast
    moreover have "region sys' (sy_inner sys) = region sys (sy_inner sys)" using c(2) assms(2) i by (simp add: storages_def)
    moreover have "\<not> regions_apart (region sys h) (region sys h)" by (simp add: regions_apart_def)
    ultimately show ?thesis
      using flash_env_check_ok [OF c(2) f] flash_env_check_ok [OF assms(2) f] t ne h i by auto
  qed
  with c show ?thesis by blast
qed

theorem nvds_clean_forgets_storages_witness:
  "\<exists>sys'. nvds_clean ideal_flash (\<lambda>_. True) (\<lambda>_ _. True) True None example_two = Some (NVDS_OK, sys') \<and>
     flash_env_check sys' 0x3F0000 0x2000 = Some NVDS_OK \<and> flash_env_check example_two 0x3F0000 0x2000 = Some NVDS_E_INVAL_PARAM"
proof -
  have "\<forall>a \<ge> unat NVDS_FLASH_INTERNAL_ADDR. fmc_translate (sy_dev example_two) a = a"
    using example_erased by (simp add: inner_erased_def example_two_def example_sys_def)
  from nvds_clean_forgets_storages [OF ideal.nor_flash_axioms example_two_storages(1) this]
  show ?thesis by (auto simp: example_two_storages(3))
qed

text \<open>
  Further behaviour of these functions at their limits: regions that only touch are refused, the
  sums wrap around, a failed opening deletes the mutex that all storages share, and cleaning with
  the label of the internal storage releases the variable that holds it.
\<close>

lemma check_refuses_adjacent: "flash_env_check example_two 0x3F2000 0x1000 = Some NVDS_E_INVAL_PARAM"
proof -
  have "region_fits (0x3F2000, 0x1000)" by (simp add: region_fits_def)
  from flash_env_check_ok [OF example_two_storages(1) this] show ?thesis
    by (auto simp: example_two_storages regions_apart_def)
qed

lemma check_accepts_wrap: "flash_env_check example_two 0x3EF000 0xFFFFFFFF = Some NVDS_OK"
  by (simp add: flash_env_check_def list_pick_def list_next_def example_two_def example_sys_def example_tag_def env_check_loop.simps
      NVDS_FLASH_INTERNAL_ADDR_def NVDS_FLASH_INTERNAL_SIZE_def RE_NVDS_DATA_OFFSET_def)

lemma failed_init_deletes_mutex:
  assumes "storages sys xs" and "region_fits (a, sz)" and "\<forall>k \<in> set (sy_inner sys # xs). regions_apart (a, sz) (region sys k)"
    and "sy_mutex sys"
  shows "nvds_flash_init rom ap al mx 0 a sz label sys = Some (0, sys\<lparr>sy_mutex := False\<rparr>)"
  using flash_env_check_ok [OF assms(1,2)] assms(3,4) by (simp add: nvds_flash_init_def Let_def)

lemma clean_frees_static:
  assumes s: "storages sys xs" and e: "nvds_flash_erase rom (storage sys (sy_inner sys)) 0 NVDS_FLASH_INTERNAL_SIZE = (NVDS_OK, env)"
  shows "\<exists>sys'. nvds_clean rom ap al True (Some LABEL_INNER_NVDS_FLASH) sys = Some (NVDS_OK, sys') \<and>
    sy_freed sys' = sy_freed sys @ [sy_inner sys] \<and> sl_list (sy_next sys') (sy_list sys') xs"
proof -
  let ?h = "sy_inner sys"
  have l: "sl_list (sy_next sys) (sy_list sys) (?h # xs)" and h: "?h \<noteq> 0" using s by (auto simp: storages_def sl_list_def)
  have f: "find_label sys LABEL_INNER_NVDS_FLASH (list_pick (sy_list sys)) = Some ?h"
    using find_label_ok [OF s, of LABEL_INNER_NVDS_FLASH] s by (simp add: storages_def)
  have n: "nv_length (storage sys ?h) = NVDS_FLASH_INTERNAL_SIZE" using s by (simp add: storages_def storage_def region_def place_def)
  obtain l' nx' where "list_extract (sy_list sys) ?h (sy_next sys) = Some (l', nx')" "sl_list nx' l' (remove1 ?h (?h # xs))"
    by (rule extract_ok [OF l h])
  then show ?thesis
    using f h e n by (auto simp: nvds_clean_def nvds_flash_deinit_def set_storage_def Let_def)
qed

end
