(* ===== verification/Nvds_Purge.thy ===== *)
theory Nvds_Purge
  imports Nvds_Named
begin

text \<open>
  Deleting a namespace with all its keys: \<open>nvds_del_keys_by_namespace\<close> walks over the entries of
  all used pages, marks those of the namespace as updated, and deletes the namespace when its
  counter reaches zero. The record of the namespace is released inside the walk; an access to
  it after that is undefined in C and is a result of its own here.
\<close>

section \<open>Model\<close>

datatype del_result = Del_ret nvds_ret | Del_freed_access

fun ns_by_name_update :: "u8 list \<Rightarrow> (namespace_info \<Rightarrow> namespace_info) \<Rightarrow> namespace_info list \<Rightarrow> namespace_info list" where
  "ns_by_name_update name f [] = []"
| "ns_by_name_update name f (ns # nss) =
     (if ns_name ns = name then f ns # nss else ns # ns_by_name_update name f nss)"

text \<open>
  The counter of the namespace and its deletion. \<open>freed\<close> says whether the record was released.
  A first component \<open>None\<close> means that the walk goes on.
\<close>

definition ns_release ::
    "rom_flash \<Rightarrow> u8 list \<Rightarrow> u8 \<Rightarrow> bool \<Rightarrow> nvds_env \<Rightarrow> (del_result option \<times> bool \<times> nvds_env) option" where
  "ns_release rom name ns_idx freed env =
     (if freed then Some (Some Del_freed_access, freed, env)
      else
        let env = env\<lparr>nv_ns := ns_by_name_update name (\<lambda>ns. ns\<lparr>ns_used_cnt := ns_used_cnt ns - 1\<rparr>) (nv_ns env)\<rparr> in
        case find (\<lambda>ns. ns_name ns = name) (nv_ns env) of
          None \<Rightarrow> Some (None, freed, env)
        | Some ns \<Rightarrow>
            if ns_used_cnt ns = 0 then
              (case data_element_del rom 0 (ns_name ns)
                 (env\<lparr>nv_ns := remove1 ns (nv_ns env), nv_ns_states := ns_state_set (nv_ns_states env) ns_idx False\<rparr>) of
                 None \<Rightarrow> None
               | Some (ret, env) \<Rightarrow> if ret \<noteq> NVDS_OK then Some (Some (Del_ret ret), freed, env) else Some (None, True, env))
            else Some (None, freed, env))"

definition del_entry ::
    "rom_flash \<Rightarrow> u8 list \<Rightarrow> u8 \<Rightarrow> nat \<Rightarrow> bool \<Rightarrow> u8 \<Rightarrow> entry_info \<Rightarrow> nvds_env \<Rightarrow> (del_result option \<times> bool \<times> nvds_env) option" where
  "del_entry rom name ns_idx p freed entry_idx entry env =
     (let type = tag_element_type_get (entry_tag entry);
          (ret, env) =
            (if type = ELEMENT_SMALL \<or> type = ELEMENT_BULKINFO then
               case entry_state_range_alter rom env p entry_idx entry_idx ENTRY_UPDATED of
                 (ret, env) \<Rightarrow> (ret, if ret = NVDS_OK then used_minus p 1 env else env)
             else if has_data type then
               let entry_cnt = data_entries (unat (entry_length entry)) in
               case entry_state_range_alter rom env p entry_idx (entry_idx + of_nat entry_cnt) ENTRY_UPDATED of
                 (ret, env) \<Rightarrow> (ret, if ret = NVDS_OK then used_minus p (entry_cnt + 1) env else env)
             else (NVDS_OK, env)) in
      if ret \<noteq> NVDS_OK then Some (Some (Del_ret ret), freed, env)
      else ns_release rom name ns_idx freed env)"

partial_function (option) del_keys_in_page ::
    "rom_flash \<Rightarrow> u8 list \<Rightarrow> u8 \<Rightarrow> nat \<Rightarrow> bool \<Rightarrow> u8 \<Rightarrow> nvds_env \<Rightarrow> (del_result option \<times> bool \<times> nvds_env) option" where
  "del_keys_in_page rom name ns_idx p freed entry_idx env =
     (if unat entry_idx < ENTRY_COUNT_PER_PAGE then
        (case entry_state_get (pg_states (nv_page env p)) entry_idx of
           Inl ret \<Rightarrow> Some (Some (Del_ret ret), freed, env)
         | Inr state \<Rightarrow>
             if state = ENTRY_FREE then Some (None, freed, env)
             else (case entry_read rom env p entry_idx of
                     Inl ret \<Rightarrow> Some (Some (Del_ret ret), freed, env)
                   | Inr entry \<Rightarrow>
                       (case (if state = ENTRY_USED \<and> ns_idx = tag_namespace_get (entry_tag entry)
                              then del_entry rom name ns_idx p freed entry_idx entry env else Some (None, freed, env)) of
                          None \<Rightarrow> None
                        | Some (r, freed, env) \<Rightarrow>
                            (case r of
                               Some _ \<Rightarrow> Some (r, freed, env)
                             | None \<Rightarrow> del_keys_in_page rom name ns_idx p freed (entry_skip entry entry_idx) env))))
      else Some (None, freed, env))"

fun del_keys_in_pages ::
    "rom_flash \<Rightarrow> u8 list \<Rightarrow> u8 \<Rightarrow> nat list \<Rightarrow> bool \<Rightarrow> nvds_env \<Rightarrow> (del_result \<times> nvds_env) option" where
  "del_keys_in_pages rom name ns_idx [] freed env = Some (Del_ret NVDS_OK, env)"
| "del_keys_in_pages rom name ns_idx (p # ps) freed env =
     (let st = ph_state (pg_header (nv_page env p)) in
      if st \<noteq> PAGE_ACTIVE \<and> st \<noteq> PAGE_FULL then del_keys_in_pages rom name ns_idx ps freed env
      else case del_keys_in_page rom name ns_idx p freed 0 env of
        None \<Rightarrow> None
      | Some (Some r, freed, env) \<Rightarrow> Some (r, env)
      | Some (None, freed, env) \<Rightarrow> del_keys_in_pages rom name ns_idx ps freed env)"

definition nvds_del_keys_by_namespace :: "rom_flash \<Rightarrow> u8 list \<Rightarrow> nvds_env \<Rightarrow> (del_result \<times> nvds_env) option" where
  "nvds_del_keys_by_namespace rom namespace env =
     (if length namespace > KEY_NAME_MAX_SIZE - 1 then Some (Del_ret NVDS_E_INVAL_PARAM, env)
      else case find (\<lambda>ns. length (ns_name ns) = length namespace \<and> ns_name ns = namespace) (nv_ns env) of
        None \<Rightarrow> Some (Del_ret NVDS_E_NOT_FOUND, env)
      | Some ns \<Rightarrow> del_keys_in_pages rom namespace (ns_index ns) (nv_used env) False env)"

section \<open>Reading the items of a page\<close>

text \<open>
  The items of a namespace that are in use.
\<close>

definition live_in :: "u8 \<Rightarrow> item \<Rightarrow> bool" where
  "live_in i it \<longleftrightarrow> (case it of (s, e, d) \<Rightarrow> s = ENTRY_USED \<and> i = tag_namespace_get (entry_tag e))"

lemma live_in_simps [simp]:
  "live_in i (ENTRY_USED, e, d) \<longleftrightarrow> i = tag_namespace_get (entry_tag e)" "\<not> live_in i (ENTRY_UPDATED, e, d)"
  by (simp_all add: live_in_def entry_states)

text \<open>
  Elements only change their state, to updated.
\<close>

definition fades_to :: "item \<Rightarrow> item \<Rightarrow> bool" where
  "fades_to it it' \<longleftrightarrow> snd it' = snd it \<and> (fst it' = fst it \<or> fst it' = ENTRY_UPDATED)"

definition fades :: "(nat \<Rightarrow> item list) \<Rightarrow> (nat \<Rightarrow> item list) \<Rightarrow> bool" where
  "fades I I' \<longleftrightarrow> (\<forall>q. list_all2 fades_to (I q) (I' q))"

lemma fades_to_refl [simp]: "fades_to it it"
  by (simp add: fades_to_def)

lemma fades_refl [simp]: "fades I I"
  by (simp add: fades_def list_all2_refl)

lemma fades_trans:
  assumes "fades I J" and "fades J K"
  shows "fades I K"
proof -
  have "fades_to a c" if "fades_to a b" "fades_to b c" for a b c using that by (auto simp: fades_to_def)
  with assms list_all2_trans [of fades_to fades_to fades_to] show ?thesis unfolding fades_def by blast
qed

lemma fades_upd:
  assumes "I p = xs @ (s, e, d) # ys"
  shows "fades I (I(p := xs @ (ENTRY_UPDATED, e, d) # ys))"
proof -
  have "list_all2 fades_to (xs @ (s, e, d) # ys) (xs @ (ENTRY_UPDATED, e, d) # ys)"
    by (intro list_all2_appendI list_all2_refl) (auto simp: fades_to_def list_all2_refl)
  with assms show ?thesis by (simp add: fades_def list_all2_refl)
qed

lemma fades_to_size: "list_all2 fades_to xs ys \<Longrightarrow> items_size ys = items_size xs"
  by (induction xs ys rule: list_all2_induct) (auto simp: fades_to_def)

lemma fades_to_dead: "list_all2 fades_to xs ys \<Longrightarrow> \<forall>it \<in> set xs. \<not> live_in i it \<Longrightarrow> \<forall>it \<in> set ys. \<not> live_in i it"
  by (induction xs ys rule: list_all2_induct) (auto simp: fades_to_def live_in_def entry_states)

lemma fades_split:
  assumes "fades I J" and "I p = xs @ ys"
  obtains xs' ys' where "J p = xs' @ ys'" and "list_all2 fades_to xs xs'" and "length ys' = length ys"
proof -
  have "list_all2 fades_to (xs @ ys) (J p)" using assms unfolding fades_def by metis
  then show thesis using that by (auto simp: list_all2_append1)
qed

context nor_flash
begin

lemma at_item:
  assumes "nv_inv env I" and "p \<in> set (nv_used env)" and "I p = xs @ (s, e, d) # ys"
  shows "unat (of_nat (items_size xs) :: u8) < 126" "s \<noteq> ENTRY_FREE"
    "entry_state_get (pg_states (nv_page env p)) (of_nat (items_size xs)) = Inr s"
    "entry_read rom env p (of_nat (items_size xs)) = Inr e"
    "entry_skip e (of_nat (items_size xs)) = of_nat (items_size (xs @ [(s, e, d)]))"
proof -
  let ?i = "items_size xs"
  have live: "page_live env I p" and reg: "nv_region env" using assms by (auto simp: nv_inv_def)
  then have ok: "page_ok env p" and at: "items_at env p 0 (I p)" and sz: "items_size (I p) = next_free env p"
    by (auto simp: page_live_def)
  have i: "?i < 126" using sz ok assms(3) by (simp add: page_ok_def)
  then have u: "unat (of_nat ?i :: u8) = ?i" by (intro unat_small_u8) simp
  have it: "s \<noteq> ENTRY_FREE" "st_at env p ?i = s" "ent env p ?i = e"
    using at items_at_append [of env p 0 xs "(s, e, d) # ys"] assms(3) by auto
  show "unat (of_nat ?i :: u8) < 126" using u i by simp
  show "s \<noteq> ENTRY_FREE" by (rule it)
  show "entry_state_get (pg_states (nv_page env p)) (of_nat ?i) = Inr s" using u i it by (simp add: entry_state_get_state_at)
  show "entry_read rom env p (of_nat ?i) = Inr e" using entry_read_ent [OF ok reg, of "of_nat ?i"] u i it by simp
  show "entry_skip e (of_nat ?i) = of_nat (items_size (xs @ [(s, e, d)]))" by (simp add: entry_skip_cnt algebra_simps)
qed

lemma at_end:
  assumes "nv_inv env I" and "p \<in> set (nv_used env)"
  shows "\<not> unat (of_nat (items_size (I p)) :: u8) < 126 \<or>
    entry_state_get (pg_states (nv_page env p)) (of_nat (items_size (I p))) = Inr ENTRY_FREE"
proof -
  have ok: "page_ok env p" and sz: "items_size (I p) = next_free env p" using assms by (auto simp: nv_inv_def page_live_def)
  then have u: "unat (of_nat (items_size (I p)) :: u8) = items_size (I p)" by (intro unat_small_u8) (simp add: page_ok_def)
  show ?thesis using ok sz u by (auto simp: page_ok_def entry_state_get_state_at)
qed

end

section \<open>The walk\<close>

definition item_key :: "item \<Rightarrow> u8 list" where "item_key it = entry_key (fst (snd it))"

lemma matches_live: "matches i key it \<Longrightarrow> live_in i it \<and> item_key it = key"
  by (cases it) (simp add: matches_def element_match_def live_in_def item_key_def)

lemma nv_itemD: "nv_item env I ns key = Some it \<Longrightarrow> it \<in> set (all_items I (nv_used env)) \<and> matches ns key it"
  by (auto simp: nv_item_def find_Some_iff)

lemma live_item:
  assumes d: "nv_durable env I" and it: "(s, e, d) \<in> set (all_items I (nv_used env))" and l: "live_in i (s, e, d)"
  shows "matches i (entry_key e) (s, e, d)" "plain (s, e, d)" "nv_item env I i (entry_key e) = Some (s, e, d)"
    "filter (matches i (entry_key e)) (all_items I (nv_used env)) = [(s, e, d)]"
proof -
  let ?its = "all_items I (nv_used env)" and ?k = "entry_key e"
  have st: "nv_store env I" and pl: "all_plain env I" and c: "items_clean ?its" using d by (auto simp: nv_durable_def nv_ready_def)
  have s: "s = ENTRY_USED" "i = tag_namespace_get (entry_tag e)" using l by (simp_all add: live_in_def)
  show m: "matches i ?k (s, e, d)" using clean_item_matches [OF c] it s by auto
  obtain it0 where it0: "nv_item env I i ?k = Some it0"
    using m it by (cases "nv_item env I i ?k") (auto simp: nv_item_def find_None_iff)
  then have p0: "plain it0" using pl unfolding all_plain_def by blast
  have "matches i ?k it0" "it0 \<in> set ?its" using nv_itemD [OF it0] by simp_all
  with p0 have f: "filter (matches i ?k) ?its = [it0]" using st unfolding nv_store_def by blast
  have "(s, e, d) \<in> set (filter (matches i ?k) ?its)" using m it by simp
  then have "(s, e, d) = it0" unfolding f by simp
  then show "plain (s, e, d)" "nv_item env I i ?k = Some (s, e, d)" "filter (matches i ?k) ?its = [(s, e, d)]"
    using p0 it0 f by simp_all
qed

text \<open>
  The namespace \<open>ns\<close> in the table \<open>us @ ns # vs\<close>, while \<open>n\<close> of its keys are left: the counter is
  \<open>n\<close>, and with the last key the namespace goes.
\<close>

definition purging ::
    "nvds_env \<Rightarrow> (u8 \<times> u8 list \<rightharpoonup> u8 list) \<Rightarrow> namespace_info list \<Rightarrow> namespace_info \<Rightarrow> namespace_info list \<Rightarrow> nat \<Rightarrow> bool
      \<Rightarrow> nvds_env \<Rightarrow> (nat \<Rightarrow> item list) \<Rightarrow> bool" where
  "purging env0 M us ns vs n freed env I \<longleftrightarrow> nv_durable env I \<and> nv_used env = nv_used env0 \<and> room_left env0 \<le> room_left env \<and>
     length (filter (live_in (ns_index ns)) (all_items I (nv_used env))) = n \<and>
     (\<forall>j key. j \<noteq> ns_index ns \<longrightarrow> (j, key) \<noteq> (0, ns_name ns) \<longrightarrow> nv_map env I (j, key) = M (j, key)) \<and>
     (if 0 < n
      then \<not> freed \<and> nv_ns env = us @ ns\<lparr>ns_used_cnt := of_nat n\<rparr> # vs \<and> nv_ns_states env = nv_ns_states env0 \<and>
        nv_map env I (0, ns_name ns) = Some [ns_index ns]
      else freed \<and> nv_ns env = us @ vs \<and> nv_ns_states env = ns_state_set (nv_ns_states env0) (ns_index ns) False \<and>
        nv_map env I (0, ns_name ns) = None)"

lemma purgingD:
  assumes "purging env0 M us ns vs n freed env I"
  shows "nv_durable env I" "nv_store env I" "nv_inv env I" "nv_used env = nv_used env0" "distinct (nv_used env)"
    "all_plain env I"
  using assms by (auto simp: purging_def nv_durable_def nv_ready_def nv_store_def nv_inv_def)

lemma purging_count:
  "purging env0 M us ns vs n freed env I \<Longrightarrow> length (filter (live_in (ns_index ns)) (all_items I (nv_used env))) = n"
  unfolding purging_def by blast

lemma ns_by_name:
  assumes "name \<notin> ns_name ` set us" and "ns_name x = name"
  shows "ns_by_name_update name f (us @ x # vs) = us @ f x # vs" "find (\<lambda>ns. ns_name ns = name) (us @ x # vs) = Some x"
    "remove1 x (us @ x # vs) = us @ vs"
  using assms by (induction us) auto

lemma same_name: "length (ns_name x) = length name \<and> ns_name x = name \<longleftrightarrow> ns_name x = name"
  by auto

lemma live_count_upd:
  assumes "distinct ps" and "p \<in> set ps" and "I p = xs @ (s, e, d) # ys"
  shows "length (filter (live_in i) (all_items (I(p := xs @ (ENTRY_UPDATED, e, d) # ys)) ps)) +
    (if live_in i (s, e, d) then 1 else 0) = length (filter (live_in i) (all_items I ps))"
  using assms
proof (rule all_items_upd)
  fix us vs
  assume "all_items I ps = us @ (s, e, d) # vs" and "\<And>it'. all_items (I(p := xs @ it' # ys)) ps = us @ it' # vs"
  then show ?thesis by simp
qed

context nor_flash
begin

text \<open>
  With the last key the namespace is deleted from the flash and from the table.
\<close>

lemma ns_release_last:
  assumes d: "nv_durable env I" and ns: "nv_ns env = us @ x # vs" "name \<notin> ns_name ` set us" "ns_name x = name" "ns_used_cnt x = 1"
    and i: "i \<noteq> 0" and m: "nv_map env I (0, name) = Some v"
  obtains env' I' where "ns_release rom name i False env = Some (None, True, env')" and "nv_durable env' I'"
    and "nv_map env' I' = (nv_map env I)((0, name) := None)" and "fades I I'" and "nv_used env' = nv_used env"
    and "nv_ns env' = us @ vs" and "nv_ns_states env' = ns_state_set (nv_ns_states env) i False"
    and "room_left env \<le> room_left env'"
    and "length (filter (live_in i) (all_items I' (nv_used env'))) = length (filter (live_in i) (all_items I (nv_used env)))"
proof -
  let ?env = "env\<lparr>nv_ns := us @ vs, nv_ns_states := ns_state_set (nv_ns_states env) i False\<rparr>"
  have d': "nv_durable ?env I" "nv_map ?env I = nv_map env I" "room_left ?env = room_left env" using d by simp_all
  then have st: "nv_store ?env I" and pl: "all_plain ?env I" and c: "items_clean (all_items I (nv_used env))"
    and di: "distinct (nv_used env)"
    by (auto simp: nv_durable_def nv_ready_def nv_store_def nv_inv_def)
  obtain s e dt where it: "nv_item ?env I 0 name = Some (s, e, dt)"
    using m d'(2) by (cases "nv_item ?env I 0 name") (auto simp: nv_map_def nv_value_def)
  then have p: "plain (s, e, dt)" using pl unfolding all_plain_def by blast
  obtain env' q xs ys where del: "data_element_del rom 0 name ?env = Some (NVDS_OK, env')" and q: "q \<in> set (nv_used ?env)"
    and I: "I q = xs @ (s, e, dt) # ys" and rt: "retires ?env I 0 name env' (I(q := xs @ (ENTRY_UPDATED, e, dt) # ys))"
    by (rule data_element_del_plain [OF st it p])
  let ?I = "I(q := xs @ (ENTRY_UPDATED, e, dt) # ys)"
  note u = retires_updated [OF rt]
  have "live_in 0 (s, e, dt)" using nv_itemD [OF it] matches_live by blast
  then have "\<not> live_in i (s, e, dt)" using i by (simp add: live_in_def)
  then have cnt: "length (filter (live_in i) (all_items ?I (nv_used env))) = length (filter (live_in i) (all_items I (nv_used env)))"
    using live_count_upd [of "nv_used env" q I xs s e dt ys i] di I q by simp
  let ?x = "x\<lparr>ns_used_cnt := 0\<rparr>"
  have "ns_release rom name i False env = Some (None, True, env')"
    using ns ns_by_name [of name us x] ns_by_name [of name us ?x] del by (simp add: ns_release_def Let_def)
  moreover have "nv_durable env' ?I" by (rule nv_updated_durable [OF d'(1) u])
  moreover have "nv_map env' ?I = (nv_map env I)((0, name) := None)" "room_left env \<le> room_left env'"
    using nv_updated_map [OF u pl] d' by simp_all
  moreover have "nv_used env' = nv_used env" "nv_ns env' = us @ vs" "nv_ns_states env' = ns_state_set (nv_ns_states env) i False"
    using rt by (simp_all add: retires_def nv_kept_def)
  ultimately show thesis using cnt fades_upd [of I q xs s e dt ys, OF I] by (intro that [of env' ?I]) simp_all
qed

lemma ns_release_more:
  assumes "nv_ns env = us @ x # vs" "name \<notin> ns_name ` set us" "ns_name x = name" "ns_used_cnt x \<noteq> 1"
  shows "ns_release rom name i False env = Some (None, False, env\<lparr>nv_ns := us @ x\<lparr>ns_used_cnt := ns_used_cnt x - 1\<rparr> # vs\<rparr>)"
proof -
  let ?x = "x\<lparr>ns_used_cnt := ns_used_cnt x - 1\<rparr>"
  have "ns_used_cnt x - 1 \<noteq> 0" using assms(4) by (metis right_minus_eq)
  then show ?thesis
    using assms ns_by_name [of name us x] ns_by_name [of name us ?x] by (simp add: ns_release_def Let_def)
qed

text \<open>
  An element of the namespace under the walk: it is marked, and the rest is as after one key
  less.
\<close>

lemma del_entry_marks:
  assumes pl: "plain (s, e, d)"
    and a: "entry_state_range_alter rom env p (of_nat j) (of_nat (j + item_cnt e)) ENTRY_UPDATED = (NVDS_OK, env1)"
  shows "del_entry rom name i p freed (of_nat j) e env = ns_release rom name i freed (used_minus p (item_cnt e + 1) env1)"
proof (cases "item_type e = ELEMENT_SMALL")
  case True
  then show ?thesis using a plain_cnt(1) [OF True] by (simp add: del_entry_def element_types Let_def)
next
  case False
  then have mid: "item_type e = ELEMENT_MIDDLE" using pl by (simp add: plain_def)
  then show ?thesis using a plain_cnt(2) [OF mid] by (simp add: del_entry_def element_types Let_def has_data_def)
qed

lemma del_entry_step:
  assumes us: "ns_name ns \<notin> ns_name ` set us" and i: "ns_index ns \<noteq> 0" and n: "n < 2 ^ 32"
    and pg: "purging env0 M us ns vs n freed env I" and p: "p \<in> set (nv_used env)" and I: "I p = xs @ (s, e, d) # ys"
    and l: "live_in (ns_index ns) (s, e, d)"
  obtains freed' env' I' where
    "del_entry rom (ns_name ns) (ns_index ns) p freed (of_nat (items_size xs)) e env = Some (None, freed', env')"
    and "purging env0 M us ns vs (n - 1) freed' env' I'" and "fades (I(p := xs @ (ENTRY_UPDATED, e, d) # ys)) I'"
proof -
  let ?I = "I(p := xs @ (ENTRY_UPDATED, e, d) # ys)" and ?i = "ns_index ns" and ?name = "ns_name ns"
  note P = purgingD [OF pg]
  have it: "(s, e, d) \<in> set (all_items I (nv_used env))" using p I by (auto simp: all_items_def intro!: bexI [of _ p])
  note L = live_item [OF P(1) it l]
  obtain env1 where a:
    "entry_state_range_alter rom env p (of_nat (items_size xs)) (of_nat (items_size xs + item_cnt e)) ENTRY_UPDATED = (NVDS_OK, env1)"
    and rt: "retires env I ?i (entry_key e) (used_minus p (item_cnt e + 1) env1) ?I"
    by (rule retire_item [OF P(2) p I L(1,2)])
  define env2 where "env2 = used_minus p (item_cnt e + 1) env1"
  have u: "nv_updated env I ?i (entry_key e) None 0 env2 ?I" using retires_updated [OF rt] by (simp add: env2_def)
  have d2: "nv_durable env2 ?I" by (rule nv_updated_durable [OF P(1) u])
  have m2: "nv_map env2 ?I = (nv_map env I)((?i, entry_key e) := None)" "room_left env \<le> room_left env2"
    using nv_updated_map [OF u P(6)] by simp_all
  have f2: "nv_used env2 = nv_used env" "nv_ns env2 = nv_ns env" "nv_ns_states env2 = nv_ns_states env"
    using rt by (simp_all add: retires_def nv_kept_def env2_def)
  have len: "length (filter (live_in ?i) (all_items I (nv_used env))) = n" by (rule purging_count [OF pg])
  have cnt: "length (filter (live_in ?i) (all_items ?I (nv_used env2))) + 1 = n"
    using live_count_upd [of "nv_used env" p I xs s e d ys ?i] P(5) p I l f2(1) len by simp
  then have n0: "0 < n" by simp
  let ?x = "ns\<lparr>ns_used_cnt := of_nat n\<rparr>"
  have st: "\<not> freed" "nv_ns env2 = us @ ?x # vs" "nv_ns_states env = nv_ns_states env0" "nv_map env2 ?I (0, ?name) = Some [?i]"
    using pg n0 i m2 f2 by (simp_all add: purging_def)
  have rest: "nv_map env2 ?I (j, key) = M (j, key)" if "j \<noteq> ?i" "(j, key) \<noteq> (0, ?name)" for j key
    using pg that m2 by (simp add: purging_def)
  have room: "room_left env0 \<le> room_left env2" using pg m2(2) by (simp add: purging_def)
  have de: "del_entry rom ?name ?i p freed (of_nat (items_size xs)) e env = ns_release rom ?name ?i False env2"
    using del_entry_marks [OF L(2) a] st(1) by (simp add: env2_def)
  show thesis
  proof (cases "n = 1")
    case True
    obtain env' I' where r: "ns_release rom ?name ?i False env2 = Some (None, True, env')" and d': "nv_durable env' I'"
      and m': "nv_map env' I' = (nv_map env2 ?I)((0, ?name) := None)" and f: "fades ?I I'" and f': "nv_used env' = nv_used env2"
        "nv_ns env' = us @ vs" "nv_ns_states env' = ns_state_set (nv_ns_states env2) ?i False" "room_left env2 \<le> room_left env'"
        "length (filter (live_in ?i) (all_items I' (nv_used env'))) = length (filter (live_in ?i) (all_items ?I (nv_used env2)))"
      by (rule ns_release_last [OF d2 st(2) us _ _ i st(4)]) (simp_all add: True)
    have "purging env0 M us ns vs (n - 1) True env' I'"
      using d' m' f' f2 cnt rest room P(4) st(3) by (simp add: purging_def True)
    with de r f show thesis by (intro that [of True env' I']) simp_all
  next
    case False
    then have n1: "1 < n" using n0 by simp
    have "unat (of_nat n :: u32) = n" using n by (intro unat_of_nat_small) simp
    then have "(of_nat n :: u32) \<noteq> 1" "(of_nat n :: u32) - 1 = of_nat (n - 1)" using n1 by (auto simp: of_nat_diff)
    then have r: "ns_release rom ?name ?i False env2 =
        Some (None, False, env2\<lparr>nv_ns := us @ ns\<lparr>ns_used_cnt := of_nat (n - 1)\<rparr> # vs\<rparr>)"
      using ns_release_more [OF st(2) us] by simp
    have "purging env0 M us ns vs (n - 1) False (env2\<lparr>nv_ns := us @ ns\<lparr>ns_used_cnt := of_nat (n - 1)\<rparr> # vs\<rparr>) ?I"
      using d2 rest room st f2 cnt n1 P(4) by (simp add: purging_def)
    with de r show thesis by (intro that [OF _ _ fades_refl]) simp_all
  qed
qed

text \<open>
  One page, from behind the items \<open>xs\<close> on, which hold nothing of the namespace any more.
\<close>

lemma del_page_step:
  assumes inv: "nv_inv env I" and p: "p \<in> set (nv_used env)" and I: "I p = xs @ (s, e, d) # ys"
  shows "del_keys_in_page rom name i p freed (of_nat (items_size xs)) env =
    (case (if live_in i (s, e, d) then del_entry rom name i p freed (of_nat (items_size xs)) e env else Some (None, freed, env)) of
       None \<Rightarrow> None
     | Some (r, freed, env) \<Rightarrow>
         (case r of
            Some _ \<Rightarrow> Some (r, freed, env)
          | None \<Rightarrow> del_keys_in_page rom name i p freed (of_nat (items_size (xs @ [(s, e, d)]))) env))"
  using at_item [OF inv p I]
  by (subst del_keys_in_page.simps)
    (simp add: live_in_def del: of_nat_add items_size_append items_size.simps split: option.split prod.split)

lemma del_page_end:
  assumes "nv_inv env I" and "p \<in> set (nv_used env)"
  shows "del_keys_in_page rom name i p freed (of_nat (items_size (I p))) env = Some (None, freed, env)"
  using at_end [OF assms] by (subst del_keys_in_page.simps) auto

lemma del_page_dead:
  assumes inv: "nv_inv env I" and p: "p \<in> set (nv_used env)"
  shows "I p = xs @ ys \<Longrightarrow> \<forall>it \<in> set ys. \<not> live_in i it \<Longrightarrow>
    del_keys_in_page rom name i p freed (of_nat (items_size xs)) env = Some (None, freed, env)"
proof (induction ys arbitrary: xs)
  case Nil
  then show ?case using del_page_end [OF inv p] by simp
next
  case (Cons it ys)
  obtain s e d where it: "it = (s, e, d)" by (cases it)
  have "\<not> live_in i (s, e, d)" using Cons.prems(2) it by simp
  moreover have "del_keys_in_page rom name i p freed (of_nat (items_size (xs @ [it]))) env = Some (None, freed, env)"
    using Cons.prems by (intro Cons.IH) auto
  ultimately show ?case
    using del_page_step [OF inv p, of xs s e d ys name i freed] Cons.prems(1) it by simp
qed

lemma del_page:
  assumes us: "ns_name ns \<notin> ns_name ` set us" and i: "ns_index ns \<noteq> 0"
  shows "purging env0 M us ns vs n freed env I \<Longrightarrow> n < 2 ^ 32 \<Longrightarrow> p \<in> set (nv_used env) \<Longrightarrow> I p = xs @ ys \<Longrightarrow> length ys = k \<Longrightarrow>
    \<forall>it \<in> set xs. \<not> live_in (ns_index ns) it \<Longrightarrow>
    \<exists>n' freed' env' I'. del_keys_in_page rom (ns_name ns) (ns_index ns) p freed (of_nat (items_size xs)) env = Some (None, freed', env') \<and>
      purging env0 M us ns vs n' freed' env' I' \<and> n' \<le> n \<and> fades I I' \<and> (\<forall>it \<in> set (I' p). \<not> live_in (ns_index ns) it)"
proof (induction k arbitrary: n freed env I xs ys)
  case 0
  then show ?case
    using del_page_end [OF purgingD(3) [OF 0(1)] 0(3)] by (intro exI [of _ n] exI [of _ freed] exI [of _ env] exI [of _ I]) auto
next
  case (Suc k)
  let ?i = "ns_index ns"
  note P = purgingD [OF Suc.prems(1)]
  obtain s e d zs where ys: "ys = (s, e, d) # zs" using Suc.prems(5) by (cases ys) auto
  have I: "I p = xs @ (s, e, d) # zs" using Suc.prems(4) ys by simp
  note step = del_page_step [OF P(3) Suc.prems(3) I]
  show ?case
  proof (cases "live_in ?i (s, e, d)")
    case True
    obtain freed1 env1 J where de: "del_entry rom (ns_name ns) ?i p freed (of_nat (items_size xs)) e env = Some (None, freed1, env1)"
      and pg: "purging env0 M us ns vs (n - 1) freed1 env1 J" and f: "fades (I(p := xs @ (ENTRY_UPDATED, e, d) # zs)) J"
      by (rule del_entry_step [OF us i Suc.prems(2,1,3) I True])
    obtain xs' zs' where J: "J p = xs' @ zs'" "list_all2 fades_to (xs @ [(ENTRY_UPDATED, e, d)]) xs'" "length zs' = length zs"
      by (rule fades_split [OF f, of p "xs @ [(ENTRY_UPDATED, e, d)]" zs]) simp
    have sz: "items_size xs' = items_size (xs @ [(s, e, d)])" using fades_to_size [OF J(2)] by simp
    have dead: "\<forall>it \<in> set xs'. \<not> live_in ?i it" using Suc.prems(6) by (intro fades_to_dead [OF J(2)]) auto
    have "p \<in> set (nv_used env1)" using Suc.prems(3) P(4) purgingD(4) [OF pg] by simp
    moreover have "n - 1 < 2 ^ 32" "length zs' = k" using Suc.prems(2,5) ys J(3) by simp_all
    ultimately obtain n' freed' env' I' where w: "del_keys_in_page rom (ns_name ns) ?i p freed1 (of_nat (items_size (xs @ [(s, e, d)]))) env1 =
        Some (None, freed', env')" "purging env0 M us ns vs n' freed' env' I'" "n' \<le> n - 1" "fades J I'"
        "\<forall>it \<in> set (I' p). \<not> live_in ?i it"
      using Suc.IH [OF pg _ _ J(1) _ dead] unfolding sz by blast
    moreover have "fades I I'" using fades_upd [of I p xs s e d zs, OF I] f w(4) fades_trans by blast
    ultimately show ?thesis using step [of "ns_name ns" ?i freed] True de by (intro exI [of _ n'] exI [of _ freed'] exI [of _ env'] exI [of _ I']) simp
  next
    case False
    have "I p = (xs @ [(s, e, d)]) @ zs" using I by simp
    from Suc.IH [OF Suc.prems(1-3) this] Suc.prems(5,6) ys False
    show ?thesis using step [of "ns_name ns" ?i freed] by auto
  qed
qed

lemma del_pages:
  assumes us: "ns_name ns \<notin> ns_name ` set us" and i: "ns_index ns \<noteq> 0"
  shows "purging env0 M us ns vs n freed env I \<Longrightarrow> n < 2 ^ 32 \<Longrightarrow> set ps \<subseteq> set (nv_used env0) \<Longrightarrow>
    \<exists>n' freed' env' I'. del_keys_in_pages rom (ns_name ns) (ns_index ns) ps freed env = Some (Del_ret NVDS_OK, env') \<and>
      purging env0 M us ns vs n' freed' env' I' \<and> fades I I' \<and> (\<forall>p \<in> set ps. \<forall>it \<in> set (I' p). \<not> live_in (ns_index ns) it)"
proof (induction ps arbitrary: n freed env I)
  case Nil
  then show ?case by (intro exI [of _ n] exI [of _ freed] exI [of _ env] exI [of _ I]) simp
next
  case (Cons p ps)
  let ?i = "ns_index ns"
  note P = purgingD [OF Cons.prems(1)]
  have p: "p \<in> set (nv_used env)" using Cons.prems(3) P(4) by simp
  have st: "ph_state (pg_header (nv_page env p)) = PAGE_ACTIVE \<or> ph_state (pg_header (nv_page env p)) = PAGE_FULL"
    using P(3) p by (auto simp: nv_inv_def page_live_def)
  obtain n1 freed1 env1 J where w: "del_keys_in_page rom (ns_name ns) ?i p freed 0 env = Some (None, freed1, env1)"
    and pg: "purging env0 M us ns vs n1 freed1 env1 J" and n1: "n1 \<le> n" and f: "fades I J"
    and dead: "\<forall>it \<in> set (J p). \<not> live_in ?i it"
    using del_page [OF us i Cons.prems(1,2) p, of "[]" "I p" "length (I p)"] by auto
  have "n1 < 2 ^ 32" "set ps \<subseteq> set (nv_used env0)" using n1 Cons.prems(2,3) by simp_all
  from Cons.IH [OF pg this] obtain n' freed' env' I' where
    r: "del_keys_in_pages rom (ns_name ns) ?i ps freed1 env1 = Some (Del_ret NVDS_OK, env')"
    and pg': "purging env0 M us ns vs n' freed' env' I'" and f': "fades J I'"
    and dead': "\<forall>p \<in> set ps. \<forall>it \<in> set (I' p). \<not> live_in ?i it" by blast
  have "\<forall>it \<in> set (I' p). \<not> live_in ?i it"
    using f' unfolding fades_def by (intro fades_to_dead [OF _ dead]) blast
  with dead' have "\<forall>q \<in> set (p # ps). \<forall>it \<in> set (I' q). \<not> live_in ?i it" by simp
  moreover have "del_keys_in_pages rom (ns_name ns) ?i (p # ps) freed env = Some (Del_ret NVDS_OK, env')"
    using w r st by (auto simp: Let_def)
  ultimately show ?case using pg' fades_trans [OF f f'] by blast
qed

lemma del_pages_dead:
  assumes "nv_inv env I" and "set ps \<subseteq> set (nv_used env)" and "\<forall>p \<in> set ps. \<forall>it \<in> set (I p). \<not> live_in i it"
  shows "del_keys_in_pages rom name i ps freed env = Some (Del_ret NVDS_OK, env)"
  using assms(2,3)
proof (induction ps)
  case (Cons p ps)
  have "del_keys_in_page rom name i p freed 0 env = Some (None, freed, env)"
    using del_page_dead [OF assms(1), of p "[]" "I p" i name freed] Cons.prems by simp
  with Cons show ?case by (simp add: Let_def)
qed simp

end

section \<open>The keys of a namespace\<close>

lemma distinct_map_filter:
  "\<forall>x \<in> set xs. filter (\<lambda>y. f y = f x) xs = [x] \<Longrightarrow> distinct (map f xs)"
proof (induction xs)
  case (Cons a xs)
  have "filter (\<lambda>y. f y = f a) xs = []" using Cons.prems by simp
  then have a: "f a \<notin> f ` set xs" by (auto simp: filter_empty_conv)
  have "filter (\<lambda>y. f y = f x) xs = [x]" if "x \<in> set xs" for x
  proof -
    have "f a \<noteq> f x" using a that by auto
    then show ?thesis using Cons.prems that by auto
  qed
  with Cons.IH a show ?case by simp
qed simp

lemma live_count_keys:
  assumes d: "nv_durable env I"
  shows "length (filter (live_in i) (all_items I (nv_used env))) = card {key. nv_map env I (i, key) \<noteq> None}"
proof -
  let ?its = "all_items I (nv_used env)"
  note m = matches_live [of i]
  have lv: "matches i (item_key it) it" "nv_item env I i (item_key it) = Some it" "filter (matches i (item_key it)) ?its = [it]"
    if "it \<in> set ?its" "live_in i it" for it
    using live_item [OF d, of "fst it" "fst (snd it)" "snd (snd it)" i] that by (simp_all add: item_key_def)
  have "filter (\<lambda>y. item_key y = item_key it) (filter (live_in i) ?its) = [it]" if it: "it \<in> set (filter (live_in i) ?its)" for it
  proof -
    have "(live_in i y \<and> item_key y = item_key it) = matches i (item_key it) y" if "y \<in> set ?its" for y
      using lv(1) [OF that] m [of "item_key it" y] by auto
    then have "filter (\<lambda>y. item_key y = item_key it) (filter (live_in i) ?its) = filter (matches i (item_key it)) ?its"
      unfolding filter_filter by (intro filter_cong refl)
    with lv(3) it show ?thesis by simp
  qed
  then have "distinct (map item_key (filter (live_in i) ?its))" by (intro distinct_map_filter) blast
  moreover have "{key. nv_map env I (i, key) \<noteq> None} = set (map item_key (filter (live_in i) ?its))"
  proof (intro set_eqI iffI)
    fix key
    assume "key \<in> {key. nv_map env I (i, key) \<noteq> None}"
    then obtain it where "nv_item env I i key = Some it" by (auto simp: nv_map_def nv_value_def)
    then have "it \<in> set ?its" "matches i key it" using nv_itemD by blast+
    then show "key \<in> set (map item_key (filter (live_in i) ?its))" using m [of key it] by (auto intro!: image_eqI [of _ _ it])
  next
    fix key
    assume "key \<in> set (map item_key (filter (live_in i) ?its))"
    then obtain it where it: "it \<in> set ?its" "live_in i it" "key = item_key it" by auto
    then have "nv_map env I (i, key) = Some (item_value it)" using lv(2) [OF it(1,2)] by (simp add: nv_map_def nv_value_def)
    then show "key \<in> {key. nv_map env I (i, key) \<noteq> None}" by simp
  qed
  ultimately show ?thesis using distinct_card by (metis length_map)
qed

text \<open>
  The map and the tables without a namespace.
\<close>

lemma ns_state_get_unset:
  assumes "length st = 8"
  shows "ns_state_get (ns_state_set st i False) j \<longleftrightarrow> j \<noteq> i \<and> ns_state_get st j"
proof -
  have i: "unat i div 32 < length st" using assms unat_bound [of i] by simp
  have "j = i \<longleftrightarrow> unat j div 32 = unat i div 32 \<and> unat j mod 32 = unat i mod 32"
    by (metis div_mult_mod_eq word_unat_eq_iff)
  then show ?thesis
    using i by (auto simp: ns_state_get_bit ns_state_set_def Let_def nth_list_update bit_simps)
qed

definition without_ns :: "u8 \<Rightarrow> u8 list \<Rightarrow> (u8 \<times> u8 list \<rightharpoonup> u8 list) \<Rightarrow> u8 \<times> u8 list \<rightharpoonup> u8 list" where
  "without_ns i name M = (\<lambda>(j, key). if j = i \<or> j = 0 \<and> key = name then None else M (j, key))"

lemma named_drop:
  assumes M: "names_ok M" and name: "M (0, name) = Some [i]"
  shows "names_ok (without_ns i name M)"
    "named_map (without_ns i name M) = (\<lambda>(n, key). if n = Some name then None else named_map M (n, key))"
proof -
  note N = names_okD [OF M]
  have i: "i \<noteq> 0" "unat i < 254" using N(1) [OF name] by auto
  have z: "without_ns i name M (0, n) = (if n = name then None else M (0, n))" for n using i(1) by (auto simp: without_ns_def)
  have o: "without_ns i name M (j, key) = M (j, key)" if "j \<noteq> i" "j \<noteq> 0" for j key using that by (simp add: without_ns_def)
  show "names_ok (without_ns i name M)"
    unfolding names_ok_def
  proof (intro conjI allI impI)
    fix n v
    assume "without_ns i name M (0, n) = Some v"
    then show "\<exists>i. v = [i] \<and> i \<noteq> 0 \<and> unat i < 254" using N(1) z by (auto split: if_splits)
  next
    fix n n' j
    assume "without_ns i name M (0, n) = Some [j]" "without_ns i name M (0, n') = Some [j]"
    then show "n = n'" using N(2) z by (auto split: if_splits)
  next
    fix j key
    assume a: "without_ns i name M (j, key) \<noteq> None" "j \<noteq> 0" "unat j < 254"
    then have j: "j \<noteq> i" "M (j, key) \<noteq> None" by (auto simp: without_ns_def split: if_splits)
    then obtain n where n: "M (0, n) = Some [j]" using N(3) a by blast
    then have "n \<noteq> name" using j(1) name by auto
    then show "\<exists>name'. without_ns i name M (0, name') = Some [j]" using n z by auto
  qed
  have e: "NAMESPACE_NULL_IDX \<noteq> i" "NAMESPACE_NULL_IDX \<noteq> 0" using i(2) by (auto simp: NAMESPACE_NULL_IDX_def)
  have "named_map (without_ns i name M) (n, key) = (if n = Some name then None else named_map M (n, key))" for n key
  proof (cases n)
    case None
    then show ?thesis using o [OF e] by (simp add: named_map_def)
  next
    case (Some n')
    show ?thesis
    proof (cases "n' = name \<or> M (0, n') = None")
      case True
      then show ?thesis using Some z by (auto simp: named_map_def)
    next
      case False
      then obtain j where j: "M (0, n') = Some [j]" "j \<noteq> 0" using N(1) by blast
      then have "j \<noteq> i" using N(2) [OF name] False by blast
      then show ?thesis using Some z j o False by (simp add: named_map_def)
    qed
  qed
  then show "named_map (without_ns i name M) = (\<lambda>(n, key). if n = Some name then None else named_map M (n, key))" by auto
qed

lemma names_loaded_drop:
  assumes l: "names_loaded env M" and M: "names_ok M" and name: "M (0, name) = Some [i]"
    and t: "ns_table env = ts @ (name, i) # ws" "name \<notin> fst ` set ws" "name \<notin> fst ` set ts"
    and e: "ns_table env' = ts @ ws" "nv_ns_states env' = ns_state_set (nv_ns_states env) i False"
  shows "names_loaded env' (without_ns i name M)"
proof -
  have i: "i \<noteq> 0" using names_okD(1) [OF M name] by auto
  have z: "without_ns i name M (0, n) = (if n = name then None else M (0, n))" for n using i by (auto simp: without_ns_def)
  have "map_of ts name = None" "map_of ws name = None" using t(2,3) by (simp_all add: map_of_eq_None_iff)
  then have mp: "map_of (ts @ ws) n = (if n = name then None else map_of (ns_table env) n)" for n
    by (simp add: t(1) map_add_def split: option.split)
  have st: "length (nv_ns_states env) = 8" using l by (simp add: names_loaded_def)
  have "(\<exists>n. without_ns i name M (0, n) = Some [j]) \<longleftrightarrow> j \<noteq> i \<and> (\<exists>n. M (0, n) = Some [j])" for j
    using z name names_okD(2) [OF M] by (metis list.inject option.distinct(1) option.inject)
  then show ?thesis
    using l st unfolding names_loaded_def e mp z ns_state_get_unset [OF st] by (auto simp: ns_state_set_def Let_def)
qed

lemma no_live_none:
  assumes "filter (live_in i) (all_items I (nv_used env)) = []"
  shows "nv_map env I (i, key) = None"
proof (rule ccontr)
  assume "nv_map env I (i, key) \<noteq> None"
  then obtain it where "nv_item env I i key = Some it" by (auto simp: nv_map_def nv_value_def)
  then have "it \<in> set (all_items I (nv_used env))" "live_in i it" using nv_itemD matches_live by blast+
  with assms show False by (auto simp: filter_empty_conv)
qed

lemma ns_in_map:
  assumes "names_loaded env M" and "nv_ns env = us @ ns # vs" and "ns_name ns \<notin> ns_name ` set us"
  shows "M (0, ns_name ns) = Some [ns_index ns]"
proof -
  let ?t = "map (\<lambda>ns. (ns_name ns, ns_index ns))"
  have "map_of (?t us) (ns_name ns) = None" using assms(3) by (auto simp: map_of_eq_None_iff)
  then have "map_of (ns_table env) (ns_name ns) = Some (ns_index ns)" by (simp add: ns_table_def assms(2) map_add_def)
  then show ?thesis using assms(1) by (simp add: names_loaded_def)
qed

section \<open>Properties\<close>

context nor_flash
begin

lemma del_namespace:
  assumes d: "nv_durable env I" "names_ok (nv_map env I)" "names_loaded env (nv_map env I)"
    and ns: "nv_ns env = us @ ns # vs" "ns_name ns \<notin> ns_name ` set (us @ vs)" and len: "length (ns_name ns) \<le> 15"
    and c: "unat (ns_used_cnt ns) = card {key. nv_map env I (ns_index ns, key) \<noteq> None}" "0 < unat (ns_used_cnt ns)"
  obtains env' I' where "nvds_del_keys_by_namespace rom (ns_name ns) env = Some (Del_ret NVDS_OK, env')" and "nv_durable env' I'"
    and "nv_map env' I' = without_ns (ns_index ns) (ns_name ns) (nv_map env I)"
    and "names_loaded env' (without_ns (ns_index ns) (ns_name ns) (nv_map env I))" and "room_left env \<le> room_left env'"
    and "nv_ns env' = us @ vs" and "nv_ns_states env' = ns_state_set (nv_ns_states env) (ns_index ns) False"
proof -
  let ?M = "nv_map env I" and ?i = "ns_index ns" and ?name = "ns_name ns" and ?n = "unat (ns_used_cnt ns)"
  let ?t = "map (\<lambda>ns. (ns_name ns, ns_index ns))"
  have us: "?name \<notin> ns_name ` set us" using ns(2) by auto
  have tab: "ns_table env = ?t us @ (?name, ?i) # ?t vs" "?name \<notin> fst ` set (?t vs)" "?name \<notin> fst ` set (?t us)"
    using ns by (auto simp: ns_table_def)
  have name: "?M (0, ?name) = Some [?i]" by (rule ns_in_map [OF d(3) ns(1) us])
  have i: "?i \<noteq> 0" using names_okD(1) [OF d(2) name] by auto
  have n: "?n < 2 ^ 32" using unat_bound [of "ns_used_cnt ns"] by simp
  have "length (filter (live_in ?i) (all_items I (nv_used env))) = ?n" using live_count_keys [OF d(1), of ?i] c(1) by simp
  then have "purging env ?M us ns vs ?n False env I" using d(1) c(2) ns(1) name by (simp add: purging_def)
  from del_pages [OF us i this n, of "nv_used env"] obtain n' freed' env' I' where
    del: "del_keys_in_pages rom ?name ?i (nv_used env) False env = Some (Del_ret NVDS_OK, env')"
    and pg: "purging env ?M us ns vs n' freed' env' I'" and dead: "\<forall>p \<in> set (nv_used env). \<forall>it \<in> set (I' p). \<not> live_in ?i it"
    by blast
  have u: "nv_used env' = nv_used env" by (rule purgingD(4) [OF pg])
  have z: "filter (live_in ?i) (all_items I' (nv_used env')) = []" using dead u by (auto simp: all_items_def filter_empty_conv)
  then have n': "n' = 0" using purging_count [OF pg] by simp
  have d': "nv_durable env' I'" by (rule purgingD(1) [OF pg])
  have none: "nv_map env' I' (?i, key) = None" for key using no_live_none [OF z] .
  have "nv_map env' I' (j, key) = without_ns ?i ?name ?M (j, key)" for j key
    using pg none unfolding purging_def n' by (auto simp: without_ns_def)
  then have "nv_map env' I' = without_ns ?i ?name ?M" by auto
  moreover have gone: "nv_ns env' = us @ vs" "nv_ns_states env' = ns_state_set (nv_ns_states env) ?i False"
    using pg by (simp_all add: purging_def n')
  then have "ns_table env' = ?t us @ ?t vs" by (simp add: ns_table_def)
  then have "names_loaded env' (without_ns ?i ?name ?M)" by (rule names_loaded_drop [OF d(3,2) name tab _ gone(2)])
  moreover have "find (\<lambda>x. length (ns_name x) = length ?name \<and> ns_name x = ?name) (nv_ns env) = Some ns"
    using ns_by_name(2) [OF us refl, of vs] ns(1) by (simp add: same_name)
  then have "nvds_del_keys_by_namespace rom ?name env = Some (Del_ret NVDS_OK, env')"
    using del len by (simp add: nvds_del_keys_by_namespace_def)
  moreover have "room_left env \<le> room_left env'" using pg by (simp add: purging_def)
  ultimately show thesis using d' gone by (intro that)
qed

lemma find_by_map:
  assumes "nv_durable env I"
  shows "data_element_find rom env i key = Some (if nv_map env I (i, key) = None then NVDS_E_NOT_FOUND else NVDS_OK)"
proof -
  have inv: "nv_inv env I" using assms by (simp add: nv_durable_def nv_ready_def nv_store_def)
  show ?thesis
  proof (cases "nv_item env I i key")
    case None
    then show ?thesis using item_absent [OF inv] by (simp add: data_element_find_def nv_map_def nv_value_def)
  next
    case (Some it)
    then obtain s e d where it: "nv_item env I i key = Some (s, e, d)" by (cases it) auto
    show ?thesis by (rule item_found [OF inv it]) (use it in \<open>simp add: data_element_find_def nv_map_def nv_value_def\<close>)
  qed
qed

end

text \<open>
  Property C13: deleting a namespace deletes its keys and nothing else. On a storage that holds a
  map from name and key to value, whose table has the name once and counts its keys, the walk
  ends with success, no released record is accessed, and afterwards the storage holds the map
  without the keys of the namespace, on flash as in RAM. If the namespace had keys, it goes with
  the last one: its record is off the list, its index is free in the bit set, and the entry
  with its name cannot be found on flash. A namespace without keys is left as it is: the whole storage
  is unchanged.
\<close>

theorem nvds_del_namespace_exact:
  assumes "nor_flash rom" and "named_represents env m" and "nv_ns env = us @ ns # vs" and "ns_name ns \<notin> ns_name ` set (us @ vs)"
    and "name_valid (ns_name ns)" and "unat (ns_used_cnt ns) = card {key. m (Some (ns_name ns), key) \<noteq> None}"
  shows "\<exists>env'. nvds_del_keys_by_namespace rom (ns_name ns) env = Some (Del_ret NVDS_OK, env') \<and>
    named_represents env' (\<lambda>(n, key). if n = Some (ns_name ns) then None else m (n, key)) \<and> room_left env \<le> room_left env' \<and>
    (if ns_used_cnt ns = 0 then env' = env
     else nv_ns env' = us @ vs \<and>
       (\<forall>j. ns_state_get (nv_ns_states env') j \<longleftrightarrow> j \<noteq> ns_index ns \<and> ns_state_get (nv_ns_states env) j) \<and>
       data_element_find rom env 0 (ns_name ns) = Some NVDS_OK \<and>
       data_element_find rom env' 0 (ns_name ns) = Some NVDS_E_NOT_FOUND)"
proof -
  let ?name = "ns_name ns" and ?i = "ns_index ns"
  obtain I where d: "nv_durable env I" "names_ok (nv_map env I)" "names_loaded env (nv_map env I)"
    and m: "m = named_map (nv_map env I)" using assms(2) by (auto simp: named_represents_def)
  have len: "length ?name \<le> 15" using assms(5) by (simp add: name_valid_def)
  have us: "?name \<notin> ns_name ` set us" using assms(4) by auto
  have name: "nv_map env I (0, ?name) = Some [?i]" by (rule ns_in_map [OF d(3) assms(3) us])
  then have keys: "{key. m (Some ?name, key) \<noteq> None} = {key. nv_map env I (?i, key) \<noteq> None}" by (simp add: m named_map_def)
  note drop = named_drop [OF d(2) name]
  show ?thesis
  proof (cases "0 < unat (ns_used_cnt ns)")
    case True
    obtain env' I' where del: "nvds_del_keys_by_namespace rom ?name env = Some (Del_ret NVDS_OK, env')" "nv_durable env' I'"
      "nv_map env' I' = without_ns ?i ?name (nv_map env I)" "names_loaded env' (without_ns ?i ?name (nv_map env I))"
      "room_left env \<le> room_left env'" "nv_ns env' = us @ vs" "nv_ns_states env' = ns_state_set (nv_ns_states env) ?i False"
      by (rule nor_flash.del_namespace [OF assms(1) d assms(3,4) len]) (use assms(6) keys True in auto)
    have "\<exists>J. nv_durable env' J \<and> names_ok (nv_map env' J) \<and> names_loaded env' (nv_map env' J) \<and>
        named_map (without_ns ?i ?name (nv_map env I)) = named_map (nv_map env' J)"
      using del drop(1) by (intro exI [of _ I']) simp
    then have "named_represents env' (\<lambda>(n, key). if n = Some ?name then None else m (n, key))"
      unfolding m drop(2) [symmetric] named_represents_def .
    moreover have "ns_state_get (nv_ns_states env') j \<longleftrightarrow> j \<noteq> ?i \<and> ns_state_get (nv_ns_states env) j" for j
      using d(3) by (simp add: del(7) ns_state_get_unset names_loaded_def)
    moreover have "data_element_find rom env 0 ?name = Some NVDS_OK" "data_element_find rom env' 0 ?name = Some NVDS_E_NOT_FOUND"
      using nor_flash.find_by_map [OF assms(1) d(1), of 0 ?name] nor_flash.find_by_map [OF assms(1) del(2), of 0 ?name] name
      by (simp_all add: del(3) without_ns_def)
    moreover have "ns_used_cnt ns \<noteq> 0" using True by (auto simp: unat_gt_0)
    ultimately show ?thesis using del(1,5,6) by simp
  next
    case False
    then have c0: "ns_used_cnt ns = 0" by (simp add: unat_eq_0)
    have "length (filter (live_in ?i) (all_items I (nv_used env))) = 0" using live_count_keys [OF d(1), of ?i] assms(6) keys False by simp
    then have dead: "filter (live_in ?i) (all_items I (nv_used env)) = []" by simp
    then have "\<forall>p \<in> set (nv_used env). \<forall>it \<in> set (I p). \<not> live_in ?i it" by (auto simp: all_items_def filter_empty_conv)
    moreover have "nv_inv env I" using d(1) by (simp add: nv_durable_def nv_ready_def nv_store_def)
    ultimately have "nvds_del_keys_by_namespace rom ?name env = Some (Del_ret NVDS_OK, env)"
      using nor_flash.del_pages_dead [OF assms(1), of env I "nv_used env" ?i ?name False] ns_by_name(2) [OF us refl, of vs] assms(3) len
      by (simp add: nvds_del_keys_by_namespace_def same_name)
    moreover have "nv_map env I (?i, key) = None" for key using no_live_none [OF dead] .
    then have "(\<lambda>(n, key). if n = Some ?name then None else m (n, key)) = m" using name by (auto simp: m named_map_def fun_eq_iff)
    ultimately show ?thesis using assms(2) c0 by simp
  qed
qed

text \<open>
  Without the hypothesis on the counter this fails: once the record was released, the next
  element of the namespace makes the code access it.
\<close>

lemma del_entry_after_release:
  "del_entry rom name i p True idx e env = Some (r, f, env') \<Longrightarrow> r = Some Del_freed_access \<or> (\<exists>ret. r = Some (Del_ret ret) \<and> ret \<noteq> NVDS_OK)"
  by (auto simp: del_entry_def ns_release_def Let_def split: if_splits prod.splits)

text \<open>
  A storage with the key \<open>"a"\<close> in the namespace \<open>"w"\<close>.
\<close>

lemma one_key_storage:
  obtains env where "named_represents env [(Some [119], [97]) \<mapsto> [7]]"
    and "nv_ns env = [\<lparr>ns_name = [119], ns_index = 1, ns_used_cnt = 1\<rparr>]"
proof -
  let ?env = "(nv_reset nv_example)\<lparr>nv_base := 0x3F0000, nv_length := 0x2000\<rparr>"
  have "region_erased ?env"
    using nv_example_erased(1) by (simp add: region_erased_def nv_reset_def nv_region_def page_erased_def nv_img_def nv_example_def)
  moreover have "nv_used ?env = []" "nv_free ?env = []" "nv_ns ?env = []" by (simp_all add: nv_reset_def)
  ultimately obtain env0 where e: "nv_durable env0 (\<lambda>_. [])" "nv_map env0 (\<lambda>_. []) = Map.empty" "room_left env0 = 126"
    by (rule ideal.pages_load_erased)
  have v: "value_entries [1] = 1" "value_entries [7] = 1" by (simp_all add: value_entries_def)
  obtain env1 I1 where 1: "nv_durable env1 I1" "nv_map env1 I1 = [(0, [119]) \<mapsto> [1]]" "126 \<le> room_left env1 + 1"
    by (rule ideal.put_durable [OF e(1), of "[119]" "[1]" 0]) (use e(2,3) v in auto)
  obtain env2 I2 where 2: "nv_durable env2 I2" "nv_map env2 I2 = [(0, [119]) \<mapsto> [1], (1, [97]) \<mapsto> [7]]"
    by (rule ideal.put_durable [OF 1(1), of "[97]" "[7]" 1]) (use 1(2,3) v in auto)
  let ?M = "[(0, [119]) \<mapsto> [1], (1, [97]) \<mapsto> [7]] :: u8 \<times> u8 list \<rightharpoonup> u8 list"
  let ?e = "env2\<lparr>nv_ns := [\<lparr>ns_name = [119], ns_index = 1, ns_used_cnt = 1\<rparr>], nv_ns_states := ns_state_set (replicate 8 0) 1 True\<rparr>"
  have "nv_durable ?e I2" "nv_map ?e I2 = ?M" using 2 by simp_all
  moreover have "names_ok ?M" by (auto simp: names_ok_def)
  moreover have "names_loaded ?e ?M"
    using ns_marked_empty ns_state_get_set [of "replicate 8 0" 1]
    by (auto simp: names_loaded_def ns_table_def ns_marked_def ns_state_set_def Let_def)
  moreover have "[(Some [119], [97]) \<mapsto> [7]] = named_map ?M"
    by (auto simp: named_map_def fun_eq_iff NAMESPACE_NULL_IDX_def split: option.splits)
  ultimately have "named_represents ?e [(Some [119], [97]) \<mapsto> [7]]" by (auto simp: named_represents_def)
  then show thesis by (rule that) simp
qed

theorem nvds_del_namespace_exact_witness:
  "\<exists>env env'. named_represents env [(Some [119], [97]) \<mapsto> [7]] \<and>
     nvds_del_keys_by_namespace ideal_flash [119] env = Some (Del_ret NVDS_OK, env') \<and> named_represents env' Map.empty \<and>
     nv_ns env \<noteq> [] \<and> nv_ns env' = [] \<and> data_element_find ideal_flash env' 0 [119] = Some NVDS_E_NOT_FOUND"
proof -
  let ?m = "[(Some [119], [97]) \<mapsto> [7]] :: u8 list option \<times> u8 list \<rightharpoonup> u8 list"
  let ?ns = "\<lparr>ns_name = [119], ns_index = 1, ns_used_cnt = 1\<rparr>"
  obtain env where r: "named_represents env ?m" and n: "nv_ns env = [?ns]" by (rule one_key_storage)
  have ns: "nv_ns env = [] @ ?ns # []" "ns_name ?ns \<notin> ns_name ` set ([] @ [])" "name_valid (ns_name ?ns)"
    using n by (simp_all add: name_valid_def)
  have "{key. ?m (Some [119], key) \<noteq> None} = {[97]}" by auto
  then have "unat (ns_used_cnt ?ns) = card {key. ?m (Some (ns_name ?ns), key) \<noteq> None}" by simp
  from nvds_del_namespace_exact [OF ideal.nor_flash_axioms r ns this] obtain env' where
    d: "nvds_del_keys_by_namespace ideal_flash [119] env = Some (Del_ret NVDS_OK, env')"
    and r': "named_represents env' (\<lambda>(n, key). if n = Some [119] then None else ?m (n, key))"
    and g: "nv_ns env' = []" "data_element_find ideal_flash env' 0 [119] = Some NVDS_E_NOT_FOUND" by auto
  have "(\<lambda>(n, key). if n = Some [119] then None else ?m (n, key)) = Map.empty" by auto
  with r d r' g n show ?thesis by auto
qed

end
