(* ===== verification/Mem_Heap.thy ===== *)
theory Mem_Heap
  imports Fw_Prelude
begin

text \<open>
  The heap manager of \<open>tuya_mem_heap.c\<close>: up to four heaps, each a region of memory that is cut
  into blocks with a header of four bytes (the size), the user data and a last byte that says
  whether the block is in use. Free blocks are linked through the first word of their data in
  the order of their addresses. The memory is a map from addresses to bytes, as the code sees
  it; addresses and sizes are the 32-bit values of the target, with the wrap-around of
  \<open>unsigned long\<close> written out. The critical sections and the debug output have no effect on
  the state. A null pointer is \<open>0\<close>.
\<close>

section \<open>Memory\<close>

type_synonym memory = "nat \<Rightarrow> u8"

definition rd32 :: "memory \<Rightarrow> nat \<Rightarrow> nat" where
  "rd32 m a = unat (get32 [m a, m (a + 1), m (a + 2), m (a + 3)] 0)"

definition wr32 :: "memory \<Rightarrow> nat \<Rightarrow> nat \<Rightarrow> memory" where
  "wr32 m a v = (let b = le32 (of_nat v) in m(a := b ! 0, a + 1 := b ! 1, a + 2 := b ! 2, a + 3 := b ! 3))"

definition add32 :: "nat \<Rightarrow> nat \<Rightarrow> nat" where "add32 x y = (x + y) mod 2 ^ 32"
definition sub32 :: "nat \<Rightarrow> nat \<Rightarrow> nat" where "sub32 x y = (x + (2 ^ 32 - y mod 2 ^ 32)) mod 2 ^ 32"

section \<open>Constants and blocks\<close>

definition MEM_BLOCK_MIN_SIZE :: nat where "MEM_BLOCK_MIN_SIZE = 24"
definition MEM_ALIGN_NUM :: nat where "MEM_ALIGN_NUM = 4"
definition FIT_FIND_DEPTH :: nat where "FIT_FIND_DEPTH = 3"
definition MEM_DBG_LEAK_MAGIC :: nat where "MEM_DBG_LEAK_MAGIC = 0x13572468"
definition MEM_BLOCK_HEAD_SIZE :: nat where "MEM_BLOCK_HEAD_SIZE = 4"
definition MEM_HEAP_MIN_SIZE :: nat where "MEM_HEAP_MIN_SIZE = MEM_BLOCK_MIN_SIZE + MEM_BLOCK_HEAD_SIZE"
definition MEM_BLOCK_STAT_USE :: u8 where "MEM_BLOCK_STAT_USE = 0x55"
definition MEM_BLOCK_STAT_FREE :: u8 where "MEM_BLOCK_STAT_FREE = 0xAA"
definition MEM_HEAP_LIST_NUM :: nat where "MEM_HEAP_LIST_NUM = 4"

lemmas heap_consts = MEM_BLOCK_MIN_SIZE_def MEM_ALIGN_NUM_def FIT_FIND_DEPTH_def MEM_BLOCK_HEAD_SIZE_def
  MEM_HEAP_MIN_SIZE_def MEM_HEAP_LIST_NUM_def

definition ALIGN_DOWN :: "nat \<Rightarrow> nat" where "ALIGN_DOWN x = x div MEM_ALIGN_NUM * MEM_ALIGN_NUM"
definition ALIGN_UP :: "nat \<Rightarrow> nat" where "ALIGN_UP x = ALIGN_DOWN (add32 x (MEM_ALIGN_NUM - 1))"

text \<open>
  The fields of the block at an address.
\<close>

definition blk_size :: "memory \<Rightarrow> nat \<Rightarrow> nat" where "blk_size m b = rd32 m b"
definition blk_next :: "memory \<Rightarrow> nat \<Rightarrow> nat" where "blk_next m b = rd32 m (b + 4)"
definition set_blk_size :: "nat \<Rightarrow> nat \<Rightarrow> memory \<Rightarrow> memory" where "set_blk_size b v m = wr32 m b v"
definition set_blk_next :: "nat \<Rightarrow> nat \<Rightarrow> memory \<Rightarrow> memory" where "set_blk_next b v m = wr32 m (b + 4) v"

definition MEM_DOG_ADDR :: "memory \<Rightarrow> nat \<Rightarrow> nat" where
  "MEM_DOG_ADDR m b = sub32 (add32 b (blk_size m b)) 1"

definition set_dog :: "nat \<Rightarrow> u8 \<Rightarrow> memory \<Rightarrow> memory" where
  "set_dog b v m = m(MEM_DOG_ADDR m b := v)"

section \<open>Heaps\<close>

record mem_heap =
  mh_free_list :: nat
  mh_base :: nat
  mh_size :: nat
  mh_free :: nat
  mh_watermark :: nat

record heap_env =
  he_mem :: memory
  he_list :: "mem_heap list"
  he_free :: nat
  he_watermark :: nat

text \<open>
  \<open>mem_heap_init\<close> on the heap with number \<open>i\<close>.
\<close>

definition mem_heap_init :: "nat \<Rightarrow> nat \<Rightarrow> nat \<Rightarrow> heap_env \<Rightarrow> bool \<times> heap_env" where
  "mem_heap_init i ptr sz env =
     (let h = (he_list env ! i)\<lparr>mh_base := ptr, mh_size := sz\<rparr>;
          pt = ALIGN_UP ptr;
          szd = ALIGN_DOWN (sub32 sz (sub32 pt ptr)) in
      if szd < MEM_HEAP_MIN_SIZE then (False, env\<lparr>he_list := (he_list env)[i := h]\<rparr>)
      else
        let h = h\<lparr>mh_free_list := pt, mh_free := szd, mh_watermark := szd\<rparr>;
            m = set_blk_size pt szd (set_blk_next pt 0 (he_mem env));
            m = set_dog pt MEM_BLOCK_STAT_FREE m
        in (True, env\<lparr>he_mem := m, he_list := (he_list env)[i := h], he_free := add32 (he_free env) szd,
              he_watermark := add32 (he_free env) szd\<rparr>))"

text \<open>
  The refinement of a fit: among the following free blocks at most \<open>FIT_FIND_DEPTH\<close> times a
  block that is no larger is taken instead. The result is the predecessor and the block.
\<close>

partial_function (option) fit_scan ::
    "memory \<Rightarrow> nat \<Rightarrow> nat \<Rightarrow> nat \<Rightarrow> nat \<Rightarrow> nat \<Rightarrow> nat \<Rightarrow> (nat \<times> nat) option" where
  "fit_scan m sz pre this find_num pre_bak this_bak =
     (if this_bak = 0 then Some (pre, this)
      else
        let better = (blk_size m this_bak \<ge> sz \<and> blk_size m this_bak \<le> blk_size m this);
            this = (if better then this_bak else this);
            pre = (if better then pre_bak else pre);
            find_num = (if better then find_num + 1 else find_num) in
        if find_num \<ge> FIT_FIND_DEPTH then Some (pre, this)
        else fit_scan m sz pre this find_num this_bak (blk_next m this_bak))"

partial_function (option) chunk_scan :: "memory \<Rightarrow> nat \<Rightarrow> nat \<Rightarrow> nat \<Rightarrow> (nat \<times> nat) option option" where
  "chunk_scan m sz pre this =
     (if this = 0 then Some None
      else if blk_size m this \<ge> sz then map_option Some (fit_scan m sz pre this 0 this (blk_next m this))
      else chunk_scan m sz this (blk_next m this))"

definition mem_chunk_get :: "nat \<Rightarrow> mem_heap \<Rightarrow> memory \<Rightarrow> (nat \<times> mem_heap \<times> memory) option" where
  "mem_chunk_get sz heap m =
     (case chunk_scan m sz 0 (mh_free_list heap) of
        None \<Rightarrow> None
      | Some None \<Rightarrow> Some (0, heap, m)
      | Some (Some (pre, this)) \<Rightarrow>
          if sub32 (blk_size m this) sz \<ge> MEM_HEAP_MIN_SIZE
          then
            let m = set_blk_size this (sub32 (blk_size m this) sz) m;
                m = set_dog this MEM_BLOCK_STAT_FREE m;
                new_block = add32 this (blk_size m this);
                m = set_blk_size new_block sz m;
                m = set_dog new_block MEM_BLOCK_STAT_USE m
            in Some (new_block, heap, m)
          else
            let (heap, m) = (if pre \<noteq> 0 then (heap, set_blk_next pre (blk_next m this) m)
                  else (heap\<lparr>mh_free_list := blk_next m this\<rparr>, m));
                m = set_dog this MEM_BLOCK_STAT_USE m
            in Some (this, heap, m))"

text \<open>
  A heap handle is the number of a heap; \<open>None\<close> is the null handle.
\<close>

definition MEM_HeapCreate :: "nat \<Rightarrow> nat \<Rightarrow> heap_env \<Rightarrow> nat option \<times> heap_env" where
  "MEM_HeapCreate ptr sz env =
     (if ptr = 0 \<or> sz = 0 then (None, env)
      else case find (\<lambda>i. mh_size (he_list env ! i) = 0) [0..<MEM_HEAP_LIST_NUM] of
        None \<Rightarrow> (None, env)
      | Some i \<Rightarrow>
          (case mem_heap_init i ptr sz env of
             (ok, env) \<Rightarrow>
               if ok then (Some i, env)
               else (None, env\<lparr>he_list := (he_list env)[i := (he_list env ! i)\<lparr>mh_size := 0\<rparr>]\<rparr>)))"

definition MEM_HeapDelete :: "nat option \<Rightarrow> heap_env \<Rightarrow> heap_env" where
  "MEM_HeapDelete heap env =
     (case heap of
        None \<Rightarrow> env
      | Some i \<Rightarrow>
          if i < MEM_HEAP_LIST_NUM
          then env\<lparr>he_list := (he_list env)[i := \<lparr>mh_free_list = 0, mh_base = 0, mh_size = 0, mh_free = 0, mh_watermark = 0\<rparr>]\<rparr>
          else env)"

definition MEM_Allocate :: "nat option \<Rightarrow> nat \<Rightarrow> heap_env \<Rightarrow> (nat \<times> heap_env) option" where
  "MEM_Allocate heap sz env =
     (case heap of
        None \<Rightarrow> Some (0, env)
      | Some i \<Rightarrow>
          if sz = 0 then Some (0, env)
          else
            let sz = (if sz < 4 then 4 else sz);
                new_size = add32 (ALIGN_UP (add32 sz 1)) MEM_BLOCK_HEAD_SIZE in
            if new_size < sz then Some (0, env)
            else
            (case mem_chunk_get new_size (he_list env ! i) (he_mem env) of
               None \<Rightarrow> None
             | Some (block, h, m) \<Rightarrow>
                 if block = 0 then Some (0, env\<lparr>he_mem := m, he_list := (he_list env)[i := h]\<rparr>)
                 else
                   let h = h\<lparr>mh_free := sub32 (mh_free h) (blk_size m block)\<rparr>;
                       h = (if mh_watermark h > mh_free h then h\<lparr>mh_watermark := mh_free h\<rparr> else h);
                       free = sub32 (he_free env) (blk_size m block);
                       wm = (if he_watermark env > free then free else he_watermark env)
                   in Some (add32 block MEM_BLOCK_HEAD_SIZE,
                        env\<lparr>he_mem := m, he_list := (he_list env)[i := h], he_free := free, he_watermark := wm\<rparr>)))"

text \<open>
  The debug record of 16 bytes is written in front of the last word of the block.
\<close>

definition MEM_AllocateDebug :: "nat option \<Rightarrow> nat \<Rightarrow> nat \<Rightarrow> nat \<Rightarrow> heap_env \<Rightarrow> (nat \<times> heap_env) option" where
  "MEM_AllocateDebug heap sz filename ln env =
     map_option (\<lambda>(p, env).
         if p = 0 then (p, env)
         else
           let block = sub32 p MEM_BLOCK_HEAD_SIZE;
               leak = sub32 (sub32 (add32 block (blk_size (he_mem env) block)) 16) MEM_ALIGN_NUM;
               m = wr32 (he_mem env) leak filename;
               m = wr32 m (leak + 4) ln;
               m = wr32 m (leak + 8) sz;
               m = wr32 m (leak + 12) MEM_DBG_LEAK_MAGIC
           in (p, env\<lparr>he_mem := m\<rparr>))
       (MEM_Allocate heap (add32 (ALIGN_UP sz) 16) env)"

text \<open>
  The search for the place of a freed block: the last free block in front of it and the first
  one behind it.
\<close>

partial_function (option) place_scan :: "memory \<Rightarrow> nat \<Rightarrow> nat \<Rightarrow> nat \<Rightarrow> (nat \<times> nat) option" where
  "place_scan m free_block pre_block next_block =
     (if next_block \<noteq> 0 \<and> next_block < free_block
      then place_scan m free_block next_block (blk_next m next_block)
      else Some (pre_block, next_block))"

text \<open>
  The released block becomes the head of the free list, grows the free block in front of it or
  is linked behind it; the first result is the block that may now be merged with the next one.
\<close>

definition link_or_merge :: "nat \<Rightarrow> nat \<Rightarrow> mem_heap \<Rightarrow> memory \<Rightarrow> nat \<times> mem_heap \<times> memory" where
  "link_or_merge free_block pre h m =
     (if pre = 0 then (free_block, h\<lparr>mh_free_list := free_block\<rparr>, m)
      else if add32 pre (blk_size m pre) = free_block
      then (pre, h, set_blk_size pre (add32 (blk_size m pre) (blk_size m free_block)) m)
      else (free_block, h, set_blk_next pre free_block m))"

definition merge_next :: "nat \<Rightarrow> nat \<Rightarrow> memory \<Rightarrow> memory" where
  "merge_next pre nx m =
     (if nx \<noteq> 0 \<and> add32 pre (blk_size m pre) = nx
      then let m = set_blk_size pre (add32 (blk_size m pre) (blk_size m nx)) m
           in set_blk_next pre (blk_next m nx) m
      else m)"

definition MEM_Deallocate :: "nat option \<Rightarrow> nat \<Rightarrow> heap_env \<Rightarrow> heap_env option" where
  "MEM_Deallocate heap ptr env =
     (case heap of
        None \<Rightarrow> Some env
      | Some i \<Rightarrow>
          if ptr = 0 then Some env
          else
            let m = he_mem env; h = he_list env ! i;
                free_block = sub32 ptr MEM_BLOCK_HEAD_SIZE;
                pdog = MEM_DOG_ADDR m free_block in
            if m pdog \<noteq> MEM_BLOCK_STAT_USE then Some env
            else
              let m = m(pdog := MEM_BLOCK_STAT_FREE);
                  h = h\<lparr>mh_free := add32 (mh_free h) (blk_size m free_block)\<rparr>;
                  free = add32 (he_free env) (blk_size m free_block) in
              (case place_scan m free_block 0 (mh_free_list h) of
                 None \<Rightarrow> None
               | Some (pre, nx) \<Rightarrow>
                   let m = set_blk_next free_block nx m;
                       (pre, h, m) = link_or_merge free_block pre h m
                   in Some (env\<lparr>he_mem := merge_next pre nx m, he_list := (he_list env)[i := h], he_free := free\<rparr>)))"

section \<open>Status\<close>

record heap_status =
  st_size :: nat
  st_free :: nat
  st_free_largest :: nat
  st_valid :: bool
  st_used_block :: nat
  st_free_block :: nat

text \<open>
  The walk over all blocks. It stops at the first inconsistency, with \<open>valid\<close> still unset.
\<close>

partial_function (option) status_walk ::
    "memory \<Rightarrow> nat \<Rightarrow> nat \<Rightarrow> nat \<Rightarrow> heap_status \<Rightarrow> heap_status option" where
  "status_walk m top_addr addr freeBlockp status =
     (if addr < top_addr then
        (if m (MEM_DOG_ADDR m addr) = MEM_BLOCK_STAT_USE then
           if addr = freeBlockp then Some status
           else status_walk m top_addr (add32 addr (blk_size m addr)) freeBlockp
                  (status\<lparr>st_used_block := add32 (st_used_block status) 1\<rparr>)
         else if m (MEM_DOG_ADDR m addr) = MEM_BLOCK_STAT_FREE then
           if addr \<noteq> freeBlockp then Some status
           else
             let thisSize = sub32 (sub32 (blk_size m addr) MEM_BLOCK_HEAD_SIZE) 1
             in status_walk m top_addr (add32 addr (blk_size m addr)) (blk_next m freeBlockp)
                  (status\<lparr>st_free := add32 (st_free status) thisSize,
                     st_free_largest := (if thisSize > st_free_largest status then thisSize else st_free_largest status),
                     st_free_block := add32 (st_free_block status) 1\<rparr>)
         else Some status)
      else Some (if addr = top_addr \<and> freeBlockp = 0 then status\<lparr>st_valid := True\<rparr> else status))"

definition MEM_HeapStatus :: "mem_heap \<Rightarrow> memory \<Rightarrow> heap_status option" where
  "MEM_HeapStatus heap m =
     status_walk m (ALIGN_DOWN (add32 (mh_base heap) (mh_size heap))) (ALIGN_UP (mh_base heap)) (mh_free_list heap)
       \<lparr>st_size = mh_size heap, st_free = 0, st_free_largest = 0, st_valid = False, st_used_block = 0, st_free_block = 0\<rparr>"

section \<open>Exported operations\<close>

definition tuya_mem_heap_create :: "nat \<Rightarrow> nat \<Rightarrow> heap_env \<Rightarrow> int \<times> nat option \<times> heap_env" where
  "tuya_mem_heap_create start_adr sz env =
     (case MEM_HeapCreate start_adr sz env of
        (None, env) \<Rightarrow> (-1, None, env)
      | (Some i, env) \<Rightarrow> (0, Some i, env))"

definition tuya_mem_heap_delete :: "nat option \<Rightarrow> heap_env \<Rightarrow> int \<times> heap_env" where
  "tuya_mem_heap_delete handle env = (0, MEM_HeapDelete handle env)"

text \<open>
  With a null handle the heaps are tried in order, up to the first one that is not in use.
\<close>

fun try_heaps :: "(nat option \<Rightarrow> heap_env \<Rightarrow> (nat \<times> heap_env) option) \<Rightarrow> nat \<Rightarrow> nat list \<Rightarrow> heap_env \<Rightarrow> (nat \<times> heap_env) option" where
  "try_heaps alloc sz [] env = Some (0, env)"
| "try_heaps alloc sz (i # idxs) env =
     (let h = he_list env ! i in
      if mh_size h > 0 then
        if mh_free h > add32 sz MEM_BLOCK_MIN_SIZE then
          (case alloc (Some i) env of
             None \<Rightarrow> None
           | Some (p, env) \<Rightarrow> if p \<noteq> 0 then Some (p, env) else try_heaps alloc sz idxs env)
        else try_heaps alloc sz idxs env
      else Some (0, env))"

definition tuya_mem_heap_malloc :: "nat option \<Rightarrow> nat \<Rightarrow> heap_env \<Rightarrow> (nat \<times> heap_env) option" where
  "tuya_mem_heap_malloc handle sz env =
     (if handle \<noteq> None then MEM_Allocate handle sz env
      else try_heaps (\<lambda>h. MEM_Allocate h sz) sz [0..<MEM_HEAP_LIST_NUM] env)"

definition mem_fill :: "nat \<Rightarrow> nat \<Rightarrow> u8 \<Rightarrow> memory \<Rightarrow> memory" where
  "mem_fill a n v m = (\<lambda>x. if a \<le> x \<and> x < a + n then v else m x)"

definition mem_move :: "nat \<Rightarrow> nat \<Rightarrow> nat \<Rightarrow> memory \<Rightarrow> memory" where
  "mem_move dst src n m = (\<lambda>x. if dst \<le> x \<and> x < dst + n then m (src + (x - dst)) else m x)"

definition tuya_mem_heap_calloc :: "nat option \<Rightarrow> nat \<Rightarrow> heap_env \<Rightarrow> (nat \<times> heap_env) option" where
  "tuya_mem_heap_calloc handle sz env =
     map_option (\<lambda>(p, env). (p, if p \<noteq> 0 then env\<lparr>he_mem := mem_fill p sz 0 (he_mem env)\<rparr> else env))
       (tuya_mem_heap_malloc handle sz env)"

definition tuya_mem_heap_free :: "nat option \<Rightarrow> nat \<Rightarrow> heap_env \<Rightarrow> heap_env option" where
  "tuya_mem_heap_free handle ptr env =
     (if handle \<noteq> None then MEM_Deallocate handle ptr env
      else
        let used = takeWhile (\<lambda>i. mh_size (he_list env ! i) > 0) [0..<MEM_HEAP_LIST_NUM];
            inside = (\<lambda>i. ptr > mh_base (he_list env ! i) \<and>
              ptr < add32 (mh_base (he_list env ! i)) (mh_size (he_list env ! i))) in
        case find inside used of
          None \<Rightarrow> Some env
        | Some i \<Rightarrow> MEM_Deallocate (Some i) ptr env)"

definition tuya_mem_heap_realloc :: "nat option \<Rightarrow> nat \<Rightarrow> nat \<Rightarrow> heap_env \<Rightarrow> (nat \<times> heap_env) option" where
  "tuya_mem_heap_realloc handle ptr sz env =
     (if ptr = 0 then tuya_mem_heap_malloc handle sz env
      else
        let m = he_mem env;
            old_block = sub32 ptr MEM_BLOCK_HEAD_SIZE in
        if m (MEM_DOG_ADDR m old_block) \<noteq> MEM_BLOCK_STAT_USE then Some (0, env)
        else
          let sz = (if sz < 4 then 4 else sz);
              new_size = add32 (ALIGN_UP (add32 sz 1)) MEM_BLOCK_HEAD_SIZE in
          if new_size \<le> blk_size m old_block then Some (ptr, env)
          else
          (case tuya_mem_heap_malloc handle sz env of
             None \<Rightarrow> None
           | Some (tmp, env) \<Rightarrow>
               if tmp = 0 then Some (0, env)
               else
                 let m = he_mem env;
                     env = env\<lparr>he_mem := mem_move tmp ptr (sub32 (blk_size m old_block) MEM_BLOCK_HEAD_SIZE) m\<rparr>
                 in map_option (\<lambda>env. (tmp, env)) (tuya_mem_heap_free handle ptr env)))"

text \<open>
  The counter as the \<open>int\<close> that \<open>tuya_mem_heap_available\<close> returns.
\<close>

definition to_int32 :: "nat \<Rightarrow> int" where
  "to_int32 x = (if x < 2 ^ 31 then int x else int x - 2 ^ 32)"

definition tuya_mem_heap_available :: "nat option \<Rightarrow> heap_env \<Rightarrow> int" where
  "tuya_mem_heap_available handle env =
     to_int32 (case handle of None \<Rightarrow> he_free env | Some i \<Rightarrow> mh_free (he_list env ! i))"

record heap_state =
  hs_total_size :: nat
  hs_free_size :: nat
  hs_free_watermark :: nat
  hs_max_free_block_size :: nat

definition tuya_mem_heap_state :: "nat option \<Rightarrow> heap_state \<Rightarrow> heap_env \<Rightarrow> heap_state" where
  "tuya_mem_heap_state handle state env =
     (case handle of
        None \<Rightarrow>
          let used = takeWhile (\<lambda>i. mh_size (he_list env ! i) > 0) [0..<MEM_HEAP_LIST_NUM]
          in state\<lparr>hs_free_size := he_free env, hs_free_watermark := he_watermark env,
               hs_total_size := fold (\<lambda>i t. add32 t (mh_size (he_list env ! i))) used (hs_total_size state)\<rparr>
      | Some i \<Rightarrow>
          let h = he_list env ! i
          in state\<lparr>hs_total_size := mh_size h, hs_free_size := mh_free h, hs_free_watermark := mh_watermark h\<rparr>)"

definition tuya_mem_heap_debug_malloc ::
    "nat option \<Rightarrow> nat \<Rightarrow> nat \<Rightarrow> nat \<Rightarrow> heap_env \<Rightarrow> (nat \<times> heap_env) option" where
  "tuya_mem_heap_debug_malloc handle sz filename ln env =
     (if handle \<noteq> None then MEM_AllocateDebug handle sz filename ln env
      else try_heaps (\<lambda>h. MEM_AllocateDebug h sz filename ln) sz [0..<MEM_HEAP_LIST_NUM] env)"

definition tuya_mem_heap_debug_calloc ::
    "nat option \<Rightarrow> nat \<Rightarrow> nat \<Rightarrow> nat \<Rightarrow> heap_env \<Rightarrow> (nat \<times> heap_env) option" where
  "tuya_mem_heap_debug_calloc handle sz filename ln env =
     map_option (\<lambda>(p, env). (p, if p \<noteq> 0 then env\<lparr>he_mem := mem_fill p sz 0 (he_mem env)\<rparr> else env))
       (tuya_mem_heap_debug_malloc handle sz filename ln env)"

definition tuya_mem_heap_debug_realloc ::
    "nat option \<Rightarrow> nat \<Rightarrow> nat \<Rightarrow> nat \<Rightarrow> nat \<Rightarrow> heap_env \<Rightarrow> (nat \<times> heap_env) option" where
  "tuya_mem_heap_debug_realloc handle ptr sz filename ln env =
     (case tuya_mem_heap_debug_malloc handle sz filename ln env of
        None \<Rightarrow> None
      | Some (tmp, env) \<Rightarrow>
          if tmp = 0 then Some (0, env)
          else map_option (\<lambda>env. (tmp, env))
                 (tuya_mem_heap_free handle ptr (env\<lparr>he_mem := mem_move tmp ptr sz (he_mem env)\<rparr>)))"

text \<open>
  Diagnosis prints the status of one heap, or of all heaps up to the first one that is not in
  use; the model returns the statuses that are printed.
\<close>

fun diagnose_all :: "nat list \<Rightarrow> heap_env \<Rightarrow> heap_status list option" where
  "diagnose_all [] env = Some []"
| "diagnose_all (i # idxs) env =
     (if mh_size (he_list env ! i) > 0
      then case MEM_HeapStatus (he_list env ! i) (he_mem env) of
          None \<Rightarrow> None
        | Some st \<Rightarrow> map_option ((#) st) (diagnose_all idxs env)
      else Some [])"

definition tuya_mem_heap_diagnose :: "nat option \<Rightarrow> heap_env \<Rightarrow> (int \<times> heap_status list) option" where
  "tuya_mem_heap_diagnose handle env =
     map_option (\<lambda>out. (0, out))
       (case handle of
          Some i \<Rightarrow> map_option (\<lambda>st. [st]) (MEM_HeapStatus (he_list env ! i) (he_mem env))
        | None \<Rightarrow> diagnose_all [0..<MEM_HEAP_LIST_NUM] env)"

text \<open>
  The context holds pointers to the three functions that the port provides.
\<close>

record 'f heap_context =
  enter_critical :: "'f option"
  exit_critical :: "'f option"
  dbg_output :: "'f option"

definition tuya_mem_heap_init :: "'f heap_context option \<Rightarrow> 'f heap_context \<Rightarrow> int \<times> 'f heap_context" where
  "tuya_mem_heap_init ctx s_heap_ctx =
     (case ctx of
        None \<Rightarrow> (-1, s_heap_ctx)
      | Some c \<Rightarrow>
          if enter_critical c = None \<or> exit_critical c = None \<or> dbg_output c = None then (-1, s_heap_ctx)
          else (0, s_heap_ctx\<lparr>enter_critical := enter_critical c, exit_critical := exit_critical c, dbg_output := dbg_output c\<rparr>))"

end
