(* ===== verification/Mem_Blocks.thy ===== *)
theory Mem_Blocks
  imports Mem_Heap
begin

text \<open>
  The blocks of a heap as a list, what in the memory represents it, and the effects of the
  elementary writes: cutting a block, marking it, linking it in and out and merging it.
\<close>

section \<open>Words in memory\<close>

lemma rd32_less: "rd32 m a < 2 ^ 32"
  using unat_bound [of "get32 [m a, m (a + 1), m (a + 2), m (a + 3)] 0"] by (simp add: rd32_def)

lemma rd32_cong: "(\<And>i. a \<le> i \<Longrightarrow> i < a + 4 \<Longrightarrow> m' i = m i) \<Longrightarrow> rd32 m' a = rd32 m a"
  by (simp add: rd32_def)

lemma wr32_bytes: "[wr32 m a v a, wr32 m a v (a + 1), wr32 m a v (a + 2), wr32 m a v (a + 3)] = le32 (of_nat v)"
  by (simp add: wr32_def le32_def Let_def numeral_2_eq_2 numeral_3_eq_3)

lemma rd32_wr32_same: "v < 2 ^ 32 \<Longrightarrow> rd32 (wr32 m a v) a = v"
  using get32_le32 [of "[]" "of_nat v" "[]"]
  by (simp add: rd32_def wr32_bytes [simplified] unat_of_nat_small)

lemma wr32_other: "x < a \<or> a + 4 \<le> x \<Longrightarrow> wr32 m a v x = m x"
  by (auto simp: wr32_def Let_def)

lemma rd32_wr32_other: "a + 4 \<le> b \<or> b + 4 \<le> a \<Longrightarrow> rd32 (wr32 m a v) b = rd32 m b"
  by (rule rd32_cong) (auto intro: wr32_other)

lemma wr32_wr32: "wr32 (wr32 m a v) a w = wr32 m a w"
  by (auto simp: wr32_def Let_def fun_eq_iff)

lemma wr32_rd32: "wr32 m a (rd32 m a) = m"
proof -
  have "le32 (get32 [b0, b1, b2, b3] 0) = [b0, b1, b2, b3]" for b0 b1 b2 b3 :: u8
    by (simp add: le32_def get32_def) (intro conjI; rule bit_word_eqI; auto simp: bit_simps dest: bit_imp_le_length)
  then show ?thesis by (auto simp: wr32_def rd32_def Let_def fun_eq_iff)
qed

lemma add32_small: "x + y < 2 ^ 32 \<Longrightarrow> add32 x y = x + y"
  by (simp add: add32_def)

lemma sub32_small: "y \<le> x \<Longrightarrow> x < 2 ^ 32 \<Longrightarrow> sub32 x y = x - y"
proof -
  assume "y \<le> x" "x < 2 ^ 32"
  then have "x + (2 ^ 32 - y mod 2 ^ 32) = (x - y) + 2 ^ 32" by simp
  then show ?thesis using \<open>x < 2 ^ 32\<close> unfolding sub32_def by (simp add: less_imp_diff_less)
qed

section \<open>Blocks\<close>

text \<open>
  A block is its size and whether it is in use; a heap is the list of its blocks in the order
  of their addresses, the first one at \<open>a\<close>.
\<close>

type_synonym block = "nat \<times> bool"

definition total_size :: "block list \<Rightarrow> nat" where "total_size bs = sum_list (map fst bs)"

definition dog_of :: "bool \<Rightarrow> u8" where
  "dog_of u = (if u then MEM_BLOCK_STAT_USE else MEM_BLOCK_STAT_FREE)"

fun blocks :: "memory \<Rightarrow> nat \<Rightarrow> block list \<Rightarrow> bool" where
  "blocks m a [] \<longleftrightarrow> True"
| "blocks m a ((n, u) # bs) \<longleftrightarrow>
     12 \<le> n \<and> 4 dvd n \<and> rd32 m a = n \<and> m (a + n - 1) = dog_of u \<and> blocks m (a + n) bs"

fun frees :: "nat \<Rightarrow> block list \<Rightarrow> nat list" where
  "frees a [] = []"
| "frees a ((n, u) # bs) = (if u then frees (a + n) bs else a # frees (a + n) bs)"

fun fchain :: "memory \<Rightarrow> nat \<Rightarrow> nat list \<Rightarrow> nat \<Rightarrow> bool" where
  "fchain m p [] q \<longleftrightarrow> p = q"
| "fchain m p (x # xs) q \<longleftrightarrow> p = x \<and> fchain m (rd32 m (x + 4)) xs q"

text \<open>
  The bytes that the heap manager keeps in the blocks: headers and marks.
\<close>

fun meta :: "nat \<Rightarrow> block list \<Rightarrow> nat set" where
  "meta a [] = {}"
| "meta a ((n, u) # bs) = {a..<a + 4} \<union> {a + n - 1} \<union> meta (a + n) bs"

lemma total_simps [simp]: "total_size [] = 0" "total_size ((n, u) # bs) = n + total_size bs"
  "total_size (us @ vs) = total_size us + total_size vs"
  by (simp_all add: total_size_def)

lemma blocks_append: "blocks m a (us @ vs) \<longleftrightarrow> blocks m a us \<and> blocks m (a + total_size us) vs"
  by (induction a us rule: meta.induct) (auto simp: add.assoc)

lemma frees_append: "frees a (us @ vs) = frees a us @ frees (a + total_size us) vs"
  by (induction a us rule: meta.induct) (auto simp: add.assoc)

lemma meta_append: "meta a (us @ vs) = meta a us \<union> meta (a + total_size us) vs"
  by (induction a us rule: meta.induct) (auto simp: add.assoc)

lemma fchain_append: "fchain m p (xs @ ys) q \<longleftrightarrow> (\<exists>r. fchain m p xs r \<and> fchain m r ys q)"
  by (induction xs arbitrary: p) auto

lemma fchain_hd: "fchain m p xs q \<Longrightarrow> p = hd (xs @ [q])"
  by (cases xs) auto

lemma blocks_cong: "(\<And>i. i \<in> meta a bs \<Longrightarrow> m' i = m i) \<Longrightarrow> blocks m' a bs \<longleftrightarrow> blocks m a bs"
proof (induction a bs rule: meta.induct)
  case (2 a n u bs)
  have "rd32 m' a = rd32 m a" using 2(2) by (intro rd32_cong) auto
  then show ?case using 2 by auto
qed simp

lemma fchain_cong:
  "(\<And>x i. x \<in> set xs \<Longrightarrow> x + 4 \<le> i \<Longrightarrow> i < x + 8 \<Longrightarrow> m' i = m i) \<Longrightarrow> fchain m' p xs q \<longleftrightarrow> fchain m p xs q"
proof (induction xs arbitrary: p)
  case (Cons x xs)
  have "rd32 m' (x + 4) = rd32 m (x + 4)" using Cons.prems [of x] by (intro rd32_cong) simp
  then show ?case using Cons by auto
qed simp

lemma meta_range: "blocks m a bs \<Longrightarrow> meta a bs \<subseteq> {a..<a + total_size bs}"
proof (induction a bs rule: meta.induct)
  case (2 a n u bs)
  then have "12 \<le> n" "meta (a + n) bs \<subseteq> {a + n..<a + n + total_size bs}" by auto
  then show ?case by auto
qed simp

lemma frees_range: "blocks m a bs \<Longrightarrow> x \<in> set (frees a bs) \<Longrightarrow> a \<le> x \<and> x + 12 \<le> a + total_size bs"
  by (induction a bs rule: meta.induct) (auto split: if_splits)

lemma frees_sorted: "blocks m a bs \<Longrightarrow> sorted_wrt (\<lambda>x y. x + 12 \<le> y) (frees a bs)"
proof (induction a bs rule: meta.induct)
  case (2 a n u bs)
  then show ?case using frees_range [of m "a + n" bs] by fastforce
qed simp

lemma frees_distinct: "blocks m a bs \<Longrightarrow> distinct (frees a bs)"
proof -
  have "sorted_wrt (\<lambda>x y. x + 12 \<le> y) xs \<Longrightarrow> distinct xs" for xs :: "nat list" by (induction xs) auto
  then show "blocks m a bs \<Longrightarrow> distinct (frees a bs)" using frees_sorted by blast
qed

lemma frees_split:
  "x \<in> set (frees a bs) \<Longrightarrow> \<exists>us n vs. bs = us @ (n, False) # vs \<and> x = a + total_size us"
proof (induction a bs rule: meta.induct)
  case (2 a n u bs)
  show ?case
  proof (cases "x = a \<and> \<not> u")
    case True
    then show ?thesis by (intro exI [of _ "[]"]) auto
  next
    case False
    then have "x \<in> set (frees (a + n) bs)" using 2(2) by (auto split: if_splits)
    from 2(1) [OF this] obtain us k vs where "bs = us @ (k, False) # vs" "x = a + n + total_size us" by blast
    then show ?thesis by (intro exI [of _ "(n, u) # us"] exI [of _ k] exI [of _ vs]) simp
  qed
qed simp

text \<open>
  The links of the free blocks lie between their headers and their marks.
\<close>

lemma links_not_meta:
  "blocks m a bs \<Longrightarrow> x \<in> set (frees a bs) \<Longrightarrow> x + 4 \<le> i \<Longrightarrow> i < x + 8 \<Longrightarrow> i \<notin> meta a bs"
proof (induction a bs rule: meta.induct)
  case (2 a n u bs)
  have r: "meta (a + n) bs \<subseteq> {a + n..<a + n + total_size bs}" using 2(2) meta_range by auto
  show ?case
  proof (cases "x \<in> set (frees (a + n) bs)")
    case True
    then have "a + n \<le> x" using 2(2) frees_range by auto
    then show ?thesis using 2 True by auto
  next
    case False
    then have "x = a" "12 \<le> n" using 2(2,3) by (auto split: if_splits)
    then show ?thesis using 2(4,5) r by auto
  qed
qed simp

text \<open>
  Linking a block into the chain of free blocks and out of it.
\<close>

lemma fchain_link_in:
  assumes c: "fchain m fl (ps @ qs) 0"
    and same: "\<And>y i. y \<in> set (butlast ps @ qs) \<Longrightarrow> y + 4 \<le> i \<Longrightarrow> i < y + 8 \<Longrightarrow> m' i = m i"
    and x: "rd32 m' (x + 4) = hd (qs @ [0])" and p: "ps \<noteq> [] \<Longrightarrow> rd32 m' (last ps + 4) = x"
  shows "fchain m' (if ps = [] then x else fl) (ps @ x # qs) 0"
proof (cases ps rule: rev_cases)
  case Nil
  then have "fchain m (hd (qs @ [0])) qs 0" using c fchain_hd by fastforce
  moreover have "fchain m' q qs 0 \<longleftrightarrow> fchain m q qs 0" for q using same Nil by (intro fchain_cong) auto
  ultimately show ?thesis using Nil x by simp
next
  case (snoc ws w)
  then have d: "fchain m fl ws w" "fchain m (rd32 m (w + 4)) qs 0" using c by (auto simp: fchain_append)
  have "rd32 m (w + 4) = hd (qs @ [0])" using fchain_hd [OF d(2)] .
  moreover have "fchain m' q qs 0 \<longleftrightarrow> fchain m q qs 0" for q using same snoc by (intro fchain_cong) auto
  moreover have "fchain m' fl ws w \<longleftrightarrow> fchain m fl ws w" using same snoc by (intro fchain_cong) auto
  ultimately show ?thesis using d snoc x p by (auto simp: fchain_append)
qed

lemma fchain_link_out:
  assumes c: "fchain m fl (ps @ x # qs) 0"
    and same: "\<And>y i. y \<in> set (butlast ps @ qs) \<Longrightarrow> y + 4 \<le> i \<Longrightarrow> i < y + 8 \<Longrightarrow> m' i = m i"
    and p: "ps \<noteq> [] \<Longrightarrow> rd32 m' (last ps + 4) = rd32 m (x + 4)"
  shows "fchain m' (if ps = [] then rd32 m (x + 4) else fl) (ps @ qs) 0"
proof (cases ps rule: rev_cases)
  case Nil
  have "fchain m' q qs 0 \<longleftrightarrow> fchain m q qs 0" for q using same Nil by (intro fchain_cong) auto
  then show ?thesis using c Nil by simp
next
  case (snoc ws w)
  have "fchain m' q qs 0 \<longleftrightarrow> fchain m q qs 0" for q using same snoc by (intro fchain_cong) auto
  moreover have "fchain m' fl ws w \<longleftrightarrow> fchain m fl ws w" using same snoc by (intro fchain_cong) auto
  ultimately show ?thesis using c snoc p by (auto simp: fchain_append)
qed

text \<open>
  The bytes of the free blocks, the only ones that the heap manager may change.
\<close>

fun free_bytes :: "nat \<Rightarrow> block list \<Rightarrow> nat set" where
  "free_bytes a [] = {}"
| "free_bytes a ((n, u) # bs) = (if u then {} else {a..<a + n}) \<union> free_bytes (a + n) bs"

lemma free_bytes_append: "free_bytes a (us @ vs) = free_bytes a us \<union> free_bytes (a + total_size us) vs"
  by (induction a us rule: meta.induct) (auto simp: add.assoc)

lemma free_bytes_range: "free_bytes a bs \<subseteq> {a..<a + total_size bs}"
proof (induction a bs rule: meta.induct)
  case (2 a n u bs)
  then show ?case by (auto dest: subsetD)
qed simp

lemma frees_free_bytes: "blocks m a bs \<Longrightarrow> x \<in> set (frees a bs) \<Longrightarrow> {x..<x + 12} \<subseteq> free_bytes a bs"
proof (induction a bs rule: meta.induct)
  case (2 a n u bs)
  then show ?case by (cases "x \<in> set (frees (a + n) bs)") (auto split: if_splits)
qed simp

lemma free_gap:
  assumes "blocks m a bs" and "x \<in> set (frees a bs)" and "i \<notin> free_bytes a bs"
  shows "i < x \<or> x + 12 \<le> i"
  using subsetD [OF frees_free_bytes [OF assms(1,2)], of i] assms(3) by (meson atLeastLessThan_iff not_le)

end
