(* ===== verification/Mem_Alloc.thy ===== *)
theory Mem_Alloc
  imports Mem_Blocks
begin

text \<open>
  Allocation: the search for a block and the two ways in which it is handed out.
\<close>

definition heap_ok :: "memory \<Rightarrow> nat \<Rightarrow> nat \<Rightarrow> block list \<Rightarrow> bool" where
  "heap_ok m fl a bs \<longleftrightarrow> blocks m a bs \<and> fchain m fl (frees a bs) 0 \<and> 0 < a \<and> a + total_size bs < 2 ^ 32"

lemma heap_okD:
  assumes "heap_ok m fl a (us @ (n, u) # vs)"
  shows "blk_size m (a + total_size us) = n" "MEM_DOG_ADDR m (a + total_size us) = a + total_size us + n - 1"
    "12 \<le> n" "4 dvd n" "a + total_size us + n + total_size vs < 2 ^ 32" "m (a + total_size us + n - 1) = dog_of u"
    "blocks m a us" "blocks m (a + total_size us + n) vs" "fchain m fl (frees a (us @ (n, u) # vs)) 0" "0 < a"
  using assms by (auto simp: heap_ok_def blocks_append blk_size_def MEM_DOG_ADDR_def add32_small sub32_small)

lemmas block_defs = set_blk_size_def set_blk_next_def set_dog_def blk_size_def blk_next_def

lemma dog_upd: "m(d := v) = (\<lambda>i. if i = d then v else m i)"
  by auto

text \<open>
  Writes inside one block do not disturb the blocks around it.
\<close>

lemma around:
  assumes "blocks m a us" and "blocks m (a + total_size us + n) vs"
    and "\<And>i. i < a + total_size us \<or> a + total_size us + n \<le> i \<Longrightarrow> m' i = m i"
  shows "blocks m' a us" "blocks m' (a + total_size us + n) vs"
proof -
  show "blocks m' a us"
    using assms(1,3) meta_range [OF assms(1)] by (subst blocks_cong [of a us m' m]) auto
  show "blocks m' (a + total_size us + n) vs"
    using assms(2,3) meta_range [OF assms(2)] by (subst blocks_cong [of _ vs m' m]) auto
qed

lemma split_ok:
  assumes ok: "heap_ok m fl a (us @ (n, False) # vs)" and x: "x = a + total_size us"
    and k: "12 \<le> k" "4 dvd k" "k + 12 \<le> n" and y: "y = x + (n - k)"
    and m1: "m1 = set_dog x MEM_BLOCK_STAT_FREE (set_blk_size x (n - k) m)"
    and m2: "m2 = set_dog y MEM_BLOCK_STAT_USE (set_blk_size y k m1)"
  shows "heap_ok m2 fl a (us @ (n - k, False) # (k, True) # vs)" "blk_size m1 x = n - k" "blk_size m2 y = k"
    "i \<notin> free_bytes a (us @ (n, False) # vs) \<Longrightarrow> m2 i = m i"
proof -
  note d = heap_okD [OF ok, folded x]
  have yk: "y + k = x + n" "x + 12 \<le> y" "x + n < 2 ^ 32" using y k d(5) by auto
  have s1: "rd32 (set_blk_size x (n - k) m) x = n - k" using d(5) by (simp add: set_blk_size_def rd32_wr32_same)
  then have "MEM_DOG_ADDR (set_blk_size x (n - k) m) x = y - 1"
    using yk y by (simp add: MEM_DOG_ADDR_def blk_size_def add32_small sub32_small)
  then have m1': "m1 = (set_blk_size x (n - k) m)(y - 1 := MEM_BLOCK_STAT_FREE)" by (simp add: m1 set_dog_def)
  have r1: "rd32 m1 x = n - k"
    using yk by (intro rd32_cong [THEN trans, OF _ s1]) (auto simp: m1')
  then show "blk_size m1 x = n - k" by (simp add: blk_size_def)
  have s2: "rd32 (set_blk_size y k m1) y = k" using yk by (simp add: set_blk_size_def rd32_wr32_same)
  then have "MEM_DOG_ADDR (set_blk_size y k m1) y = x + n - 1"
    using yk k by (simp add: MEM_DOG_ADDR_def blk_size_def add32_small sub32_small)
  then have m2': "m2 = (set_blk_size y k m1)(x + n - 1 := MEM_BLOCK_STAT_USE)" by (simp add: m2 set_dog_def)
  have o1: "m1 i = m i" if "i < x \<or> x + 4 \<le> i" "i \<noteq> y - 1" for i using that by (simp add: m1' set_blk_size_def wr32_other)
  have o2: "m2 i = m1 i" if "i < y \<or> y + 4 \<le> i" "i \<noteq> x + n - 1" for i using that by (simp add: m2' set_blk_size_def wr32_other)
  have out: "m2 i = m i" if "i < x \<or> x + n \<le> i \<or> x + 4 \<le> i \<and> i < x + 8" for i
  proof -
    have "i < y \<or> y + 4 \<le> i" "i \<noteq> x + n - 1" "i < x \<or> x + 4 \<le> i" "i \<noteq> y - 1" using that yk k by auto
    then show ?thesis using o1 o2 by simp
  qed
  have r2: "rd32 m2 x = n - k"
    using yk by (intro rd32_cong [THEN trans, OF _ r1] o2) auto
  have r3: "rd32 m2 y = k"
    using yk k by (intro rd32_cong [THEN trans, OF _ s2]) (auto simp: m2')
  then show "blk_size m2 y = k" by (simp add: blk_size_def)
  have g1: "m2 (y - 1) = dog_of False"
    using yk k o2 [of "y - 1"] by (simp add: m1' dog_of_def)
  have g2: "m2 (x + n - 1) = dog_of True" by (simp add: m2' dog_of_def)
  show "m2 i = m i" if "i \<notin> free_bytes a (us @ (n, False) # vs)" for i
    using that x by (intro out) (auto simp: free_bytes_append)
  have b: "blocks m2 a us" "blocks m2 (x + n) vs"
    using around [of m a us n vs m2, folded x] d(7,8) out by auto
  have "4 dvd n - k" "12 \<le> n - k" using d(4) k by (simp_all add: dvd_diff_nat)
  then have "blocks m2 a (us @ (n - k, False) # (k, True) # vs)"
    using b r2 r3 g1 g2 k yk by (simp add: blocks_append x [symmetric] y [symmetric])
  moreover have "frees a (us @ (n - k, False) # (k, True) # vs) = frees a (us @ (n, False) # vs)"
    using yk by (simp add: frees_append x [symmetric] y [symmetric])
  moreover have "fchain m2 fl (frees a (us @ (n, False) # vs)) 0 \<longleftrightarrow> fchain m fl (frees a (us @ (n, False) # vs)) 0"
  proof (rule fchain_cong)
    fix z i assume z: "z \<in> set (frees a (us @ (n, False) # vs))" "z + 4 \<le> i" "i < z + 8"
    then consider "z \<in> set (frees a us)" | "z = x" | "z \<in> set (frees (x + n) vs)"
      by (auto simp: frees_append x [symmetric])
    then show "m2 i = m i"
      using z(2,3) frees_range [OF d(7), of z] frees_range [OF d(8), of z] x by cases (auto intro!: out)
  qed
  ultimately show "heap_ok m2 fl a (us @ (n - k, False) # (k, True) # vs)"
    using d(5,9,10) k x by (simp add: heap_ok_def)
qed

text \<open>
  Handing out a whole block: it is taken out of the chain and marked.
\<close>

lemma take_ok:
  assumes ok: "heap_ok m fl a (us @ (n, False) # vs)" and x: "x = a + total_size us"
    and pre: "pre = (if frees a us = [] then 0 else last (frees a us))"
    and m1: "m1 = (if pre \<noteq> 0 then set_blk_next pre (blk_next m x) m else m)"
    and fl': "fl' = (if pre \<noteq> 0 then fl else blk_next m x)"
    and m2: "m2 = set_dog x MEM_BLOCK_STAT_USE m1"
  shows "heap_ok m2 fl' a (us @ (n, True) # vs)" "blk_size m2 x = n"
    "i \<notin> free_bytes a (us @ (n, False) # vs) \<Longrightarrow> m2 i = m i"
proof -
  note d = heap_okD [OF ok, folded x]
  have pre0: "pre \<noteq> 0 \<longleftrightarrow> frees a us \<noteq> []" and prein: "frees a us \<noteq> [] \<Longrightarrow> pre \<in> set (frees a us)"
    using frees_range [OF d(7), of "last (frees a us)"] d(10) by (auto simp: pre)
  have preb: "frees a us \<noteq> [] \<Longrightarrow> a \<le> pre \<and> pre + 12 \<le> x" using frees_range [OF d(7), of pre] prein x by auto
  have o1: "m1 i = m i" if "frees a us \<noteq> [] \<Longrightarrow> i < pre + 4 \<or> pre + 8 \<le> i" for i
    using that pre0 by (auto simp: m1 set_blk_next_def wr32_other)
  have r1: "rd32 m1 x = n"
  proof -
    have "rd32 m1 x = rd32 m x" using preb by (intro rd32_cong o1) auto
    then show ?thesis using d(1) by (simp add: blk_size_def)
  qed
  then have "MEM_DOG_ADDR m1 x = x + n - 1"
    using d(3,5) by (simp add: MEM_DOG_ADDR_def blk_size_def add32_small sub32_small)
  then have m2': "m2 = m1(x + n - 1 := MEM_BLOCK_STAT_USE)" by (simp add: m2 set_dog_def)
  have o2: "m2 i = m i" if "i \<noteq> x + n - 1" "frees a us \<noteq> [] \<Longrightarrow> i < pre + 4 \<or> pre + 8 \<le> i" for i
    using o1 [of i] that by (simp add: m2')
  have r2: "rd32 m2 x = n"
    using d(3) by (intro rd32_cong [THEN trans, OF _ r1]) (auto simp: m2')
  then show "blk_size m2 x = n" by (simp add: blk_size_def)
  show "m2 i = m i" if i: "i \<notin> free_bytes a (us @ (n, False) # vs)" for i
  proof (rule o2)
    show "i \<noteq> x + n - 1" using i x d(3) by (auto simp: free_bytes_append)
    show "i < pre + 4 \<or> pre + 8 \<le> i" if "frees a us \<noteq> []"
      using i free_gap [OF d(7) prein [OF that], of i] by (auto simp: free_bytes_append)
  qed
  have "blocks m2 a us \<longleftrightarrow> blocks m a us"
  proof (rule blocks_cong)
    fix i assume i: "i \<in> meta a us"
    then have "i < x" using meta_range [OF d(7)] x by auto
    moreover have "frees a us \<noteq> [] \<Longrightarrow> i < pre + 4 \<or> pre + 8 \<le> i"
      using links_not_meta [OF d(7) prein, of i] i by (meson not_less)
    ultimately show "m2 i = m i" using d(3) by (intro o2) auto
  qed
  moreover have "blocks m2 (x + n) vs \<longleftrightarrow> blocks m (x + n) vs"
  proof (rule blocks_cong)
    fix i assume "i \<in> meta (x + n) vs"
    then have "x + n \<le> i" using meta_range [OF d(8)] by auto
    then show "m2 i = m i" using preb d(3) by (intro o2) auto
  qed
  ultimately have "blocks m2 a (us @ (n, True) # vs)"
    using d(3,4,7,8) r2 by (simp add: blocks_append x [symmetric] m2' dog_of_def)
  moreover have "fchain m2 fl' (frees a us @ frees (x + n) vs) 0"
  proof -
    have c: "fchain m fl (frees a us @ x # frees (x + n) vs) 0" using d(9) by (simp add: frees_append x [symmetric])
    have "fchain m2 (if frees a us = [] then rd32 m (x + 4) else fl) (frees a us @ frees (x + n) vs) 0"
    proof (rule fchain_link_out [OF c])
      fix y i assume y: "y \<in> set (butlast (frees a us) @ frees (x + n) vs)" "y + 4 \<le> i" "i < y + 8"
      show "m2 i = m i"
      proof (cases "y \<in> set (frees (x + n) vs)")
        case True
        then show ?thesis using y frees_range [OF d(8), of y] preb d(3) by (intro o2) auto
      next
        case False
        then have yb: "y \<in> set (butlast (frees a us))" using y(1) by simp
        then have "y \<in> set (frees a us)" by (rule in_set_butlastD)
        then have yr: "a \<le> y" "y + 12 \<le> x" using frees_range [OF d(7), of y] x by auto
        have "y + 12 \<le> pre"
          using frees_sorted [OF d(7)] yb pre
          by (cases "frees a us" rule: rev_cases) (auto simp: sorted_wrt_append)
        then show ?thesis using yr y d(3) by (intro o2) auto
      qed
    next
      show "rd32 m2 (last (frees a us) + 4) = rd32 m (x + 4)" if "frees a us \<noteq> []"
      proof -
        have "rd32 m2 (pre + 4) = rd32 m1 (pre + 4)" using preb [OF that] d(3) by (intro rd32_cong) (auto simp: m2')
        then show ?thesis
          using that pre0 rd32_less [of m "x + 4"] by (simp add: pre m1 set_blk_next_def blk_next_def rd32_wr32_same)
      qed
    qed
    then show ?thesis using pre0 by (auto simp: fl' blk_next_def split: if_splits)
  qed
  ultimately show "heap_ok m2 fl' a (us @ (n, True) # vs)"
    using d(5,10) x by (simp add: heap_ok_def frees_append)
qed

section \<open>The search\<close>

definition is_pred :: "nat list \<Rightarrow> nat \<Rightarrow> nat \<Rightarrow> bool" where
  "is_pred fs p x \<longleftrightarrow> (\<exists>us vs. fs = us @ x # vs \<and> p = (if us = [] then 0 else last us))"

lemma fit_scan_ok:
  "fs = ds @ rest \<Longrightarrow> ds \<noteq> [] \<Longrightarrow> fchain m q rest 0 \<Longrightarrow> 0 \<notin> set rest \<Longrightarrow> is_pred fs pre this \<Longrightarrow> sz \<le> blk_size m this \<Longrightarrow>
     \<exists>pre' this'. fit_scan m sz pre this k (last ds) q = Some (pre', this') \<and> is_pred fs pre' this' \<and> sz \<le> blk_size m this'"
proof (induction rest arbitrary: ds q pre this k)
  case Nil
  then show ?case by (subst fit_scan.simps) auto
next
  case (Cons r rs)
  have q: "q = r" "r \<noteq> 0" "fchain m (blk_next m r) rs 0" using Cons.prems(3,4) by (auto simp: blk_next_def)
  define better where "better \<longleftrightarrow> sz \<le> blk_size m r \<and> blk_size m r \<le> blk_size m this"
  let ?pre = "if better then last ds else pre" and ?blk = "if better then r else this"
  have pr: "is_pred fs ?pre ?blk" "sz \<le> blk_size m ?blk"
    using Cons.prems(1,2,5,6) by (auto simp: better_def is_pred_def)
  have "\<exists>pre' this'. fit_scan m sz ?pre ?blk (if better then k + 1 else k) (last (ds @ [r])) (blk_next m r) = Some (pre', this') \<and>
      is_pred fs pre' this' \<and> sz \<le> blk_size m this'"
    using Cons.prems(1,4) by (intro Cons.IH) (use q pr in auto)
  then show ?case
    using q(1,2) pr by (subst fit_scan.simps) (auto simp: Let_def better_def [symmetric])
qed

lemma chunk_scan_ok:
  "fs = ds @ rest \<Longrightarrow> fchain m q rest 0 \<Longrightarrow> 0 \<notin> set rest \<Longrightarrow>
     (\<exists>pre this. chunk_scan m sz (last (0 # ds)) q = Some (Some (pre, this)) \<and> is_pred fs pre this \<and> sz \<le> blk_size m this) \<or>
     chunk_scan m sz (last (0 # ds)) q = Some None \<and> (\<forall>x \<in> set rest. blk_size m x < sz)"
proof (induction rest arbitrary: ds q)
  case Nil
  then show ?case by (subst chunk_scan.simps) auto
next
  case (Cons r rs)
  have q: "q = r" "r \<noteq> 0" "fchain m (blk_next m r) rs 0" using Cons.prems(2,3) by (auto simp: blk_next_def)
  show ?case
  proof (cases "sz \<le> blk_size m r")
    case True
    have "is_pred fs (last (0 # ds)) r" using Cons.prems(1) by (auto simp: is_pred_def)
    then have "\<exists>pre this. fit_scan m sz (last (0 # ds)) r 0 (last (ds @ [r])) (blk_next m r) = Some (pre, this) \<and>
        is_pred fs pre this \<and> sz \<le> blk_size m this"
      using Cons.prems(1,3) q True by (intro fit_scan_ok [where rest = rs]) auto
    then show ?thesis using q True by (subst (1 2) chunk_scan.simps) auto
  next
    case False
    have "chunk_scan m sz (last (0 # ds)) q = chunk_scan m sz (last (0 # ds @ [r])) (blk_next m r)"
      using q False by (subst chunk_scan.simps) simp
    moreover have "fs = (ds @ [r]) @ rs" "0 \<notin> set rs" using Cons.prems(1,3) by auto
    ultimately show ?thesis using Cons.IH [of "ds @ [r]" "blk_next m r"] q False by auto
  qed
qed

lemma is_pred_frees:
  assumes "is_pred (frees a bs) p x" and "blocks m a bs"
  obtains us n vs where "bs = us @ (n, False) # vs" and "x = a + total_size us" and "p = (if frees a us = [] then 0 else last (frees a us))"
proof -
  obtain ps qs where f: "frees a bs = ps @ x # qs" "p = (if ps = [] then 0 else last ps)"
    using assms(1) by (auto simp: is_pred_def)
  then obtain us n vs where bs: "bs = us @ (n, False) # vs" "x = a + total_size us" using frees_split [of x a bs] by auto
  have "distinct (ps @ x # qs)" using frees_distinct [OF assms(2)] f(1) by simp
  then have "x \<notin> set ps" "x \<notin> set qs" by auto
  moreover have "ps @ x # qs = frees a us @ x # frees (x + n) vs" using bs f(1) by (simp add: frees_append)
  ultimately have "ps = frees a us" using append_Cons_eq_iff [of x ps qs "frees a us" "frees (x + n) vs"] by blast
  then show thesis using bs f(2) by (intro that) auto
qed

text \<open>
  What an allocation does to the list of blocks: a free block that is large enough is cut, with
  the end of it handed out, or handed out as a whole.
\<close>

definition carved :: "nat \<Rightarrow> block list \<Rightarrow> nat \<Rightarrow> nat \<Rightarrow> nat \<Rightarrow> block list \<Rightarrow> bool" where
  "carved a bs k x n' bs' \<longleftrightarrow> (\<exists>us n vs. bs = us @ (n, False) # vs \<and> k \<le> n \<and>
     (if 28 \<le> n - k then bs' = us @ (n - k, False) # (k, True) # vs \<and> x = a + total_size us + (n - k) \<and> n' = k
      else bs' = us @ (n, True) # vs \<and> x = a + total_size us \<and> n' = n))"

lemma mem_chunk_get_ok:
  assumes ok: "heap_ok m (mh_free_list h) a bs" and k: "12 \<le> k" "4 dvd k"
  shows "(mem_chunk_get k h m = Some (0, h, m) \<and> (\<forall>(n, u) \<in> set bs. \<not> u \<longrightarrow> n < k)) \<or>
    (\<exists>x n fl m' bs'. mem_chunk_get k h m = Some (x, h\<lparr>mh_free_list := fl\<rparr>, m') \<and> carved a bs k x n bs' \<and>
       heap_ok m' fl a bs' \<and> blk_size m' x = n \<and> x \<noteq> 0 \<and> (\<forall>i. i \<notin> free_bytes a bs \<longrightarrow> m' i = m i))"
proof -
  have b: "blocks m a bs" "fchain m (mh_free_list h) (frees a bs) 0" "0 < a" using ok by (auto simp: heap_ok_def)
  have nz: "0 \<notin> set (frees a bs)" using frees_range [OF b(1), of 0] b(3) by auto
  consider (found) pre this where "chunk_scan m k 0 (mh_free_list h) = Some (Some (pre, this))"
      "is_pred (frees a bs) pre this" "k \<le> blk_size m this"
    | (none) "chunk_scan m k 0 (mh_free_list h) = Some None" "\<forall>x \<in> set (frees a bs). blk_size m x < k"
    using chunk_scan_ok [of "frees a bs" "[]" "frees a bs" m "mh_free_list h" k] b nz by auto
  then show ?thesis
  proof cases
    case none
    have "n < k" if "(n, False) \<in> set bs" for n
    proof -
      have "\<exists>us vs. bs = us @ (n, False) # vs" using that by (rule split_list)
      then obtain us vs where bs: "bs = us @ (n, False) # vs" by blast
      then have "a + total_size us \<in> set (frees a bs)" by (simp add: frees_append)
      then have "blk_size m (a + total_size us) < k" using none(2) by blast
      then show ?thesis using heap_okD(1) [OF ok [unfolded bs]] by simp
    qed
    then show ?thesis using none(1) by (auto simp: mem_chunk_get_def)
  next
    case found
    from found(2) b(1) obtain us n vs where bs: "bs = us @ (n, False) # vs" and x: "this = a + total_size us"
      and pre: "pre = (if frees a us = [] then 0 else last (frees a us))" by (rule is_pred_frees)
    note ok' = ok [unfolded bs]
    note d = heap_okD [OF ok', folded x]
    have kn: "k \<le> n" using found(3) d(1) by simp
    have sub: "sub32 (blk_size m this) k = n - k" using d(1,5) kn by (simp add: sub32_small)
    show ?thesis
    proof (cases "28 \<le> n - k")
      case True
      define y where "y = this + (n - k)"
      define m1 where "m1 = set_dog this MEM_BLOCK_STAT_FREE (set_blk_size this (n - k) m)"
      define m2 where "m2 = set_dog y MEM_BLOCK_STAT_USE (set_blk_size y k m1)"
      have kk: "k + 12 \<le> n" using True by simp
      note s = split_ok [OF ok' x k kk y_def m1_def m2_def]
      have "add32 this (blk_size m1 this) = y" using s(2) d(5) by (simp add: y_def add32_small)
      then have "mem_chunk_get k h m = Some (y, h, m2)"
        using True found(1) sub by (simp add: mem_chunk_get_def Let_def heap_consts m1_def [symmetric] m2_def [symmetric])
      moreover have "carved a bs k y k (us @ (n - k, False) # (k, True) # vs)"
        unfolding carved_def using True bs x kn by (intro exI [of _ us] exI [of _ n] exI [of _ vs]) (simp add: y_def)
      moreover have "y \<noteq> 0" using b(3) x by (simp add: y_def)
      moreover have "h = h\<lparr>mh_free_list := mh_free_list h\<rparr>" by simp
      ultimately show ?thesis using s(1,3,4) unfolding bs by metis
    next
      case False
      define m1 where "m1 = (if pre \<noteq> 0 then set_blk_next pre (blk_next m this) m else m)"
      define fl where "fl = (if pre \<noteq> 0 then mh_free_list h else blk_next m this)"
      define m2 where "m2 = set_dog this MEM_BLOCK_STAT_USE m1"
      note s = take_ok [OF ok' x pre m1_def fl_def m2_def]
      have "mem_chunk_get k h m = Some (this, h\<lparr>mh_free_list := fl\<rparr>, m2)"
        using False found(1) sub by (simp add: mem_chunk_get_def Let_def heap_consts m1_def fl_def m2_def)
      moreover have "carved a bs k this n (us @ (n, True) # vs)"
        unfolding carved_def using False bs x kn by (intro exI [of _ us] exI [of _ n] exI [of _ vs]) simp
      moreover have "this \<noteq> 0" using b(3) x by simp
      ultimately show ?thesis using s unfolding bs by metis
    qed
  qed
qed

end
