(* ===== verification/Mem_Free.thy ===== *)
theory Mem_Free
  imports Mem_Alloc
begin

text \<open>
  Release: the search for the place of the block, linking it in and merging it with the free
  blocks around it.
\<close>

lemma wr32_commute: "a + 4 \<le> b \<or> b + 4 \<le> a \<Longrightarrow> wr32 (wr32 m a v) b w = wr32 (wr32 m b w) a v"
  by (auto simp: wr32_def Let_def fun_eq_iff)

lemma fchain_next: "fchain m p xs q \<Longrightarrow> xs \<noteq> [] \<Longrightarrow> rd32 m (last xs + 4) = q"
  by (induction xs arbitrary: p) auto

lemma place_scan_ok:
  "fchain m q (ps @ qs) 0 \<Longrightarrow> 0 \<notin> set (ps @ qs) \<Longrightarrow> \<forall>y \<in> set ps. y < x \<Longrightarrow> \<forall>y \<in> set qs. x \<le> y \<Longrightarrow>
     place_scan m x p q = Some (last (p # ps), hd (qs @ [0]))"
proof (induction ps arbitrary: p q)
  case Nil
  then show ?case by (cases qs) (auto simp: place_scan.simps)
next
  case (Cons r rs)
  have "place_scan m x r (rd32 m (r + 4)) = Some (last (r # rs), hd (qs @ [0]))"
    using Cons.prems by (intro Cons.IH) auto
  then show ?case using Cons.prems by (subst place_scan.simps) (auto simp: blk_next_def)
qed

text \<open>
  Linking a block in: it is marked, its link is set and that of the free block in front of it.
\<close>

lemma link_ok:
  assumes ok: "heap_ok m fl a (us @ (n, True) # vs)" and x: "x = a + total_size us"
    and pre: "pre = (if frees a us = [] then 0 else last (frees a us))" and nx: "nx = hd (frees (x + n) vs @ [0])"
    and m1: "m1 = m(x + n - 1 := MEM_BLOCK_STAT_FREE)" and m2: "m2 = set_blk_next x nx m1"
    and m3: "m3 = (if pre \<noteq> 0 then set_blk_next pre x m2 else m2)" and fl': "fl' = (if pre \<noteq> 0 then fl else x)"
  shows "heap_ok m3 fl' a (us @ (n, False) # vs)"
    "i \<notin> free_bytes a (us @ (n, False) # vs) \<Longrightarrow> m3 i = m i"
proof -
  note d = heap_okD [OF ok, folded x]
  have pre0: "pre \<noteq> 0 \<longleftrightarrow> frees a us \<noteq> []" and prein: "frees a us \<noteq> [] \<Longrightarrow> pre \<in> set (frees a us)"
    using frees_range [OF d(7), of "last (frees a us)"] d(10) by (auto simp: pre)
  have preb: "frees a us \<noteq> [] \<Longrightarrow> a \<le> pre \<and> pre + 12 \<le> x" using frees_range [OF d(7), of pre] prein x by auto
  have nxl: "nx < 2 ^ 32"
    using frees_range [OF d(8), of nx] d(5) by (cases "frees (x + n) vs") (auto simp: nx)
  have o2: "m2 i = m i" if "i \<noteq> x + n - 1" "i < x + 4 \<or> x + 8 \<le> i" for i
    using that by (auto simp: m2 m1 set_blk_next_def wr32_other)
  have o3: "m3 i = m2 i" if "frees a us \<noteq> [] \<Longrightarrow> i < pre + 4 \<or> pre + 8 \<le> i" for i
    using that pre0 by (auto simp: m3 set_blk_next_def wr32_other)
  have low: "m3 i = m i" if "i < x" "frees a us \<noteq> [] \<Longrightarrow> i < pre + 4 \<or> pre + 8 \<le> i" for i
    using that d(3) o2 [of i] o3 [of i] by auto
  have high: "m3 i = m i" if "x + n \<le> i" for i
  proof -
    have "m2 i = m i" using that d(3) by (intro o2) auto
    moreover have "m3 i = m2 i" using that preb by (intro o3) auto
    ultimately show ?thesis by simp
  qed
  have size: "m3 i = m i" if "x \<le> i" "i < x + 4" for i
  proof -
    have "m2 i = m i" using that d(3) by (intro o2) auto
    moreover have "m3 i = m2 i" using that preb by (intro o3) auto
    ultimately show ?thesis by simp
  qed
  show "m3 i = m i" if i: "i \<notin> free_bytes a (us @ (n, False) # vs)" for i
  proof (cases "i < x")
    case True
    then show ?thesis
      using i free_gap [OF d(7) prein, of i] by (intro low) (auto simp: free_bytes_append)
  next
    case False
    then show ?thesis using i x by (intro high) (auto simp: free_bytes_append)
  qed
  have "blocks m3 a us \<longleftrightarrow> blocks m a us"
  proof (rule blocks_cong)
    fix i assume i: "i \<in> meta a us"
    then have "i < x" using meta_range [OF d(7)] x by auto
    moreover have "frees a us \<noteq> [] \<Longrightarrow> i < pre + 4 \<or> pre + 8 \<le> i"
      using links_not_meta [OF d(7) prein, of i] i by (meson not_less)
    ultimately show "m3 i = m i" by (rule low)
  qed
  moreover have "blocks m3 (x + n) vs \<longleftrightarrow> blocks m (x + n) vs"
    using meta_range [OF d(8)] by (intro blocks_cong high) auto
  moreover have "rd32 m3 x = n" using d(1) rd32_cong [of x m3 m] size by (simp add: blk_size_def)
  moreover have "m3 (x + n - 1) = MEM_BLOCK_STAT_FREE"
  proof -
    have "m3 (x + n - 1) = m2 (x + n - 1)" using d(3) preb by (intro o3) auto
    moreover have "m2 (x + n - 1) = m1 (x + n - 1)" unfolding m2 set_blk_next_def using d(3) by (intro wr32_other) auto
    ultimately show ?thesis by (simp add: m1)
  qed
  ultimately have "blocks m3 a (us @ (n, False) # vs)"
    using d(3,4,7,8) by (simp add: blocks_append x [symmetric] dog_of_def)
  moreover have "fchain m3 fl' (frees a us @ x # frees (x + n) vs) 0"
  proof -
    have c: "fchain m fl (frees a us @ frees (x + n) vs) 0" using d(9) by (simp add: frees_append x [symmetric])
    have "fchain m3 (if frees a us = [] then x else fl) (frees a us @ x # frees (x + n) vs) 0"
    proof (rule fchain_link_in [OF c])
      fix y i assume y: "y \<in> set (butlast (frees a us) @ frees (x + n) vs)" "y + 4 \<le> i" "i < y + 8"
      show "m3 i = m i"
      proof (cases "y \<in> set (frees (x + n) vs)")
        case True
        then show ?thesis using y frees_range [OF d(8), of y] by (intro high) auto
      next
        case False
        then have yb: "y \<in> set (butlast (frees a us))" using y(1) by simp
        then have "y \<in> set (frees a us)" by (rule in_set_butlastD)
        then have yr: "a \<le> y" "y + 12 \<le> x" using frees_range [OF d(7), of y] x by auto
        have "y + 12 \<le> pre"
          using frees_sorted [OF d(7)] yb pre
          by (cases "frees a us" rule: rev_cases) (auto simp: sorted_wrt_append)
        then show ?thesis using yr y by (intro low) auto
      qed
    next
      have "rd32 m3 (x + 4) = rd32 m2 (x + 4)" using preb by (intro rd32_cong o3) auto
      then show "rd32 m3 (x + 4) = hd (frees (x + n) vs @ [0])"
        using nxl by (simp add: m2 set_blk_next_def rd32_wr32_same nx)
      show "rd32 m3 (last (frees a us) + 4) = x" if "frees a us \<noteq> []"
        using that pre0 d(5) by (simp add: pre m3 set_blk_next_def rd32_wr32_same)
    qed
    then show ?thesis using pre0 by (auto simp: fl' split: if_splits)
  qed
  ultimately show "heap_ok m3 fl' a (us @ (n, False) # vs)"
    using d(5,10) x by (simp add: heap_ok_def frees_append)
qed

text \<open>
  Merging two free blocks that are neighbours.
\<close>

lemma merge_ok:
  assumes ok: "heap_ok m fl a (us @ (k, False) # (n, False) # vs)" and x: "x = a + total_size us"
    and m1: "m1 = set_blk_next x (blk_next m (x + k)) (set_blk_size x (k + n) m)"
  shows "heap_ok m1 fl a (us @ (k + n, False) # vs)"
    "i \<notin> free_bytes a (us @ (k + n, False) # vs) \<Longrightarrow> m1 i = m i"
proof -
  note d = heap_okD [OF ok, folded x]
  have k: "12 \<le> k" "12 \<le> n" "4 dvd n" "blocks m (x + k + n) vs" "m (x + k + n - 1) = dog_of False"
    using d(3,8) by auto
  have tot: "x + k + n + total_size vs < 2 ^ 32" using d(5) by simp
  have out: "m1 i = m i" if "i < x \<or> x + 8 \<le> i" for i
    using that by (auto simp: m1 set_blk_next_def set_blk_size_def wr32_other)
  show "m1 i = m i" if "i \<notin> free_bytes a (us @ (k + n, False) # vs)" for i
    using that k x by (intro out) (auto simp: free_bytes_append)
  have b: "blocks m1 a us" "blocks m1 (x + (k + n)) vs"
  proof -
    have "m1 i = m i" if "i < a + total_size us \<or> a + total_size us + (k + n) \<le> i" for i
      using that k x by (intro out) auto
    then show "blocks m1 a us" "blocks m1 (x + (k + n)) vs"
      using around [of m a us "k + n" vs m1] d(7) k(4) by (simp_all add: add.assoc x)
  qed
  have r: "rd32 m1 x = k + n" "rd32 m1 (x + 4) = rd32 m (x + k + 4)"
    using tot rd32_less [of m "x + k + 4"]
    by (simp_all add: m1 set_blk_next_def set_blk_size_def blk_next_def rd32_wr32_same rd32_wr32_other)
  have "m1 (x + k + n - 1) = m (x + k + n - 1)" using k by (intro out) auto
  then have "m1 (x + (k + n) - 1) = dog_of False" using k(5) by (simp add: add.assoc)
  then have "blocks m1 a (us @ (k + n, False) # vs)"
    using b r k d(4) by (simp add: blocks_append x [symmetric])
  moreover have "fchain m1 fl (frees a us @ x # frees (x + k + n) vs) 0"
  proof -
    have c: "fchain m fl (frees a us @ x # (x + k) # frees (x + k + n) vs) 0"
      using d(9) by (simp add: frees_append x [symmetric])
    then have c': "fchain m fl (frees a us) x" "fchain m (rd32 m (x + k + 4)) (frees (x + k + n) vs) 0"
      by (auto simp: fchain_append)
    have "fchain m1 fl (frees a us) x \<longleftrightarrow> fchain m fl (frees a us) x"
      using frees_range [OF d(7)] x by (intro fchain_cong out) fastforce
    moreover have "fchain m1 q (frees (x + k + n) vs) 0 \<longleftrightarrow> fchain m q (frees (x + k + n) vs) 0" for q
      using frees_range [OF k(4)] k(1) by (intro fchain_cong out) fastforce
    ultimately show ?thesis using c' r(2) by (auto simp: fchain_append)
  qed
  ultimately show "heap_ok m1 fl a (us @ (k + n, False) # vs)"
    using d(10) tot x by (simp add: heap_ok_def frees_append add.assoc)
qed

section \<open>The blocks after a release\<close>

fun join_next :: "nat \<Rightarrow> block list \<Rightarrow> block list" where
  "join_next n ((k, False) # vs) = (n + k, False) # vs"
| "join_next n vs = (n, False) # vs"

definition released :: "block list \<Rightarrow> nat \<Rightarrow> block list \<Rightarrow> block list" where
  "released us n vs =
     (if us \<noteq> [] \<and> \<not> snd (last us) then butlast us @ join_next (fst (last us) + n) vs else us @ join_next n vs)"

lemma next_free:
  assumes "blocks m y vs" and "0 < y"
  shows "hd (frees y vs @ [0]) = y \<longleftrightarrow> (\<exists>k vs'. vs = (k, False) # vs')"
proof (cases vs)
  case (Cons b bs)
  obtain k u where b: "b = (k, u)" by (cases b)
  show ?thesis
  proof (cases u)
    case True
    have "blocks m (y + k) bs" "12 \<le> k" using assms(1) Cons b by auto
    then have "hd (frees (y + k) bs @ [0]) \<noteq> y"
      using frees_range [of m "y + k" bs "hd (frees (y + k) bs)"] assms(2) by (cases "frees (y + k) bs") auto
    then show ?thesis using Cons b True by simp
  qed (simp add: Cons b)
qed (use assms(2) in simp)

lemma join_ok:
  assumes ok: "heap_ok m fl a (us @ (n, False) # vs)" and x: "x = a + total_size us"
    and nx: "nx = hd (frees (x + n) vs @ [0])"
    and m': "m' = merge_next x nx m"
  shows "heap_ok m' fl a (us @ join_next n vs)" "i \<notin> free_bytes a (us @ join_next n vs) \<Longrightarrow> m' i = m i"
proof -
  note d = heap_okD [OF ok, folded x]
  have sz: "add32 x (blk_size m x) = x + n" using d(1,5) by (simp add: add32_small)
  have nf: "nx = x + n \<longleftrightarrow> (\<exists>k vs'. vs = (k, False) # vs')" using next_free [OF d(8)] d(3) nx by simp
  have "heap_ok m' fl a (us @ join_next n vs) \<and> (i \<notin> free_bytes a (us @ join_next n vs) \<longrightarrow> m' i = m i)"
  proof (cases "nx = x + n")
    case False
    then have "join_next n vs = (n, False) # vs" using nf by (cases "(n, vs)" rule: join_next.cases) auto
    then show ?thesis using False ok sz by (simp add: m' merge_next_def)
  next
    case True
    then obtain k vs' where vs: "vs = (k, False) # vs'" using nf by blast
    have k: "blk_size m nx = k" "x + n + k < 2 ^ 32" "12 \<le> n" using True d(3,5,8) vs by (auto simp: blk_size_def)
    have "blk_next (set_blk_size x (n + k) m) nx = blk_next m nx"
      using True k by (simp add: blk_next_def set_blk_size_def rd32_wr32_other)
    then have "m' = set_blk_next x (blk_next m (x + n)) (set_blk_size x (n + k) m)"
      using True d(1) sz k by (simp add: m' merge_next_def Let_def add32_small)
    from merge_ok [OF ok [unfolded vs] x this] show ?thesis using vs by simp
  qed
  then show "heap_ok m' fl a (us @ join_next n vs)" "i \<notin> free_bytes a (us @ join_next n vs) \<Longrightarrow> m' i = m i" by auto
qed

lemma last_free:
  assumes b: "blocks m a us" and ne: "frees a us \<noteq> []" and p: "p = last (frees a us)"
  shows "p + blk_size m p = a + total_size us \<longleftrightarrow> us \<noteq> [] \<and> \<not> snd (last us)"
    "us \<noteq> [] \<Longrightarrow> \<not> snd (last us) \<Longrightarrow> p = a + total_size (butlast us)"
    "p + blk_size m p \<le> a + total_size us"
proof -
  obtain us1 k us2 where us: "us = us1 @ (k, False) # us2" and p': "p = a + total_size us1"
    using frees_split [of p a us] ne p by auto
  have b': "rd32 m p = k" "blocks m (p + k) us2" using b us p' by (auto simp: blocks_append)
  have "frees (p + k) us2 = []"
  proof (rule ccontr)
    assume n: "frees (p + k) us2 \<noteq> []"
    then have "last (frees (p + k) us2) = p" using p us p' by (simp add: frees_append)
    then have "p \<in> set (frees (p + k) us2)" using n last_in_set by fastforce
    moreover have "12 \<le> k" using b us by (auto simp: blocks_append)
    ultimately show False using frees_range [OF b'(2)] by fastforce
  qed
  moreover have "frees q us2 = [] \<Longrightarrow> us2 = [] \<or> snd (last us2)" for q
    by (induction q us2 rule: meta.induct) (auto split: if_splits)
  ultimately have "us2 = [] \<or> snd (last us2)" by blast
  moreover have "0 < total_size us2" if "us2 \<noteq> []" using that b'(2) by (cases us2) auto
  ultimately show "p + blk_size m p = a + total_size us \<longleftrightarrow> us \<noteq> [] \<and> \<not> snd (last us)"
    "us \<noteq> [] \<Longrightarrow> \<not> snd (last us) \<Longrightarrow> p = a + total_size (butlast us)"
    "p + blk_size m p \<le> a + total_size us"
    using us p' b'(1) by (auto simp: blk_size_def butlast_append)
qed

lemma free_bytes_join: "free_bytes y (join_next n vs) = free_bytes y ((n, False) # vs)"
  by (cases "(n, vs)" rule: join_next.cases) (auto simp: add.assoc)

lemma free_bytes_released: "free_bytes a (released us n vs) = free_bytes a (us @ (n, False) # vs)"
proof (cases us rule: rev_cases)
  case (snoc us0 b)
  then show ?thesis by (cases b) (auto simp: released_def free_bytes_append free_bytes_join add.assoc)
qed (simp add: released_def free_bytes_join)

text \<open>
  The memory after a release. The code merges with the free block in front without linking the
  released block in first; the result is the same.
\<close>

lemma block_release_ok:
  assumes ok: "heap_ok m fs a (us @ (n, True) # vs)" and x: "x = a + total_size us"
    and pre: "pre = (if frees a us = [] then 0 else last (frees a us))" and nx: "nx = hd (frees (x + n) vs @ [0])"
    and m1: "m1 = m(x + n - 1 := MEM_BLOCK_STAT_FREE)" and m2: "m2 = set_blk_next x nx m1"
    and fl: "fl = (if pre \<noteq> 0 then fs else x)" and joined: "joined \<longleftrightarrow> pre \<noteq> 0 \<and> add32 pre (blk_size m2 pre) = x"
    and m4: "m4 = (if pre = 0 then m2 else if joined then set_blk_size pre (add32 (blk_size m2 pre) n) m2 else set_blk_next pre x m2)"
    and p: "p = (if joined then pre else x)"
    and m5: "m5 = merge_next p nx m4"
  shows "heap_ok m5 fl a (released us n vs)" "j \<notin> free_bytes a (released us n vs) \<Longrightarrow> m5 j = m j"
proof -
  note d = heap_okD [OF ok, folded x]
  define m3 where "m3 = (if pre \<noteq> 0 then set_blk_next pre x m2 else m2)"
  note lk = link_ok [OF ok x pre nx m1 m2 m3_def fl]
  have pre0: "pre \<noteq> 0 \<longleftrightarrow> frees a us \<noteq> []" and prein: "frees a us \<noteq> [] \<Longrightarrow> pre \<in> set (frees a us)"
    using frees_range [OF d(7), of "last (frees a us)"] d(10) by (auto simp: pre)
  have preb: "frees a us \<noteq> [] \<Longrightarrow> a \<le> pre \<and> pre + 12 \<le> x" using frees_range [OF d(7), of pre] prein x by auto
  have low: "rd32 m2 y = rd32 m y" if "y + 4 \<le> x" for y
    using that d(3) by (intro rd32_cong) (auto simp: m2 m1 set_blk_next_def wr32_other)
  have J: "joined \<longleftrightarrow> us \<noteq> [] \<and> \<not> snd (last us)"
  proof (cases "frees a us = []")
    case True
    have "frees b us = [] \<Longrightarrow> us = [] \<or> snd (last us)" for b
      by (induction b us rule: meta.induct) (auto split: if_splits)
    then show ?thesis using True pre0 joined by blast
  next
    case False
    then have lp: "pre = last (frees a us)" by (simp add: pre)
    have "blk_size m2 pre = blk_size m pre" using low preb [OF False] by (simp add: blk_size_def)
    then show ?thesis
      using last_free(1,3) [OF d(7) False lp, folded x] d(5) pre0 False by (simp add: joined add32_small)
  qed
  have "heap_ok m5 fl a (released us n vs) \<and> (j \<notin> free_bytes a (released us n vs) \<longrightarrow> m5 j = m j)"
  proof (cases joined)
    case False
    then have m43: "m4 = m3" "p = x" by (auto simp: m4 m3_def p)
    from join_ok [OF lk(1) x nx m5 [unfolded m43]] lk(2)
    show ?thesis using False J by (auto simp: released_def free_bytes_released free_bytes_append free_bytes_join)
  next
    case True
    then obtain us0 k where us: "us = us0 @ [(k, False)]" using J by (cases us rule: rev_cases) auto
    have ne: "frees a us \<noteq> []" by (simp add: us frees_append)
    have p': "p = pre" "pre = a + total_size us0" using True by (auto simp: p pre us frees_append)
    have xk: "x = pre + k" using x us p' by simp
    have k: "blk_size m2 pre = k" using d(7) low [of pre] preb [OF ne] by (simp add: us blocks_append p' blk_size_def)
    have nx32: "nx < 2 ^ 32" using frees_range [OF d(8), of nx] d(5) by (cases "frees (x + n) vs") (auto simp: nx)
    have "fchain m fs (frees a us @ frees (x + n) vs) 0" using d(9) by (simp add: frees_append x [symmetric])
    then obtain r where r: "fchain m fs (frees a us) r" "fchain m r (frees (x + n) vs) 0" by (auto simp: fchain_append)
    have "rd32 m (pre + 4) = nx" using fchain_next [OF r(1) ne] fchain_hd [OF r(2)] ne by (simp add: pre nx)
    then have nxt: "rd32 m2 (pre + 4) = nx" using low [of "pre + 4"] preb [OF ne] by simp
    have "blk_next m3 x = nx"
      using nx32 preb [OF ne] by (simp add: m3_def m2 blk_next_def set_blk_next_def rd32_wr32_other rd32_wr32_same)
    then have "set_blk_next pre (blk_next m3 (pre + k)) (set_blk_size pre (k + n) m3) = set_blk_next pre nx (set_blk_size pre (k + n) m3)"
      by (simp add: xk)
    also have "\<dots> = set_blk_size pre (k + n) (set_blk_next pre nx m3)" unfolding set_blk_next_def set_blk_size_def by (rule wr32_commute) simp
    also have "set_blk_next pre nx m3 = set_blk_next pre nx m2" using pre0 ne by (simp add: m3_def set_blk_next_def wr32_wr32)
    also have "set_blk_next pre nx m2 = m2" using nxt wr32_rd32 [of m2 "pre + 4"] by (simp add: set_blk_next_def)
    finally have "m4 = set_blk_next pre (blk_next m3 (pre + k)) (set_blk_size pre (k + n) m3)"
      using True ne pre0 k d(5) xk by (simp add: m4 add32_small)
    note mg = merge_ok [OF lk(1) [unfolded us append_assoc append_Cons append_Nil] p'(2) this]
    from join_ok [OF mg(1) p'(2) _ m5 [unfolded p'(1)]] mg(2) lk(2)
    show ?thesis by (auto simp: us released_def free_bytes_append free_bytes_join nx xk add.assoc p'(2))
  qed
  then show "heap_ok m5 fl a (released us n vs)" "j \<notin> free_bytes a (released us n vs) \<Longrightarrow> m5 j = m j" by auto
qed

lemma MEM_Deallocate_ok:
  assumes ok: "heap_ok (he_mem env) (mh_free_list (he_list env ! i)) a (us @ (n, True) # vs)"
    and x: "x = a + total_size us"
  shows "\<exists>fl m'. MEM_Deallocate (Some i) (x + 4) env = Some (env\<lparr>he_mem := m',
        he_list := (he_list env)[i := (he_list env ! i)\<lparr>mh_free := add32 (mh_free (he_list env ! i)) n, mh_free_list := fl\<rparr>],
        he_free := add32 (he_free env) n\<rparr>) \<and>
      heap_ok m' fl a (released us n vs) \<and> (\<forall>j. j \<notin> free_bytes a (released us n vs) \<longrightarrow> m' j = he_mem env j)"
proof -
  define m where "m = he_mem env"
  define h where "h = he_list env ! i"
  define fs where "fs = mh_free_list h"
  note ok' = ok [folded m_def h_def, folded fs_def]
  note d = heap_okD [OF ok', folded x]
  define pre where "pre = (if frees a us = [] then 0 else last (frees a us))"
  define nx where "nx = hd (frees (x + n) vs @ [0])"
  define m1 where "m1 = m(x + n - 1 := MEM_BLOCK_STAT_FREE)"
  have x32: "x + n < 2 ^ 32" "0 < x" using d(5,10) x by auto
  have "fchain m1 fs (frees a us @ frees (x + n) vs) 0 \<longleftrightarrow> fchain m fs (frees a us @ frees (x + n) vs) 0"
    using frees_range [OF d(7)] frees_range [OF d(8)] d(3) x by (intro fchain_cong) (fastforce simp: m1_def)
  then have c1: "fchain m1 fs (frees a us @ frees (x + n) vs) 0" using d(9) by (simp add: frees_append x [symmetric])
  have place: "place_scan m1 x 0 fs = Some (pre, nx)"
  proof -
    have "0 \<notin> set (frees a us @ frees (x + n) vs)"
      using frees_range [OF d(7), of 0] frees_range [OF d(8), of 0] x32 d(10) by auto
    moreover have "\<forall>y \<in> set (frees a us). y < x" using frees_range [OF d(7)] x by fastforce
    moreover have "\<forall>y \<in> set (frees (x + n) vs). x \<le> y" using frees_range [OF d(8)] by fastforce
    ultimately show ?thesis using place_scan_ok [OF c1] by (simp add: pre_def nx_def)
  qed
  define m2 where "m2 = set_blk_next x nx m1"
  define fl where "fl = (if pre \<noteq> 0 then fs else x)"
  define joined where "joined \<longleftrightarrow> pre \<noteq> 0 \<and> add32 pre (blk_size m2 pre) = x"
  define m4 where "m4 = (if pre = 0 then m2 else if joined then set_blk_size pre (add32 (blk_size m2 pre) n) m2 else set_blk_next pre x m2)"
  define p where "p = (if joined then pre else x)"
  define m5 where "m5 = merge_next p nx m4"
  define h2 where "h2 = h\<lparr>mh_free := add32 (mh_free h) n\<rparr>"
  have "rd32 m1 x = rd32 m x" using d(3) by (intro rd32_cong) (auto simp: m1_def)
  then have s1: "blk_size m1 x = n" using d(1) by (simp add: blk_size_def)
  then have s2: "blk_size m2 x = n" by (simp add: blk_size_def m2_def set_blk_next_def rd32_wr32_other)
  have "m (x + n - 1) = MEM_BLOCK_STAT_USE" using d(6) by (simp add: dog_of_def)
  moreover have "sub32 (x + 4) MEM_BLOCK_HEAD_SIZE = x" using x32 d(3) by (simp add: heap_consts sub32_small)
  moreover have "link_or_merge x pre h2 m2 = (p, h2\<lparr>mh_free_list := fl\<rparr>, m4)"
    using s2 by (auto simp: link_or_merge_def joined_def p_def m4_def fl_def h2_def fs_def)
  ultimately have run: "MEM_Deallocate (Some i) (x + 4) env = Some (env\<lparr>he_mem := m5,
        he_list := (he_list env)[i := h\<lparr>mh_free := add32 (mh_free h) n, mh_free_list := fl\<rparr>], he_free := add32 (he_free env) n\<rparr>)"
    using d(2) s1 s2 place
    by (simp add: MEM_Deallocate_def Let_def m_def [symmetric] h_def [symmetric] m1_def [simplified, symmetric] fs_def [symmetric]
        m2_def [symmetric] m5_def h2_def)
  show ?thesis
    using run block_release_ok [OF ok' x pre_def nx_def m1_def m2_def fl_def joined_def m4_def p_def m5_def]
    by (intro exI [of _ fl] exI [of _ m5]) (simp add: m_def h_def)
qed

end
