(* ===== verification/Mem_Inv.thy ===== *)
theory Mem_Inv
  imports Mem_Free
begin

text \<open>
  The invariant of a heap with its counter of free bytes, and what allocation, release and the
  writes of a client do to it.
\<close>

section \<open>The blocks in use\<close>

fun useds :: "nat \<Rightarrow> block list \<Rightarrow> (nat \<times> nat) list" where
  "useds a [] = []"
| "useds a ((n, u) # bs) = (if u then (a, n) # useds (a + n) bs else useds (a + n) bs)"

definition free_total :: "block list \<Rightarrow> nat" where
  "free_total bs = sum_list (map (\<lambda>(n, u). if u then 0 else n) bs)"

definition separated :: "block list \<Rightarrow> bool" where
  "separated bs \<longleftrightarrow> successively (\<lambda>b c. snd b \<or> snd c) bs"

lemma useds_append: "useds a (us @ vs) = useds a us @ useds (a + total_size us) vs"
  by (induction a us rule: meta.induct) (auto simp: add.assoc)

lemma free_total_simps [simp]: "free_total [] = 0"
  "free_total ((n, u) # bs) = (if u then 0 else n) + free_total bs" "free_total (us @ vs) = free_total us + free_total vs"
  by (simp_all add: free_total_def)

lemma free_total_le: "free_total bs \<le> total_size bs"
  by (induction bs) auto

lemma useds_split: "(x, n) \<in> set (useds a bs) \<Longrightarrow> \<exists>us vs. bs = us @ (n, True) # vs \<and> x = a + total_size us"
proof (induction a bs rule: meta.induct)
  case (2 a k u bs)
  show ?case
  proof (cases "u \<and> x = a \<and> n = k")
    case True
    then show ?thesis by (intro exI [of _ "[]"] exI [of _ bs]) auto
  next
    case False
    then have "(x, n) \<in> set (useds (a + k) bs)" using 2(2) by (auto split: if_splits)
    from 2(1) [OF this] obtain us vs where "bs = us @ (n, True) # vs" "x = a + k + total_size us" by blast
    then show ?thesis by (intro exI [of _ "(k, u) # us"] exI [of _ vs]) simp
  qed
qed simp

lemma useds_range: "(x, n) \<in> set (useds a bs) \<Longrightarrow> a \<le> x \<and> x + n \<le> a + total_size bs"
  by (drule useds_split) auto

lemma useds_disjoint:
  "(x, n) \<in> set (useds a bs) \<Longrightarrow> (y, k) \<in> set (useds a bs) \<Longrightarrow> (x, n) = (y, k) \<or> x + n \<le> y \<or> y + k \<le> x"
  by (induction a bs rule: meta.induct) (auto split: if_splits dest: useds_range)

lemma useds_not_free: "(x, n) \<in> set (useds a bs) \<Longrightarrow> x \<le> j \<Longrightarrow> j < x + n \<Longrightarrow> j \<notin> free_bytes a bs"
proof (induction a bs rule: meta.induct)
  case (2 a k u bs)
  have "free_bytes (a + k) bs \<subseteq> {a + k..<a + k + total_size bs}" by (rule free_bytes_range)
  then show ?case
    using 2 useds_range [of x n "a + k" bs] by (cases "(x, n) \<in> set (useds (a + k) bs)") (auto split: if_splits)
qed simp

lemma useds_size: "blocks m a bs \<Longrightarrow> (x, n) \<in> set (useds a bs) \<Longrightarrow> 12 \<le> n"
  by (drule useds_split) (auto simp: blocks_append)

lemma useds_not_meta:
  assumes "blocks m a bs" and "(x, n) \<in> set (useds a bs)" and "x + 4 \<le> j" and "j < x + n - 1"
  shows "j \<notin> meta a bs"
proof -
  obtain us vs where s: "bs = us @ (n, True) # vs" "x = a + total_size us" using useds_split [OF assms(2)] by blast
  then have "meta a us \<subseteq> {a..<x}" "meta (x + n) vs \<subseteq> {x + n..<x + n + total_size vs}"
    using assms(1) meta_range [of m a us] meta_range [of m "x + n" vs] by (auto simp: blocks_append)
  then have "j \<notin> meta a us" "j \<notin> meta (x + n) vs" using assms(3,4) by fastforce+
  then show ?thesis using assms(3,4) s by (auto simp: meta_append)
qed

text \<open>
  Writes inside the data of a block in use keep the heap.
\<close>

lemma heap_ok_write:
  assumes ok: "heap_ok m fl a bs" and u: "(x, n) \<in> set (useds a bs)"
    and same: "\<And>j. j < x + 4 \<or> x + n - 1 \<le> j \<Longrightarrow> m' j = m j"
  shows "heap_ok m' fl a bs"
proof -
  have b: "blocks m a bs" using ok by (simp add: heap_ok_def)
  have "blocks m' a bs \<longleftrightarrow> blocks m a bs"
    using useds_not_meta [OF b u] same by (intro blocks_cong) (meson not_le)
  moreover have "fchain m' fl (frees a bs) 0 \<longleftrightarrow> fchain m fl (frees a bs) 0"
  proof (rule fchain_cong)
    fix y j assume y: "y \<in> set (frees a bs)" "y + 4 \<le> j" "j < y + 8"
    then have "j \<in> free_bytes a bs" using frees_free_bytes [OF b y(1)] by auto
    then have "j < x \<or> x + n \<le> j" using useds_not_free [OF u, of j] by (meson not_le)
    then show "m' j = m j" by (intro same) auto
  qed
  ultimately show ?thesis using ok by (simp add: heap_ok_def)
qed

section \<open>The invariant\<close>

definition heap_inv :: "heap_env \<Rightarrow> nat \<Rightarrow> nat \<Rightarrow> block list \<Rightarrow> bool" where
  "heap_inv env i a bs \<longleftrightarrow> i < length (he_list env) \<and> heap_ok (he_mem env) (mh_free_list (he_list env ! i)) a bs \<and>
     4 dvd a \<and> mh_free (he_list env ! i) = free_total bs \<and> separated bs \<and> ALIGN_UP (mh_base (he_list env ! i)) = a \<and>
     ALIGN_DOWN (add32 (mh_base (he_list env ! i)) (mh_size (he_list env ! i))) = a + total_size bs"

text \<open>
  The part of the environment that operations on heap \<open>i\<close> leave as it is.
\<close>

definition other_heaps :: "nat \<Rightarrow> heap_env \<Rightarrow> heap_env \<Rightarrow> bool" where
  "other_heaps i env env' \<longleftrightarrow> length (he_list env') = length (he_list env) \<and>
     (\<forall>k. k \<noteq> i \<longrightarrow> he_list env' ! k = he_list env ! k) \<and>
     mh_base (he_list env' ! i) = mh_base (he_list env ! i) \<and> mh_size (he_list env' ! i) = mh_size (he_list env ! i)"

lemma other_heaps_refl: "other_heaps i env env"
  by (simp add: other_heaps_def)

lemma other_heaps_trans: "other_heaps i e1 e2 \<Longrightarrow> other_heaps i e2 e3 \<Longrightarrow> other_heaps i e1 e3"
  by (simp add: other_heaps_def)

lemma carved_props:
  assumes "carved a bs k x n bs'"
  shows "k \<le> n" "total_size bs' = total_size bs" "(x, n) \<in> set (useds a bs')"
    "set (useds a bs') = insert (x, n) (set (useds a bs))" "free_total bs = free_total bs' + n"
    "separated bs \<Longrightarrow> separated bs'" "{x..<x + n} \<subseteq> free_bytes a bs"
  using assms
  by (auto simp: carved_def useds_append separated_def successively_append_iff successively_Cons free_bytes_append
      split: if_splits)

lemma join_next_props:
  "total_size (join_next k vs) = k + total_size vs" "free_total (join_next k vs) = k + free_total vs"
  "useds y (join_next k vs) = useds (y + k) vs"
  by (cases "(k, vs)" rule: join_next.cases; simp add: add.assoc)+

lemma separated_join:
  "separated (us @ join_next k vs) \<longleftrightarrow> separated us \<and> (us \<noteq> [] \<longrightarrow> snd (last us)) \<and> separated (join_next k vs)"
  by (cases "(k, vs)" rule: join_next.cases) (auto simp: separated_def successively_append_iff)

lemma separated_join_next: "separated vs \<Longrightarrow> separated (join_next k vs)"
  by (cases "(k, vs)" rule: join_next.cases) (auto simp: separated_def successively_Cons)

lemma released_cases:
  obtains (joined) us0 k where "us = us0 @ [(k, False)]" and "released us n vs = us0 @ join_next (k + n) vs"
  | (alone) "us \<noteq> [] \<Longrightarrow> snd (last us)" and "released us n vs = us @ join_next n vs"
proof (cases "us \<noteq> [] \<and> \<not> snd (last us)")
  case True
  then obtain us0 b where "us = us0 @ [b]" by (cases us rule: rev_cases) auto
  then show thesis using True by (intro joined [of us0 "fst b"]) (cases b; simp add: released_def)+
next
  case False
  then show thesis by (intro alone) (auto simp: released_def)
qed

lemma released_props:
  assumes "bs = us @ (n, True) # vs" and "x = a + total_size us"
  shows "total_size (released us n vs) = total_size bs" "free_total (released us n vs) = free_total bs + n"
    "set (useds a bs) = insert (x, n) (set (useds a (released us n vs)))"
  using assms by (cases us n vs rule: released_cases; simp add: join_next_props useds_append add.assoc)+

lemma separated_released:
  assumes "separated (us @ (n, True) # vs)"
  shows "separated (released us n vs)"
proof -
  have s: "separated us" "separated vs"
    using assms by (auto simp: separated_def successively_append_iff successively_Cons)
  show ?thesis
  proof (cases us n vs rule: released_cases)
    case (joined us0 k)
    then have "separated us0 \<and> (us0 \<noteq> [] \<longrightarrow> snd (last us0))"
      using s(1) by (auto simp: separated_def successively_append_iff)
    then show ?thesis using joined(2) s(2) by (simp add: separated_join separated_join_next)
  next
    case alone
    then show ?thesis using s by (simp add: separated_join separated_join_next)
  qed
qed

section \<open>Operations on the invariant\<close>

definition block_need :: "nat \<Rightarrow> nat" where
  "block_need sz = (max 4 sz + 4) div 4 * 4 + 4"

lemma block_need_bounds: "12 \<le> block_need sz" "4 dvd block_need sz" "sz + 5 \<le> block_need sz"
  unfolding block_need_def by auto

lemma new_size_cases:
  fixes sz defines "w \<equiv> add32 (ALIGN_UP (add32 (max 4 sz) 1)) MEM_BLOCK_HEAD_SIZE"
  assumes "sz < 2 ^ 32"
  shows "w = block_need sz \<and> block_need sz < 2 ^ 32 \<or> w < max 4 sz \<and> w \<le> 4 \<and> 2 ^ 32 \<le> block_need sz"
proof -
  define s where "s = max 4 sz"
  have s: "4 \<le> s" "s < 2 ^ 32" using assms by (auto simp: s_def)
  have up: "ALIGN_UP (add32 s 1) = (s + 4) mod 2 ^ 32 div 4 * 4"
    by (simp add: ALIGN_UP_def ALIGN_DOWN_def add32_def heap_consts mod_simps) (simp add: add.commute)
  have w: "w = ((s + 4) mod 2 ^ 32 div 4 * 4 + 4) mod 2 ^ 32" "block_need sz = (s + 4) div 4 * 4 + 4"
    unfolding w_def by (simp_all only: s_def [symmetric] up) (simp_all add: add32_def heap_consts block_need_def s_def)
  show ?thesis
  proof (cases "s + 4 < 2 ^ 32")
    case True
    define q where "q = (s + 4) div 4 * 4"
    have q: "q \<le> s + 4" "s < q" "w = (q + 4) mod 2 ^ 32" "block_need sz = q + 4" using w True by (auto simp: q_def)
    show ?thesis
    proof (cases "q + 4 < 2 ^ 32")
      case False
      then have "(q + 4) mod 2 ^ 32 = q + 4 - 2 ^ 32" using q(1) s(2) True by (simp add: mod_if)
      then show ?thesis using False q True s by (auto simp: s_def [symmetric])
    qed (use q in simp)
  next
    case False
    then have "(s + 4) mod 2 ^ 32 = s + 4 - 2 ^ 32" using s by (simp add: mod_if)
    then have "w = 4" using w(1) s by simp
    moreover have "2 ^ 32 \<le> (s + 4) div 4 * 4" using False by simp
    ultimately show ?thesis using w(2) s False by (auto simp: s_def [symmetric])
  qed
qed

lemma alloc_inv:
  assumes inv: "heap_inv env i a bs" and sz: "0 < sz" "sz < 2 ^ 32"
  shows "MEM_Allocate (Some i) sz env = Some (0, env) \<and> (\<forall>(n, u) \<in> set bs. \<not> u \<longrightarrow> n < block_need sz) \<or>
    (\<exists>x n bs' env'. MEM_Allocate (Some i) sz env = Some (x + 4, env') \<and> heap_inv env' i a bs' \<and>
       carved a bs (block_need sz) x n bs' \<and> (\<forall>j. j \<notin> free_bytes a bs \<longrightarrow> he_mem env' j = he_mem env j) \<and>
       blk_size (he_mem env') x = n \<and> other_heaps i env env' \<and> he_free env' = sub32 (he_free env) n)"
proof -
  note D = inv [unfolded heap_inv_def]
  have m4: "(if sz < 4 then 4 else sz) = max 4 sz" by simp
  have tot: "a + total_size bs < 2 ^ 32" using D by (simp add: heap_ok_def)
  have small: "n < 2 ^ 32" if "(n, u) \<in> set bs" for n u
  proof -
    have "n \<le> total_size bs" using that member_le_sum_list [of n "map fst bs"] by (force simp: total_size_def)
    then show ?thesis using tot by simp
  qed
  from new_size_cases [OF sz(2)] show ?thesis
  proof
    assume "add32 (ALIGN_UP (add32 (max 4 sz) 1)) MEM_BLOCK_HEAD_SIZE < max 4 sz \<and>
      add32 (ALIGN_UP (add32 (max 4 sz) 1)) MEM_BLOCK_HEAD_SIZE \<le> 4 \<and> 2 ^ 32 \<le> block_need sz"
    then show ?thesis using sz small by (auto simp: MEM_Allocate_def Let_def m4 intro: less_le_trans)
  next
    assume w: "add32 (ALIGN_UP (add32 (max 4 sz) 1)) MEM_BLOCK_HEAD_SIZE = block_need sz \<and> block_need sz < 2 ^ 32"
    have ge: "\<not> block_need sz < max 4 sz" using block_need_bounds [of sz] by simp
    let ?h = "he_list env ! i"
    from D have "heap_ok (he_mem env) (mh_free_list ?h) a bs" by simp
    from mem_chunk_get_ok [OF this block_need_bounds(1,2), of sz] consider
        (none) "mem_chunk_get (block_need sz) ?h (he_mem env) = Some (0, ?h, he_mem env)"
          "\<forall>(n, u) \<in> set bs. \<not> u \<longrightarrow> n < block_need sz"
      | (got) x n fl m' bs' where "mem_chunk_get (block_need sz) ?h (he_mem env) = Some (x, ?h\<lparr>mh_free_list := fl\<rparr>, m')"
          "carved a bs (block_need sz) x n bs'" "heap_ok m' fl a bs'" "blk_size m' x = n" "x \<noteq> 0"
          "\<forall>j. j \<notin> free_bytes a bs \<longrightarrow> m' j = he_mem env j"
      by blast
    then show ?thesis
    proof cases
      case none
      then show ?thesis using sz w ge by (auto simp: MEM_Allocate_def Let_def m4)
    next
      case got
      note c = carved_props [OF got(2)]
      have f: "sub32 (free_total bs) n = free_total bs'"
        using c(5) free_total_le [of bs] tot by (simp add: sub32_small)
      have x: "x + n < 2 ^ 32" "12 \<le> n"
        using useds_range [OF c(3)] useds_size [of m' a bs', OF _ c(3)] c(2) tot got(3) by (auto simp: heap_ok_def)
      then have "add32 x MEM_BLOCK_HEAD_SIZE = x + 4" by (simp add: heap_consts add32_small)
      then obtain h' env' where r: "MEM_Allocate (Some i) sz env = Some (x + 4, env')"
          "he_mem env' = m'" "he_list env' = (he_list env)[i := h']" "he_free env' = sub32 (he_free env) n"
          "mh_free_list h' = fl" "mh_free h' = free_total bs'" "mh_base h' = mh_base ?h" "mh_size h' = mh_size ?h"
        using sz w ge got(1,4,5) D f by (auto simp: MEM_Allocate_def Let_def m4)
      then have "heap_inv env' i a bs' \<and> other_heaps i env env'"
        using D got(3) c(2,6) by (simp add: heap_inv_def other_heaps_def)
      then show ?thesis using r got(2,4,6) by blast
    qed
  qed
qed

lemma free_inv:
  assumes inv: "heap_inv env i a bs" and u: "(x, n) \<in> set (useds a bs)"
  shows "\<exists>bs' env'. MEM_Deallocate (Some i) (x + 4) env = Some env' \<and> heap_inv env' i a bs' \<and>
    total_size bs' = total_size bs \<and> set (useds a bs) = insert (x, n) (set (useds a bs')) \<and> (x, n) \<notin> set (useds a bs') \<and>
    (\<forall>j. j \<notin> free_bytes a bs' \<longrightarrow> he_mem env' j = he_mem env j) \<and> other_heaps i env env' \<and>
    he_free env' = add32 (he_free env) n"
proof -
  note D = inv [unfolded heap_inv_def]
  obtain us vs where bs: "bs = us @ (n, True) # vs" and x: "x = a + total_size us" using useds_split [OF u] by blast
  have ok: "heap_ok (he_mem env) (mh_free_list (he_list env ! i)) a (us @ (n, True) # vs)" using D bs by simp
  from MEM_Deallocate_ok [OF ok x] obtain fl m' where r: "MEM_Deallocate (Some i) (x + 4) env = Some (env\<lparr>he_mem := m',
        he_list := (he_list env)[i := (he_list env ! i)\<lparr>mh_free := add32 (mh_free (he_list env ! i)) n, mh_free_list := fl\<rparr>],
        he_free := add32 (he_free env) n\<rparr>)" "heap_ok m' fl a (released us n vs)"
      "\<forall>j. j \<notin> free_bytes a (released us n vs) \<longrightarrow> m' j = he_mem env j" by blast
  note p = released_props [OF bs x]
  have "free_total bs + n < 2 ^ 32"
    using p(1,2) free_total_le [of "released us n vs"] r(2) by (simp add: heap_ok_def)
  then have "add32 (mh_free (he_list env ! i)) n = free_total (released us n vs)" using D p(2) by (simp add: add32_small)
  moreover have "x \<in> free_bytes a (released us n vs)" using heap_okD(3) [OF ok] x by (simp add: free_bytes_released free_bytes_append)
  then have fresh: "(x, n) \<notin> set (useds a (released us n vs))" using useds_not_free [of x n a "released us n vs" x] heap_okD(3) [OF ok] by auto
  moreover obtain env' where e: "MEM_Deallocate (Some i) (x + 4) env = Some env'"
      "he_mem env' = m'" "he_list env' = (he_list env)[i := (he_list env ! i)\<lparr>mh_free := add32 (mh_free (he_list env ! i)) n, mh_free_list := fl\<rparr>]"
      "he_free env' = add32 (he_free env) n"
    using r(1) by simp
  ultimately have "heap_inv env' i a (released us n vs) \<and> other_heaps i env env'"
    using D r(2) p(1) separated_released [of us n vs] bs by (auto simp: heap_inv_def other_heaps_def)
  then show ?thesis using p(1,3) r(3) e fresh by blast
qed

lemma write_inv:
  assumes "heap_inv env i a bs" and "(x, n) \<in> set (useds a bs)" and "\<And>j. j < x + 4 \<or> x + n - 1 \<le> j \<Longrightarrow> m' j = he_mem env j"
  shows "heap_inv (env\<lparr>he_mem := m'\<rparr>) i a bs"
  using assms heap_ok_write [OF _ assms(2,3)] by (auto simp: heap_inv_def)

end
