(* ===== verification/Mem_Store.thy ===== *)
theory Mem_Store
  imports Mem_Inv
begin

text \<open>
  What a heap promises its clients: an object store. An object has an address and contents of
  the requested length; the objects are inside the heap, aligned and disjoint, and only the
  client changes their contents.
\<close>

datatype heap_op = Malloc nat | Calloc nat | Realloc nat nat | Free nat | Store nat nat u8

type_synonym objects = "nat \<Rightarrow> u8 list option"

definition fresh :: "nat \<Rightarrow> nat \<Rightarrow> objects \<Rightarrow> nat \<Rightarrow> nat \<Rightarrow> bool" where
  "fresh lo hi S p n \<longleftrightarrow> p \<noteq> 0 \<and> 4 dvd p \<and> lo \<le> p \<and> p + n \<le> hi \<and>
     (\<forall>q d. S q = Some d \<longrightarrow> p \<noteq> q \<and> (p + n \<le> q \<or> q + length d \<le> p))"

inductive store_step :: "nat \<Rightarrow> nat \<Rightarrow> objects \<Rightarrow> heap_op \<Rightarrow> nat \<Rightarrow> objects \<Rightarrow> bool" for lo hi where
  malloc: "fresh lo hi S p (length d) \<Longrightarrow> length d = n \<Longrightarrow> store_step lo hi S (Malloc n) p (S(p \<mapsto> d))"
| malloc_none: "store_step lo hi S (Malloc n) 0 S"
| calloc: "fresh lo hi S p n \<Longrightarrow> store_step lo hi S (Calloc n) p (S(p \<mapsto> replicate n 0))"
| calloc_none: "store_step lo hi S (Calloc n) 0 S"
| realloc_null: "store_step lo hi S (Malloc n) p S' \<Longrightarrow> store_step lo hi S (Realloc 0 n) p S'"
| realloc_stay: "S p = Some d \<Longrightarrow> fresh lo hi (S(p := None)) p n \<Longrightarrow> length d' = n \<Longrightarrow>
    take n d = take (length d) d' \<Longrightarrow> store_step lo hi S (Realloc p n) p (S(p \<mapsto> d'))"
| realloc_move: "S p = Some d \<Longrightarrow> fresh lo hi S q n \<Longrightarrow> length d' = n \<Longrightarrow>
    take n d = take (length d) d' \<Longrightarrow> store_step lo hi S (Realloc p n) q ((S(q \<mapsto> d'))(p := None))"
| realloc_none: "S p = Some d \<Longrightarrow> store_step lo hi S (Realloc p n) 0 S"
| free: "S p = Some d \<Longrightarrow> store_step lo hi S (Free p) 0 (S(p := None))"
| store: "S p = Some d \<Longrightarrow> k < length d \<Longrightarrow> store_step lo hi S (Store p k v) 0 (S(p \<mapsto> d[k := v]))"

text \<open>
  What a client may do: it frees, resizes and writes only objects that it has, with indices
  inside them, and asks for sizes of 32 bits (for \<open>Realloc\<close> below \<open>2 ^ 32 - 8\<close>).
\<close>

fun legal :: "objects \<Rightarrow> heap_op \<Rightarrow> bool" where
  "legal S (Malloc n) \<longleftrightarrow> n < 2 ^ 32"
| "legal S (Calloc n) \<longleftrightarrow> n < 2 ^ 32"
| "legal S (Realloc p n) \<longleftrightarrow> (p = 0 \<or> S p \<noteq> None) \<and> n < 2 ^ 32 - 8"
| "legal S (Free p) \<longleftrightarrow> S p \<noteq> None"
| "legal S (Store p k v) \<longleftrightarrow> (case S p of None \<Rightarrow> False | Some d \<Rightarrow> k < length d)"

text \<open>
  The operations of the code on heap \<open>i\<close>, and the write of the client.
\<close>

fun heap_call :: "nat \<Rightarrow> heap_op \<Rightarrow> heap_env \<Rightarrow> (nat \<times> heap_env) option" where
  "heap_call i (Malloc n) env = tuya_mem_heap_malloc (Some i) n env"
| "heap_call i (Calloc n) env = tuya_mem_heap_calloc (Some i) n env"
| "heap_call i (Realloc p n) env = tuya_mem_heap_realloc (Some i) p n env"
| "heap_call i (Free p) env = map_option (\<lambda>env. (0, env)) (tuya_mem_heap_free (Some i) p env)"
| "heap_call i (Store p k v) env = Some (0, env\<lparr>he_mem := (he_mem env)(p + k := v)\<rparr>)"

section \<open>Objects in the blocks\<close>

definition store_rel :: "memory \<Rightarrow> nat \<Rightarrow> block list \<Rightarrow> objects \<Rightarrow> bool" where
  "store_rel m a bs S \<longleftrightarrow> dom S = (\<lambda>(x, n). x + 4) ` set (useds a bs) \<and>
     (\<forall>(x, n) \<in> set (useds a bs). \<exists>d. S (x + 4) = Some d \<and> length d + 5 \<le> n \<and> (\<forall>j < length d. m (x + 4 + j) = d ! j))"

lemma store_rel_object:
  assumes "store_rel m a bs S" and "S p = Some d"
  obtains x n where "(x, n) \<in> set (useds a bs)" and "p = x + 4" and "length d + 5 \<le> n" and "\<forall>j < length d. m (p + j) = d ! j"
proof -
  have "p \<in> (\<lambda>(x, n). x + 4) ` set (useds a bs)" using assms by (auto simp: store_rel_def)
  then obtain x n where x: "(x, n) \<in> set (useds a bs)" "p = x + 4" by auto
  have "\<forall>(x, n) \<in> set (useds a bs). \<exists>d. S (x + 4) = Some d \<and> length d + 5 \<le> n \<and> (\<forall>j < length d. m (x + 4 + j) = d ! j)"
    using assms(1) by (simp add: store_rel_def)
  from bspec [OF this x(1)] show thesis using x assms(2) by (intro that [OF x]) auto
qed

lemma store_rel_write:
  assumes r: "store_rel m a bs S" and u: "(x, n) \<in> set (useds a bs)" and b: "blocks m a bs"
    and same: "\<And>j. j < x + 4 \<or> x + n - 1 \<le> j \<Longrightarrow> m' j = m j"
    and d: "length d + 5 \<le> n" "\<forall>j < length d. m' (x + 4 + j) = d ! j"
  shows "store_rel m' a bs (S(x + 4 \<mapsto> d))"
proof -
  have "\<exists>e. (S(x + 4 \<mapsto> d)) (y + 4) = Some e \<and> length e + 5 \<le> k \<and> (\<forall>j < length e. m' (y + 4 + j) = e ! j)"
    if y: "(y, k) \<in> set (useds a bs)" for y k
  proof (cases "(y, k) = (x, n)")
    case False
    then have dis: "y + k \<le> x \<or> x + n \<le> y" using useds_disjoint [OF y u] by auto
    moreover have "12 \<le> k" "12 \<le> n" using useds_size [OF b] y u by auto
    ultimately have "y \<noteq> x" by auto
    moreover from r y obtain e where e: "S (y + 4) = Some e" "length e + 5 \<le> k" "\<forall>j < length e. m (y + 4 + j) = e ! j"
      by (auto simp: store_rel_def)
    moreover have "m' (y + 4 + j) = m (y + 4 + j)" if "j < length e" for j
      using that dis e(2) by (intro same) auto
    ultimately show ?thesis by auto
  qed (use d in auto)
  moreover have "dom (S(x + 4 \<mapsto> d)) = (\<lambda>(x, n). x + 4) ` set (useds a bs)"
    using r u by (force simp: store_rel_def)
  ultimately show ?thesis by (auto simp: store_rel_def)
qed

lemma useds_aligned:
  assumes "blocks m a bs" and "(x, n) \<in> set (useds a bs)" and "4 dvd a"
  shows "4 dvd x"
proof -
  have "blocks m a us \<Longrightarrow> 4 dvd total_size us" for us by (induction a us rule: meta.induct) auto
  then show ?thesis using useds_split [OF assms(2)] assms(1,3) by (auto simp: blocks_append)
qed

lemma store_rel_alloc:
  assumes r: "store_rel m a bs S" and c: "carved a bs k x n bs'" and b: "blocks m' a bs'" and a: "4 dvd a" "0 < a"
    and same: "\<And>j. j \<notin> free_bytes a bs \<Longrightarrow> m' j = m j"
    and d: "length d + 5 \<le> n" "\<forall>j < length d. m' (x + 4 + j) = d ! j"
  shows "store_rel m' a bs' (S(x + 4 \<mapsto> d))" "fresh a (a + total_size bs) S (x + 4) (length d)" "S (x + 4) = None"
proof -
  note p = carved_props [OF c]
  have n: "12 \<le> n" using useds_size [OF b p(3)] .
  have apart: "y + k \<le> x \<or> x + n \<le> y" if "(y, k) \<in> set (useds a bs)" for y k
  proof -
    have y: "(y, k) \<in> set (useds a bs')" using that p(4) by simp
    have "y \<notin> free_bytes a bs" using useds_not_free [OF that, of y] useds_size [OF b y] by simp
    then have "(y, k) \<noteq> (x, n)" using subsetD [OF p(7), of x] n by auto
    then show ?thesis using useds_disjoint [OF y p(3)] by auto
  qed
  have obj: "\<exists>e. (S(x + 4 \<mapsto> d)) (y + 4) = Some e \<and> length e + 5 \<le> k \<and> (\<forall>j < length e. m' (y + 4 + j) = e ! j)"
    if "(y, k) \<in> set (useds a bs')" for y k
  proof (cases "(y, k) = (x, n)")
    case False
    then have y: "(y, k) \<in> set (useds a bs)" using that p(4) by auto
    then obtain e where e: "S (y + 4) = Some e" "length e + 5 \<le> k" "\<forall>j < length e. m (y + 4 + j) = e ! j"
      using r by (auto simp: store_rel_def)
    moreover have "m' (y + 4 + j) = m (y + 4 + j)" if "j < length e" for j
      using that e(2) by (intro same useds_not_free [OF y]) auto
    moreover have "y \<noteq> x" using apart [OF y] n e(2) by auto
    ultimately show ?thesis by auto
  qed (use d in auto)
  have "dom (S(x + 4 \<mapsto> d)) = (\<lambda>(x, n). x + 4) ` set (useds a bs')"
    using r p(4) by (force simp: store_rel_def)
  then show "store_rel m' a bs' (S(x + 4 \<mapsto> d))" using obj by (auto simp: store_rel_def)
  have away: "x + 4 \<noteq> q \<and> (x + 4 + length d \<le> q \<or> q + length e \<le> x + 4)" if "S q = Some e" for q e
  proof -
    obtain y k where y: "(y, k) \<in> set (useds a bs)" "q = y + 4" "length e + 5 \<le> k"
      using store_rel_object [OF r \<open>S q = Some e\<close>] by metis
    then show ?thesis using apart [OF y(1)] n d(1) by auto
  qed
  then show "S (x + 4) = None" by (cases "S (x + 4)") auto
  have "4 dvd x + 4" using useds_aligned [OF b p(3) a(1)] by simp
  then show "fresh a (a + total_size bs) S (x + 4) (length d)"
    using away useds_range [OF p(3)] p(2) d(1) by (auto simp: fresh_def)
qed

lemma store_rel_free:
  assumes r: "store_rel m a bs S" and b: "blocks m a bs" and u: "set (useds a bs) = insert (x, n) (set (useds a bs'))"
    and x: "(x, n) \<notin> set (useds a bs')" and same: "\<And>j. j \<notin> free_bytes a bs' \<Longrightarrow> m' j = m j"
  shows "store_rel m' a bs' (S(x + 4 := None))"
proof -
  have ne: "y \<noteq> x" if "(y, k) \<in> set (useds a bs')" for y k
  proof
    assume "y = x"
    then have "(y, k) \<noteq> (x, n)" using that x by auto
    moreover have in_bs: "(y, k) \<in> set (useds a bs)" "(x, n) \<in> set (useds a bs)" using that u by auto
    ultimately show False using useds_disjoint [OF in_bs] useds_size [OF b] in_bs \<open>y = x\<close> by fastforce
  qed
  have "\<exists>e. (S(x + 4 := None)) (y + 4) = Some e \<and> length e + 5 \<le> k \<and> (\<forall>j < length e. m' (y + 4 + j) = e ! j)"
    if y: "(y, k) \<in> set (useds a bs')" for y k
  proof -
    obtain e where e: "S (y + 4) = Some e" "length e + 5 \<le> k" "\<forall>j < length e. m (y + 4 + j) = e ! j"
      using r y u by (auto simp: store_rel_def)
    moreover have "m' (y + 4 + j) = m (y + 4 + j)" if "j < length e" for j
      using that e(2) by (intro same useds_not_free [OF y]) auto
    ultimately show ?thesis using ne [OF y] by auto
  qed
  moreover have "dom (S(x + 4 := None)) = (\<lambda>(x, n). x + 4) ` set (useds a bs')"
    using r u ne by (force simp: store_rel_def)
  ultimately show ?thesis by (auto simp: store_rel_def)
qed

section \<open>Simulation\<close>

text \<open>
  Heap \<open>i\<close> between the addresses \<open>lo\<close> and \<open>hi\<close> represents the store \<open>S\<close>.
\<close>

definition represents :: "nat \<Rightarrow> nat \<Rightarrow> nat \<Rightarrow> heap_env \<Rightarrow> objects \<Rightarrow> bool" where
  "represents i lo hi env S \<longleftrightarrow>
     (\<exists>bs. heap_inv env i lo bs \<and> lo + total_size bs = hi \<and> store_rel (he_mem env) lo bs S)"

definition outside :: "nat \<Rightarrow> nat \<Rightarrow> memory \<Rightarrow> memory \<Rightarrow> bool" where
  "outside lo hi m m' \<longleftrightarrow> (\<forall>j. j < lo \<or> hi \<le> j \<longrightarrow> m' j = m j)"

lemma outside_trans: "outside lo hi m1 m2 \<Longrightarrow> outside lo hi m2 m3 \<Longrightarrow> outside lo hi m1 m3"
  by (simp add: outside_def)

lemma outside_free: "(\<And>j. j \<notin> free_bytes a bs \<Longrightarrow> m' j = m j) \<Longrightarrow> outside a (a + total_size bs) m m'"
  using free_bytes_range [of a bs] by (force simp: outside_def)

lemma heap_invD: "heap_inv env i a bs \<Longrightarrow> blocks (he_mem env) a bs \<and> 4 dvd a \<and> 0 < a"
  by (simp add: heap_inv_def heap_ok_def)

lemma represents_alloc:
  assumes inv: "heap_inv env i a bs" and r: "store_rel (he_mem env) a bs S" and n: "0 < n" "n < 2 ^ 32"
  obtains "MEM_Allocate (Some i) n env = Some (0, env)"
  | x k bs' env' where "MEM_Allocate (Some i) n env = Some (x + 4, env')" and "heap_inv env' i a bs'"
      and "total_size bs' = total_size bs" and "(x, k) \<in> set (useds a bs')" and "block_need n \<le> k"
      and "store_rel (he_mem env') a bs' (S(x + 4 \<mapsto> map (\<lambda>j. he_mem env' (x + 4 + j)) [0..<n]))"
      and "fresh a (a + total_size bs) S (x + 4) n" and "outside a (a + total_size bs) (he_mem env) (he_mem env')"
      and "set (useds a bs') = insert (x, k) (set (useds a bs))" and "\<forall>j. j \<notin> free_bytes a bs \<longrightarrow> he_mem env' j = he_mem env j"
proof -
  from alloc_inv [OF inv n] consider (none) "MEM_Allocate (Some i) n env = Some (0, env)"
    | (got) x k bs' env' where "MEM_Allocate (Some i) n env = Some (x + 4, env')" "heap_inv env' i a bs'"
       "carved a bs (block_need n) x k bs'" "\<forall>j. j \<notin> free_bytes a bs \<longrightarrow> he_mem env' j = he_mem env j"
    by blast
  then show thesis
  proof cases
    case got
    note p = carved_props [OF got(3)]
    let ?d = "map (\<lambda>j. he_mem env' (x + 4 + j)) [0..<n]"
    have l: "length ?d + 5 \<le> k" using p(1) block_need_bounds(3) [of n] by simp
    have b: "blocks (he_mem env') a bs'" "4 dvd a" "0 < a" using heap_invD [OF got(2)] by auto
    note q = store_rel_alloc [OF r got(3) b got(4) [rule_format] l]
    show thesis by (rule that(2) [OF got(1,2) p(2,3,1)]) (use p got(4) q outside_free [of a bs] in auto)
  qed (rule that(1))
qed

lemma represents_write:
  assumes inv: "heap_inv env i a bs" and r: "store_rel (he_mem env) a bs S" and u: "(x, k) \<in> set (useds a bs)"
    and same: "\<And>j. j < x + 4 \<or> x + k - 1 \<le> j \<Longrightarrow> m' j = he_mem env j"
    and d: "length d + 5 \<le> k" "\<forall>j < length d. m' (x + 4 + j) = d ! j"
  shows "heap_inv (env\<lparr>he_mem := m'\<rparr>) i a bs" "store_rel m' a bs (S(x + 4 \<mapsto> d))"
    "outside a (a + total_size bs) (he_mem env) m'"
proof -
  show "heap_inv (env\<lparr>he_mem := m'\<rparr>) i a bs" by (rule write_inv [OF inv u same])
  show "store_rel m' a bs (S(x + 4 \<mapsto> d))"
    by (rule store_rel_write [OF r u _ same d]) (use heap_invD [OF inv] in auto)
  show "outside a (a + total_size bs) (he_mem env) m'"
    using useds_range [OF u] d(1) by (auto simp: outside_def intro!: same)
qed

lemma represents_free:
  assumes inv: "heap_inv env i a bs" and r: "store_rel (he_mem env) a bs S" and u: "(x, k) \<in> set (useds a bs)"
  obtains bs' env' where "MEM_Deallocate (Some i) (x + 4) env = Some env'" and "heap_inv env' i a bs'"
    and "total_size bs' = total_size bs" and "store_rel (he_mem env') a bs' (S(x + 4 := None))"
    and "outside a (a + total_size bs) (he_mem env) (he_mem env')"
proof -
  from free_inv [OF inv u] obtain bs' env' where f: "MEM_Deallocate (Some i) (x + 4) env = Some env'" "heap_inv env' i a bs'"
      "total_size bs' = total_size bs" "set (useds a bs) = insert (x, k) (set (useds a bs'))" "(x, k) \<notin> set (useds a bs')"
      "\<forall>j. j \<notin> free_bytes a bs' \<longrightarrow> he_mem env' j = he_mem env j" by blast
  have "store_rel (he_mem env') a bs' (S(x + 4 := None))"
    by (rule store_rel_free [OF r _ f(4,5)]) (use f(6) heap_invD [OF inv] in auto)
  then show thesis using outside_free [of a bs' "he_mem env'" "he_mem env"] f by (intro that [OF f(1,2,3)]) auto
qed

end
