(* ===== verification/Mem_Refine.thy ===== *)
theory Mem_Refine
  imports Mem_Store
begin

text \<open>
  The heap implements the object store.
\<close>

definition step_ok :: "nat \<Rightarrow> nat \<Rightarrow> nat \<Rightarrow> heap_env \<Rightarrow> objects \<Rightarrow> heap_op \<Rightarrow> bool" where
  "step_ok i lo hi env S c \<longleftrightarrow> (\<exists>r env' S'. heap_call i c env = Some (r, env') \<and> store_step lo hi S c r S' \<and>
     represents i lo hi env' S' \<and> outside lo hi (he_mem env) (he_mem env'))"

lemma step_okI:
  assumes "heap_call i c env = Some (r, env')" and "store_step a (a + t) S c r S'" and "heap_inv env' i a bs'"
    and "total_size bs' = t" and "store_rel (he_mem env') a bs' S'" and "outside a (a + t) (he_mem env) (he_mem env')"
  shows "step_ok i a (a + t) env S c"
  unfolding step_ok_def represents_def using assms by blast

lemma step_ok_none:
  assumes "heap_call i c env = Some (0, env)" and "store_step lo hi S c 0 S" and "represents i lo hi env S"
  shows "step_ok i lo hi env S c"
  using assms unfolding step_ok_def by (force simp: outside_def)

lemma step_malloc:
  assumes inv: "heap_inv env i a bs" and r: "store_rel (he_mem env) a bs S" and n: "n < 2 ^ 32"
  shows "step_ok i a (a + total_size bs) env S (Malloc n)"
proof -
  have rep: "represents i a (a + total_size bs) env S" using inv r by (auto simp: represents_def)
  show ?thesis
  proof (cases "n = 0")
    case True
    then show ?thesis
      by (intro step_ok_none [OF _ _ rep] store_step.malloc_none) (simp add: tuya_mem_heap_malloc_def MEM_Allocate_def)
  next
    case False
    then have "0 < n" by simp
    from represents_alloc [OF inv r this n] show ?thesis
    proof cases
      case 1
      then show ?thesis by (intro step_ok_none [OF _ _ rep] store_step.malloc_none) (simp add: tuya_mem_heap_malloc_def)
    next
      case (2 x k bs' env')
      show ?thesis
        by (rule step_okI [OF _ _ 2(2,3,6,8)]) (use 2(1,7) in \<open>auto simp: tuya_mem_heap_malloc_def intro!: store_step.malloc\<close>)
    qed
  qed
qed

lemma step_calloc:
  assumes inv: "heap_inv env i a bs" and r: "store_rel (he_mem env) a bs S" and n: "n < 2 ^ 32"
  shows "step_ok i a (a + total_size bs) env S (Calloc n)"
proof -
  have rep: "represents i a (a + total_size bs) env S" using inv r by (auto simp: represents_def)
  show ?thesis
  proof (cases "n = 0")
    case True
    then show ?thesis
      by (intro step_ok_none [OF _ _ rep] store_step.calloc_none)
        (simp add: tuya_mem_heap_calloc_def tuya_mem_heap_malloc_def MEM_Allocate_def)
  next
    case False
    then have "0 < n" by simp
    from represents_alloc [OF inv r this n] show ?thesis
    proof cases
      case 1
      then show ?thesis by (intro step_ok_none [OF _ _ rep] store_step.calloc_none)
        (simp add: tuya_mem_heap_calloc_def tuya_mem_heap_malloc_def)
    next
      case (2 x k bs' env')
      let ?m = "mem_fill (x + 4) n 0 (he_mem env')" and ?d = "replicate n (0 :: u8)"
      have l: "length ?d + 5 \<le> k" using 2(5) block_need_bounds(3) [of n] by simp
      have z: "\<forall>j < length ?d. ?m (x + 4 + j) = ?d ! j" by (simp add: mem_fill_def)
      have same: "?m j = he_mem env' j" if "j < x + 4 \<or> x + k - 1 \<le> j" for j
        using that l by (auto simp: mem_fill_def)
      note w = represents_write [OF 2(2,6,4) same l z]
      have "heap_call i (Calloc n) env = Some (x + 4, env'\<lparr>he_mem := ?m\<rparr>)"
        using 2(1) by (simp add: tuya_mem_heap_calloc_def tuya_mem_heap_malloc_def)
      moreover have "outside a (a + total_size bs) (he_mem env) ?m" using outside_trans [OF 2(8)] w(3) 2(3) by simp
      moreover have "store_step a (a + total_size bs) S (Calloc n) (x + 4) (S(x + 4 \<mapsto> ?d))"
        by (rule store_step.calloc [OF 2(7)])
      ultimately show ?thesis using w(1,2) 2(3) by (intro step_okI [where bs' = bs']) auto
    qed
  qed
qed

lemma step_free:
  assumes inv: "heap_inv env i a bs" and r: "store_rel (he_mem env) a bs S" and p: "S p = Some d"
  shows "step_ok i a (a + total_size bs) env S (Free p)"
proof -
  from r p obtain x k where x: "(x, k) \<in> set (useds a bs)" "p = x + 4" by (rule store_rel_object)
  from inv r x(1) obtain bs' env' where f: "MEM_Deallocate (Some i) (x + 4) env = Some env'" "heap_inv env' i a bs'"
    "total_size bs' = total_size bs" "store_rel (he_mem env') a bs' (S(x + 4 := None))"
    "outside a (a + total_size bs) (he_mem env) (he_mem env')" by (rule represents_free)
  show ?thesis
    by (rule step_okI [OF _ _ f(2,3,4,5)]) (use f(1) x p in \<open>auto simp: tuya_mem_heap_free_def intro: store_step.free\<close>)
qed

lemma step_store:
  assumes inv: "heap_inv env i a bs" and r: "store_rel (he_mem env) a bs S" and p: "S p = Some d" and k: "k < length d"
  shows "step_ok i a (a + total_size bs) env S (Store p k v)"
proof -
  from r p obtain x n where x: "(x, n) \<in> set (useds a bs)" "p = x + 4" "length d + 5 \<le> n" "\<forall>j < length d. he_mem env (p + j) = d ! j"
    by (rule store_rel_object)
  let ?m = "(he_mem env)(p + k := v)"
  have "length (d[k := v]) + 5 \<le> n" "\<forall>j < length (d[k := v]). ?m (x + 4 + j) = d[k := v] ! j"
    using x by (auto simp: nth_list_update)
  moreover have "?m j = he_mem env j" if "j < x + 4 \<or> x + n - 1 \<le> j" for j using that x k by auto
  ultimately have w: "heap_inv (env\<lparr>he_mem := ?m\<rparr>) i a bs" "store_rel ?m a bs (S(x + 4 \<mapsto> d[k := v]))"
      "outside a (a + total_size bs) (he_mem env) ?m"
    using represents_write [OF inv r x(1), of ?m "d[k := v]"] by blast+
  show ?thesis
    by (rule step_okI [where bs' = bs and env' = "env\<lparr>he_mem := ?m\<rparr>" and S' = "S(x + 4 \<mapsto> d[k := v])"])
      (use w x p k in \<open>auto intro: store_step.store\<close>)
qed

section \<open>Resizing\<close>

lemma fresh_mono: "fresh lo hi S p n \<Longrightarrow> k \<le> n \<Longrightarrow> fresh lo hi S p k"
  by (fastforce simp: fresh_def)

lemma fresh_self:
  assumes inv: "heap_inv env i a bs" and r: "store_rel (he_mem env) a bs S" and u: "(x, k) \<in> set (useds a bs)" and n: "n + 5 \<le> k"
  shows "fresh a (a + total_size bs) (S(x + 4 := None)) (x + 4) n"
proof -
  have b: "blocks (he_mem env) a bs" "4 dvd a" using heap_invD [OF inv] by auto
  have "x + 4 \<noteq> q \<and> (x + 4 + n \<le> q \<or> q + length e \<le> x + 4)" if e: "(S(x + 4 := None)) q = Some e" for q e
  proof -
    have "q \<noteq> x + 4" "S q = Some e" using e by (auto split: if_splits)
    moreover from r \<open>S q = Some e\<close> obtain y l where y: "(y, l) \<in> set (useds a bs)" "q = y + 4" "length e + 5 \<le> l"
      by (rule store_rel_object)
    ultimately have "(y, l) \<noteq> (x, k)" by auto
    then show ?thesis using useds_disjoint [OF y(1) u] y n \<open>q \<noteq> x + 4\<close> by auto
  qed
  moreover have "4 dvd x + 4" using useds_aligned [OF b(1) u b(2)] by simp
  ultimately show ?thesis using useds_range [OF u] n by (auto simp: fresh_def)
qed

text \<open>
  \<open>tuya_mem_heap_realloc\<close> on a block in use, with the sizes evaluated.
\<close>

lemma realloc_unfold:
  assumes inv: "heap_inv env i a bs" and u: "(x, k) \<in> set (useds a bs)" and n: "n < 2 ^ 32 - 8"
  shows "tuya_mem_heap_realloc (Some i) (x + 4) n env =
    (if block_need n \<le> k then Some (x + 4, env)
     else case MEM_Allocate (Some i) (max 4 n) env of
        None \<Rightarrow> None
      | Some (q, env1) \<Rightarrow>
          if q = 0 then Some (0, env1)
          else map_option (\<lambda>env. (q, env)) (MEM_Deallocate (Some i) (x + 4)
            (env1\<lparr>he_mem := mem_move q (x + 4) (sub32 (blk_size (he_mem env1) x) 4) (he_mem env1)\<rparr>)))"
proof -
  obtain us vs where s: "bs = us @ (k, True) # vs" "x = a + total_size us" using useds_split [OF u] by blast
  have ok: "heap_ok (he_mem env) (mh_free_list (he_list env ! i)) a (us @ (k, True) # vs)" using inv s by (simp add: heap_inv_def)
  note d = heap_okD [OF ok, folded s(2)]
  have x: "sub32 (x + 4) 4 = x" using d(3,5) by (simp add: sub32_small)
  have dog: "he_mem env (MEM_DOG_ADDR (he_mem env) x) = MEM_BLOCK_STAT_USE" using d(2,6) by (simp add: dog_of_def)
  have "block_need n < 2 ^ 32" using n by (simp add: block_need_def max_def) linarith
  then have w: "add32 (ALIGN_UP (add32 (max 4 n) 1)) 4 = block_need n"
    using new_size_cases [of n] n by (simp add: heap_consts)
  have m4: "(if n < 4 then 4 else n) = max 4 n" by simp
  show ?thesis
    using dog d(1)
    by (auto simp: tuya_mem_heap_realloc_def tuya_mem_heap_malloc_def tuya_mem_heap_free_def Let_def heap_consts x m4 w [simplified]
        split: option.splits)
qed

lemma block_need_max: "block_need (max 4 n) = block_need n"
  by (simp add: block_need_def)

lemma step_realloc:
  assumes inv: "heap_inv env i a bs" and r: "store_rel (he_mem env) a bs S" and p: "S p = Some d" and n: "n < 2 ^ 32 - 8"
  shows "step_ok i a (a + total_size bs) env S (Realloc p n)"
proof -
  from r p obtain x k where x: "(x, k) \<in> set (useds a bs)" "p = x + 4" "length d + 5 \<le> k" "\<forall>j < length d. he_mem env (p + j) = d ! j"
    by (rule store_rel_object)
  note U = realloc_unfold [OF inv x(1) n]
  show ?thesis
  proof (cases "block_need n \<le> k")
    case True
    let ?d = "map (\<lambda>j. he_mem env (x + 4 + j)) [0..<n]"
    have l: "length ?d + 5 \<le> k" using True block_need_bounds(3) [of n] by simp
    have w: "store_rel (he_mem env) a bs (S(x + 4 \<mapsto> ?d))"
      using represents_write(2) [OF inv r x(1), of "he_mem env" ?d] l by simp
    have "take n d = take (length d) ?d" using x by (auto intro: nth_equalityI)
    then have "store_step a (a + total_size bs) S (Realloc p n) p (S(p \<mapsto> ?d))"
      using p x(2) fresh_self [OF inv r x(1), of n] l by (intro store_step.realloc_stay) auto
    then show ?thesis using U True inv w x(2) by (intro step_okI [where bs' = bs]) (auto simp: outside_def)
  next
    case False
    have n4: "0 < max 4 n" "max 4 n < 2 ^ 32" using n by auto
    from inv r n4 show ?thesis
    proof (cases rule: represents_alloc)
      case 1
      then show ?thesis using U False x(2) p inv r
        by (intro step_ok_none) (auto intro: store_step.realloc_none simp: represents_def)
    next
      case (2 y l bs1 env1)
      have u1: "(x, k) \<in> set (useds a bs1)" using 2(9) x(1) by simp
      have kl: "k < l" using False 2(5) by (simp add: block_need_max)
      have old: "he_mem env1 (x + 4 + j) = d ! j" if "j < length d" for j
        using that x 2(10) useds_not_free [OF x(1), of "x + 4 + j"] by simp
      obtain us vs where "bs1 = us @ (k, True) # vs" "x = a + total_size us" using useds_split [OF u1] by blast
      then have sk: "blk_size (he_mem env1) x = k" "k < 2 ^ 32"
        using 2(2) heap_okD(1,5) [of "he_mem env1" "mh_free_list (he_list env1 ! i)" a us k True vs] by (auto simp: heap_inv_def)
      let ?m = "mem_move (y + 4) (x + 4) (k - 4) (he_mem env1)"
      let ?d = "map (\<lambda>j. ?m (y + 4 + j)) [0..<n]"
      have l: "length ?d + 5 \<le> l" using 2(5) block_need_bounds(3) [of n] by (simp add: block_need_max)
      have same: "?m j = he_mem env1 j" if "j < y + 4 \<or> y + l - 1 \<le> j" for j
        using that kl x(3) by (auto simp: mem_move_def)
      note w = represents_write [OF 2(2,6,4) same l]
      have w': "heap_inv (env1\<lparr>he_mem := ?m\<rparr>) i a bs1" "store_rel (he_mem (env1\<lparr>he_mem := ?m\<rparr>)) a bs1 (S(y + 4 \<mapsto> ?d))"
          "outside a (a + total_size bs) (he_mem env1) ?m"
        using w 2(3) by (simp_all add: mem_move_def)
      from w'(1,2) u1 show ?thesis
      proof (rule represents_free)
        fix bs2 env2
        assume f: "MEM_Deallocate (Some i) (x + 4) (env1\<lparr>he_mem := ?m\<rparr>) = Some env2" "heap_inv env2 i a bs2"
          "total_size bs2 = total_size bs1" "store_rel (he_mem env2) a bs2 ((S(y + 4 \<mapsto> ?d))(x + 4 := None))"
          "outside a (a + total_size bs1) (he_mem (env1\<lparr>he_mem := ?m\<rparr>)) (he_mem env2)"
        have "heap_call i (Realloc p n) env = Some (y + 4, env2)"
          using U False 2(1) sk f(1) x(2,3) by (simp add: sub32_small)
        moreover have "take n d = take (length d) ?d"
          using old x(3) by (intro nth_equalityI) (auto simp: mem_move_def)
        then have "store_step a (a + total_size bs) S (Realloc p n) (y + 4) ((S(y + 4 \<mapsto> ?d))(p := None))"
          using p fresh_mono [OF 2(7), of n] by (intro store_step.realloc_move) auto
        moreover have "outside a (a + total_size bs) (he_mem env) (he_mem env2)"
          using outside_trans [OF outside_trans [OF 2(8) w'(3)]] f(5) 2(3) by simp
        ultimately show ?thesis using f x(2) 2(3) by (intro step_okI [where bs' = bs2]) auto
      qed
    qed
  qed
qed

section \<open>Runs\<close>

theorem represents_step:
  assumes "represents i lo hi env S" and "legal S c"
  shows "step_ok i lo hi env S c"
proof -
  obtain bs where b: "heap_inv env i lo bs" "hi = lo + total_size bs" "store_rel (he_mem env) lo bs S"
    using assms(1) by (auto simp: represents_def)
  show ?thesis
  proof (cases c)
    case (Realloc p n)
    show ?thesis
    proof (cases "p = 0")
      case True
      have "n < 2 ^ 32" using assms(2) Realloc by simp
      from step_malloc [OF b(1,3) this] show ?thesis
        using Realloc True b(2) by (auto simp: step_ok_def tuya_mem_heap_realloc_def intro: store_step.realloc_null)
    qed (use Realloc assms(2) b step_realloc [OF b(1,3)] in auto)
  qed (use assms(2) b step_malloc [OF b(1,3)] step_calloc [OF b(1,3)] step_free [OF b(1,3)] step_store [OF b(1,3)]
      in \<open>auto split: option.splits\<close>)
qed

text \<open>
  The contents of the objects are in the memory.
\<close>

definition holds :: "memory \<Rightarrow> objects \<Rightarrow> bool" where
  "holds m S \<longleftrightarrow> (\<forall>p d. S p = Some d \<longrightarrow> (\<forall>j < length d. m (p + j) = d ! j))"

lemma represents_holds: "represents i lo hi env S \<Longrightarrow> holds (he_mem env) S"
  by (auto simp: represents_def holds_def elim!: store_rel_object)

inductive_cases store_malloc: "store_step lo hi S (Malloc n) r S'"
inductive_cases store_calloc: "store_step lo hi S (Calloc n) r S'"
inductive_cases store_realloc: "store_step lo hi S (Realloc p n) r S'"
inductive_cases store_free: "store_step lo hi S (Free p) r S'"
inductive_cases store_store: "store_step lo hi S (Store p k v) r S'"

lemma holds_object: "holds m S \<Longrightarrow> S p = Some d \<Longrightarrow> d = map (\<lambda>j. m (p + j)) [0..<length d]"
  by (rule nth_equalityI) (auto simp: holds_def)

lemma holds_unique: "holds m S1 \<Longrightarrow> holds m S2 \<Longrightarrow> S1 p = Some d \<Longrightarrow> S2 p = Some e \<Longrightarrow> length d = length e \<Longrightarrow> d = e"
  by (metis holds_object)

lemma store_step_malloc_unique:
  "store_step lo hi S (Malloc n) r S1 \<Longrightarrow> store_step lo hi S (Malloc n) r S2 \<Longrightarrow> holds m S1 \<Longrightarrow> holds m S2 \<Longrightarrow> S1 = S2"
  by (elim store_malloc) (auto simp: fresh_def dest: holds_unique [where p = r])

lemma store_step_unique:
  assumes "store_step lo hi S c r S1" and "store_step lo hi S c r S2" and "holds m S1" and "holds m S2" and "S 0 = None"
  shows "S1 = S2"
proof (cases c)
  case (Malloc n)
  then show ?thesis using assms store_step_malloc_unique by blast
next
  case (Calloc n)
  show ?thesis using assms(1,2) unfolding Calloc by (auto simp: fresh_def elim!: store_calloc)
next
  case (Realloc p n)
  show ?thesis using assms unfolding Realloc
    by (elim store_realloc) (auto simp: fresh_def elim!: store_realloc dest: holds_unique [where p = r] store_step_malloc_unique)
next
  case (Free p)
  show ?thesis using assms(1,2) unfolding Free by (auto elim!: store_free)
next
  case (Store p k v)
  show ?thesis using assms(1,2) unfolding Store by (auto elim!: store_store)
qed

end
