(* ===== verification/Mem_Client.thy ===== *)
theory Mem_Client
  imports Mem_Refine
begin

text \<open>
  Clients of a heap: whole runs from its creation on, against the object store, the status walk
  and the state after everything was released.
\<close>

section \<open>Runs of a client\<close>

inductive client_run :: "nat \<Rightarrow> nat \<Rightarrow> (heap_op \<Rightarrow> 'e \<Rightarrow> (nat \<times> 'e) option) \<Rightarrow> ('e \<Rightarrow> memory) \<Rightarrow> 'e \<Rightarrow> 'e \<Rightarrow> objects \<Rightarrow> bool"
  for lo hi call mem e0 where
  start: "client_run lo hi call mem e0 e0 Map.empty"
| step: "client_run lo hi call mem e0 e S \<Longrightarrow> legal S c \<Longrightarrow> call c e = Some (r, e') \<Longrightarrow> store_step lo hi S c r S' \<Longrightarrow>
    holds (mem e') S' \<Longrightarrow> client_run lo hi call mem e0 e' S'"

text \<open>
  What an allocator promises to its clients.
\<close>

locale object_heap =
  fixes call :: "heap_op \<Rightarrow> 'e \<Rightarrow> (nat \<times> 'e) option" and mem :: "'e \<Rightarrow> memory"
    and rep :: "'e \<Rightarrow> objects \<Rightarrow> bool" and lo hi :: nat
  assumes rep_step: "rep e S \<Longrightarrow> legal S c \<Longrightarrow> \<exists>r e' S'. call c e = Some (r, e') \<and> store_step lo hi S c r S' \<and>
      rep e' S' \<and> outside lo hi (mem e) (mem e')"
    and rep_holds: "rep e S \<Longrightarrow> holds (mem e) S"
    and rep_null: "rep e S \<Longrightarrow> S 0 = None"
begin

lemma run_rep: "client_run lo hi call mem e0 e S \<Longrightarrow> rep e0 Map.empty \<Longrightarrow> rep e S"
proof (induction rule: client_run.induct)
  case (step e S c r e' S')
  then have "rep e S" by simp
  from rep_step [OF this step.hyps(2)] obtain S2 where "store_step lo hi S c r S2" "rep e' S2"
    using step.hyps(3) by auto
  then show ?case
    using store_step_unique [OF step.hyps(4) _ step.hyps(5)] rep_holds rep_null [OF \<open>rep e S\<close>] by metis
qed simp

lemma run_outside: "client_run lo hi call mem e0 e S \<Longrightarrow> rep e0 Map.empty \<Longrightarrow> outside lo hi (mem e0) (mem e)"
proof (induction rule: client_run.induct)
  case (step e S c r e' S')
  then have "rep e S" using run_rep by blast
  from rep_step [OF this step.hyps(2)] have "outside lo hi (mem e) (mem e')" using step.hyps(3) by auto
  then show ?case using step outside_trans by blast
qed (simp add: outside_def)

lemma run_continues:
  assumes "client_run lo hi call mem e0 e S" and "rep e0 Map.empty" and "legal S c"
  shows "\<exists>r e' S'. call c e = Some (r, e') \<and> store_step lo hi S c r S' \<and> client_run lo hi call mem e0 e' S'"
proof -
  from rep_step [OF run_rep [OF assms(1,2)] assms(3)] obtain r e' S' where
    s: "call c e = Some (r, e')" "store_step lo hi S c r S'" "rep e' S'" by blast
  then show ?thesis using client_run.step [OF assms(1,3) s(1,2)] rep_holds by blast
qed

end

lemma represents_null: "represents i lo hi env S \<Longrightarrow> S 0 = None"
  by (cases "S 0") (auto simp: represents_def elim!: store_rel_object)

interpretation hp: object_heap "heap_call i" he_mem "represents i lo hi" lo hi for i lo hi
  using represents_step by unfold_locales (auto simp: step_ok_def represents_holds represents_null)

section \<open>Creation\<close>

lemma mem_heap_init_ok:
  assumes b: "0 < base" "base + 3 < 2 ^ 32" "base + sz < 2 ^ 32" "ALIGN_UP base \<le> base + sz" and i: "i < length (he_list env)"
    and ok: "mem_heap_init i base sz env = (True, env')"
  shows "heap_inv env' i (ALIGN_UP base) [(ALIGN_DOWN (base + sz) - ALIGN_UP base, False)]"
    "mh_base (he_list env' ! i) = base" "mh_size (he_list env' ! i) = sz" "length (he_list env') = length (he_list env)"
    "28 \<le> ALIGN_DOWN (base + sz) - ALIGN_UP base" "ALIGN_UP base \<le> ALIGN_DOWN (base + sz)"
proof -
  define a where "a = ALIGN_UP base"
  define n where "n = ALIGN_DOWN (base + sz) - a"
  have a: "a = (base + 3) div 4 * 4" using b by (simp add: a_def ALIGN_UP_def ALIGN_DOWN_def add32_small heap_consts)
  then have a': "4 dvd a" "base \<le> a" "0 < a" "a \<le> base + sz" using b by (auto simp: a_def [symmetric])
  obtain q where q: "base + sz = a + q" using a'(4) le_Suc_ex by blast
  then have down: "ALIGN_DOWN (base + sz) = a + q div 4 * 4"
    using a'(1) by (auto simp: ALIGN_DOWN_def heap_consts elim!: dvdE)
  have "sub32 sz (sub32 a base) = q" using a' b q by (simp add: sub32_small)
  then have n: "ALIGN_DOWN (sub32 sz (sub32 a base)) = n" "n = q div 4 * 4" "a + n < 2 ^ 32"
    using down b(3) q by (auto simp: n_def ALIGN_DOWN_def heap_consts)
  have n28: "28 \<le> n" using ok n(1) by (auto simp: mem_heap_init_def Let_def a_def [symmetric] heap_consts split: if_splits)
  let ?m1 = "set_blk_size a n (set_blk_next a 0 (he_mem env))"
  have r: "rd32 ?m1 a = n" "rd32 ?m1 (a + 4) = 0"
    using n(3) by (simp_all add: set_blk_size_def set_blk_next_def rd32_wr32_same rd32_wr32_other)
  then have "MEM_DOG_ADDR ?m1 a = a + n - 1"
    using n(3) n28 by (simp add: MEM_DOG_ADDR_def blk_size_def add32_small sub32_small)
  then have m: "set_dog a MEM_BLOCK_STAT_FREE ?m1 = ?m1(a + n - 1 := MEM_BLOCK_STAT_FREE)" by (simp add: set_dog_def)
  let ?m2 = "?m1(a + n - 1 := MEM_BLOCK_STAT_FREE)"
  have r2: "rd32 ?m2 a = n" by (rule rd32_cong [THEN trans, OF _ r(1)]) (use n28 in auto)
  have r3: "rd32 ?m2 (a + 4) = 0" by (rule rd32_cong [THEN trans, OF _ r(2)]) (use n28 in auto)
  have "heap_ok ?m2 a a [(n, False)]" using r2 r3 n n28 a' by (simp add: heap_ok_def dog_of_def)
  then show "heap_inv env' i (ALIGN_UP base) [(ALIGN_DOWN (base + sz) - ALIGN_UP base, False)]"
    using ok n(1) n28 i m a' b(3) down n(2)
    by (auto simp: mem_heap_init_def Let_def a_def [symmetric] n_def [symmetric] heap_consts heap_inv_def separated_def add32_small)
  show "mh_base (he_list env' ! i) = base" "mh_size (he_list env' ! i) = sz" "length (he_list env') = length (he_list env)"
    using ok n(1) n28 i by (auto simp: mem_heap_init_def Let_def a_def [symmetric] heap_consts)
  show "28 \<le> ALIGN_DOWN (base + sz) - ALIGN_UP base" "ALIGN_UP base \<le> ALIGN_DOWN (base + sz)"
    using n28 down by (simp_all add: n_def a_def)
qed

lemma create_represents:
  assumes c: "tuya_mem_heap_create base sz env0 = (0, Some i, env)" and l: "length (he_list env0) = MEM_HEAP_LIST_NUM"
    and b: "base + 3 < 2 ^ 32" "base + sz < 2 ^ 32" "ALIGN_UP base \<le> base + sz"
  shows "represents i (ALIGN_UP base) (ALIGN_DOWN (base + sz)) env Map.empty"
    "heap_inv env i (ALIGN_UP base) [(ALIGN_DOWN (base + sz) - ALIGN_UP base, False)]"
    "mh_base (he_list env ! i) = base" "mh_size (he_list env ! i) = sz"
proof -
  have base: "0 < base" "i < length (he_list env0)" "mem_heap_init i base sz env0 = (True, env)"
    using c l by (auto simp: tuya_mem_heap_create_def MEM_HeapCreate_def find_Some_iff split: if_splits option.splits prod.splits)
  note p = mem_heap_init_ok [OF base(1) b base(2,3)]
  show "heap_inv env i (ALIGN_UP base) [(ALIGN_DOWN (base + sz) - ALIGN_UP base, False)]"
      "mh_base (he_list env ! i) = base" "mh_size (he_list env ! i) = sz"
    using p by auto
  then show "represents i (ALIGN_UP base) (ALIGN_DOWN (base + sz)) env Map.empty"
    unfolding represents_def using p(6)
    by (intro exI [of _ "[(ALIGN_DOWN (base + sz) - ALIGN_UP base, False)]"]) (simp add: store_rel_def)
qed

section \<open>Status\<close>

lemma useds_distinct: "blocks m a bs \<Longrightarrow> distinct (map fst (useds a bs))"
proof (induction a bs rule: meta.induct)
  case (2 a n u bs)
  then have "a \<notin> set (map fst (useds (a + n) bs))" using useds_range [of _ _ "a + n" bs] by fastforce
  then show ?case using 2 by auto
qed simp

lemma count_le: "blocks m a bs \<Longrightarrow> 12 * (length (useds a bs) + length (frees a bs)) \<le> total_size bs"
  by (induction a bs rule: meta.induct) (auto simp: algebra_simps)

lemma free_count_le: "blocks m a bs \<Longrightarrow> 12 * length (frees a bs) \<le> free_total bs"
  by (induction a bs rule: meta.induct) auto

lemma status_walk_ok:
  assumes "blocks m a bs" and "fchain m fl (frees a bs) 0" and "0 < a" and "a + total_size bs < 2 ^ 32"
    and "st_used_block st + length (useds a bs) < 2 ^ 32" and "st_free_block st + length (frees a bs) < 2 ^ 32"
    and "st_free st + free_total bs < 2 ^ 32"
  shows "\<exists>st'. status_walk m (a + total_size bs) a fl st = Some st' \<and> st_valid st' \<and> st_size st' = st_size st \<and>
    st_used_block st' = st_used_block st + length (useds a bs) \<and> st_free_block st' = st_free_block st + length (frees a bs) \<and>
    st_free st' + 5 * length (frees a bs) = st_free st + free_total bs"
  using assms
proof (induction a bs arbitrary: fl st rule: meta.induct)
  case (1 a)
  then show ?case by (subst status_walk.simps) auto
next
  case (2 a n u bs)
  have n: "12 \<le> n" "blk_size m a = n" "MEM_DOG_ADDR m a = a + n - 1" "m (a + n - 1) = dog_of u" "blocks m (a + n) bs"
    using 2(2,5) by (auto simp: blk_size_def MEM_DOG_ADDR_def add32_small sub32_small)
  have step: "add32 a n = a + n" "a < a + total_size ((n, u) # bs)" "a + n + total_size bs = a + total_size ((n, u) # bs)"
    using n(1) 2(5) by (auto simp: add32_small)
  show ?case
  proof (cases u)
    case True
    have "fl \<noteq> a"
    proof
      assume "fl = a"
      then have "a = hd (frees (a + n) bs @ [0])" using fchain_hd [OF 2(3)] True by simp
      then show False using frees_range [OF n(5), of a] n(1) 2(4) by (cases "frees (a + n) bs") auto
    qed
    let ?st = "st\<lparr>st_used_block := add32 (st_used_block st) 1\<rparr>"
    have "status_walk m (a + total_size ((n, u) # bs)) a fl st = status_walk m (a + n + total_size bs) (a + n) fl ?st"
      using n True step \<open>fl \<noteq> a\<close> by (subst status_walk.simps) (simp add: dog_of_def add.assoc)
    moreover have "add32 (st_used_block st) 1 = st_used_block st + 1" using 2(6) True by (simp add: add32_small)
    ultimately show ?thesis using 2(1) [of fl ?st] 2(2-8) True n by (simp add: add.assoc)
  next
    case False
    then have fl: "fl = a" "fchain m (blk_next m a) (frees (a + n) bs) 0" using 2(3) by (auto simp: blk_next_def)
    define k where "k = n - 5"
    have k: "n = k + 5" using n(1) by (simp add: k_def)
    have "sub32 (sub32 n MEM_BLOCK_HEAD_SIZE) 1 = k" using n(1) 2(5) by (simp add: heap_consts sub32_small k_def)
    moreover have "add32 (st_free st) k = st_free st + k" "add32 (st_free_block st) 1 = st_free_block st + 1"
      using 2(7,8) False k by (simp_all add: add32_small)
    moreover have "MEM_BLOCK_STAT_FREE \<noteq> MEM_BLOCK_STAT_USE" by (simp add: MEM_BLOCK_STAT_FREE_def MEM_BLOCK_STAT_USE_def)
    ultimately have w: "status_walk m (a + total_size ((n, u) # bs)) a fl st =
        status_walk m (a + n + total_size bs) (a + n) (blk_next m a) (st\<lparr>st_free := st_free st + k,
          st_free_largest := (if k > st_free_largest st then k else st_free_largest st), st_free_block := st_free_block st + 1\<rparr>)"
      using n False step fl(1) by (subst status_walk.simps) (simp add: dog_of_def Let_def add.assoc)
    show ?thesis unfolding w
      using 2(1) [of "blk_next m a" "st\<lparr>st_free := st_free st + k,
          st_free_largest := (if k > st_free_largest st then k else st_free_largest st), st_free_block := st_free_block st + 1\<rparr>"]
        2(2-8) False n fl(2) k by auto
  qed
qed

lemma realloc_wraps:
  assumes inv: "heap_inv env i a bs" and u: "(x, k) \<in> set (useds a bs)"
    and n: "2 ^ 32 - 8 \<le> n" "n < 2 ^ 32" and need: "2 ^ 32 \<le> block_need n"
  shows "tuya_mem_heap_realloc (Some i) (x + 4) n env = Some (x + 4, env)" "tuya_mem_heap_malloc (Some i) n env = Some (0, env)"
    "blk_size (he_mem env) x < n + 5"
proof -
  obtain us vs where s: "bs = us @ (k, True) # vs" "x = a + total_size us" using useds_split [OF u] by blast
  have ok: "heap_ok (he_mem env) (mh_free_list (he_list env ! i)) a (us @ (k, True) # vs)" using inv s by (simp add: heap_inv_def)
  note d = heap_okD [OF ok, folded s(2)]
  have x: "sub32 (x + 4) 4 = x" using d(3,5) by (simp add: sub32_small)
  have dog: "he_mem env (MEM_DOG_ADDR (he_mem env) x) = MEM_BLOCK_STAT_USE" using d(2,6) by (simp add: dog_of_def)
  have w: "add32 (ALIGN_UP (add32 n 1)) 4 \<le> 4" using new_size_cases [OF n(2)] n(1) need by (auto simp: heap_consts)
  show "tuya_mem_heap_realloc (Some i) (x + 4) n env = Some (x + 4, env)"
    using dog d(1,3) w n(1) by (auto simp: tuya_mem_heap_realloc_def Let_def heap_consts x)
  show "tuya_mem_heap_malloc (Some i) n env = Some (0, env)"
    using w n(1) by (auto simp: tuya_mem_heap_malloc_def MEM_Allocate_def Let_def heap_consts)
  have "4 \<le> a" using heap_invD [OF inv] by (auto dest: dvd_imp_le)
  then show "blk_size (he_mem env) x < n + 5" using d(1,5) s(2) n(1) by simp
qed

section \<open>Properties\<close>

lemma represents_objects:
  assumes "represents i lo hi env S" and p: "S p = Some d"
  shows "4 dvd p \<and> lo \<le> p \<and> p + length d \<le> hi"
    "S q = Some e \<Longrightarrow> p \<noteq> q \<Longrightarrow> p + length d \<le> q \<or> q + length e \<le> p"
proof -
  obtain bs where b: "heap_inv env i lo bs" "lo + total_size bs = hi" and r: "store_rel (he_mem env) lo bs S"
    using assms(1) by (auto simp: represents_def)
  from r p obtain x n where x: "(x, n) \<in> set (useds lo bs)" "p = x + 4" "length d + 5 \<le> n" by (rule store_rel_object)
  have bl: "blocks (he_mem env) lo bs" "4 dvd lo" using heap_invD [OF b(1)] by auto
  show "4 dvd p \<and> lo \<le> p \<and> p + length d \<le> hi"
    using useds_aligned [OF bl(1) x(1) bl(2)] useds_range [OF x(1)] x b(2) by auto
  assume "S q = Some e" "p \<noteq> q"
  moreover from r \<open>S q = Some e\<close> obtain y k where y: "(y, k) \<in> set (useds lo bs)" "q = y + 4" "length e + 5 \<le> k"
    by (rule store_rel_object)
  ultimately show "p + length d \<le> q \<or> q + length e \<le> p" using useds_disjoint [OF x(1) y(1)] x y by auto
qed

lemma run_status:
  assumes r: "represents i lo hi env S"
  shows "\<exists>st. MEM_HeapStatus (he_list env ! i) (he_mem env) = Some st \<and> st_valid st \<and> st_used_block st = card (dom S) \<and>
    tuya_mem_heap_available (Some i) env = to_int32 (st_free st + 5 * st_free_block st)"
proof -
  obtain bs where b: "heap_inv env i lo bs" "lo + total_size bs = hi" and s: "store_rel (he_mem env) lo bs S"
    using r by (auto simp: represents_def)
  have k: "blocks (he_mem env) lo bs" "fchain (he_mem env) (mh_free_list (he_list env ! i)) (frees lo bs) 0" "0 < lo"
      "lo + total_size bs < 2 ^ 32" "mh_free (he_list env ! i) = free_total bs"
      "ALIGN_UP (mh_base (he_list env ! i)) = lo"
      "ALIGN_DOWN (add32 (mh_base (he_list env ! i)) (mh_size (he_list env ! i))) = lo + total_size bs"
    using b(1) by (auto simp: heap_inv_def heap_ok_def)
  have "card (dom S) = length (useds lo bs)"
  proof -
    have d: "distinct (map fst (useds lo bs))" by (rule useds_distinct [OF k(1)])
    then have "inj_on (\<lambda>(x, n). x + 4) (set (useds lo bs))" by (force simp: inj_on_def distinct_map)
    then show ?thesis using s d by (simp add: store_rel_def card_image distinct_card distinct_map)
  qed
  then show ?thesis
    using status_walk_ok [OF k(1-4), of "\<lparr>st_size = mh_size (he_list env ! i), st_free = 0, st_free_largest = 0, st_valid = False,
        st_used_block = 0, st_free_block = 0\<rparr>"] count_le [OF k(1)] free_total_le [of bs] k(4-7)
    by (auto simp: MEM_HeapStatus_def tuya_mem_heap_available_def)
qed

lemma drained_malloc:
  assumes r: "represents i lo hi env Map.empty" and n: "0 < n" "lo + n + 8 \<le> hi"
  shows "\<exists>p env'. tuya_mem_heap_malloc (Some i) n env = Some (p, env') \<and> p \<noteq> 0"
proof -
  obtain bs where b: "heap_inv env i lo bs" "lo + total_size bs = hi" and s: "store_rel (he_mem env) lo bs Map.empty"
    using r by (auto simp: represents_def)
  have D: "blocks (he_mem env) lo bs" "lo + total_size bs < 2 ^ 32" "separated bs" using b(1) by (auto simp: heap_inv_def heap_ok_def)
  have u: "useds lo bs = []" using s by (simp add: store_rel_def)
  obtain k v cs where bs: "bs = (k, v) # cs" using n b(2) by (cases bs) auto
  have "v = False" using u bs by (auto split: if_splits)
  moreover have "cs = []"
  proof (cases cs)
    case (Cons c cs')
    then show ?thesis using D(3) bs u \<open>v = False\<close> by (cases c) (auto simp: separated_def split: if_splits)
  qed
  ultimately have bs: "bs = [(hi - lo, False)]" using bs b(2) by auto
  have "12 \<le> hi - lo" using D(1) bs by simp
  then have fits: "block_need n \<le> hi - lo" using n by (cases "n < 4") (auto simp: block_need_def max_def)
  then have "n < 2 ^ 32" using n D(2) b(2) by simp
  from alloc_inv [OF b(1) n(1) this] show ?thesis
    using bs fits by (auto simp: tuya_mem_heap_malloc_def)
qed

text \<open>
  Property C3: the heap manager implements an object store. After any sequence of legal calls
  of malloc, calloc, realloc and free and writes into live objects, from the creation of the
  heap on: the live objects are aligned, inside the heap and disjoint, and their bytes are what
  the client wrote; no byte outside the heap changes; and the next legal call returns, with a
  result and an effect that the object store allows.
\<close>

theorem heap_refines_store:
  assumes c: "tuya_mem_heap_create base sz env0 = (0, Some i, env1)" "length (he_list env0) = MEM_HEAP_LIST_NUM"
    and b: "base + 3 < 2 ^ 32" "base + sz < 2 ^ 32" "ALIGN_UP base \<le> base + sz"
    and run: "client_run (ALIGN_UP base) (ALIGN_DOWN (base + sz)) (heap_call i) he_mem env1 env S"
  shows "(\<forall>p d. S p = Some d \<longrightarrow> 4 dvd p \<and> ALIGN_UP base \<le> p \<and> p + length d \<le> ALIGN_DOWN (base + sz) \<and>
      (\<forall>j < length d. he_mem env (p + j) = d ! j)) \<and>
    (\<forall>p d q e. S p = Some d \<and> S q = Some e \<and> p \<noteq> q \<longrightarrow> p + length d \<le> q \<or> q + length e \<le> p) \<and>
    (\<forall>j. j < ALIGN_UP base \<or> ALIGN_DOWN (base + sz) \<le> j \<longrightarrow> he_mem env j = he_mem env1 j) \<and>
    (\<forall>k. legal S k \<longrightarrow> (\<exists>r env' S'. heap_call i k env = Some (r, env') \<and>
      store_step (ALIGN_UP base) (ALIGN_DOWN (base + sz)) S k r S' \<and>
      client_run (ALIGN_UP base) (ALIGN_DOWN (base + sz)) (heap_call i) he_mem env1 env' S'))"
proof -
  note r0 = create_represents(1) [OF c b]
  note r = hp.run_rep [OF run r0]
  have "S p = Some d \<Longrightarrow> 4 dvd p \<and> ALIGN_UP base \<le> p \<and> p + length d \<le> ALIGN_DOWN (base + sz) \<and>
      (\<forall>j < length d. he_mem env (p + j) = d ! j)" for p d
    using represents_objects(1) [OF r] represents_holds [OF r] by (auto simp: holds_def)
  moreover have "he_mem env j = he_mem env1 j" if "j < ALIGN_UP base \<or> ALIGN_DOWN (base + sz) \<le> j" for j
    using hp.run_outside [OF run r0] that by (auto simp: outside_def)
  ultimately show ?thesis using represents_objects(2) [OF r] hp.run_continues [OF run r0] by blast
qed

text \<open>
  A heap of 64 bytes at \<open>0x1002\<close>, in memory that is zero.
\<close>

definition heap_example :: heap_env where
  "heap_example = \<lparr>he_mem = (\<lambda>_. 0), he_list = replicate 4 \<lparr>mh_free_list = 0, mh_base = 0, mh_size = 0, mh_free = 0, mh_watermark = 0\<rparr>,
     he_free = 0, he_watermark = 0\<rparr>"

definition heap_example_created :: heap_env where
  "heap_example_created = snd (snd (tuya_mem_heap_create 0x1002 64 heap_example))"

lemma heap_example_create: "tuya_mem_heap_create 0x1002 64 heap_example = (0, Some 0, heap_example_created)"
proof -
  have "fst (MEM_HeapCreate 0x1002 64 heap_example) = Some 0"
    by (simp add: MEM_HeapCreate_def mem_heap_init_def heap_example_def Let_def heap_consts ALIGN_UP_def ALIGN_DOWN_def
        add32_def sub32_def upt_rec [of 0])
  then show ?thesis
    by (cases "MEM_HeapCreate 0x1002 64 heap_example") (simp add: heap_example_created_def tuya_mem_heap_create_def)
qed

lemma heap_example_bounds: "ALIGN_UP 0x1002 = 0x1004" "ALIGN_DOWN 0x1042 = 0x1040"
  "length (he_list heap_example) = MEM_HEAP_LIST_NUM"
  by (simp_all add: ALIGN_UP_def ALIGN_DOWN_def add32_def heap_consts heap_example_def)

lemma heap_example_run:
  "\<exists>r d env S. client_run 0x1004 0x1040 (heap_call 0) he_mem heap_example_created env S \<and> S r = Some d \<and> length d = 8"
proof -
  have r: "represents 0 0x1004 0x1040 heap_example_created Map.empty"
    using create_represents(1) [OF heap_example_create heap_example_bounds(3)] by (simp add: heap_example_bounds)
  from hp.run_continues [OF client_run.start r, of "Malloc 8"] obtain q env S where
    s: "heap_call 0 (Malloc 8) heap_example_created = Some (q, env)" "store_step 0x1004 0x1040 Map.empty (Malloc 8) q S"
      "client_run 0x1004 0x1040 (heap_call 0) he_mem heap_example_created env S" by auto
  have "q \<noteq> 0" using drained_malloc [OF r, of 8] s(1) by simp
  with s(2) have "\<exists>d. S q = Some d \<and> length d = 8" by (auto elim!: store_malloc)
  then show ?thesis using s(3) by blast
qed

theorem heap_refines_store_witness:
  "\<exists>p d env S. client_run 0x1004 0x1040 (heap_call 0) he_mem heap_example_created env S \<and>
     S p = Some d \<and> length d = 8 \<and> 0x1004 \<le> p \<and> p + 8 \<le> 0x1040 \<and> (\<forall>j < 8. he_mem env (p + j) = d ! j)"
proof -
  note props = heap_refines_store [OF heap_example_create heap_example_bounds(3), simplified, unfolded heap_example_bounds, simplified]
  obtain r d env S where s: "client_run 0x1004 0x1040 (heap_call 0) he_mem heap_example_created env S" "S r = Some d" "length d = 8"
    using heap_example_run by metis
  from props [OF s(1), THEN conjunct1, rule_format, OF s(2)] s show ?thesis
    by (intro exI [of _ r] exI [of _ d] exI [of _ env] exI [of _ S]) auto
qed

text \<open>
  Property C15: what the heap reports about itself. After any run of a client the status walk
  visits all blocks and finds the heap valid; it counts one used block per live object, and the
  free bytes it adds up agree with the counter behind \<open>tuya_mem_heap_available\<close>, less the
  five bytes per block that the manager needs. When the client has released everything, the
  neighbouring free blocks have been merged: a request for any size that fits in the empty heap
  succeeds.
\<close>

theorem heap_status_and_merging:
  assumes c: "tuya_mem_heap_create base sz env0 = (0, Some i, env1)" "length (he_list env0) = MEM_HEAP_LIST_NUM"
    and b: "base + 3 < 2 ^ 32" "base + sz < 2 ^ 32" "ALIGN_UP base \<le> base + sz"
    and run: "client_run (ALIGN_UP base) (ALIGN_DOWN (base + sz)) (heap_call i) he_mem env1 env S"
  shows "(\<exists>st. MEM_HeapStatus (he_list env ! i) (he_mem env) = Some st \<and> st_valid st \<and> st_used_block st = card (dom S) \<and>
      tuya_mem_heap_available (Some i) env = to_int32 (st_free st + 5 * st_free_block st)) \<and>
    (S = Map.empty \<and> 0 < n \<and> ALIGN_UP base + n + 8 \<le> ALIGN_DOWN (base + sz) \<longrightarrow>
      (\<exists>p env'. tuya_mem_heap_malloc (Some i) n env = Some (p, env') \<and> p \<noteq> 0))"
proof -
  note r = hp.run_rep [OF run create_represents(1) [OF c b]]
  show ?thesis using run_status [OF r] drained_malloc [of i _ _ env n] r by blast
qed

theorem heap_status_and_merging_witness:
  "\<exists>st p env'. MEM_HeapStatus (he_list heap_example_created ! 0) (he_mem heap_example_created) = Some st \<and> st_valid st \<and>
     st_used_block st = 0 \<and> tuya_mem_heap_malloc (Some 0) 52 heap_example_created = Some (p, env') \<and> p \<noteq> 0"
  using heap_status_and_merging [OF heap_example_create heap_example_bounds(3) _ _ _ client_run.start, of 52]
  by (auto simp: heap_example_bounds)

text \<open>
  Property C38: sizes close to \<open>2 ^ 32\<close>. Rounding the requested size up wraps around, so that
  \<open>tuya_mem_heap_realloc\<close> takes the request for a shrinking one: it reports success and returns
  the old block, which has a few bytes only. \<open>MEM_Allocate\<close> has the check that is missing there
  and refuses the same size.
\<close>

theorem heap_realloc_size_wraps:
  assumes c: "tuya_mem_heap_create base sz env0 = (0, Some i, env1)" "length (he_list env0) = MEM_HEAP_LIST_NUM"
    and b: "base + 3 < 2 ^ 32" "base + sz < 2 ^ 32" "ALIGN_UP base \<le> base + sz"
    and run: "client_run (ALIGN_UP base) (ALIGN_DOWN (base + sz)) (heap_call i) he_mem env1 env S"
    and p: "S p = Some d" and n: "2 ^ 32 - 8 \<le> n" "n < 2 ^ 32"
  shows "tuya_mem_heap_realloc (Some i) p n env = Some (p, env) \<and> tuya_mem_heap_malloc (Some i) n env = Some (0, env) \<and>
    blk_size (he_mem env) (p - 4) < n + 5"
proof -
  note r = hp.run_rep [OF run create_represents(1) [OF c b]]
  then obtain bs where inv: "heap_inv env i (ALIGN_UP base) bs" and s: "store_rel (he_mem env) (ALIGN_UP base) bs S"
    by (auto simp: represents_def)
  from s p obtain x k where x: "(x, k) \<in> set (useds (ALIGN_UP base) bs)" "p = x + 4" by (rule store_rel_object)
  have need: "2 ^ 32 \<le> block_need n" using n by (simp add: block_need_def)
  show ?thesis using realloc_wraps [OF inv x(1) n need] x(2) by simp
qed

theorem heap_realloc_size_wraps_witness:
  "\<exists>p env S. client_run 0x1004 0x1040 (heap_call 0) he_mem heap_example_created env S \<and> S p \<noteq> None \<and>
     tuya_mem_heap_realloc (Some 0) p 0xFFFFFFFF env = Some (p, env)"
proof -
  obtain r d env S where s: "client_run 0x1004 0x1040 (heap_call 0) he_mem heap_example_created env S" "S r = Some d"
    using heap_example_run by metis
  have "tuya_mem_heap_realloc (Some 0) r 0xFFFFFFFF env = Some (r, env)"
    using heap_realloc_size_wraps [OF heap_example_create heap_example_bounds(3), of env S r d "0xFFFFFFFF"] s
    by (simp add: heap_example_bounds)
  then show ?thesis using s by blast
qed

end
