(* ===== verification/Aes.thy ===== *)
theory Aes
  imports Fw_Prelude
begin

text \<open>
  AES with a key of 128 bits on one block, \<open>aes_ecb.c\<close>: the implementation in software, and the one
  on \<open>mbedtls\<close>, whose functions are parameters. A block is a list of 16 bytes in the order
  of the code, column by column.
\<close>

section \<open>Tables\<close>

definition AES_BLOCK_SIZE :: nat where "AES_BLOCK_SIZE = 16"
definition AES_ROUNDS :: nat where "AES_ROUNDS = 10"

definition RC :: "u8 list" where
  "RC = [0x01, 0x02, 0x04, 0x08, 0x10, 0x20, 0x40, 0x80, 0x1b, 0x36]"

definition SBOX :: "u8 list" where
  "SBOX =
  [0x63, 0x7c, 0x77, 0x7b, 0xf2, 0x6b, 0x6f, 0xc5, 0x30, 0x01, 0x67, 0x2b, 0xfe, 0xd7, 0xab, 0x76,
   0xca, 0x82, 0xc9, 0x7d, 0xfa, 0x59, 0x47, 0xf0, 0xad, 0xd4, 0xa2, 0xaf, 0x9c, 0xa4, 0x72, 0xc0,
   0xb7, 0xfd, 0x93, 0x26, 0x36, 0x3f, 0xf7, 0xcc, 0x34, 0xa5, 0xe5, 0xf1, 0x71, 0xd8, 0x31, 0x15,
   0x04, 0xc7, 0x23, 0xc3, 0x18, 0x96, 0x05, 0x9a, 0x07, 0x12, 0x80, 0xe2, 0xeb, 0x27, 0xb2, 0x75,
   0x09, 0x83, 0x2c, 0x1a, 0x1b, 0x6e, 0x5a, 0xa0, 0x52, 0x3b, 0xd6, 0xb3, 0x29, 0xe3, 0x2f, 0x84,
   0x53, 0xd1, 0x00, 0xed, 0x20, 0xfc, 0xb1, 0x5b, 0x6a, 0xcb, 0xbe, 0x39, 0x4a, 0x4c, 0x58, 0xcf,
   0xd0, 0xef, 0xaa, 0xfb, 0x43, 0x4d, 0x33, 0x85, 0x45, 0xf9, 0x02, 0x7f, 0x50, 0x3c, 0x9f, 0xa8,
   0x51, 0xa3, 0x40, 0x8f, 0x92, 0x9d, 0x38, 0xf5, 0xbc, 0xb6, 0xda, 0x21, 0x10, 0xff, 0xf3, 0xd2,
   0xcd, 0x0c, 0x13, 0xec, 0x5f, 0x97, 0x44, 0x17, 0xc4, 0xa7, 0x7e, 0x3d, 0x64, 0x5d, 0x19, 0x73,
   0x60, 0x81, 0x4f, 0xdc, 0x22, 0x2a, 0x90, 0x88, 0x46, 0xee, 0xb8, 0x14, 0xde, 0x5e, 0x0b, 0xdb,
   0xe0, 0x32, 0x3a, 0x0a, 0x49, 0x06, 0x24, 0x5c, 0xc2, 0xd3, 0xac, 0x62, 0x91, 0x95, 0xe4, 0x79,
   0xe7, 0xc8, 0x37, 0x6d, 0x8d, 0xd5, 0x4e, 0xa9, 0x6c, 0x56, 0xf4, 0xea, 0x65, 0x7a, 0xae, 0x08,
   0xba, 0x78, 0x25, 0x2e, 0x1c, 0xa6, 0xb4, 0xc6, 0xe8, 0xdd, 0x74, 0x1f, 0x4b, 0xbd, 0x8b, 0x8a,
   0x70, 0x3e, 0xb5, 0x66, 0x48, 0x03, 0xf6, 0x0e, 0x61, 0x35, 0x57, 0xb9, 0x86, 0xc1, 0x1d, 0x9e,
   0xe1, 0xf8, 0x98, 0x11, 0x69, 0xd9, 0x8e, 0x94, 0x9b, 0x1e, 0x87, 0xe9, 0xce, 0x55, 0x28, 0xdf,
   0x8c, 0xa1, 0x89, 0x0d, 0xbf, 0xe6, 0x42, 0x68, 0x41, 0x99, 0x2d, 0x0f, 0xb0, 0x54, 0xbb, 0x16]"

definition INV_SBOX :: "u8 list" where
  "INV_SBOX =
  [0x52, 0x09, 0x6a, 0xd5, 0x30, 0x36, 0xa5, 0x38, 0xbf, 0x40, 0xa3, 0x9e, 0x81, 0xf3, 0xd7, 0xfb,
   0x7c, 0xe3, 0x39, 0x82, 0x9b, 0x2f, 0xff, 0x87, 0x34, 0x8e, 0x43, 0x44, 0xc4, 0xde, 0xe9, 0xcb,
   0x54, 0x7b, 0x94, 0x32, 0xa6, 0xc2, 0x23, 0x3d, 0xee, 0x4c, 0x95, 0x0b, 0x42, 0xfa, 0xc3, 0x4e,
   0x08, 0x2e, 0xa1, 0x66, 0x28, 0xd9, 0x24, 0xb2, 0x76, 0x5b, 0xa2, 0x49, 0x6d, 0x8b, 0xd1, 0x25,
   0x72, 0xf8, 0xf6, 0x64, 0x86, 0x68, 0x98, 0x16, 0xd4, 0xa4, 0x5c, 0xcc, 0x5d, 0x65, 0xb6, 0x92,
   0x6c, 0x70, 0x48, 0x50, 0xfd, 0xed, 0xb9, 0xda, 0x5e, 0x15, 0x46, 0x57, 0xa7, 0x8d, 0x9d, 0x84,
   0x90, 0xd8, 0xab, 0x00, 0x8c, 0xbc, 0xd3, 0x0a, 0xf7, 0xe4, 0x58, 0x05, 0xb8, 0xb3, 0x45, 0x06,
   0xd0, 0x2c, 0x1e, 0x8f, 0xca, 0x3f, 0x0f, 0x02, 0xc1, 0xaf, 0xbd, 0x03, 0x01, 0x13, 0x8a, 0x6b,
   0x3a, 0x91, 0x11, 0x41, 0x4f, 0x67, 0xdc, 0xea, 0x97, 0xf2, 0xcf, 0xce, 0xf0, 0xb4, 0xe6, 0x73,
   0x96, 0xac, 0x74, 0x22, 0xe7, 0xad, 0x35, 0x85, 0xe2, 0xf9, 0x37, 0xe8, 0x1c, 0x75, 0xdf, 0x6e,
   0x47, 0xf1, 0x1a, 0x71, 0x1d, 0x29, 0xc5, 0x89, 0x6f, 0xb7, 0x62, 0x0e, 0xaa, 0x18, 0xbe, 0x1b,
   0xfc, 0x56, 0x3e, 0x4b, 0xc6, 0xd2, 0x79, 0x20, 0x9a, 0xdb, 0xc0, 0xfe, 0x78, 0xcd, 0x5a, 0xf4,
   0x1f, 0xdd, 0xa8, 0x33, 0x88, 0x07, 0xc7, 0x31, 0xb1, 0x12, 0x10, 0x59, 0x27, 0x80, 0xec, 0x5f,
   0x60, 0x51, 0x7f, 0xa9, 0x19, 0xb5, 0x4a, 0x0d, 0x2d, 0xe5, 0x7a, 0x9f, 0x93, 0xc9, 0x9c, 0xef,
   0xa0, 0xe0, 0x3b, 0x4d, 0xae, 0x2a, 0xf5, 0xb0, 0xc8, 0xeb, 0xbb, 0x3c, 0x83, 0x53, 0x99, 0x61,
   0x17, 0x2b, 0x04, 0x7e, 0xba, 0x77, 0xd6, 0x26, 0xe1, 0x69, 0x14, 0x63, 0x55, 0x21, 0x0c, 0x7d]"

section \<open>Steps of a round\<close>

definition mul2 :: "u8 \<Rightarrow> u8" where
  "mul2 a = (if a AND 0x80 \<noteq> 0 then push_bit 1 a XOR 0x1b else push_bit 1 a)"

definition shift_rows :: "u8 list \<Rightarrow> u8 list" where
  "shift_rows state =
     (let temp = state ! 1;
          state = state[1 := state ! 5]; state = state[5 := state ! 9]; state = state[9 := state ! 13];
          state = state[13 := temp];
          temp = state ! 2; state = state[2 := state ! 10]; state = state[10 := temp];
          temp = state ! 6; state = state[6 := state ! 14]; state = state[14 := temp];
          temp = state ! 15;
          state = state[15 := state ! 11]; state = state[11 := state ! 7]; state = state[7 := state ! 3]
      in state[3 := temp])"

definition inv_shift_rows :: "u8 list \<Rightarrow> u8 list" where
  "inv_shift_rows state =
     (let temp = state ! 13;
          state = state[13 := state ! 9]; state = state[9 := state ! 5]; state = state[5 := state ! 1];
          state = state[1 := temp];
          temp = state ! 14; state = state[14 := state ! 6]; state = state[6 := temp];
          temp = state ! 10; state = state[10 := state ! 2]; state = state[2 := temp];
          temp = state ! 3;
          state = state[3 := state ! 7]; state = state[7 := state ! 11]; state = state[11 := state ! 15]
      in state[15 := temp])"

text \<open>
  The loops over a block: substitution, and the round key from position \<open>k\<close> of the key schedule.
\<close>

definition sub_bytes :: "u8 list \<Rightarrow> u8 list \<Rightarrow> u8 list" where
  "sub_bytes table st = map (\<lambda>b. table ! unat b) st"

definition add_round_key :: "u8 list \<Rightarrow> nat \<Rightarrow> u8 list \<Rightarrow> u8 list" where
  "add_round_key roundkeys k st = map (\<lambda>i. st ! i XOR roundkeys ! (k + i)) [0..<AES_BLOCK_SIZE]"

definition mix_column :: "u8 list \<Rightarrow> nat \<Rightarrow> u8 list \<Rightarrow> u8 list" where
  "mix_column tmp i out =
     (let t = tmp ! i XOR tmp ! (i + 1) XOR tmp ! (i + 2) XOR tmp ! (i + 3)
      in out[i := mul2 (tmp ! i XOR tmp ! (i + 1)) XOR tmp ! i XOR t,
             i + 1 := mul2 (tmp ! (i + 1) XOR tmp ! (i + 2)) XOR tmp ! (i + 1) XOR t,
             i + 2 := mul2 (tmp ! (i + 2) XOR tmp ! (i + 3)) XOR tmp ! (i + 2) XOR t,
             i + 3 := mul2 (tmp ! (i + 3) XOR tmp ! i) XOR tmp ! (i + 3) XOR t])"

definition mix_columns :: "u8 list \<Rightarrow> u8 list" where
  "mix_columns tmp = fold (mix_column tmp) [0, 4, 8, 12] tmp"

definition inv_mix_column :: "u8 list \<Rightarrow> nat \<Rightarrow> u8 list \<Rightarrow> u8 list" where
  "inv_mix_column tmp i out =
     (let t = tmp ! i XOR tmp ! (i + 1) XOR tmp ! (i + 2) XOR tmp ! (i + 3);
          out = out[i := t XOR tmp ! i XOR mul2 (tmp ! i XOR tmp ! (i + 1)),
                    i + 1 := t XOR tmp ! (i + 1) XOR mul2 (tmp ! (i + 1) XOR tmp ! (i + 2)),
                    i + 2 := t XOR tmp ! (i + 2) XOR mul2 (tmp ! (i + 2) XOR tmp ! (i + 3)),
                    i + 3 := t XOR tmp ! (i + 3) XOR mul2 (tmp ! (i + 3) XOR tmp ! i)];
          u = mul2 (mul2 (tmp ! i XOR tmp ! (i + 2)));
          v = mul2 (mul2 (tmp ! (i + 1) XOR tmp ! (i + 3)));
          t = mul2 (u XOR v)
      in out[i := out ! i XOR (t XOR u), i + 1 := out ! (i + 1) XOR (t XOR v),
             i + 2 := out ! (i + 2) XOR (t XOR u), i + 3 := out ! (i + 3) XOR (t XOR v)])"

definition inv_mix_columns :: "u8 list \<Rightarrow> u8 list" where
  "inv_mix_columns tmp = fold (inv_mix_column tmp) [0, 4, 8, 12] tmp"

section \<open>Key schedule\<close>

text \<open>
  One round of the schedule: \<open>roundkeys\<close> holds what is written so far, \<open>b\<close> bytes. The pointer
  \<open>last4bytes\<close> is at \<open>b - 4\<close> and \<open>lastround\<close> at \<open>b - 16\<close> when the round begins.
\<close>

definition key_round :: "nat \<Rightarrow> u8 list \<Rightarrow> u8 list" where
  "key_round i roundkeys =
     (let b = length roundkeys; s = (\<lambda>k. SBOX ! unat (roundkeys ! k));
          temp3 = s (b - 4); temp0 = s (b - 3); temp1 = s (b - 2); temp2 = s (b - 1);
          temp0 = temp0 XOR RC ! i;
          roundkeys = roundkeys @ [temp0 XOR roundkeys ! (b - 16), temp1 XOR roundkeys ! (b - 15),
            temp2 XOR roundkeys ! (b - 14), temp3 XOR roundkeys ! (b - 13)]
      in fold (\<lambda>j roundkeys. roundkeys @ [roundkeys ! (b + j - 4) XOR roundkeys ! (b + j - 16)]) [4..<16] roundkeys)"

definition aes_key_schedule_128 :: "u8 list \<Rightarrow> u8 list" where
  "aes_key_schedule_128 key = fold key_round [0..<AES_ROUNDS] (take 16 key)"

definition aes_key_reverse_128 :: "u8 list \<Rightarrow> u8 list \<Rightarrow> u8 list" where
  "aes_key_reverse_128 input output = fold (\<lambda>i output. output[AES_BLOCK_SIZE - 1 - i := input ! i]) [0..<AES_BLOCK_SIZE] output"

section \<open>The software implementation\<close>

text \<open>
  The rounds of \<open>aes_ecb_encrypt_128\<close> on a block, from the first \<open>AddRoundKey\<close> on.
\<close>

definition encrypt_round :: "u8 list \<Rightarrow> nat \<Rightarrow> u8 list \<Rightarrow> u8 list" where
  "encrypt_round roundkeys j st = add_round_key roundkeys (16 * j) (mix_columns (shift_rows (sub_bytes SBOX st)))"

definition encrypt_rounds :: "u8 list \<Rightarrow> u8 list \<Rightarrow> u8 list" where
  "encrypt_rounds roundkeys st =
     (let st = add_round_key roundkeys 0 st;
          st = fold (encrypt_round roundkeys) [1..<AES_ROUNDS] st
      in add_round_key roundkeys 160 (shift_rows (sub_bytes SBOX st)))"

text \<open>
  The loop at the end of both functions, which is meant to reverse the block.
\<close>

definition final_reverse :: "u8 list \<Rightarrow> u8 list" where
  "final_reverse st = fold (\<lambda>i st. st[i := st ! (AES_BLOCK_SIZE - 1 - i)]) [0..<AES_BLOCK_SIZE div 2] st"

definition aes_ecb_encrypt_128 :: "u8 list \<Rightarrow> u8 list \<Rightarrow> bool \<times> u8 list" where
  "aes_ecb_encrypt_128 keys plaintext =
     (let keys_rev = aes_key_reverse_128 keys (replicate 16 0);
          plaintext_rev = aes_key_reverse_128 plaintext (replicate 16 0)
      in (True, final_reverse (encrypt_rounds (aes_key_schedule_128 keys_rev) plaintext_rev)))"

definition decrypt_round :: "u8 list \<Rightarrow> nat \<Rightarrow> u8 list \<Rightarrow> u8 list" where
  "decrypt_round roundkeys j st =
     sub_bytes INV_SBOX (inv_shift_rows (inv_mix_columns (add_round_key roundkeys (160 - 16 * j) st)))"

definition decrypt_rounds :: "u8 list \<Rightarrow> u8 list \<Rightarrow> u8 list" where
  "decrypt_rounds roundkeys st =
     (let st = add_round_key roundkeys 160 st;
          st = sub_bytes INV_SBOX (inv_shift_rows st);
          st = fold (decrypt_round roundkeys) [1..<AES_ROUNDS] st
      in add_round_key roundkeys 0 st)"

definition aes_ecb_decrypt_128 :: "u8 list \<Rightarrow> u8 list \<Rightarrow> bool \<times> u8 list" where
  "aes_ecb_decrypt_128 keys ciphertext =
     (True, final_reverse (decrypt_rounds (aes_key_schedule_128 keys) ciphertext))"

section \<open>The implementation on mbedtls\<close>

text \<open>
  \<open>setkey_enc\<close> and \<open>crypt_ecb\<close> are \<open>mbedtls_aes_setkey_enc\<close> and \<open>mbedtls_aes_crypt_ecb\<close>: a status and
  a context, and a status and a block; the flag of \<open>crypt_ecb\<close> is set for encryption. The third
  argument is what the output holds before the call.
\<close>

definition mbedtls_ecb_128 ::
    "(u8 list \<Rightarrow> int \<times> 'c) \<Rightarrow> ('c \<Rightarrow> bool \<Rightarrow> u8 list \<Rightarrow> int \<times> u8 list) \<Rightarrow> bool \<Rightarrow> u8 list \<Rightarrow> u8 list \<Rightarrow> u8 list \<Rightarrow> bool \<times> u8 list" where
  "mbedtls_ecb_128 setkey_enc crypt_ecb encrypt keys input output =
     (let keys_rev = aes_key_reverse_128 keys (replicate 16 0);
          input_rev = aes_key_reverse_128 input (replicate 16 0);
          (ret, aes_ctx) = setkey_enc keys_rev
      in if ret \<noteq> 0 then (False, output)
         else
           let (ret, output_rev) = crypt_ecb aes_ctx encrypt input_rev
           in if ret \<noteq> 0 then (False, output)
              else (True, aes_key_reverse_128 output_rev output))"

definition aes_ecb_encrypt_128_mbedtls ::
    "(u8 list \<Rightarrow> int \<times> 'c) \<Rightarrow> ('c \<Rightarrow> bool \<Rightarrow> u8 list \<Rightarrow> int \<times> u8 list) \<Rightarrow> u8 list \<Rightarrow> u8 list \<Rightarrow> u8 list \<Rightarrow> bool \<times> u8 list" where
  "aes_ecb_encrypt_128_mbedtls setkey_enc crypt_ecb keys plaintext ciphertext =
     mbedtls_ecb_128 setkey_enc crypt_ecb True keys plaintext ciphertext"

definition aes_ecb_decrypt_128_mbedtls ::
    "(u8 list \<Rightarrow> int \<times> 'c) \<Rightarrow> ('c \<Rightarrow> bool \<Rightarrow> u8 list \<Rightarrow> int \<times> u8 list) \<Rightarrow> u8 list \<Rightarrow> u8 list \<Rightarrow> u8 list \<Rightarrow> bool \<times> u8 list" where
  "aes_ecb_decrypt_128_mbedtls setkey_enc crypt_ecb keys ciphertext plaintext =
     mbedtls_ecb_128 setkey_enc crypt_ecb False keys ciphertext plaintext"

section \<open>The field\<close>

text \<open>
  Multiplication in the field of 256 elements, on the polynomial of the standard: doubling and
  adding, bit by bit of the second factor.
\<close>

definition xtime :: "u8 \<Rightarrow> u8" where
  "xtime a = (if bit a 7 then push_bit 1 a XOR 0x1b else push_bit 1 a)"

definition gf_mul :: "u8 \<Rightarrow> u8 \<Rightarrow> u8" where
  "gf_mul a b = snd (fold (\<lambda>i (a, r). (xtime a, if bit b i then r XOR a else r)) [0..<8] (a, 0))"

lemma mul2_xtime: "mul2 a = xtime a"
proof -
  have "a AND 0x80 \<noteq> 0 \<longleftrightarrow> bit a 7"
    using and_exp_eq_0_iff_not_bit [of a 7] by simp
  then show ?thesis by (simp add: mul2_def xtime_def)
qed

lemma mul2_xor: "mul2 (a XOR b) = mul2 a XOR mul2 b"
  unfolding mul2_xtime xtime_def by (auto simp: bit_simps push_bit_xor ac_simps)

lemma mul2_0: "mul2 0 = 0"
  by (simp add: mul2_def)

lemma gf_mul_small: "gf_mul a 1 = a" "gf_mul a 2 = mul2 a" "gf_mul a 3 = mul2 a XOR a"
  by (simp_all add: gf_mul_def upt_rec mul2_xtime bit_simps xor.commute)

lemmas xor_ac = xor.assoc xor.commute xor.left_commute

section \<open>The steps and their inverses\<close>

lemma block_cases:
  assumes "length st = 16"
  obtains b0 b1 b2 b3 b4 b5 b6 b7 b8 b9 b10 b11 b12 b13 b14 b15
  where "st = [b0, b1, b2, b3, b4, b5, b6, b7, b8, b9, b10, b11, b12, b13, b14, b15]"
  using assms by (auto simp: numeral_eq_Suc length_Suc_conv)

lemma nth_block [simp]: "(x # xs) ! numeral k = xs ! (pred_numeral k)" "(x # xs)[numeral k := y] = x # xs[pred_numeral k := y]"
  by (simp_all add: numeral_eq_Suc)

lemma shift_rows_inverse: "length st = 16 \<Longrightarrow> inv_shift_rows (shift_rows st) = st"
  by (erule block_cases) (simp add: shift_rows_def inv_shift_rows_def Let_def)

lemma mix_columns_inverse: "length st = 16 \<Longrightarrow> inv_mix_columns (mix_columns st) = st"
  apply (erule block_cases)
  apply (simp add: mix_columns_def inv_mix_columns_def mix_column_def inv_mix_column_def Let_def mul2_xor)
  apply (simp add: xor_ac)
  done

lemma sbox_inverse: "INV_SBOX ! unat (SBOX ! unat b) = b"
proof -
  have "list_all (\<lambda>n. INV_SBOX ! unat (SBOX ! n) = of_nat n) [0..<256]" by code_simp
  then have "INV_SBOX ! unat (SBOX ! n) = of_nat n" if "n < 256" for n using that by (auto simp: list_all_iff)
  then show ?thesis using unat_bound [of b] by simp
qed

lemma length_steps [simp]:
  "length (sub_bytes t st) = length st" "length (add_round_key k o' st) = 16"
  "length (shift_rows st) = length st" "length (inv_shift_rows st) = length st"
  "length (mix_columns st) = length st"
  by (simp_all add: sub_bytes_def add_round_key_def AES_BLOCK_SIZE_def shift_rows_def inv_shift_rows_def
      mix_columns_def mix_column_def Let_def)

lemma sub_bytes_inverse: "sub_bytes INV_SBOX (sub_bytes SBOX st) = st"
  by (simp add: sub_bytes_def comp_def sbox_inverse)

lemma add_round_key_inverse: "length st = 16 \<Longrightarrow> add_round_key rk k (add_round_key rk k st) = st"
  by (rule nth_equalityI) (simp_all add: add_round_key_def AES_BLOCK_SIZE_def xor.assoc)

lemma encrypt_round_inverse:
  assumes "length st = 16" and "1 \<le> j" and "j < 10"
  shows "decrypt_round rk (10 - j) (encrypt_round rk j st) =
    sub_bytes INV_SBOX (inv_shift_rows (shift_rows (sub_bytes SBOX st)))"
proof -
  have "160 - 16 * (10 - j) = 16 * j" using assms by simp
  then show ?thesis using assms(1)
    by (simp add: decrypt_round_def encrypt_round_def add_round_key_inverse mix_columns_inverse)
qed

lemma decrypt_fold:
  assumes "length st = 16" and "1 \<le> n" and "n \<le> 10"
  shows "fold (decrypt_round rk) [11 - n..<10] (fold (encrypt_round rk) [1..<n] st) = st"
  using assms(2,3)
proof (induction n rule: nat_induct_at_least)
  case base
  then show ?case by simp
next
  case (Suc n)
  let ?st = "fold (encrypt_round rk) [1..<n] st"
  have l: "length ?st = 16"
  proof -
    have "length (fold (encrypt_round rk) js st) = 16" for js using assms(1)
      by (induction js arbitrary: st) (simp_all add: encrypt_round_def)
    then show ?thesis .
  qed
  have u: "[1..<Suc n] = [1..<n] @ [n]" "[11 - Suc n..<10] = (10 - n) # [11 - n..<10]"
    using Suc by (auto simp: upt_conv_Cons Suc_diff_le intro!: arg_cong2 [where f = upt])
  show ?case unfolding u using Suc l
    by (simp add: encrypt_round_inverse shift_rows_inverse sub_bytes_inverse)
qed

lemma rounds_inverse:
  assumes "length st = 16"
  shows "decrypt_rounds rk (encrypt_rounds rk st) = st"
proof -
  define s0 where "s0 = add_round_key rk 0 st"
  define s9 where "s9 = fold (encrypt_round rk) [1..<10] s0"
  have l: "length s0 = 16" by (simp add: s0_def)
  have l9: "length s9 = 16"
  proof -
    have "length (fold (encrypt_round rk) js s0) = 16" for js using l
      by (induction js arbitrary: s0) (simp_all add: encrypt_round_def)
    then show ?thesis by (simp add: s9_def)
  qed
  have "fold (decrypt_round rk) [1..<10] s9 = s0" using decrypt_fold [OF l, of 10] by (simp add: s9_def)
  moreover have "encrypt_rounds rk st = add_round_key rk 160 (shift_rows (sub_bytes SBOX s9))"
    by (simp add: encrypt_rounds_def Let_def AES_ROUNDS_def s9_def s0_def)
  moreover have "add_round_key rk 0 s0 = st" using assms by (simp add: s0_def add_round_key_inverse)
  ultimately show ?thesis using l9
    by (simp add: decrypt_rounds_def Let_def AES_ROUNDS_def add_round_key_inverse shift_rows_inverse sub_bytes_inverse)
qed

lemma key_schedule_length: "length key = 16 \<Longrightarrow> length (aes_key_schedule_128 key) = 176"
proof -
  have step: "length (fold (\<lambda>j rk. rk @ [f j rk]) js rk) = length rk + length js" for f :: "nat \<Rightarrow> u8 list \<Rightarrow> u8" and js rk
    by (induction js arbitrary: rk) simp_all
  have "length (key_round i rk) = length rk + 16" for i rk unfolding key_round_def Let_def step by simp
  then have "length (fold key_round is rk) = length rk + 16 * length is" for "is" rk
    by (induction "is" arbitrary: rk) simp_all
  then show "length key = 16 \<Longrightarrow> ?thesis" by (simp add: aes_key_schedule_128_def AES_ROUNDS_def)
qed

lemma reverse_block:
  assumes "length inp = 16" and "length out = 16"
  shows "aes_key_reverse_128 inp out = rev inp"
  using assms by (elim block_cases) (simp add: aes_key_reverse_128_def AES_BLOCK_SIZE_def upt_rec)

lemma final_reverse_palindrome:
  assumes "length st = 16"
  shows "rev (final_reverse st) = final_reverse st" "length (final_reverse st) = 16"
  using assms by (elim block_cases; simp add: final_reverse_def AES_BLOCK_SIZE_def upt_rec)+

text \<open>
  With a library that implements the cipher \<open>E\<close>, the encryption on \<open>mbedtls\<close> is \<open>E\<close> with key, input
  and output in reversed byte order.
\<close>

lemma mbedtls_encrypt_ok:
  assumes "\<And>k. setkey_enc k = (0, ctx k)" and "\<And>k x. crypt_ecb (ctx k) True x = (0, E k x)" and "\<And>k x. length (E k x) = 16"
    and "length keys = 16" and "length plaintext = 16" and "length ciphertext = 16"
  shows "aes_ecb_encrypt_128_mbedtls setkey_enc crypt_ecb keys plaintext ciphertext = (True, rev (E (rev keys) (rev plaintext)))"
  using assms by (simp add: aes_ecb_encrypt_128_mbedtls_def mbedtls_ecb_128_def reverse_block)

section \<open>The standard\<close>

definition MIX :: "u8 list list" where "MIX = [[2, 3, 1, 1], [1, 2, 3, 1], [1, 1, 2, 3], [3, 1, 1, 2]]"

lemma shift_rows_rotates: "length st = 16 \<Longrightarrow> shift_rows st = map (\<lambda>i. st ! ((i + 4 * (i mod 4)) mod 16)) [0..<16]"
  by (elim block_cases) (simp add: shift_rows_def Let_def upt_rec)

lemma mix_columns_matrix:
  "length st = 16 \<Longrightarrow> mix_columns st = map (\<lambda>i. let c = i div 4 * 4; f = (\<lambda>k. gf_mul (st ! (c + k)) (MIX ! (i mod 4) ! k))
     in f 0 XOR f 1 XOR f 2 XOR f 3) [0..<16]"
  by (elim block_cases) (simp add: mix_columns_def mix_column_def Let_def upt_rec MIX_def gf_mul_small mul2_xor xor_ac)

section \<open>Properties\<close>

text \<open>
  Property C21: decryption inverts encryption, round by round. With the same key schedule, which
  has its 176 bytes, the rounds of \<open>aes_ecb_decrypt_128\<close> undo those of \<open>aes_ecb_encrypt_128\<close> on every
  block: the two substitution tables, the row shifts, the column mixing and the additions of
  round keys are inverse to each other and come in the opposite order.
\<close>

theorem aes_rounds_roundtrip:
  assumes "length key = 16" and "length block = 16"
  shows "length (aes_key_schedule_128 key) = 176 \<and>
    decrypt_rounds (aes_key_schedule_128 key) (encrypt_rounds (aes_key_schedule_128 key) block) = block"
  using assms by (simp add: key_schedule_length rounds_inverse)

theorem aes_rounds_roundtrip_witness:
  "decrypt_rounds (aes_key_schedule_128 (replicate 16 7)) (encrypt_rounds (aes_key_schedule_128 (replicate 16 7)) (replicate 16 1))
     = replicate 16 1"
  using aes_rounds_roundtrip [of "replicate 16 7" "replicate 16 1"] by simp

text \<open>
  Property C39: the optimised steps of a round are those of the standard. The swaps of
  \<open>shift_rows\<close> rotate row \<open>r\<close> by \<open>r\<close> places, the sums and doublings of \<open>mix_columns\<close> are the product with
  the matrix in the field of 256 elements, and the conditional shift of \<open>mul2\<close> is multiplication by 2.
\<close>

theorem aes_steps_standard:
  assumes "length st = 16"
  shows "shift_rows st = map (\<lambda>i. st ! ((i + 4 * (i mod 4)) mod 16)) [0..<16] \<and>
    mix_columns st = map (\<lambda>i. let c = i div 4 * 4; f = (\<lambda>k. gf_mul (st ! (c + k)) (MIX ! (i mod 4) ! k))
      in f 0 XOR f 1 XOR f 2 XOR f 3) [0..<16] \<and>
    mul2 b = gf_mul b 2"
  using assms by (simp only: shift_rows_rotates mix_columns_matrix gf_mul_small simp_thms)

theorem aes_steps_standard_witness:
  "shift_rows (map of_nat [0..<16]) = map of_nat [0, 5, 10, 15, 4, 9, 14, 3, 8, 13, 2, 7, 12, 1, 6, 11]"
proof -
  have "shift_rows (map of_nat [0..<16]) = map (\<lambda>i. map of_nat [0..<16] ! ((i + 4 * (i mod 4)) mod 16)) [0..<16]"
    using aes_steps_standard [of "map of_nat [0..<16]"] by simp
  then show ?thesis by (simp add: upt_rec)
qed

text \<open>
  Property C22: the last loop of both functions is meant to reverse the block, but it copies the
  second half over the first without keeping it. What \<open>aes_ecb_encrypt_128\<close> returns is always a
  palindrome, half of the ciphertext is lost, and no plaintext that is not a palindrome is ever
  recovered by \<open>aes_ecb_decrypt_128\<close>, whatever the key.
\<close>

theorem aes_software_loses_half:
  assumes "length keys = 16" and "length block = 16"
  shows "rev (snd (aes_ecb_encrypt_128 keys block)) = snd (aes_ecb_encrypt_128 keys block) \<and>
    (rev block \<noteq> block \<longrightarrow> snd (aes_ecb_decrypt_128 keys (snd (aes_ecb_encrypt_128 keys block))) \<noteq> block)"
proof -
  have l: "length (encrypt_rounds rk st) = 16" "length (decrypt_rounds rk st) = 16" for rk st
    by (simp_all add: encrypt_rounds_def decrypt_rounds_def Let_def)
  then show ?thesis
    using final_reverse_palindrome by (metis aes_ecb_encrypt_128_def aes_ecb_decrypt_128_def snd_conv)
qed

theorem aes_software_loses_half_witness:
  "snd (aes_ecb_decrypt_128 (replicate 16 0) (snd (aes_ecb_encrypt_128 (replicate 16 0) (1 # replicate 15 0)))) \<noteq> 1 # replicate 15 0"
proof -
  have "rev (1 # replicate 15 0) \<noteq> (1 # replicate 15 0 :: u8 list)" by (simp add: numeral_eq_Suc)
  then show ?thesis using aes_software_loses_half [of "replicate 16 0" "1 # replicate 15 0"] by simp
qed

end
