(* ===== verification/Tools.thy ===== *)
theory Tools
  imports Fw_Prelude "HOL-Library.Multiset"
begin

text \<open>
  The string, digit, sorting and bit functions of \<open>tuya_tools.c\<close> and the hexadecimal ones of \<open>util.c\<close>.
  Buffers are lists of bytes. Reading behind the end of a buffer is \<open>None\<close>. The functions that
  only call the C library (\<open>tuya_strlen\<close>, \<open>tuya_strcpy\<close>, \<open>tuya_strcat\<close>) are that call.
\<close>

section \<open>Strings\<close>

definition TOLOWER :: "u8 \<Rightarrow> int" where
  "TOLOWER c = (if 65 \<le> uint c \<and> uint c \<le> 90 then uint c - 65 + 97 else uint c)"

text \<open>
  The loop of \<open>tuya_strncasecmp\<close> on the bytes from \<open>p1\<close> and \<open>p2\<close> on; \<open>cnt\<close> comparisons were made.
\<close>

fun strncasecmp_loop :: "nat \<Rightarrow> nat \<Rightarrow> u8 list \<Rightarrow> u8 list \<Rightarrow> int option" where
  "strncasecmp_loop n cnt (a # p1) (b # p2) =
     (let result = TOLOWER a - TOLOWER b in
      if result \<noteq> 0 then Some result
      else if cnt + 1 \<ge> n then Some result
      else if a = 0 then Some (-1)
      else if b = 0 then Some 1
      else strncasecmp_loop n (cnt + 1) p1 p2)"
| "strncasecmp_loop n cnt _ _ = None"

definition tuya_strncasecmp :: "bool \<Rightarrow> u8 list \<Rightarrow> u8 list \<Rightarrow> nat \<Rightarrow> int option" where
  "tuya_strncasecmp same_pointer s1 s2 n = (if same_pointer then Some 0 else strncasecmp_loop n 0 s1 s2)"

fun strcmp_loop :: "u8 list \<Rightarrow> u8 list \<Rightarrow> int option" where
  "strcmp_loop (a # src) (b # dst) =
     (let ret = uint a - uint b in if ret = 0 \<and> b \<noteq> 0 then strcmp_loop src dst else Some ret)"
| "strcmp_loop _ _ = None"

definition tuya_strcmp :: "u8 list \<Rightarrow> u8 list \<Rightarrow> int option" where
  "tuya_strcmp src dst = map_option (\<lambda>ret. if ret < 0 then -1 else if ret > 0 then 1 else ret) (strcmp_loop src dst)"

text \<open>
  \<open>str\<close> is \<open>None\<close> for a null pointer and a string without its terminating zero otherwise. With a
  negative index the code reads behind the string.
\<close>

definition tuya_find_char_with_reverse_idx :: "u8 list option \<Rightarrow> int \<Rightarrow> u8 \<Rightarrow> int option" where
  "tuya_find_char_with_reverse_idx str index ch =
     (case str of
        None \<Rightarrow> Some (-1)
      | Some s \<Rightarrow>
          if index \<ge> int (length s) then Some (-1)
          else if index < 0 then None
          else (case find (\<lambda>i. s ! i = ch) (rev [0..<length s - nat index]) of
                  Some i \<Rightarrow> Some (int i)
                | None \<Rightarrow> Some (-2)))"

section \<open>Hexadecimal digits\<close>

definition tuya_asc2hex :: "u8 \<Rightarrow> u8" where
  "tuya_asc2hex asccode =
     (if 0x30 \<le> asccode \<and> asccode \<le> 0x39 then asccode - 0x30
      else if 0x61 \<le> asccode \<and> asccode \<le> 0x66 then asccode - 0x61 + 10
      else if 0x41 \<le> asccode \<and> asccode \<le> 0x46 then asccode - 0x41 + 10
      else 0)"

text \<open>
  The loop of \<open>tuya_ascs2hex\<close> over an even number of digits.
\<close>

fun ascs2hex_loop :: "u8 list \<Rightarrow> u8 list" where
  "ascs2hex_loop (h # l # ascs) = (push_bit 4 (tuya_asc2hex h) + tuya_asc2hex l) # ascs2hex_loop ascs"
| "ascs2hex_loop _ = []"

definition tuya_ascs2hex :: "u8 list \<Rightarrow> u8 list \<Rightarrow> nat \<Rightarrow> u8 list" where
  "tuya_ascs2hex hex ascs srclen =
     (let lenstr = srclen - srclen mod 2
      in if lenstr = 0 then hex else mem_put hex 0 (ascs2hex_loop (take lenstr ascs)))"

definition hex_digit :: "u8 \<Rightarrow> u8" where
  "hex_digit d = (let dd = 48 + d in if dd > 57 then dd + 7 else dd)"

definition tuya_hex2str :: "u8 list \<Rightarrow> u8 list \<Rightarrow> nat \<Rightarrow> u8 list" where
  "tuya_hex2str str hex hexlen =
     mem_put str 0 (concat (map (\<lambda>b. [hex_digit (b div 16), hex_digit (b mod 16)]) (take hexlen hex)) @ [0])"

definition util_char2num :: "u8 \<Rightarrow> int" where
  "util_char2num c =
     (if 0x30 \<le> c \<and> c \<le> 0x39 then uint c - 0x30
      else if 0x61 \<le> c \<and> c \<le> 0x66 then uint c - 0x61 + 10
      else if 0x41 \<le> c \<and> c \<le> 0x46 then uint c - 0x41 + 10
      else -1)"

text \<open>
  The second digit is read only when the first one is valid.
\<close>

definition util_hex2byte :: "u8 list \<Rightarrow> int option" where
  "util_hex2byte hex =
     (case hex of
        [] \<Rightarrow> None
      | c # hex \<Rightarrow>
          let a = util_char2num c in
          if a < 0 then Some (-1)
          else (case hex of
                  [] \<Rightarrow> None
                | c # _ \<Rightarrow> let b = util_char2num c in Some (if b < 0 then -1 else push_bit 4 a OR b)))"

fun util_hexstr2bin :: "u8 list \<Rightarrow> nat \<Rightarrow> nat \<Rightarrow> u8 list \<Rightarrow> (int \<times> u8 list) option" where
  "util_hexstr2bin ipos opos 0 buf = Some (0, buf)"
| "util_hexstr2bin ipos opos (Suc len) buf =
     (case util_hex2byte ipos of
        None \<Rightarrow> None
      | Some a \<Rightarrow> if a < 0 then Some (-1, buf) else util_hexstr2bin (drop 2 ipos) (opos + 1) len (buf[opos := of_int a]))"

section \<open>Decimal digits\<close>

fun str2num_loop :: "u8 list \<Rightarrow> u32 \<Rightarrow> u32 option" where
  "str2num_loop [] value = Some value"
| "str2num_loop (c # str) value =
     (if 0x30 \<le> c \<and> c \<le> 0x39 then str2num_loop str (value * 10 + ucast (c - 0x30)) else None)"

definition tuya_str2num :: "u32 \<Rightarrow> u8 list \<Rightarrow> u8 \<Rightarrow> bool \<times> u32" where
  "tuya_str2num number str len =
     (case str2num_loop (take (unat len) str) 0 of None \<Rightarrow> (False, number) | Some value \<Rightarrow> (True, value))"

text \<open>
  The loop counter of \<open>tuya_intArray2int\<close> has 8 bits, its bound 32: when the bound is above 255 the
  counter wraps and the loop does not end.
\<close>

partial_function (option) array2int_loop :: "u8 list \<Rightarrow> nat \<Rightarrow> u8 \<Rightarrow> u32 \<Rightarrow> u32 option" where
  "array2int_loop a bound i num =
     (if unat i < bound
      then if unat i < length a then array2int_loop a bound (i + 1) (num * 10 + ucast (a ! unat i)) else None
      else Some num)"

definition tuya_intArray2int :: "u8 list \<Rightarrow> u32 \<Rightarrow> u8 \<Rightarrow> u32 option" where
  "tuya_intArray2int intArray index len =
     (if index \<ge> ucast len then Some (-1) else array2int_loop intArray (unat index + unat len) (ucast index) 0)"

fun digit_count :: "nat \<Rightarrow> nat" where
  "digit_count n = (if n < 10 then 1 else digit_count (n div 10) + 1)"

fun digits_low :: "nat \<Rightarrow> nat list" where
  "digits_low n = (if n = 0 then [] else n mod 10 # digits_low (n div 10))"

definition tuya_buff_reverse :: "u8 list \<Rightarrow> nat \<Rightarrow> u8 list" where
  "tuya_buff_reverse buf len =
     fold (\<lambda>i buf. let tmp = buf ! i in buf[i := buf ! (len - 1 - i), len - 1 - i := tmp]) [0..<len div 2] buf"

definition tuya_int2intArray :: "u32 \<Rightarrow> u8 list \<Rightarrow> u8 \<Rightarrow> u32 \<times> u8 list" where
  "tuya_int2intArray num intArray len =
     (if unat len < digit_count (unat num) then (0, intArray)
      else
        let ds = digits_low (unat num)
        in (of_nat (length ds), tuya_buff_reverse (mem_put intArray 0 (map of_nat ds)) (length ds)))"

definition tuya_data_reverse :: "u8 list \<Rightarrow> u8 list \<Rightarrow> nat \<Rightarrow> u8 list" where
  "tuya_data_reverse dst src srclen = fold (\<lambda>i dst. dst[i := src ! (srclen - 1 - i)]) [0..<srclen] dst"

section \<open>Sorting, bits and sums\<close>

definition sort_swap :: "bool \<Rightarrow> nat \<Rightarrow> u8 list \<Rightarrow> u8 list" where
  "sort_swap is_ascend i buf =
     (if (if is_ascend then buf ! i > buf ! (i + 1) else buf ! i < buf ! (i + 1))
      then let tmp = buf ! i in buf[i := buf ! (i + 1), i + 1 := tmp] else buf)"

definition tuya_byte_sort :: "bool \<Rightarrow> u8 list \<Rightarrow> nat \<Rightarrow> u8 list" where
  "tuya_byte_sort is_ascend buf len = fold (\<lambda>j buf. fold (sort_swap is_ascend) [0..<len - j] buf) [1..<len] buf"

function bit1_loop :: "u32 \<Rightarrow> u32 \<Rightarrow> u32" where
  "bit1_loop num cnt = (if num = 0 then cnt else bit1_loop (num AND (num - 1)) (cnt + 1))"
  by pat_completeness auto
termination
proof (relation "measure (\<lambda>(num, cnt). unat num)", goal_cases)
  case (2 num cnt)
  have "num AND (num - 1) \<le> num - 1" by (rule word_and_le1)
  then have "unat (num AND (num - 1)) \<le> unat (num - 1)" by (simp add: word_le_nat_alt)
  also have "\<dots> < unat num" using 2 by (simp add: measure_unat)
  finally show ?case by simp
qed simp

definition tuya_bit1_count :: "u32 \<Rightarrow> u32" where
  "tuya_bit1_count num = bit1_loop num 0"

partial_function (option) leading_loop :: "u32 \<Rightarrow> u32 \<Rightarrow> u32 option" where
  "leading_loop temp cnt = (if temp AND 0x80000000 \<noteq> 0 then leading_loop (push_bit 1 temp) (cnt + 1) else Some cnt)"

definition tuya_leading_zeros_count :: "u32 \<Rightarrow> u32 option" where
  "tuya_leading_zeros_count num = leading_loop (NOT num) 0"

definition tuya_check_sum8 :: "u8 list \<Rightarrow> u32 \<Rightarrow> u8" where
  "tuya_check_sum8 buf len = fold (\<lambda>b sum. sum + b) (take (unat len) buf) 0"

definition tuya_check_sum16 :: "u8 list \<Rightarrow> u32 \<Rightarrow> u16" where
  "tuya_check_sum16 buf len = fold (\<lambda>b sum. sum + ucast b) (take (unat len) buf) 0"

section \<open>Lemmas\<close>

declare bit1_loop.simps [simp del] digit_count.simps [simp del] digits_low.simps [simp del]

lemma hex_digit_inverse: "d < 16 \<Longrightarrow> tuya_asc2hex (hex_digit d) = d" "d < 16 \<Longrightarrow> util_char2num (hex_digit d) = uint d"
proof -
  have "list_all (\<lambda>n. tuya_asc2hex (hex_digit (of_nat n)) = of_nat n \<and> util_char2num (hex_digit (of_nat n)) = int n) [0..<16]"
    by code_simp
  then have *: "tuya_asc2hex (hex_digit (of_nat n)) = of_nat n \<and> util_char2num (hex_digit (of_nat n)) = int n" if "n < 16" for n
    using that by (auto simp: list_all_iff)
  have n: "unat d < 16" if "d < 16" using that by (simp add: word_less_nat_alt)
  show "tuya_asc2hex (hex_digit d) = d" "util_char2num (hex_digit d) = uint d" if "d < 16"
    using * [OF n [OF that]] by simp_all
qed

lemma byte_halves: "push_bit 4 (b div 16) + b mod 16 = (b :: u8)" "b div 16 < (16 :: u8)" "b mod 16 < (16 :: u8)"
proof -
  have u: "unat (b div 16) = unat b div 16" "unat (b mod 16) = unat b mod 16" by (simp_all add: unat_div unat_mod)
  show "b div 16 < 16" "b mod 16 < 16" using u unat_bound [of b] by (simp_all add: word_less_nat_alt)
  show "push_bit 4 (b div 16) + b mod 16 = b"
    using mult_div_mod_eq [of 16 b] by (simp add: push_bit_eq_mult mult.commute)
qed

lemma ascs2hex_concat: "ascs2hex_loop (concat (map (\<lambda>b. [hex_digit (b div 16), hex_digit (b mod 16)]) bs)) = bs"
  by (induction bs) (simp_all add: hex_digit_inverse byte_halves)

lemma length_hex: "length (concat (map (\<lambda>b. [hex_digit (b div 16), hex_digit (b mod 16)]) bs)) = 2 * length bs"
  by (induction bs) simp_all

lemma hex2byte_digits: "util_hex2byte (hex_digit (b div 16) # hex_digit (b mod 16) # rest) = Some (push_bit 4 (uint (b div 16)) OR uint (b mod 16))"
  by (simp add: util_hex2byte_def hex_digit_inverse byte_halves)

lemma byte_of_digits: "of_int (push_bit 4 (uint (b div 16)) OR uint (b mod 16)) = (b :: u8)"
proof -
  have m: "b mod 16 = take_bit 4 b" "b div 16 = drop_bit 4 b"
    by (simp_all add: take_bit_eq_mod drop_bit_eq_div)
  show ?thesis unfolding m by (rule bit_word_eqI) (auto simp: bit_simps not_le)
qed

lemma hexstr2bin_ok:
  "opos + length bs \<le> length buf \<Longrightarrow>
     util_hexstr2bin (concat (map (\<lambda>b. [hex_digit (b div 16), hex_digit (b mod 16)]) bs) @ rest) opos (length bs) buf =
       Some (0, mem_put buf opos bs)"
proof (induction bs arbitrary: opos buf)
  case (Cons b bs)
  have "mem_put (buf[opos := b]) (opos + 1) bs = mem_put buf opos (b # bs)"
    using Cons.prems by (simp add: mem_put_def take_Suc_conv_app_nth take_update_swap list_update_append)
  then show ?case using Cons by (simp add: hex2byte_digits byte_of_digits)
qed (simp add: mem_put_def)

section \<open>Sorting\<close>

definition ordered :: "bool \<Rightarrow> u8 \<Rightarrow> u8 \<Rightarrow> bool" where
  "ordered asc x y \<longleftrightarrow> (if asc then x \<le> y else y \<le> x)"

lemma ordered_order: "ordered asc x x" "ordered asc x y \<Longrightarrow> ordered asc y z \<Longrightarrow> ordered asc x z" "ordered asc x y \<or> ordered asc y x"
  by (auto simp: ordered_def split: if_splits)

lemma sort_swap_alt: "sort_swap asc i b = (if ordered asc (b ! i) (b ! (i + 1)) then b else b[i := b ! (i + 1), i + 1 := b ! i])"
  by (auto simp: sort_swap_def ordered_def not_le)

lemma length_pass [simp]: "length (fold (sort_swap asc) is b) = length b"
  by (induction "is" arbitrary: b) (simp_all add: sort_swap_alt)

lemma pass_ok:
  "m < length b \<Longrightarrow> mset (take (Suc m) (fold (sort_swap asc) [0..<m] b)) = mset (take (Suc m) b) \<and>
     drop (Suc m) (fold (sort_swap asc) [0..<m] b) = drop (Suc m) b \<and>
     (\<forall>k \<le> m. ordered asc (fold (sort_swap asc) [0..<m] b ! k) (fold (sort_swap asc) [0..<m] b ! m))"
proof (induction m)
  case 0
  then show ?case by (simp add: ordered_order)
next
  case (Suc m)
  define c where "c = fold (sort_swap asc) [0..<m] b"
  have m: "Suc m < length b" "length c = length b" using Suc.prems by (simp_all add: c_def)
  then have ih: "mset (take (Suc m) c) = mset (take (Suc m) b)" "drop (Suc m) c = drop (Suc m) b" "\<forall>k \<le> m. ordered asc (c ! k) (c ! m)"
    using Suc.IH by (simp_all add: c_def)
  have step: "fold (sort_swap asc) [0..<Suc m] b = sort_swap asc m c" by (simp add: c_def)
  have cm: "c ! Suc m = b ! Suc m" using ih(2) m by (metis hd_drop_conv_nth)
  have "mset (take (Suc (Suc m)) (sort_swap asc m c)) = mset (take (Suc (Suc m)) c)"
    using mset_swap [of m "take (Suc (Suc m)) c" "Suc m"] m by (simp add: sort_swap_alt take_update_swap list_update_swap)
  also have "\<dots> = mset (take (Suc (Suc m)) b)" using ih(1) cm m by (simp add: take_Suc_conv_app_nth)
  finally have "mset (take (Suc (Suc m)) (sort_swap asc m c)) = mset (take (Suc (Suc m)) b)" .
  moreover have "drop (Suc (Suc m)) (sort_swap asc m c) = drop (Suc (Suc m)) b"
    using arg_cong [OF ih(2), of "drop 1"] by (simp add: sort_swap_alt)
  moreover have "\<forall>k \<le> Suc m. ordered asc (sort_swap asc m c ! k) (sort_swap asc m c ! Suc m)"
  proof (cases "ordered asc (c ! m) (c ! Suc m)")
    case True
    then have "ordered asc (c ! k) (c ! Suc m)" if "k \<le> m" for k using ih(3) that ordered_order(2) by blast
    then show ?thesis using True by (auto simp: sort_swap_alt le_Suc_eq ordered_order(1))
  next
    case False
    then have "ordered asc (c ! Suc m) (c ! m)" using ordered_order(3) by blast
    then show ?thesis using False ih(3) m by (auto simp: sort_swap_alt nth_list_update le_Suc_eq ordered_order(1))
  qed
  ultimately show ?case unfolding step by blast
qed

lemma sort_passes:
  fixes asc :: bool
  assumes "len \<le> length buf" and "t < len"
  defines "b \<equiv> fold (\<lambda>j buf. fold (sort_swap asc) [0..<len - j] buf) [1..<Suc t] buf"
  shows "length b = length buf \<and> mset (take len b) = mset (take len buf) \<and> drop len b = drop len buf \<and>
    sorted_wrt (ordered asc) (drop (len - t) (take len b)) \<and>
    (\<forall>x \<in> set (take (len - t) b). \<forall>y \<in> set (drop (len - t) (take len b)). ordered asc x y)"
  using assms(2) unfolding b_def
proof (induction t)
  case (Suc t)
  let ?f = "\<lambda>j buf. fold (sort_swap asc) [0..<len - j] buf"
  define c where "c = fold ?f [1..<Suc t] buf"
  define m where "m = len - Suc t"
  have m: "len = m + Suc t" "len - t = Suc m" "len - Suc t = m" using Suc.prems by (simp_all add: m_def)
  have ih: "length c = length buf" "mset (take len c) = mset (take len buf)" "drop len c = drop len buf"
      "sorted_wrt (ordered asc) (drop (Suc m) (take len c))"
      "\<forall>x \<in> set (take (Suc m) c). \<forall>y \<in> set (drop (Suc m) (take len c)). ordered asc x y"
    using Suc.IH Suc.prems m by (simp_all add: c_def [simplified])
  define d where "d = fold (sort_swap asc) [0..<m] c"
  have mc: "m < length c" using m(1) ih(1) assms(1) by simp
  note p = pass_ok [OF mc, of asc, folded d_def]
  have ld: "length d = length c" by (simp add: d_def)
  have dr: "drop (Suc m) d = drop (Suc m) c" using p by blast
  have hi: "drop (Suc m) (take len d) = drop (Suc m) (take len c)" using dr m(1) by (simp add: drop_take)
  have eqs: "set (take (Suc m) d) = set (take (Suc m) c)" using p mset_eq_setD by blast
  have "drop len d = drop len c" using arg_cong [OF dr, of "drop t"] m(1) by (simp add: add.commute)
  moreover have "mset (take len d) = mset (take len c)"
  proof -
    have "take len e = take (Suc m) e @ drop (Suc m) (take len e)" for e :: "u8 list"
      using m(1) append_take_drop_id [of "Suc m" "take len e"] by simp
    then have "mset (take len e) = mset (take (Suc m) e) + mset (drop (Suc m) (take len e))" for e :: "u8 list"
      by (metis mset_append)
    then show ?thesis using p hi by metis
  qed
  moreover have top: "drop m (take len d) = d ! m # drop (Suc m) (take len c)"
    using hi ld mc m(1) by (simp add: Cons_nth_drop_Suc [symmetric])
  have dm: "d ! m \<in> set (take (Suc m) d)" using mc ld by (simp add: take_Suc_conv_app_nth)
  have "sorted_wrt (ordered asc) (drop m (take len d))"
    using top ih(4,5) dm eqs by simp
  moreover have "\<forall>x \<in> set (take m d). ordered asc x (d ! m)"
    using p mc ld by (auto simp: in_set_conv_nth)
  then have "\<forall>x \<in> set (take m d). \<forall>y \<in> set (drop m (take len d)). ordered asc x y"
    using top ih(5) dm eqs ordered_order(2) by fastforce
  moreover have "fold ?f [1..<Suc (Suc t)] buf = d" using m(3) by (simp add: c_def d_def)
  ultimately show ?case using ih ld m(3) by simp
qed simp

lemma byte_sort_ok:
  assumes "len \<le> length buf"
  shows "length (tuya_byte_sort asc buf len) = length buf \<and> sorted_wrt (ordered asc) (take len (tuya_byte_sort asc buf len)) \<and>
    mset (take len (tuya_byte_sort asc buf len)) = mset (take len buf) \<and> drop len (tuya_byte_sort asc buf len) = drop len buf"
proof (cases "len = 0")
  case False
  define r where "r = tuya_byte_sort asc buf len"
  have "len - 1 < len" "Suc (len - 1) = len" "len - (len - 1) = 1" using False by auto
  then have p: "length r = length buf" "mset (take len r) = mset (take len buf)" "drop len r = drop len buf"
      "sorted_wrt (ordered asc) (drop 1 (take len r))" "\<forall>x \<in> set (take 1 r). \<forall>y \<in> set (drop 1 (take len r)). ordered asc x y"
    using sort_passes [OF assms, of "len - 1" asc] by (simp_all add: r_def tuya_byte_sort_def)
  obtain x xs where r: "r = x # xs" "0 < len" using p(1) assms False by (cases r) auto
  then have "sorted_wrt (ordered asc) (take len r)" using p(4,5) by (cases len) auto
  then show ?thesis using p by (simp add: r_def)
qed (simp add: tuya_byte_sort_def)

section \<open>Comparison\<close>

lemma uint_pos: "0 < uint (a :: u8) \<longleftrightarrow> a \<noteq> 0"
  using word_gt_0 [of a] unfolding word_less_def by simp

lemma strcmp_loop_ok:
  "0 \<notin> set s \<Longrightarrow> 0 \<notin> set t \<Longrightarrow> \<exists>r. strcmp_loop (s @ 0 # u) (t @ 0 # v) = Some r \<and> (r = 0 \<longleftrightarrow> s = t) \<and>
     (r < 0 \<longleftrightarrow> (s, t) \<in> lexord {(a, b). a < b})"
proof (induction s arbitrary: t)
  case Nil
  then show ?case by (cases t) (auto simp: word_less_def uint_0_iff uint_pos)
next
  case (Cons a s)
  show ?case
  proof (cases t)
    case Nil
    then show ?thesis using Cons.prems by (auto simp: word_less_def uint_0_iff uint_pos)
  next
    case (Cons b t')
    have "\<exists>r. strcmp_loop (s @ 0 # u) (t' @ 0 # v) = Some r \<and> (r = 0 \<longleftrightarrow> s = t') \<and> (r < 0 \<longleftrightarrow> (s, t') \<in> lexord {(a, b). a < b})"
      using Cons.prems Cons by (intro Cons.IH) auto
    then show ?thesis using Cons.prems Cons by (cases "a = b") (auto simp: word_less_def dest: word_uint_eqI)
  qed
qed

lemma strncasecmp_equal:
  "0 \<notin> set s \<Longrightarrow> 0 \<notin> set t \<Longrightarrow> map TOLOWER s = map TOLOWER t \<Longrightarrow> cnt + length s + 1 < n \<Longrightarrow>
     strncasecmp_loop n cnt (s @ 0 # u) (t @ 0 # v) = Some (-1)"
proof (induction s arbitrary: t cnt)
  case (Cons a s)
  then obtain b t' where "t = b # t'" by (cases t) auto
  then show ?case using Cons by auto
qed simp

section \<open>Bits\<close>

lemma clear_lowest:
  fixes a :: u32
  assumes k: "bit a k" and low: "\<And>i. i < k \<Longrightarrow> \<not> bit a i"
  shows "bit (a AND (a - 1)) i \<longleftrightarrow> bit a i \<and> i \<noteq> k"
proof -
  define h where "h = a AND NOT (mask (Suc k))"
  have hb: "bit h i \<longleftrightarrow> k < i \<and> bit a i" for i
    using bit_imp_le_length [of a i] by (auto simp: h_def bit_simps simp del: mask_Suc_0 mask_Suc_double)
  have k32: "k < 32" using k bit_imp_le_length by fastforce
  have "a = h OR 2 ^ k"
  proof (rule bit_word_eqI)
    show "bit a i \<longleftrightarrow> bit (h OR 2 ^ k) i" if "i < LENGTH(32)" for i
      using k low [of i] that by (auto simp: bit_or_iff hb bit_exp_iff possible_bit_word linorder_neq_iff)
  qed
  also have "\<dots> = h + 2 ^ k"
    by (rule disjunctive_add [symmetric]) (auto simp: hb bit_exp_iff)
  finally have "a - 1 = h + mask k" by (simp add: mask_eq_exp_minus_1)
  also have "\<dots> = h OR mask k" by (rule disjunctive_add) (auto simp: hb bit_mask_iff)
  finally show ?thesis using k low [of i] bit_imp_le_length [of a i] by (auto simp: bit_simps hb)
qed

lemma bit1_loop_ok: "bit1_loop a c = c + of_nat (card {i. bit a i})"
proof (induction a c rule: bit1_loop.induct)
  case (1 a c)
  have fin: "finite {i. bit a i}" by (rule finite_subset [of _ "{..<32}"]) (auto dest: bit_imp_le_length)
  show ?case
  proof (cases "a = 0")
    case False
    then have "\<exists>k. bit a k" by (auto simp: bit_eq_iff)
    then obtain k where k: "bit a k" "\<And>i. i < k \<Longrightarrow> \<not> bit a i" using LeastI_ex not_less_Least by metis
    have "{i. bit (a AND (a - 1)) i} = {i. bit a i} - {k}" using clear_lowest [OF k] by blast
    moreover have "card {i. bit a i} = Suc (card ({i. bit a i} - {k}))" using card.remove [of "{i. bit a i}" k] fin k(1) by blast
    ultimately have "bit1_loop (a AND (a - 1)) (c + 1) = c + of_nat (card {i. bit a i})" using 1 False by simp
    then show ?thesis using False by (subst bit1_loop.simps) simp
  next
    case True
    then have "{i. bit a i} = {}" by simp
    then have c0: "card {i. bit a i} = 0" by (simp only: card.empty)
    show ?thesis unfolding c0 using True by (subst bit1_loop.simps) simp
  qed
qed

lemma leading_loop_ok:
  "k \<le> 32 \<Longrightarrow> (\<And>i. 32 - k \<le> i \<Longrightarrow> i < 32 \<Longrightarrow> bit temp i) \<Longrightarrow> (k < 32 \<Longrightarrow> \<not> bit temp (31 - k)) \<Longrightarrow>
     leading_loop temp c = Some (c + of_nat k)"
proof (induction k arbitrary: temp c)
  case 0
  have "temp AND 0x80000000 = 0" using 0(3) and_exp_eq_0_iff_not_bit [of temp 31] by simp
  then show ?case by (simp add: leading_loop.simps)
next
  case (Suc k)
  have "bit temp 31" using Suc.prems(1) by (intro Suc.prems(2)) auto
  then have t: "temp AND 0x80000000 \<noteq> 0" using and_exp_eq_0_iff_not_bit [of temp 31] by simp
  have pb: "bit (push_bit 1 temp) i \<longleftrightarrow> 1 \<le> i \<and> i < 32 \<and> bit temp (i - 1)" for i
    by (simp only: bit_push_bit_iff possible_bit_word) simp
  have "leading_loop (push_bit 1 temp) (c + 1) = Some (c + 1 + of_nat k)"
  proof (rule Suc.IH)
    show "bit (push_bit 1 temp) i" if "32 - k \<le> i" "i < 32" for i
      using that Suc.prems(1) Suc.prems(2) [of "i - 1"] unfolding pb by auto
    show "\<not> bit (push_bit 1 temp) (31 - k)" if "k < 32" using that Suc.prems(1,3) unfolding pb by (cases "k = 31") auto
  qed (use Suc.prems(1) in simp)
  then show ?case using t by (subst leading_loop.simps) (simp add: add.assoc)
qed

lemma leading_zeros_ok:
  "\<exists>k \<le> 32. tuya_leading_zeros_count num = Some (of_nat k) \<and> (\<forall>i < 32. 32 - k \<le> i \<longrightarrow> \<not> bit num i) \<and> (k < 32 \<longrightarrow> bit num (31 - k))"
proof -
  have "\<exists>k \<le> 32. (\<forall>i < 32. 32 - k \<le> i \<longrightarrow> \<not> bit num i) \<and> (k < 32 \<longrightarrow> bit num (31 - k))"
  proof (cases "num = 0")
    case True
    then show ?thesis by (intro exI [of _ 32]) simp
  next
    case False
    have fin: "finite {i. bit num i}" by (rule finite_subset [of _ "{..<32}"]) (auto dest: bit_imp_le_length)
    define M where "M = Max {i. bit num i}"
    have "\<exists>k. bit num k" using False by (auto simp: bit_eq_iff)
    then have M: "bit num M" "\<And>i. bit num i \<Longrightarrow> i \<le> M" using fin Max_in [of "{i. bit num i}"] by (auto simp: M_def)
    then have "M < 32" using bit_imp_le_length by fastforce
    then show ?thesis using M by (intro exI [of _ "31 - M"]) fastforce
  qed
  then obtain k where k: "k \<le> 32" "\<forall>i < 32. 32 - k \<le> i \<longrightarrow> \<not> bit num i" "k < 32 \<longrightarrow> bit num (31 - k)" by blast
  have "leading_loop (NOT num) 0 = Some (0 + of_nat k)"
    using k by (intro leading_loop_ok) (auto simp: bit_not_iff possible_bit_word)
  then show ?thesis using k by (intro exI [of _ k]) (simp add: tuya_leading_zeros_count_def)
qed

section \<open>Digits\<close>

lemma buff_reverse_nth:
  assumes "len \<le> length buf" and "t \<le> len div 2"
  shows "length (fold (\<lambda>i buf. let tmp = buf ! i in buf[i := buf ! (len - 1 - i), len - 1 - i := tmp]) [0..<t] buf) = length buf \<and>
    (\<forall>k < length buf. fold (\<lambda>i buf. let tmp = buf ! i in buf[i := buf ! (len - 1 - i), len - 1 - i := tmp]) [0..<t] buf ! k =
       (if k < t \<or> len - t \<le> k \<and> k < len then buf ! (len - 1 - k) else buf ! k))"
  using assms(2)
proof (induction t)
  case (Suc t)
  let ?f = "\<lambda>i buf. let tmp = buf ! i in buf[i := buf ! (len - 1 - i), len - 1 - i := tmp]"
  define c where "c = fold ?f [0..<t] buf"
  have ih: "length c = length buf" "\<And>k. k < length buf \<Longrightarrow> c ! k = (if k < t \<or> len - t \<le> k \<and> k < len then buf ! (len - 1 - k) else buf ! k)"
    using Suc by (auto simp: c_def)
  have t: "t < len - 1 - t" "len - 1 - t < length buf" using Suc.prems assms(1) by auto
  have "?f t c ! k = (if k < Suc t \<or> len - Suc t \<le> k \<and> k < len then buf ! (len - 1 - k) else buf ! k)" if k: "k < length buf" for k
  proof -
    consider "k = t" | "k = len - 1 - t" | "k \<noteq> t" "k \<noteq> len - 1 - t" by blast
    then show ?thesis
    proof cases
      case 1
      then show ?thesis using t ih by (auto simp: Let_def nth_list_update)
    next
      case 2
      then show ?thesis using t ih by (auto simp: Let_def nth_list_update)
    next
      case 3
      then have "?f t c ! k = c ! k" by (simp add: Let_def)
      moreover have "k < Suc t \<longleftrightarrow> k < t" "len - Suc t \<le> k \<longleftrightarrow> len - t \<le> k" using 3 t by auto
      ultimately show ?thesis using ih(2) [OF k] by simp
    qed
  qed
  moreover have "fold ?f [0..<Suc t] buf = ?f t c" by (simp add: c_def)
  ultimately show ?case using ih(1) by (simp add: Let_def)
qed auto

lemma buff_reverse_ok:
  assumes "len \<le> length buf"
  shows "tuya_buff_reverse buf len = rev (take len buf) @ drop len buf"
proof (rule nth_equalityI)
  note p = buff_reverse_nth [OF assms order_refl]
  show "length (tuya_buff_reverse buf len) = length (rev (take len buf) @ drop len buf)"
    using p assms by (simp add: tuya_buff_reverse_def)
  fix k assume "k < length (tuya_buff_reverse buf len)"
  then have k: "k < length buf" using p by (simp add: tuya_buff_reverse_def)
  have "k < len div 2 \<or> len - len div 2 \<le> k \<and> k < len \<or> len \<le> k \<or> k = len - 1 - k" by presburger
  then show "tuya_buff_reverse buf len ! k = (rev (take len buf) @ drop len buf) ! k"
    using p k assms unfolding tuya_buff_reverse_def by (auto simp: nth_append rev_nth)
qed

lemma digits_value: "fold (\<lambda>d n. n * 10 + d) (rev (digits_low n)) 0 = n" "\<forall>d \<in> set (digits_low n). d < 10"
proof (induction n rule: digits_low.induct)
  case (1 n)
  { case 1
    then show ?case using "1.IH" by (subst digits_low.simps) simp
  next
    case 2
    then show ?case using "1.IH" by (subst digits_low.simps) auto }
qed

lemma digits_length: "0 < n \<Longrightarrow> length (digits_low n) = digit_count n"
proof (induction n rule: digits_low.induct)
  case (1 n)
  then show ?case by (subst digits_low.simps, subst digit_count.simps) (auto simp: digits_low.simps [of 0])
qed

lemma array2int_ok:
  assumes "bound \<le> length a" and "bound \<le> 255" and "unat i + k = bound"
  shows "array2int_loop a bound i num = Some (fold (\<lambda>d n. n * 10 + ucast d) (take k (drop (unat i) a)) num)"
  using assms(3)
proof (induction k arbitrary: i num)
  case (Suc k)
  have i: "unat (i + 1) = unat i + 1" using Suc.prems assms(2) by (simp add: unat_word_ariths)
  have "take (Suc k) (drop (unat i) a) = a ! unat i # take k (drop (unat (i + 1)) a)"
    using Suc.prems assms(1) i by (simp add: Cons_nth_drop_Suc [symmetric])
  then show ?case using Suc.IH [of "i + 1"] Suc.prems assms(1) i by (subst array2int_loop.simps) simp
qed (simp add: array2int_loop.simps)

text \<open>
  When \<open>index + len\<close> is above 255 the loop never ends.
\<close>

lemma intArray2int_diverges:
  assumes "256 \<le> length a" and "255 < unat index + unat len" and "index < ucast len"
  shows "tuya_intArray2int a index len = None"
proof -
  define B where "B = unat index + unat len"
  have step: "\<not> (b = a \<and> bound = B)"
    if "\<And>b bound i num r. loop b bound i num = Some r \<Longrightarrow> \<not> (b = a \<and> bound = B)"
      "(if unat i < bound then if unat i < length b then loop b bound (i + 1) (num * 10 + ucast (b ! unat i)) else None else Some num) = Some r"
    for loop :: "u8 list \<Rightarrow> nat \<Rightarrow> u8 \<Rightarrow> u32 \<Rightarrow> u32 option" and b bound and i :: u8 and num r
  proof
    assume e: "b = a \<and> bound = B"
    then have "loop b bound (i + 1) (num * 10 + ucast (b ! unat i)) = Some r"
      using that(2) unat_bound [of i] assms(1,2) by (auto simp: B_def split: if_splits)
    from that(1) [OF this] show False using e by blast
  qed
  have "\<not> (a = a \<and> B = B)" if "array2int_loop a B i num = Some r" for i num r
    by (rule array2int_loop.raw_induct [where P = "\<lambda>b bound i num r. \<not> (b = a \<and> bound = B)", OF step that])
  then have "array2int_loop a B (ucast index) 0 = None" by (cases "array2int_loop a B (ucast index) 0") auto
  then show ?thesis using assms(3) by (simp add: tuya_intArray2int_def B_def not_le)
qed

lemma fold_digits: "fold (\<lambda>d n. n * 10 + ucast d) (map (of_nat :: nat \<Rightarrow> u8) ds) (of_nat m) = (of_nat (fold (\<lambda>d n. n * 10 + d) ds m) :: u32)"
  if "\<forall>d \<in> set ds. d < 10" for ds :: "nat list"
  using that
proof (induction ds arbitrary: m)
  case (Cons d ds)
  have "ucast (of_nat d :: u8) = (of_nat d :: u32)" using Cons.prems by (simp add: unsigned_of_nat take_bit_nat_eq_self)
  then show ?case using Cons.IH [of "m * 10 + d"] Cons.prems by simp
qed simp

lemma int_array_roundtrip:
  assumes n: "0 < num" and l: "digit_count (unat num) \<le> unat len" "unat len \<le> length a" "digit_count (unat num) \<le> 255"
    and r: "tuya_int2intArray num a len = (k, a')"
  shows "unat k = digit_count (unat num)" "tuya_intArray2int a' 0 (ucast k) = Some num"
proof -
  define ds where "ds = digits_low (unat num)"
  have ds: "length ds = digit_count (unat num)" "\<forall>d \<in> set ds. d < 10" "fold (\<lambda>d n. n * 10 + d) (rev ds) 0 = unat num"
    using digits_length [of "unat num"] digits_value [of "unat num"] n by (auto simp: ds_def unat_gt_0)
  have le: "length ds \<le> length a" "length ds \<le> 255" using ds(1) l by auto
  have k: "k = of_nat (length ds)" and a': "a' = tuya_buff_reverse (mem_put a 0 (map of_nat ds)) (length ds)"
    using r l(1) by (auto simp: tuya_int2intArray_def Let_def ds_def)
  show uk: "unat k = digit_count (unat num)" using k le ds(1) by (simp add: unat_of_nat)
  have "a' = rev (map of_nat ds) @ drop (length ds) a"
    using le unfolding a' by (subst buff_reverse_ok) (simp_all add: mem_put_def)
  then have tk: "take (length ds) a' = map of_nat (rev ds)" "length ds \<le> length a'" using le by (simp_all add: rev_map)
  have c: "ucast k = (of_nat (length ds) :: u8)" "ucast (ucast k :: u8) = (of_nat (length ds) :: u32)"
    using k le by (simp_all add: unsigned_of_nat take_bit_nat_eq_self)
  have uc: "unat (ucast k :: u8) = length ds" unfolding c(1) using le by (simp add: unsigned_of_nat take_bit_nat_eq_self)
  have "0 < length ds" using n ds(1) by (simp add: digit_count.simps)
  have "array2int_loop a' (length ds) 0 0 = Some (fold (\<lambda>d n. n * 10 + ucast d) (take (length ds) a') 0)"
    using array2int_ok [OF tk(2) le(2), of 0 "length ds" 0] by simp
  also have "\<dots> = Some num" unfolding tk(1) using fold_digits [of "rev ds" 0] ds(2,3) by simp
  finally show "tuya_intArray2int a' 0 (ucast k) = Some num"
    using uc c(2) le \<open>0 < length ds\<close>
    by (simp add: tuya_intArray2int_def word_le_nat_alt unsigned_of_nat take_bit_nat_eq_self)
qed

section \<open>Properties\<close>

text \<open>
  Property C40: hexadecimal text. What \<open>tuya_hex2str\<close> prints for a sequence of bytes, both
  \<open>tuya_ascs2hex\<close> and the stricter \<open>util_hexstr2bin\<close> read back as the same bytes, and neither touches
  the output buffer behind them.
\<close>

theorem tools_hex_roundtrip:
  assumes "2 * length bs < length str" and "length bs \<le> length out"
  shows "tuya_ascs2hex out (tuya_hex2str str bs (length bs)) (2 * length bs) = mem_put out 0 bs \<and>
    util_hexstr2bin (tuya_hex2str str bs (length bs)) 0 (length bs) out = Some (0, mem_put out 0 bs)"
proof -
  define hx where "hx = concat (map (\<lambda>b. [hex_digit (b div 16), hex_digit (b mod 16)]) bs)"
  have t: "length hx = 2 * length bs" by (simp add: hx_def length_hex)
  have s: "tuya_hex2str str bs (length bs) = hx @ 0 # drop (2 * length bs + 1) str"
    using assms(1) t by (simp add: tuya_hex2str_def hx_def [symmetric] mem_put_def)
  have "ascs2hex_loop hx = bs" by (simp add: hx_def ascs2hex_concat)
  then have "tuya_ascs2hex out (tuya_hex2str str bs (length bs)) (2 * length bs) = mem_put out 0 bs"
    unfolding s using t by (auto simp: tuya_ascs2hex_def Let_def mem_put_def)
  then show ?thesis unfolding s using hexstr2bin_ok [of 0 bs out] assms(2) by (simp add: hx_def)
qed

theorem tools_hex_roundtrip_witness:
  "tuya_ascs2hex [0, 0, 0] (tuya_hex2str (replicate 8 0) [0x0F, 0xA5] 2) 4 = [0x0F, 0xA5, 0]"
  using conjunct1 [OF tools_hex_roundtrip [of "[0x0F, 0xA5]" "replicate 8 0" "[0, 0, 0]"]]
  by (simp add: mem_put_def eval_nat_numeral)

text \<open>
  \<open>tuya_byte_sort\<close> sorts the first \<open>len\<close> bytes of the buffer in the direction asked
  for, as a permutation of what they were, and leaves the rest of the buffer alone.
\<close>

theorem tools_byte_sort:
  assumes "len \<le> length buf"
  shows "sorted_wrt (\<lambda>x y. if asc then x \<le> y else y \<le> x) (take len (tuya_byte_sort asc buf len)) \<and>
    mset (take len (tuya_byte_sort asc buf len)) = mset (take len buf) \<and> drop len (tuya_byte_sort asc buf len) = drop len buf"
  using byte_sort_ok [OF assms, of asc] by (simp add: ordered_def [abs_def])

theorem tools_byte_sort_witness:
  "sorted_wrt (\<lambda>x y. y \<le> x) (take 3 (tuya_byte_sort False [3, 9, 5, 7] 3)) \<and> drop 3 (tuya_byte_sort False [3, 9, 5, 7] 3) = [7]"
  using tools_byte_sort [of 3 "[3, 9, 5, 7]" False] by simp

text \<open>
  Comparison of strings. \<open>tuya_strcmp\<close> decides the lexicographic order of two
  strings. \<open>tuya_strncasecmp\<close> reports two different copies of the same string as different as soon as the
  limit is more than their length and the zero: it tests for the end of the first string before
  it knows that both ended.
\<close>

theorem tools_string_compare:
  assumes "0 \<notin> set s" and "0 \<notin> set t"
  shows "tuya_strcmp (s @ 0 # u) (t @ 0 # v) =
      Some (if s = t then 0 else if (s, t) \<in> lexord {(a, b). a < b} then -1 else 1) \<and>
    (map TOLOWER s = map TOLOWER t \<and> length s + 1 < n \<longrightarrow> tuya_strncasecmp False (s @ 0 # u) (t @ 0 # v) n = Some (-1))"
proof -
  obtain r where r: "strcmp_loop (s @ 0 # u) (t @ 0 # v) = Some r" "r = 0 \<longleftrightarrow> s = t" "r < 0 \<longleftrightarrow> (s, t) \<in> lexord {(a, b). a < b}"
    using strcmp_loop_ok [OF assms] by blast
  then have "tuya_strcmp (s @ 0 # u) (t @ 0 # v) = Some (if s = t then 0 else if (s, t) \<in> lexord {(a, b). a < b} then -1 else 1)"
    unfolding tuya_strcmp_def r(1) option.map(2) by (cases r "0 :: int" rule: linorder_cases) simp_all
  then show ?thesis using strncasecmp_equal [OF assms, of 0 n u v] by (simp add: tuya_strncasecmp_def)
qed

theorem tools_string_compare_witness:
  "tuya_strcmp [0x61, 0x62, 0] [0x61, 0x63, 0] = Some (-1) \<and> tuya_strncasecmp False [0x61, 0] [0x41, 0] 5 = Some (-1)"
proof -
  have "tuya_strcmp ([0x61, 0x62] @ [0]) ([0x61, 0x63] @ [0]) = Some (-1)"
    using tools_string_compare [of "[0x61, 0x62]" "[0x61, 0x63]" "[]" "[]" 0] by simp
  moreover have "tuya_strncasecmp False ([0x61] @ [0]) ([0x41] @ [0]) 5 = Some (-1)"
    using tools_string_compare [of "[0x61]" "[0x41]" "[]" "[]" 5] by (simp add: TOLOWER_def)
  ultimately show ?thesis by simp
qed

text \<open>
  Bits: \<open>tuya_bit1_count\<close>, which clears the lowest bit that is set until none is left,
  returns the number of bits that are set; \<open>tuya_leading_zeros_count\<close> returns, for every number, the
  number of zeros in front of its highest bit, and 32 for zero.
\<close>

theorem tools_bit_counts:
  "tuya_bit1_count num = of_nat (card {i. bit num i}) \<and>
   (\<exists>k \<le> 32. tuya_leading_zeros_count num = Some (of_nat k) \<and> (\<forall>i < 32. 32 - k \<le> i \<longrightarrow> \<not> bit num i) \<and> (k < 32 \<longrightarrow> bit num (31 - k)))"
  using leading_zeros_ok [of num] by (simp add: tuya_bit1_count_def bit1_loop_ok)

theorem tools_bit_counts_witness: "tuya_bit1_count 0x10 = of_nat (card {i. bit (0x10 :: u32) i})"
  using tools_bit_counts [of "0x10"] by blast

end
