(* ===== verification/Smart_Pointer.thy ===== *)
theory Smart_Pointer
  imports Fw_Prelude
begin

text \<open>
  Reference counted data, \<open>tuya_smartpointer.c\<close>. The heap holds the control blocks, the bytes and
  the blocks that the system allocator handed out; \<open>sph_fault\<close> records that an address was freed
  that is not the start of such a block, or that a control block was used after it was freed.
\<close>

record smartpointer =
  sp_mutex :: bool
  sp_malk :: bool
  sp_rfc :: u32
  sp_data_len :: u32
  sp_data :: addr

record sp_heap =
  sph_sp :: "addr \<Rightarrow> smartpointer"
  sph_bytes :: "addr \<Rightarrow> u8"
  sph_blocks :: "(addr \<times> nat) list"
  sph_fault :: bool

definition SMARTPOINTER_SIZE :: nat where "SMARTPOINTER_SIZE = 20"

definition sp_free :: "addr \<Rightarrow> sp_heap \<Rightarrow> sp_heap" where
  "sp_free p h =
     (if p \<in> fst ` set (sph_blocks h) then h\<lparr>sph_blocks := filter (\<lambda>b. fst b \<noteq> p) (sph_blocks h)\<rparr>
      else h\<lparr>sph_fault := True\<rparr>)"

definition sp_update :: "addr \<Rightarrow> (smartpointer \<Rightarrow> smartpointer) \<Rightarrow> sp_heap \<Rightarrow> sp_heap" where
  "sp_update p f h =
     (if p \<in> fst ` set (sph_blocks h) then h\<lparr>sph_sp := (sph_sp h)(p := f (sph_sp h p))\<rparr>
      else h\<lparr>sph_fault := True\<rparr>)"

text \<open>
  \<open>mem\<close> is what the allocator returns, \<open>NULL\<close> when it fails.
\<close>

definition tuya_smartpointer_create :: "addr \<Rightarrow> addr \<Rightarrow> u32 \<Rightarrow> bool \<Rightarrow> u32 \<Rightarrow> sp_heap \<Rightarrow> addr \<times> sp_heap" where
  "tuya_smartpointer_create mem data data_len malk cnt h =
     (if data_len = 0 \<or> data = NULL then (NULL, h)
      else if mem = NULL then (NULL, h)
      else
        let size = (if malk then SMARTPOINTER_SIZE + unat data_len else SMARTPOINTER_SIZE);
            h = h\<lparr>sph_blocks := (mem, size) # sph_blocks h\<rparr>;
            h = sp_update mem (\<lambda>_. \<lparr>sp_mutex = False, sp_malk = False, sp_rfc = 0, sp_data_len = 0, sp_data = 0\<rparr>) h;
            h = sp_update mem (\<lambda>c. c\<lparr>sp_mutex := True\<rparr>) h;
            h = (if malk
                 then sp_update mem (\<lambda>c. c\<lparr>sp_data := mem + SMARTPOINTER_SIZE\<rparr>)
                        (h\<lparr>sph_bytes := (\<lambda>a. if mem + SMARTPOINTER_SIZE \<le> a \<and> a < mem + SMARTPOINTER_SIZE + unat data_len
                                          then sph_bytes h (data + (a - (mem + SMARTPOINTER_SIZE))) else sph_bytes h a)\<rparr>)
                 else sp_update mem (\<lambda>c. c\<lparr>sp_data := data\<rparr>) h)
        in (mem, sp_update mem (\<lambda>c. c\<lparr>sp_data_len := data_len, sp_rfc := cnt\<rparr>) h))"

definition tuya_smartpointer_get :: "addr \<Rightarrow> sp_heap \<Rightarrow> sp_heap" where
  "tuya_smartpointer_get p h =
     (if p = NULL then h else sp_update p (\<lambda>c. c\<lparr>sp_rfc := sp_rfc c + 1\<rparr>) h)"

text \<open>
  The end of \<open>tuya_smartpointer_put\<close> and the whole of \<open>tuya_smartpointer_del\<close>.
\<close>

definition sp_release :: "addr \<Rightarrow> sp_heap \<Rightarrow> sp_heap" where
  "sp_release p h =
     (let h = sp_update p (\<lambda>c. c\<lparr>sp_mutex := False\<rparr>) h;
          h = (if \<not> sp_malk (sph_sp h p) then sp_free (sp_data (sph_sp h p)) h else h)
      in sp_free p h)"

definition tuya_smartpointer_put :: "addr \<Rightarrow> sp_heap \<Rightarrow> sp_heap" where
  "tuya_smartpointer_put p h =
     (if p = NULL then h
      else
        let h = sp_update p (\<lambda>c. c\<lparr>sp_rfc := sp_rfc c - 1\<rparr>) h
        in if sp_rfc (sph_sp h p) = 0 then sp_release p h else h)"

definition tuya_smartpointer_del :: "addr \<Rightarrow> sp_heap \<Rightarrow> sp_heap" where
  "tuya_smartpointer_del p h = sp_release p h"

section \<open>Use of a reference\<close>

datatype sp_op = Get | Put

fun sp_run :: "addr \<Rightarrow> sp_op list \<Rightarrow> sp_heap \<Rightarrow> sp_heap" where
  "sp_run p [] h = h"
| "sp_run p (Get # ops) h = sp_run p ops (tuya_smartpointer_get p h)"
| "sp_run p (Put # ops) h = sp_run p ops (tuya_smartpointer_put p h)"

text \<open>
  The number of references after the operations from \<open>n\<close> on, \<open>None\<close> if one of them is made
  without a reference or there are too many.
\<close>

fun refs :: "sp_op list \<Rightarrow> nat \<Rightarrow> nat option" where
  "refs [] n = Some n"
| "refs (Get # ops) n = (if 0 < n \<and> n + 1 < 2 ^ 32 then refs ops (n + 1) else None)"
| "refs (Put # ops) n = (if 0 < n then refs ops (n - 1) else None)"

lemma sp_update_fields:
  assumes "p \<in> fst ` set (sph_blocks h)"
  shows "sph_blocks (sp_update p f h) = sph_blocks h" "sph_fault (sp_update p f h) = sph_fault h"
    "sph_sp (sp_update p f h) p = f (sph_sp h p)" "sph_bytes (sp_update p f h) = sph_bytes h"
  using assms by (simp_all add: sp_update_def)

text \<open>
  A control block \<open>p\<close> with \<open>n\<close> references to \<open>d\<close>.
\<close>

definition sp_valid :: "addr \<Rightarrow> addr \<Rightarrow> nat \<Rightarrow> sp_heap \<Rightarrow> bool" where
  "sp_valid p d n h \<longleftrightarrow> p \<noteq> 0 \<and> p \<in> fst ` set (sph_blocks h) \<and> sp_mutex (sph_sp h p) \<and> \<not> sp_malk (sph_sp h p) \<and>
     sp_data (sph_sp h p) = d \<and> unat (sp_rfc (sph_sp h p)) = n"

lemma get_valid:
  assumes "sp_valid p d n h" and "n + 1 < 2 ^ 32"
  shows "sp_valid p d (n + 1) (tuya_smartpointer_get p h)" "sph_blocks (tuya_smartpointer_get p h) = sph_blocks h"
    "sph_fault (tuya_smartpointer_get p h) = sph_fault h"
  using assms by (auto simp: sp_valid_def tuya_smartpointer_get_def sp_update_fields unat_word_ariths)

lemma put_valid:
  assumes "sp_valid p d n h" and "1 < n"
  shows "sp_valid p d (n - 1) (tuya_smartpointer_put p h)" "sph_blocks (tuya_smartpointer_put p h) = sph_blocks h"
    "sph_fault (tuya_smartpointer_put p h) = sph_fault h"
proof -
  let ?h = "sp_update p (\<lambda>c. c\<lparr>sp_rfc := sp_rfc c - 1\<rparr>) h"
  have p: "p \<noteq> 0" "p \<in> fst ` set (sph_blocks h)" "unat (sp_rfc (sph_sp h p)) = n" using assms(1) by (auto simp: sp_valid_def)
  have r: "unat (sp_rfc (sph_sp h p) - 1) = n - 1" using p(3) assms(2) by (subst unat_sub) (auto simp: word_le_nat_alt)
  then have "sp_rfc (sph_sp h p) - 1 \<noteq> 0" using assms(2) by auto
  then have "tuya_smartpointer_put p h = ?h" using p by (simp add: tuya_smartpointer_put_def Let_def sp_update_fields)
  then show "sp_valid p d (n - 1) (tuya_smartpointer_put p h)" "sph_blocks (tuya_smartpointer_put p h) = sph_blocks h"
    "sph_fault (tuya_smartpointer_put p h) = sph_fault h"
    using assms(1) p r by (auto simp: sp_valid_def sp_update_fields)
qed

lemma put_last:
  assumes "sp_valid p d 1 h"
  shows "tuya_smartpointer_put p h = sp_free p (sp_free d (sp_update p (\<lambda>c. c\<lparr>sp_mutex := False\<rparr>)
    (sp_update p (\<lambda>c. c\<lparr>sp_rfc := sp_rfc c - 1\<rparr>) h)))"
proof -
  have p: "p \<noteq> 0" "p \<in> fst ` set (sph_blocks h)" "unat (sp_rfc (sph_sp h p)) = 1" "\<not> sp_malk (sph_sp h p)" "sp_data (sph_sp h p) = d"
    using assms by (auto simp: sp_valid_def)
  have "sp_rfc (sph_sp h p) - 1 = 0" using p(3) using word_unat_eq_iff [of "sp_rfc (sph_sp h p)" 1] by simp
  then show ?thesis using p by (simp add: tuya_smartpointer_put_def sp_release_def Let_def sp_update_fields)
qed

lemma refs_0: "refs ops 0 = Some k \<Longrightarrow> k = 0"
  by (cases "(ops, 0 :: nat)" rule: refs.cases) auto

lemma run_valid:
  "sp_valid p d n h \<Longrightarrow> refs ops n = Some k \<Longrightarrow> 0 < k \<Longrightarrow>
     sp_valid p d k (sp_run p ops h) \<and> sph_blocks (sp_run p ops h) = sph_blocks h \<and> sph_fault (sp_run p ops h) = sph_fault h"
proof (induction ops arbitrary: n h)
  case (Cons c ops)
  show ?case
  proof (cases c)
    case Get
    then show ?thesis using Cons.prems Cons.IH [OF get_valid(1)] get_valid(2,3) by (auto split: if_splits)
  next
    case Put
    have "1 < n"
    proof (rule ccontr)
      assume "\<not> 1 < n"
      then have "refs ops 0 = Some k" using Cons.prems(2) Put by (auto split: if_splits)
      then show False using Cons.prems(3) refs_0 by blast
    qed
    then show ?thesis using Cons.prems Cons.IH [OF put_valid(1)] put_valid(2,3) Put by (auto split: if_splits)
  qed
qed simp

lemma run_append: "sp_run p (xs @ ys) h = sp_run p ys (sp_run p xs h)"
  by (induction p xs h rule: sp_run.induct) simp_all

lemma create_valid:
  assumes "len \<noteq> 0" and "data \<noteq> 0" and "mem \<noteq> 0" and "tuya_smartpointer_create mem data len malk cnt h = (p, h1)"
  shows "p = mem" "sp_valid mem (if malk then mem + SMARTPOINTER_SIZE else data) (unat cnt) h1"
    "sph_blocks h1 = (mem, if malk then SMARTPOINTER_SIZE + unat len else SMARTPOINTER_SIZE) # sph_blocks h"
    "sph_fault h1 = sph_fault h"
  using assms by (cases malk; auto simp: tuya_smartpointer_create_def Let_def sp_valid_def sp_update_def)+

text \<open>
  Property C27: the life of reference counted data. From its creation with \<open>cnt\<close> references on, in
  whatever order references are taken and returned, nothing is freed while a reference is left.
  When the last one is returned, data of the caller and the control block are freed, once each and
  nothing else. For data that was copied behind the control block (\<open>malk\<close>) the same call frees an
  address inside the block, because \<open>tuya_smartpointer_create\<close> never stores \<open>malk\<close>.
\<close>

theorem smartpointer_lifecycle:
  assumes "len \<noteq> 0" and "data \<noteq> 0" and "mem \<noteq> 0" and blk: "data \<in> fst ` set (sph_blocks h)"
    and new: "mem \<notin> fst ` set (sph_blocks h)" "mem + SMARTPOINTER_SIZE \<notin> fst ` set (sph_blocks h)"
    and refs: "refs ops (unat cnt) = Some 1"
    and create: "tuya_smartpointer_create mem data len malk cnt h = (p, h1)"
  shows "sph_blocks (sp_run p ops h1) = sph_blocks h1 \<and> sph_fault (sp_run p ops h1) = sph_fault h \<and>
    (\<not> malk \<longrightarrow> sph_blocks (sp_run p (ops @ [Put]) h1) = filter (\<lambda>b. fst b \<noteq> data) (sph_blocks h) \<and>
       sph_fault (sp_run p (ops @ [Put]) h1) = sph_fault h) \<and>
    (malk \<longrightarrow> sph_fault (sp_run p (ops @ [Put]) h1))"
proof -
  let ?d = "if malk then mem + SMARTPOINTER_SIZE else data"
  have c: "p = mem" "sp_valid mem ?d (unat cnt) h1"
      "sph_blocks h1 = (mem, if malk then SMARTPOINTER_SIZE + unat len else SMARTPOINTER_SIZE) # sph_blocks h"
      "sph_fault h1 = sph_fault h"
    using create_valid [OF assms(1-3) create] by simp_all
  define g where "g = sp_run p ops h1"
  have r: "sp_valid mem ?d 1 g" "sph_blocks g = sph_blocks h1" "sph_fault g = sph_fault h1"
    using run_valid [OF c(2) refs] by (simp_all add: g_def c(1))
  have m: "mem \<in> fst ` set (sph_blocks g)" using r(1) by (simp add: sp_valid_def)
  have dm: "data \<noteq> mem"
      "filter (\<lambda>b. fst b \<noteq> data \<and> fst b \<noteq> mem) (sph_blocks h) = filter (\<lambda>b. fst b \<noteq> data) (sph_blocks h)"
    using blk new(1) by (auto intro!: filter_cong)
  have e: "sp_run p (ops @ [Put]) h1 = sp_free mem (sp_free ?d (sp_update mem (\<lambda>c. c\<lparr>sp_mutex := False\<rparr>)
      (sp_update mem (\<lambda>c. c\<lparr>sp_rfc := sp_rfc c - 1\<rparr>) g)))"
    using put_last [OF r(1)] unfolding g_def c(1) by (simp add: run_append)
  let ?g = "sp_update mem (\<lambda>c. c\<lparr>sp_mutex := False\<rparr>) (sp_update mem (\<lambda>c. c\<lparr>sp_rfc := sp_rfc c - 1\<rparr>) g)"
  have g: "sph_blocks ?g = sph_blocks h1" "sph_fault ?g = sph_fault h" using m r c by (simp_all add: sp_update_fields)
  show ?thesis
    unfolding e g_def [symmetric] using r(2,3) c(3,4) g dm blk new
    by (auto simp: sp_free_def image_iff SMARTPOINTER_SIZE_def)
qed

definition sp_example :: sp_heap where
  "sp_example = \<lparr>sph_sp = (\<lambda>_. \<lparr>sp_mutex = False, sp_malk = False, sp_rfc = 0, sp_data_len = 0, sp_data = 0\<rparr>),
     sph_bytes = (\<lambda>_. 0), sph_blocks = [(64, 8)], sph_fault = False\<rparr>"

theorem smartpointer_lifecycle_witness:
  "sph_blocks (sp_run 128 [Get, Put, Put] (snd (tuya_smartpointer_create 128 64 8 False 1 sp_example))) = [] \<and>
   sph_fault (sp_run 128 [Get, Put, Put] (snd (tuya_smartpointer_create 128 64 8 True 1 sp_example)))"
proof -
  have f: "tuya_smartpointer_create 128 64 8 m 1 sp_example = (128, snd (tuya_smartpointer_create 128 64 8 m 1 sp_example))" for m
    by (simp add: tuya_smartpointer_create_def Let_def)
  show ?thesis
    using smartpointer_lifecycle [OF _ _ _ _ _ _ _ f [of False], of "[Get, Put]"]
      smartpointer_lifecycle [OF _ _ _ _ _ _ _ f [of True], of "[Get, Put]"]
    by (simp add: sp_example_def SMARTPOINTER_SIZE_def)
qed

end
