(* ===== verification/Wifi_Eloop.thy ===== *)
theory Wifi_Eloop
  imports Link_List
begin

text \<open>
  The event loop of the Wi-Fi manager (\<open>wifi_eloop.c\<close>): handlers for events, timeouts on a
  circular list of the SDK, and the loop that waits for messages and runs the handlers. A
  timeout is known by the address of its block, whose first member is the list node. What the
  handlers do is an argument; each call is also entered in a log. The time is an argument of
  the functions that read the clock. Two times are compared by the difference of signed numbers of
  32 bits; where it overflows the language leaves the result undefined, and so does the
  model: the result is \<open>None\<close>, also of every function that depends on it.
\<close>

section \<open>Model\<close>

record eloop_event =
  ev_eloop_data :: addr
  ev_user_data :: addr
  ev_handler :: addr
  ev_event_id :: u16

record eloop_timeout =
  to_time :: u32
  to_eloop_data :: addr
  to_user_data :: addr
  to_handler :: addr

record eloop_message =
  em_event_id :: u16
  em_reason :: u16
  em_param :: addr
  em_param_len :: u32

text \<open>
  \<open>el_array\<close> is the state of the array of events: \<open>None\<close> while it is \<open>NULL\<close>, then whether it is
  allocated. \<open>el_head\<close> is the address of the list head in the variable \<open>eloop\<close>, \<open>el_blocks\<close> the
  allocated timeouts, \<open>el_fault\<close> whether something was released that was not allocated, \<open>el_queue\<close>
  the messages of the task, \<open>el_params\<close> the parameters of messages that were released.
\<close>

record eloop = list_heap +
  el_events :: "eloop_event list"
  el_array :: "bool option"
  el_head :: addr
  el_timeout :: "addr \<Rightarrow> eloop_timeout"
  el_blocks :: "addr list"
  el_fault :: bool
  el_terminate :: bool
  el_queue :: "eloop_message list"
  el_params :: "addr list"
  el_log :: "(addr \<times> addr \<times> addr) list"

type_synonym handlers = "addr \<Rightarrow> addr \<Rightarrow> addr \<Rightarrow> eloop \<Rightarrow> eloop"

definition ELOOP_ALL_CTX :: addr where "ELOOP_ALL_CTX = 0xFFFFFFFF"
definition ELOOP_EVENT_WAKEUP :: u16 where "ELOOP_EVENT_WAKEUP = 1"
definition ELOOP_EVENT_TERMINATE :: u16 where "ELOOP_EVENT_TERMINATE = 2"

definition ELOOP_EVENT_ID :: "u8 \<Rightarrow> u16 \<Rightarrow> u16" where
  "ELOOP_EVENT_ID vif_idx event = ucast ((push_bit 12 (ucast vif_idx) :: u32) + ucast event)"

definition ELOOP_EVENT_GET_EV :: "u16 \<Rightarrow> u16" where "ELOOP_EVENT_GET_EV event_id = event_id AND 0xFFF"
definition ELOOP_EVENT_GET_VIF :: "u16 \<Rightarrow> u16" where "ELOOP_EVENT_GET_VIF event_id = drop_bit 12 event_id AND 0xF"

definition int32_diff :: "u32 \<Rightarrow> u32 \<Rightarrow> int option" where
  "int32_diff a b = (let d = sint a - sint b in if - (2 ^ 31) \<le> d \<and> d < 2 ^ 31 then Some d else None)"

definition SYS_TIME_AFTER :: "u32 \<Rightarrow> u32 \<Rightarrow> bool option" where
  "SYS_TIME_AFTER a b = map_option (\<lambda>d. d < 0) (int32_diff b a)"

definition SYS_TIME_BEFORE :: "u32 \<Rightarrow> u32 \<Rightarrow> bool option" where "SYS_TIME_BEFORE a b = SYS_TIME_AFTER b a"

definition SYS_TIME_AFTER_EQ :: "u32 \<Rightarrow> u32 \<Rightarrow> bool option" where
  "SYS_TIME_AFTER_EQ a b = map_option (\<lambda>d. d \<ge> 0) (int32_diff a b)"

definition wifi_eloop_init :: "eloop \<Rightarrow> int \<times> eloop" where
  "wifi_eloop_init s = (0, INIT_DLIST_HEAD (el_head s) (s\<lparr>el_events := [], el_array := None, el_terminate := False\<rparr>))"

text \<open>
  \<open>alloc_ok\<close> is whether \<open>sys_realloc\<close> succeeds.
\<close>

definition eloop_event_register :: "bool \<Rightarrow> u16 \<Rightarrow> addr \<Rightarrow> addr \<Rightarrow> addr \<Rightarrow> eloop \<Rightarrow> int \<times> eloop" where
  "eloop_event_register alloc_ok event_id handler eloop_data user_data s =
     (if el_terminate s then (-1, s)
      else if \<not> alloc_ok then (-1, s)
      else (0, s\<lparr>el_events := el_events s @
        [\<lparr>ev_eloop_data = eloop_data, ev_user_data = user_data, ev_handler = handler, ev_event_id = event_id\<rparr>],
        el_array := Some True\<rparr>))"

fun event_index :: "u16 \<Rightarrow> addr \<Rightarrow> eloop_event list \<Rightarrow> nat" where
  "event_index event_id handler [] = 0"
| "event_index event_id handler (e # es) =
     (if ev_event_id e = event_id \<and> ev_handler e = handler then 0 else Suc (event_index event_id handler es))"

definition eloop_event_unregister :: "u16 \<Rightarrow> addr \<Rightarrow> eloop \<Rightarrow> eloop" where
  "eloop_event_unregister event_id handler s =
     (if el_terminate s then s
      else if el_events s = [] then s
      else
        let i = event_index event_id handler (el_events s) in
        if i = length (el_events s) then s
        else s\<lparr>el_events := take i (el_events s) @ drop (i + 1) (el_events s)\<rparr>)"

text \<open>
  \<open>post_ok\<close> is whether the queue of the task takes the message.
\<close>

definition sys_task_post :: "bool \<Rightarrow> eloop_message \<Rightarrow> eloop \<Rightarrow> int \<times> eloop" where
  "sys_task_post post_ok message s = (if post_ok then (0, s\<lparr>el_queue := el_queue s @ [message]\<rparr>) else (-1, s))"

definition eloop_message_send :: "bool \<Rightarrow> u8 \<Rightarrow> u16 \<Rightarrow> int \<Rightarrow> addr \<Rightarrow> u32 \<Rightarrow> eloop \<Rightarrow> int \<times> eloop" where
  "eloop_message_send post_ok vif_idx event reason param len s =
     (if el_terminate s then (-1, s)
      else sys_task_post post_ok
        \<lparr>em_event_id = ELOOP_EVENT_ID vif_idx event, em_reason = word_of_int reason, em_param = param, em_param_len = len\<rparr> s)"

definition eloop_event_send :: "bool \<Rightarrow> u8 \<Rightarrow> u16 \<Rightarrow> eloop \<Rightarrow> int \<times> eloop" where
  "eloop_event_send post_ok vif_idx event s =
     (if el_terminate s then (-1, s)
      else sys_task_post post_ok
        \<lparr>em_event_id = ELOOP_EVENT_ID vif_idx event, em_reason = 0, em_param = NULL, em_param_len = 0\<rparr> s)"

definition call_handler :: "handlers \<Rightarrow> addr \<Rightarrow> addr \<Rightarrow> addr \<Rightarrow> eloop \<Rightarrow> eloop" where
  "call_handler hs handler eloop_data user_data s =
     hs handler eloop_data user_data (s\<lparr>el_log := el_log s @ [(handler, eloop_data, user_data)]\<rparr>)"

text \<open>
  The handlers may register and unregister events while the loop runs over them. The predefined
  handler \<open>wifi_mgmt_cb_run_state_machine\<close> gets the message.
\<close>

partial_function (option) dispatch_loop :: "handlers \<Rightarrow> u16 \<Rightarrow> nat \<Rightarrow> eloop \<Rightarrow> eloop option" where
  "dispatch_loop hs event_id i s =
     (if i < length (el_events s) then
        let e = el_events s ! i in
        if ev_event_id e = event_id
        then dispatch_loop hs event_id (i + 1) (call_handler hs (ev_handler e) (ev_eloop_data e) (ev_user_data e) s)
        else dispatch_loop hs event_id (i + 1) s
      else Some s)"

definition eloop_event_dispatch :: "handlers \<Rightarrow> (eloop_message \<Rightarrow> eloop \<Rightarrow> eloop) \<Rightarrow> eloop_message \<Rightarrow> eloop \<Rightarrow> eloop option" where
  "eloop_event_dispatch hs run_state_machine message s =
     (let event = ELOOP_EVENT_GET_EV (em_event_id message) in
      if event = ELOOP_EVENT_WAKEUP then Some s
      else if event = ELOOP_EVENT_TERMINATE then Some (s\<lparr>el_terminate := True\<rparr>)
      else dispatch_loop hs (em_event_id message) 0 (run_state_machine message s))"

text \<open>
  The place of a new timeout, in front of the first one with a later time.
\<close>

partial_function (option) insert_timeout :: "addr \<Rightarrow> addr \<Rightarrow> eloop \<Rightarrow> eloop option" where
  "insert_timeout timeout tmp s =
     (if tmp \<noteq> el_head s then
        if to_time (el_timeout s timeout) < to_time (el_timeout s tmp)
        then Some (list_add timeout (lh_prev s tmp) s)
        else insert_timeout timeout (lh_next s tmp) s
      else Some (list_add_tail timeout (el_head s) s))"

definition new_timeout :: "u32 \<Rightarrow> u32 \<Rightarrow> addr \<Rightarrow> addr \<Rightarrow> addr \<Rightarrow> eloop_timeout" where
  "new_timeout now msecs handler eloop_data user_data =
     \<lparr>to_time = now + msecs, to_eloop_data = eloop_data, to_user_data = user_data, to_handler = handler\<rparr>"

definition eloop_timeout_register ::
    "u32 \<Rightarrow> addr \<Rightarrow> u32 \<Rightarrow> addr \<Rightarrow> addr \<Rightarrow> addr \<Rightarrow> eloop \<Rightarrow> (int \<times> eloop) option" where
  "eloop_timeout_register now mem msecs handler eloop_data user_data s =
     (if el_terminate s then Some (-1, s)
      else if mem = NULL then Some (-1, s)
      else
        let s = s\<lparr>el_blocks := mem # el_blocks s,
              el_timeout := (el_timeout s)(mem := new_timeout now msecs handler eloop_data user_data)\<rparr>
        in map_option (\<lambda>s. (0, s)) (insert_timeout mem (lh_next s (el_head s)) s))"

definition eloop_free :: "addr \<Rightarrow> eloop \<Rightarrow> eloop" where
  "eloop_free p s =
     (if p \<in> set (el_blocks s) then s\<lparr>el_blocks := remove1 p (el_blocks s)\<rparr> else s\<lparr>el_fault := True\<rparr>)"

definition eloop_timeout_remove :: "addr \<Rightarrow> eloop \<Rightarrow> eloop" where
  "eloop_timeout_remove timeout s = eloop_free timeout (list_del timeout s)"

text \<open>
  The loop with a saved successor that removes the timeouts with a property.
\<close>

partial_function (option) remove_each :: "(eloop_timeout \<Rightarrow> bool) \<Rightarrow> addr \<Rightarrow> addr \<Rightarrow> int \<Rightarrow> eloop \<Rightarrow> (int \<times> eloop) option" where
  "remove_each P timeout prev removed s =
     (if timeout \<noteq> el_head s then
        let (s, removed) = (if P (el_timeout s timeout) then (eloop_timeout_remove timeout s, removed + 1) else (s, removed))
        in remove_each P prev (lh_next s prev) removed s
      else Some (removed, s))"

definition remove_timeouts :: "(eloop_timeout \<Rightarrow> bool) \<Rightarrow> eloop \<Rightarrow> (int \<times> eloop) option" where
  "remove_timeouts P s =
     (let timeout = lh_next s (el_head s) in remove_each P timeout (lh_next s timeout) 0 s)"

definition timeout_matches :: "addr \<Rightarrow> addr \<Rightarrow> addr \<Rightarrow> eloop_timeout \<Rightarrow> bool" where
  "timeout_matches handler eloop_data user_data t \<longleftrightarrow> to_handler t = handler \<and>
     (to_eloop_data t = eloop_data \<or> eloop_data = ELOOP_ALL_CTX) \<and> (to_user_data t = user_data \<or> user_data = ELOOP_ALL_CTX)"

definition eloop_timeout_cancel :: "addr \<Rightarrow> addr \<Rightarrow> addr \<Rightarrow> eloop \<Rightarrow> (int \<times> eloop) option" where
  "eloop_timeout_cancel handler eloop_data user_data s =
     (if el_terminate s then Some (-1, s) else remove_timeouts (timeout_matches handler eloop_data user_data) s)"

definition eloop_timeout_all_cancel :: "eloop \<Rightarrow> (int \<times> eloop) option" where
  "eloop_timeout_all_cancel s = map_option (\<lambda>(_, s). (0, s)) (remove_timeouts (\<lambda>_. True) s)"

partial_function (option) registered_loop :: "addr \<Rightarrow> addr \<Rightarrow> addr \<Rightarrow> addr \<Rightarrow> eloop \<Rightarrow> int option" where
  "registered_loop handler eloop_data user_data tmp s =
     (if tmp \<noteq> el_head s then
        let t = el_timeout s tmp in
        if to_handler t = handler \<and> to_eloop_data t = eloop_data \<and> to_user_data t = user_data then Some 1
        else registered_loop handler eloop_data user_data (lh_next s tmp) s
      else Some 0)"

definition eloop_timeout_is_registered :: "addr \<Rightarrow> addr \<Rightarrow> addr \<Rightarrow> eloop \<Rightarrow> int option" where
  "eloop_timeout_is_registered handler eloop_data user_data s =
     registered_loop handler eloop_data user_data (lh_next s (el_head s)) s"

definition list_first_entry :: "eloop \<Rightarrow> addr" where
  "list_first_entry s = (if list_empty s (el_head s) then NULL else lh_next s (el_head s))"

definition eloop_timeout_handle :: "handlers \<Rightarrow> u32 \<Rightarrow> eloop \<Rightarrow> eloop option" where
  "eloop_timeout_handle hs now s =
     (let timeout = list_first_entry s in
      if timeout \<noteq> NULL then
        let t = el_timeout s timeout in
        map_option (\<lambda>expired.
            if expired
            then call_handler hs (to_handler t) (to_eloop_data t) (to_user_data t) (eloop_timeout_remove timeout s)
            else s)
          (SYS_TIME_AFTER_EQ now (to_time t))
      else Some s)"

text \<open>
  One round of \<open>wifi_eloop_run\<close>. The clock is read twice; \<open>waiting\<close> is what \<open>sys_task_wait\<close> is
  called with and gives the messages that are posted before it returns.
\<close>

definition eloop_remain :: "u32 \<Rightarrow> eloop \<Rightarrow> u32 option" where
  "eloop_remain now s =
     (let timeout = list_first_entry s in
      if timeout \<noteq> NULL
      then map_option (\<lambda>before. if before then to_time (el_timeout s timeout) - now else 0)
             (SYS_TIME_BEFORE now (to_time (el_timeout s timeout)))
      else Some 0)"

definition sys_task_wait :: "(u32 \<Rightarrow> eloop_message list) \<Rightarrow> u32 \<Rightarrow> eloop \<Rightarrow> eloop_message option \<times> eloop" where
  "sys_task_wait waiting timeout_ms s =
     (let q = el_queue s @ waiting timeout_ms in
      case q of [] \<Rightarrow> (None, s) | m # ms \<Rightarrow> (Some m, s\<lparr>el_queue := ms\<rparr>))"

definition eloop_round ::
    "handlers \<Rightarrow> (eloop_message \<Rightarrow> eloop \<Rightarrow> eloop) \<Rightarrow> u32 \<Rightarrow> (u32 \<Rightarrow> eloop_message list) \<Rightarrow> u32 \<Rightarrow> eloop \<Rightarrow> eloop option" where
  "eloop_round hs run_state_machine now waiting now' s =
     (let timeout = list_first_entry s in
      Option.bind (eloop_remain now s) (\<lambda>remain.
        Option.bind
          (if timeout \<noteq> NULL \<and> remain = 0 then Some s
           else case sys_task_wait waiting (if timeout \<noteq> NULL then remain else 0) s of
             (Some message, s) \<Rightarrow> eloop_event_dispatch hs run_state_machine message s
           | (None, s) \<Rightarrow> Some s)
          (eloop_timeout_handle hs now')))"

fun wifi_eloop_run ::
    "handlers \<Rightarrow> (eloop_message \<Rightarrow> eloop \<Rightarrow> eloop) \<Rightarrow> (u32 \<times> (u32 \<Rightarrow> eloop_message list) \<times> u32) list \<Rightarrow> eloop
      \<Rightarrow> (bool \<times> eloop) option" where
  "wifi_eloop_run hs run_state_machine [] s = Some (el_terminate s, s)"
| "wifi_eloop_run hs run_state_machine ((now, waiting, now') # inputs) s =
     (if el_terminate s then Some (True, s)
      else case eloop_round hs run_state_machine now waiting now' s of
        None \<Rightarrow> None
      | Some s \<Rightarrow> wifi_eloop_run hs run_state_machine inputs s)"

definition wifi_eloop_terminate :: "bool \<Rightarrow> eloop \<Rightarrow> eloop" where
  "wifi_eloop_terminate post_ok s = snd (eloop_event_send post_ok 0 ELOOP_EVENT_TERMINATE s)"

fun flush_messages :: "eloop_message list \<Rightarrow> addr list" where
  "flush_messages [] = []"
| "flush_messages (m # ms) = (if em_param m \<noteq> NULL then [em_param m] else []) @ flush_messages ms"

definition wifi_eloop_destroy :: "eloop \<Rightarrow> eloop option" where
  "wifi_eloop_destroy s =
     (let s = s\<lparr>el_params := el_params s @ flush_messages (el_queue s), el_queue := []\<rparr>
      in map_option (\<lambda>(_, s).
           case el_array s of
             None \<Rightarrow> s
           | Some live \<Rightarrow> if live then s\<lparr>el_array := Some False\<rparr> else s\<lparr>el_fault := True\<rparr>)
         (remove_timeouts (\<lambda>_. True) s))"

definition wifi_eloop_terminated :: "eloop \<Rightarrow> int" where
  "wifi_eloop_terminated s = (if el_terminate s then 1 else 0)"

section \<open>The list of timeouts\<close>

definition time_of :: "eloop \<Rightarrow> addr \<Rightarrow> nat" where "time_of s p = unat (to_time (el_timeout s p))"

text \<open>
  The timeouts are the allocated blocks, in the order of their times as unsigned numbers.
\<close>

definition eloop_inv :: "eloop \<Rightarrow> addr list \<Rightarrow> bool" where
  "eloop_inv s xs \<longleftrightarrow> dll s (el_head s) xs \<and> NULL \<notin> set xs \<and> set xs = set (el_blocks s) \<and> distinct (el_blocks s) \<and>
     \<not> el_fault s \<and> sorted (map (time_of s) xs)"

lemma set_node_fields [simp]:
  "el_events (set_next p v s) = el_events s" "el_events (set_prev p v s) = el_events s"
  "el_array (set_next p v s) = el_array s" "el_array (set_prev p v s) = el_array s"
  "el_head (set_next p v s) = el_head s" "el_head (set_prev p v s) = el_head s"
  "el_timeout (set_next p v s) = el_timeout s" "el_timeout (set_prev p v s) = el_timeout s"
  "el_blocks (set_next p v s) = el_blocks s" "el_blocks (set_prev p v s) = el_blocks s"
  "el_fault (set_next p v s) = el_fault s" "el_fault (set_prev p v s) = el_fault s"
  "el_terminate (set_next p v s) = el_terminate s" "el_terminate (set_prev p v s) = el_terminate s"
  "el_queue (set_next p v s) = el_queue s" "el_queue (set_prev p v s) = el_queue s"
  "el_params (set_next p v s) = el_params s" "el_params (set_prev p v s) = el_params s"
  "el_log (set_next p v s) = el_log s" "el_log (set_prev p v s) = el_log s"
  by (simp_all add: set_next_def set_prev_def)

text \<open>
  Two states that agree in everything but the links and the timeouts.
\<close>

definition same_rest :: "eloop \<Rightarrow> eloop \<Rightarrow> bool" where
  "same_rest s' s \<longleftrightarrow> el_events s' = el_events s \<and> el_array s' = el_array s \<and> el_head s' = el_head s \<and>
     el_fault s' = el_fault s \<and> el_terminate s' = el_terminate s \<and> el_queue s' = el_queue s \<and>
     el_params s' = el_params s \<and> el_log s' = el_log s"

lemma same_rest_list [simp]:
  "same_rest (list_add n p s) s" "same_rest (list_add_tail n p s) s" "same_rest (list_del n s) s"
  "el_blocks (list_add n p s) = el_blocks s" "el_blocks (list_add_tail n p s) = el_blocks s" "el_blocks (list_del n s) = el_blocks s"
  "el_timeout (list_add n p s) = el_timeout s" "el_timeout (list_add_tail n p s) = el_timeout s" "el_timeout (list_del n s) = el_timeout s"
  by (simp_all add: same_rest_def dlist_ops_def)

lemma same_rest_trans: "same_rest u t \<Longrightarrow> same_rest t s \<Longrightarrow> same_rest u s"
  by (simp add: same_rest_def)

lemma eloop_inv_cong:
  assumes "lh_next s' = lh_next s" "lh_prev s' = lh_prev s" "el_head s' = el_head s" "el_timeout s' = el_timeout s"
    "el_blocks s' = el_blocks s" "el_fault s' = el_fault s"
  shows "eloop_inv s' xs \<longleftrightarrow> eloop_inv s xs"
proof -
  have "time_of s' = time_of s" using assms(4) by (simp add: time_of_def fun_eq_iff)
  then show ?thesis unfolding eloop_inv_def assms(3,5,6) dll_cong [OF assms(1,2)] by simp
qed

lemma eloop_inv_upd [simp]:
  "eloop_inv (s\<lparr>el_log := l\<rparr>) xs \<longleftrightarrow> eloop_inv s xs" "eloop_inv (s\<lparr>el_terminate := b\<rparr>) xs \<longleftrightarrow> eloop_inv s xs"
  "eloop_inv (s\<lparr>el_queue := q\<rparr>) xs \<longleftrightarrow> eloop_inv s xs" "eloop_inv (s\<lparr>el_params := ps\<rparr>) xs \<longleftrightarrow> eloop_inv s xs"
  "eloop_inv (s\<lparr>el_array := a\<rparr>) xs \<longleftrightarrow> eloop_inv s xs" "eloop_inv (s\<lparr>el_events := es\<rparr>) xs \<longleftrightarrow> eloop_inv s xs"
  by (rule eloop_inv_cong; simp)+

lemma insert_before_dll:
  assumes d: "dll h head (us @ v # vs)" and n: "n \<notin> set (head # us @ v # vs)"
  shows "dll (list_add n (lh_prev h v) h) head (us @ n # v # vs)"
proof -
  have p: "lh_prev h v = last (head # us)" by (rule dll_remove_between(2) [OF d])
  have "links h (head # (us @ v # vs) @ [head])" using d by (simp add: dll_def)
  moreover have "head # us = butlast (head # us) @ [last (head # us)]" by (metis append_butlast_last_id list.distinct(1))
  then have "head # (us @ v # vs) @ [head] = butlast (head # us) @ last (head # us) # v # vs @ [head]"
    by (metis append_Cons append_assoc append_Nil)
  ultimately have "lh_next h (last (head # us)) = v" using links_middle by metis
  then show ?thesis using dll_insert_between [OF d n] p by (simp add: dlist_ops_eq tuya_list_add_def)
qed

text \<open>
  The place of a new timeout: behind all that are not later.
\<close>

definition place_timeout :: "eloop \<Rightarrow> addr \<Rightarrow> addr list \<Rightarrow> addr list" where
  "place_timeout s n xs =
     takeWhile (\<lambda>p. time_of s p \<le> time_of s n) xs @ n # dropWhile (\<lambda>p. time_of s p \<le> time_of s n) xs"

lemma insert_timeout_ok:
  "dll s (el_head s) (us @ vs) \<Longrightarrow> n \<notin> set (el_head s # us @ vs) \<Longrightarrow>
   \<exists>s'. insert_timeout n (hd (vs @ [el_head s])) s = Some s' \<and> dll s' (el_head s) (us @ place_timeout s n vs) \<and>
     same_rest s' s \<and> el_blocks s' = el_blocks s \<and> el_timeout s' = el_timeout s"
proof (induction vs arbitrary: us)
  case Nil
  then have "dll (list_add_tail n (el_head s) s) (el_head s) (us @ [n])" by (intro dlist.add_tail_dll) auto
  then show ?case by (subst insert_timeout.simps) (simp add: place_timeout_def)
next
  case (Cons v vs)
  have ne: "v \<noteq> el_head s" using Cons.prems(1) by (auto simp: dll_def)
  show ?case
  proof (cases "to_time (el_timeout s n) < to_time (el_timeout s v)")
    case True
    then have "\<not> time_of s v \<le> time_of s n" by (simp add: time_of_def word_less_nat_alt)
    then show ?thesis
      using True ne insert_before_dll [OF Cons.prems] by (subst insert_timeout.simps) (simp add: place_timeout_def)
  next
    case False
    then have le: "time_of s v \<le> time_of s n" by (simp add: time_of_def word_less_nat_alt)
    have "lh_next s v = hd (vs @ [el_head s])" by (rule dll_remove_between(3) [OF Cons.prems(1)])
    moreover have "\<exists>s'. insert_timeout n (hd (vs @ [el_head s])) s = Some s' \<and>
        dll s' (el_head s) ((us @ [v]) @ place_timeout s n vs) \<and> same_rest s' s \<and> el_blocks s' = el_blocks s \<and> el_timeout s' = el_timeout s"
      using Cons.prems by (intro Cons.IH) auto
    ultimately show ?thesis
      using False ne le by (subst insert_timeout.simps) (simp add: place_timeout_def)
  qed
qed

lemma place_timeout_sorted:
  assumes "sorted (map (time_of s) xs)"
  shows "sorted (map (time_of s) (place_timeout s n xs))"
  using assms
proof (induction xs)
  case (Cons x xs)
  then show ?case
    by (cases "time_of s x \<le> time_of s n") (auto simp: place_timeout_def dest: set_takeWhileD set_dropWhileD)
qed (simp add: place_timeout_def)

lemma set_place_timeout [simp]: "set (place_timeout s n xs) = insert n (set xs)"
  by (metis (no_types, lifting) Un_insert_right list.simps(15) place_timeout_def set_append takeWhile_dropWhile_id)

lemma register_ok:
  assumes inv: "eloop_inv s xs" and n: "mem \<noteq> NULL" "mem \<notin> set (el_head s # xs)" and t: "\<not> el_terminate s"
  obtains s' where "eloop_timeout_register now mem msecs h d u s = Some (0, s')"
    and "eloop_inv s' (place_timeout s' mem xs)" and "same_rest s' s" and "el_timeout s' = (el_timeout s)(mem := new_timeout now msecs h d u)"
    and "el_blocks s' = mem # el_blocks s"
proof -
  let ?s = "s\<lparr>el_blocks := mem # el_blocks s, el_timeout := (el_timeout s)(mem := new_timeout now msecs h d u)\<rparr>"
  have d: "dll ?s (el_head ?s) ([] @ xs)" using inv dll_cong [of ?s s] by (simp add: eloop_inv_def)
  have "mem \<notin> set (el_head ?s # [] @ xs)" using n by simp
  from insert_timeout_ok [OF d this] obtain s' where s': "insert_timeout mem (hd (xs @ [el_head s])) ?s = Some s'"
    "dll s' (el_head s) (place_timeout ?s mem xs)" "same_rest s' ?s" "el_blocks s' = mem # el_blocks s"
    "el_timeout s' = (el_timeout s)(mem := new_timeout now msecs h d u)" by auto
  have nx: "lh_next ?s (el_head ?s) = hd (xs @ [el_head s])" using dll_next_head [OF d] by simp
  have reg: "eloop_timeout_register now mem msecs h d u s = Some (0, s')"
    using s'(1) nx n(1) t by (simp add: eloop_timeout_register_def Let_def)
  have tm: "time_of s' = time_of ?s" using s'(5) by (simp add: time_of_def fun_eq_iff)
  have pl: "place_timeout s' mem xs = place_timeout ?s mem xs" by (simp add: place_timeout_def tm)
  have so: "sorted (map (time_of s) xs)" using inv by (simp add: eloop_inv_def)
  have eq: "map (time_of ?s) xs = map (time_of s) xs" using n(2) by (auto simp: time_of_def)
  have "sorted (map (time_of ?s) xs)" unfolding eq by (rule so)
  then have "sorted (map (time_of s') (place_timeout s' mem xs))" unfolding tm pl by (rule place_timeout_sorted)
  then have "eloop_inv s' (place_timeout s' mem xs)"
    using inv n s'(2-4) pl by (auto simp: eloop_inv_def same_rest_def)
  moreover have "same_rest s' s" using s'(3) by (simp add: same_rest_def)
  ultimately show thesis using reg s' by (intro that)
qed

lemma timeout_remove_ok:
  assumes inv: "eloop_inv s (us @ v # vs)"
  shows "eloop_inv (eloop_timeout_remove v s) (us @ vs)" "same_rest (eloop_timeout_remove v s) s"
    "el_timeout (eloop_timeout_remove v s) = el_timeout s" "el_blocks (eloop_timeout_remove v s) = remove1 v (el_blocks s)"
proof -
  let ?l = "list_del v s"
  have d: "dll s (el_head s) (us @ v # vs)" and b: "v \<in> set (el_blocks s)" using inv by (auto simp: eloop_inv_def)
  have l: "dll ?l (el_head s) (us @ vs)" by (rule dlist.del_dll [OF d])
  have h: "el_head ?l = el_head s" "el_fault ?l = el_fault s" using same_rest_list(3) [of v s] by (auto simp: same_rest_def)
  have r: "eloop_timeout_remove v s = ?l\<lparr>el_blocks := remove1 v (el_blocks s)\<rparr>"
    using b by (simp add: eloop_timeout_remove_def eloop_free_def)
  show t: "el_timeout (eloop_timeout_remove v s) = el_timeout s" "el_blocks (eloop_timeout_remove v s) = remove1 v (el_blocks s)"
    by (simp_all add: r)
  show "same_rest (eloop_timeout_remove v s) s" using same_rest_list(3) [of v s] by (simp add: r same_rest_def)
  have "dll (eloop_timeout_remove v s) (el_head s) (us @ vs)" unfolding r using l dll_cong [of "?l\<lparr>el_blocks := remove1 v (el_blocks s)\<rparr>" ?l] by simp
  moreover have "time_of (eloop_timeout_remove v s) = time_of s" using t by (simp add: time_of_def fun_eq_iff)
  moreover have "distinct (us @ v # vs)" using d by (simp add: dll_def)
  then have "set (us @ vs) = set (us @ v # vs) - {v}" by auto
  then have "set (us @ vs) = set (remove1 v (el_blocks s))" using inv by (auto simp: eloop_inv_def)
  ultimately show "eloop_inv (eloop_timeout_remove v s) (us @ vs)"
    using inv h by (auto simp: eloop_inv_def r sorted_append)
qed

lemma inv_head: "eloop_inv s xs \<Longrightarrow> el_head s \<notin> set xs"
  by (auto simp: eloop_inv_def dll_def)

lemma remove_each_ok:
  "eloop_inv s (us @ vs) \<Longrightarrow>
   \<exists>s'. remove_each P (hd (vs @ [el_head s])) (lh_next s (hd (vs @ [el_head s]))) r s =
       Some (r + int (length (filter (\<lambda>p. P (el_timeout s p)) vs)), s') \<and>
     eloop_inv s' (us @ filter (\<lambda>p. \<not> P (el_timeout s p)) vs) \<and> same_rest s' s \<and> el_timeout s' = el_timeout s"
proof (induction vs arbitrary: us r s)
  case Nil
  then show ?case by (subst remove_each.simps) (simp add: same_rest_def)
next
  case (Cons v vs)
  have ne: "v \<noteq> el_head s" using inv_head [OF Cons.prems] by auto
  have d: "dll s (el_head s) (us @ v # vs)" using Cons.prems by (simp add: eloop_inv_def)
  have nx: "lh_next s v = hd (vs @ [el_head s])" by (rule dll_remove_between(3) [OF d])
  show ?case
  proof (cases "P (el_timeout s v)")
    case True
    let ?s = "eloop_timeout_remove v s"
    note r = timeout_remove_ok [OF Cons.prems]
    have h: "el_head ?s = el_head s" using r(2) by (simp add: same_rest_def)
    from Cons.IH [OF r(1), of "r + 1"] obtain s' where
      "remove_each P (hd (vs @ [el_head s])) (lh_next ?s (hd (vs @ [el_head s]))) (r + 1) ?s =
         Some (r + 1 + int (length (filter (\<lambda>p. P (el_timeout s p)) vs)), s')"
      "eloop_inv s' (us @ filter (\<lambda>p. \<not> P (el_timeout s p)) vs)" "same_rest s' ?s" "el_timeout s' = el_timeout s"
      unfolding h r(3) by blast
    then show ?thesis using True ne nx same_rest_trans [OF _ r(2)] by (subst remove_each.simps) auto
  next
    case False
    have "eloop_inv s ((us @ [v]) @ vs)" using Cons.prems by simp
    from Cons.IH [OF this, of r] show ?thesis using False ne nx by (subst remove_each.simps) auto
  qed
qed

lemma remove_timeouts_ok:
  assumes inv: "eloop_inv s xs"
  obtains s' where "remove_timeouts P s = Some (int (length (filter (\<lambda>p. P (el_timeout s p)) xs)), s')"
    and "eloop_inv s' (filter (\<lambda>p. \<not> P (el_timeout s p)) xs)" and "same_rest s' s" and "el_timeout s' = el_timeout s"
proof -
  have i: "eloop_inv s ([] @ xs)" using inv by simp
  have d: "dll s (el_head s) xs" using inv by (simp add: eloop_inv_def)
  from remove_each_ok [OF i, of P 0] show thesis using dll_next_head [OF d] that by (auto simp: remove_timeouts_def Let_def)
qed

lemma registered_loop_ok:
  "dll s (el_head s) (us @ vs) \<Longrightarrow> registered_loop h d u (hd (vs @ [el_head s])) s =
     Some (if \<exists>p \<in> set vs. to_handler (el_timeout s p) = h \<and> to_eloop_data (el_timeout s p) = d \<and> to_user_data (el_timeout s p) = u
           then 1 else 0)"
proof (induction vs arbitrary: us)
  case Nil
  then show ?case by (subst registered_loop.simps) simp
next
  case (Cons v vs)
  have ne: "v \<noteq> el_head s" using Cons.prems by (auto simp: dll_def)
  have nx: "lh_next s v = hd (vs @ [el_head s])" by (rule dll_remove_between(3) [OF Cons.prems])
  have "dll s (el_head s) ((us @ [v]) @ vs)" using Cons.prems by simp
  from Cons.IH [OF this] show ?case using ne nx by (subst registered_loop.simps) (auto simp: Let_def)
qed

section \<open>Handling timeouts\<close>

lemma first_entry:
  "eloop_inv s xs \<Longrightarrow> list_first_entry s = (case xs of [] \<Rightarrow> NULL | x # _ \<Rightarrow> x)"
  using dll_next_head [of s "el_head s" xs]
  by (cases xs) (auto simp: list_first_entry_def list_empty_def eloop_inv_def dll_def)

text \<open>
  Two times on the same side of \<open>2 ^ 31\<close> compare as numbers. A time of the upper half and one of
  the lower half that are less than \<open>2 ^ 31\<close> apart do not compare at all.
\<close>

lemma sint_u32: "sint (a :: u32) = (if unat a < 2 ^ 31 then int (unat a) else int (unat a) - 2 ^ 32)"
proof -
  define k where "k = unat a"
  have a: "a = word_of_int (int k)" and k: "k < 2 ^ 32" using unat_bound [of a] by (simp_all add: k_def)
  have "sint a = signed_take_bit 31 (int k)" unfolding a by (subst sint_sbintrunc') simp
  also have "\<dots> = (int k + 2 ^ 31) mod 2 ^ 32 - 2 ^ 31"
    by (simp add: signed_take_bit_eq_take_bit_shift take_bit_eq_mod)
  also have "\<dots> = (if k < 2 ^ 31 then int k else int k - 2 ^ 32)"
  proof (cases "k < 2 ^ 31")
    case True
    then show ?thesis by (subst mod_pos_pos_trivial) simp_all
  next
    case False
    then have "(int k + 2 ^ 31) mod 2 ^ 32 = (int k - 2 ^ 31) mod 2 ^ 32"
      using mod_add_self2 [of "int k - 2 ^ 31" "2 ^ 32"] by (simp add: add.commute)
    also have "\<dots> = int k - 2 ^ 31" using False k by (intro mod_pos_pos_trivial) simp_all
    finally show ?thesis using False by simp
  qed
  finally show ?thesis unfolding k_def .
qed


lemma time_overflow:
  assumes "2 ^ 31 \<le> unat a" and "unat b < 2 ^ 31" and "unat a < unat b + 2 ^ 31"
  shows "SYS_TIME_AFTER_EQ a b = None" and "SYS_TIME_BEFORE b a = None"
  using assms by (simp_all add: SYS_TIME_AFTER_EQ_def SYS_TIME_BEFORE_def SYS_TIME_AFTER_def int32_diff_def sint_u32 del: of_nat_unat)

lemma sint_from_upper:
  assumes "2 ^ 31 \<le> unat a" and "k < 2 ^ 31"
  shows "sint (a + of_nat k :: u32) = int (unat a) + int k - 2 ^ 32"
proof -
  have k: "unat (of_nat k :: u32) = k" using assms(2) by (intro unat_of_nat_small) simp
  have "unat (a + of_nat k) = (if unat a + k < 2 ^ 32 then unat a + k else unat a + k - 2 ^ 32)"
    using assms(2) unat_bound [of a] by (simp add: unat_word_ariths k mod_if)
  then show ?thesis using assms unat_bound [of a] by (auto simp: sint_u32 of_nat_diff simp del: of_nat_unat)
qed




lemma handle_not_due:
  assumes "eloop_inv s xs" and "\<And>x ys. xs = x # ys \<Longrightarrow> SYS_TIME_AFTER_EQ now (to_time (el_timeout s x)) = Some False"
  shows "eloop_timeout_handle hs now s = Some s"
  using assms first_entry [OF assms(1)] by (cases xs) (auto simp: eloop_timeout_handle_def Let_def)


definition timeout_call :: "eloop \<Rightarrow> addr \<Rightarrow> addr \<times> addr \<times> addr" where
  "timeout_call s p = (to_handler (el_timeout s p), to_eloop_data (el_timeout s p), to_user_data (el_timeout s p))"




section \<open>Properties\<close>

text \<open>
  Property C23: the operations on timeouts. On a well-formed event loop a new timeout is entered
  behind all that are not later, cancelling removes and counts exactly the timeouts that match, and
  the test for a registered timeout is exact. All of them end and keep the list well-formed
  and sorted.
\<close>

theorem eloop_timeouts_functional:
  assumes inv: "eloop_inv s xs" and t: "\<not> el_terminate s"
  shows "(mem \<noteq> NULL \<and> mem \<notin> set (el_head s # xs) \<longrightarrow>
      (\<exists>s'. eloop_timeout_register now mem msecs h d u s = Some (0, s') \<and> eloop_inv s' (place_timeout s' mem xs) \<and>
        el_timeout s' = (el_timeout s)(mem := new_timeout now msecs h d u))) \<and>
    (\<exists>s'. eloop_timeout_cancel h d u s = Some (int (length (filter (\<lambda>p. timeout_matches h d u (el_timeout s p)) xs)), s') \<and>
        eloop_inv s' (filter (\<lambda>p. \<not> timeout_matches h d u (el_timeout s p)) xs) \<and> el_timeout s' = el_timeout s) \<and>
    eloop_timeout_is_registered h d u s = Some (if (h, d, u) \<in> timeout_call s ` set xs then 1 else 0)"
proof (intro conjI impI)
  assume "mem \<noteq> NULL \<and> mem \<notin> set (el_head s # xs)"
  then show "\<exists>s'. eloop_timeout_register now mem msecs h d u s = Some (0, s') \<and> eloop_inv s' (place_timeout s' mem xs) \<and>
      el_timeout s' = (el_timeout s)(mem := new_timeout now msecs h d u)"
    using register_ok [OF inv _ _ t, of mem now msecs h d u] by blast
next
  show "\<exists>s'. eloop_timeout_cancel h d u s = Some (int (length (filter (\<lambda>p. timeout_matches h d u (el_timeout s p)) xs)), s') \<and>
        eloop_inv s' (filter (\<lambda>p. \<not> timeout_matches h d u (el_timeout s p)) xs) \<and> el_timeout s' = el_timeout s"
    by (rule remove_timeouts_ok [OF inv, of "timeout_matches h d u"]) (use t in \<open>simp add: eloop_timeout_cancel_def\<close>)
  have dl: "dll s (el_head s) ([] @ xs)" using inv by (simp add: eloop_inv_def)
  then show "eloop_timeout_is_registered h d u s = Some (if (h, d, u) \<in> timeout_call s ` set xs then 1 else 0)"
    using registered_loop_ok [OF dl, of h d u] dll_next_head [of s "el_head s" xs]
    by (auto simp: eloop_timeout_is_registered_def timeout_call_def image_iff)
qed

text \<open>
  An event loop with two timeouts, at 10 and at 20 milliseconds.
\<close>

definition example_eloop :: eloop where
  "example_eloop = \<lparr>lh_next = (\<lambda>_. 0)(8 := 100, 100 := 200, 200 := 8), lh_prev = (\<lambda>_. 0)(8 := 200, 100 := 8, 200 := 100),
     el_events = [], el_array = None, el_head = 8,
     el_timeout = (\<lambda>_. new_timeout 0 20 7 1 2)(100 := new_timeout 0 10 7 1 1), el_blocks = [100, 200], el_fault = False,
     el_terminate = False, el_queue = [], el_params = [], el_log = []\<rparr>"

lemma example_eloop_inv: "eloop_inv example_eloop [100, 200]" "\<not> el_terminate example_eloop"
  by (auto simp: eloop_inv_def example_eloop_def dll_def time_of_def new_timeout_def)

theorem eloop_timeouts_functional_witness:
  "(\<exists>s'. eloop_timeout_register 5 300 10 7 3 3 example_eloop = Some (0, s') \<and> eloop_inv s' [100, 300, 200]) \<and>
   (\<exists>s'. eloop_timeout_cancel 7 1 1 example_eloop = Some (1, s') \<and> eloop_inv s' [200]) \<and>
   eloop_timeout_is_registered 7 1 2 example_eloop = Some 1"
proof (intro conjI)
  note w = eloop_timeouts_functional [OF example_eloop_inv]
  have tm: "el_timeout example_eloop 100 = new_timeout 0 10 7 1 1" "el_timeout example_eloop 200 = new_timeout 0 20 7 1 2"
    by (simp_all add: example_eloop_def)
  from w [of 300 5 10 7 3 3] obtain s' where s': "eloop_timeout_register 5 300 10 7 3 3 example_eloop = Some (0, s')"
    "eloop_inv s' (place_timeout s' 300 [100, 200])" "el_timeout s' = (el_timeout example_eloop)(300 := new_timeout 5 10 7 3 3)"
    by (auto simp: example_eloop_def)
  have "place_timeout s' 300 [100, 200] = [100, 300, 200]"
    by (simp add: place_timeout_def time_of_def s'(3)) (simp add: example_eloop_def new_timeout_def)
  with s' show "\<exists>s'. eloop_timeout_register 5 300 10 7 3 3 example_eloop = Some (0, s') \<and> eloop_inv s' [100, 300, 200]" by auto
  show "\<exists>s'. eloop_timeout_cancel 7 1 1 example_eloop = Some (1, s') \<and> eloop_inv s' [200]"
    using w [of _ _ _ 7 1 1] by (simp add: timeout_matches_def tm new_timeout_def ELOOP_ALL_CTX_def) blast
  show "eloop_timeout_is_registered 7 1 2 example_eloop = Some 1"
    using w [of _ _ _ 7 1 2] by (simp add: timeout_call_def tm new_timeout_def)
qed



text \<open>
  Property C25: around the wrap of the clock a timeout can be held up by a later one. The list is
  sorted by unsigned times, but whether a timeout has expired is decided by signed differences, and
  only for the first one. Of two timeouts where only the time of the later one wraps, the
  later one comes first, and until it expires nothing is done about the earlier one.
\<close>

theorem eloop_wrap_delays:
  assumes inv: "eloop_inv s []" and t: "\<not> el_terminate s" and m: "a \<noteq> NULL" "b \<noteq> NULL" "a \<noteq> b" "a \<noteq> el_head s" "b \<noteq> el_head s"
    and w: "unat now + unat m1 < 2 ^ 32" "2 ^ 32 \<le> unat now + unat m2" "unat m2 < 2 ^ 31"
  shows "\<exists>s1 s2. eloop_timeout_register now a m1 h d u s = Some (0, s1) \<and>
    eloop_timeout_register now b m2 h' d' u' s1 = Some (0, s2) \<and> eloop_inv s2 [b, a] \<and>
    (\<forall>k. unat m1 \<le> k \<longrightarrow> k < unat m2 \<longrightarrow>
       SYS_TIME_AFTER_EQ (now + of_nat k) (to_time (el_timeout s2 a)) = Some True \<and>
       eloop_timeout_handle hs (now + of_nat k) s2 = Some s2)"
proof -
  have a: "a \<notin> set (el_head s # [])" using m(4) by simp
  obtain s1 where 1: "eloop_timeout_register now a m1 h d u s = Some (0, s1)" "eloop_inv s1 (place_timeout s1 a [])" "same_rest s1 s"
    "el_timeout s1 = (el_timeout s)(a := new_timeout now m1 h d u)" by (rule register_ok [OF inv m(1) a t])
  have i1: "eloop_inv s1 [a]" using 1(2) by (simp add: place_timeout_def)
  have b: "b \<notin> set (el_head s1 # [a])" "\<not> el_terminate s1" using m(3,5) 1(3) t by (auto simp: same_rest_def)
  obtain s2 where 2: "eloop_timeout_register now b m2 h' d' u' s1 = Some (0, s2)" "eloop_inv s2 (place_timeout s2 b [a])"
    "el_timeout s2 = (el_timeout s1)(b := new_timeout now m2 h' d' u')" by (rule register_ok [OF i1 m(2) b])
  have tm: "to_time (el_timeout s2 a) = now + m1" "to_time (el_timeout s2 b) = now + m2"
    using 1(4) 2(3) m(3) by (simp_all add: new_timeout_def)
  have ta: "unat (now + m1) = unat now + unat m1" using w(1) by (intro unat_add_small) simp
  have "unat (now + m2) = (unat now + unat m2) mod 2 ^ 32" by (simp add: unat_word_ariths)
  moreover have "unat now + unat m2 < 2 * 2 ^ 32" using unat_bound [of now] unat_bound [of m2] by simp
  ultimately have "unat (now + m2) = unat now + unat m2 - 2 ^ 32" using w(2) by (simp add: mod_if le_mod_geq)
  then have "unat (now + m2) < unat now" using w(2,3) by simp
  then have "\<not> time_of s2 a \<le> time_of s2 b" using ta by (simp add: time_of_def tm)
  then have i2: "eloop_inv s2 [b, a]" using 2(2) by (simp add: place_timeout_def)
  have up: "2 ^ 31 \<le> unat now" using w(2,3) by simp
  have m12: "m1 = of_nat (unat m1)" "m2 = of_nat (unat m2)" by simp_all
  have "SYS_TIME_AFTER_EQ (now + of_nat k) (to_time (el_timeout s2 a)) = Some True \<and>
      eloop_timeout_handle hs (now + of_nat k) s2 = Some s2"
    if k: "unat m1 \<le> k" "k < unat m2" for k
  proof -
    have less: "k < 2 ^ 31" "unat m1 < 2 ^ 31" using k w(3) by simp_all
    have cmp: "SYS_TIME_AFTER_EQ (now + of_nat k) (now + of_nat m) = Some (m \<le> k)" if "m < 2 ^ 31" for m
      using sint_from_upper [OF up less(1)] sint_from_upper [OF up that] less(1) that
      by (simp add: SYS_TIME_AFTER_EQ_def int32_diff_def)
    have "SYS_TIME_AFTER_EQ (now + of_nat k) (now + m1) = Some True" "SYS_TIME_AFTER_EQ (now + of_nat k) (now + m2) = Some False"
      using cmp [OF less(2)] cmp [OF w(3)] k by simp_all
    then show ?thesis using handle_not_due [OF i2, of "now + of_nat k" hs] tm by auto
  qed
  with 1(1) 2(1) i2 show ?thesis by blast
qed

definition example_idle :: eloop where
  "example_idle = example_eloop\<lparr>lh_next := (\<lambda>_. 0)(8 := 8), lh_prev := (\<lambda>_. 0)(8 := 8), el_blocks := []\<rparr>"

lemma example_idle_inv: "eloop_inv example_idle []" "\<not> el_terminate example_idle" "el_head example_idle = 8"
  by (auto simp: eloop_inv_def example_idle_def example_eloop_def dll_def)

theorem eloop_wrap_delays_witness:
  "\<exists>s1 s2. eloop_timeout_register 0xFFFFFFF0 100 10 7 1 1 example_idle = Some (0, s1) \<and>
     eloop_timeout_register 0xFFFFFFF0 200 3600000 7 2 2 s1 = Some (0, s2) \<and>
     eloop_timeout_handle (\<lambda>_ _ _ t. t) (0xFFFFFFF0 + of_nat 3599999) s2 = Some s2"
proof -
  have "\<exists>s1 s2. eloop_timeout_register 0xFFFFFFF0 100 10 7 1 1 example_idle = Some (0, s1) \<and>
      eloop_timeout_register 0xFFFFFFF0 200 3600000 7 2 2 s1 = Some (0, s2) \<and> eloop_inv s2 [200, 100] \<and>
      (\<forall>k. unat (10 :: u32) \<le> k \<longrightarrow> k < unat (3600000 :: u32) \<longrightarrow>
         SYS_TIME_AFTER_EQ (0xFFFFFFF0 + of_nat k) (to_time (el_timeout s2 100)) = Some True \<and>
         eloop_timeout_handle (\<lambda>_ _ _ t. t) (0xFFFFFFF0 + of_nat k) s2 = Some s2)"
    by (rule eloop_wrap_delays) (use example_idle_inv in simp_all)
  then obtain s1 s2 where s: "eloop_timeout_register 0xFFFFFFF0 100 10 7 1 1 example_idle = Some (0, s1)"
    "eloop_timeout_register 0xFFFFFFF0 200 3600000 7 2 2 s1 = Some (0, s2)"
    and k: "\<forall>k. unat (10 :: u32) \<le> k \<longrightarrow> k < unat (3600000 :: u32) \<longrightarrow>
      SYS_TIME_AFTER_EQ (0xFFFFFFF0 + of_nat k) (to_time (el_timeout s2 100)) = Some True \<and>
      eloop_timeout_handle (\<lambda>_ _ _ t. t) (0xFFFFFFF0 + of_nat k) s2 = Some s2" by blast
  have "unat (10 :: u32) \<le> 3599999" "3599999 < unat (3600000 :: u32)" by simp_all
  with k have "eloop_timeout_handle (\<lambda>_ _ _ t. t) (0xFFFFFFF0 + of_nat 3599999) s2 = Some s2" by blast
  with s show ?thesis by blast
qed

text \<open>
  Property C26: shutting down. Once the message of \<open>wifi_eloop_terminate\<close> is dispatched the
  loop starts no further round, whatever its inputs are; from then on nothing can be registered or sent, and \<open>wifi_eloop_destroy\<close> ends,
  releases every timeout and every parameter of a message that was not handled once, and nothing
  else.
\<close>

theorem eloop_shutdown_releases:
  assumes inv: "eloop_inv s xs" and m: "ELOOP_EVENT_GET_EV (em_event_id msg) = ELOOP_EVENT_TERMINATE" and a: "el_array s \<noteq> Some False"
  shows "\<exists>s1 s2. eloop_event_dispatch hs rsm msg s = Some s1 \<and> wifi_eloop_run hs rsm inputs s1 = Some (True, s1) \<and>
    eloop_timeout_register now mem ms h d u s1 = Some (-1, s1) \<and> eloop_event_register ok i h d u s1 = (-1, s1) \<and>
    eloop_message_send ok v e r p l s1 = (-1, s1) \<and> eloop_event_send ok v e s1 = (-1, s1) \<and>
    wifi_eloop_destroy s1 = Some s2 \<and> el_blocks s2 = [] \<and> \<not> el_fault s2 \<and> el_queue s2 = [] \<and>
    el_params s2 = el_params s @ filter (\<lambda>p. p \<noteq> NULL) (map em_param (el_queue s))"
proof -
  let ?s1 = "s\<lparr>el_terminate := True\<rparr>"
  have d: "eloop_event_dispatch hs rsm msg s = Some ?s1"
    using m by (simp add: eloop_event_dispatch_def ELOOP_EVENT_TERMINATE_def ELOOP_EVENT_WAKEUP_def)
  have run: "wifi_eloop_run hs rsm inputs ?s1 = Some (True, ?s1)" by (cases "(hs, rsm, inputs, ?s1)" rule: wifi_eloop_run.cases) auto
  have fl: "flush_messages q = filter (\<lambda>p. p \<noteq> NULL) (map em_param q)" for q by (induction q) auto
  let ?q = "?s1\<lparr>el_params := el_params ?s1 @ flush_messages (el_queue ?s1), el_queue := []\<rparr>"
  have "eloop_inv ?q xs" using inv by simp
  then obtain s' where s': "remove_timeouts (\<lambda>_. True) ?q = Some (int (length xs), s')" "eloop_inv s' []" "same_rest s' ?q"
    by (rule remove_timeouts_ok [where P = "\<lambda>_. True"]) auto
  have f: "el_blocks s' = []" "\<not> el_fault s'" "el_queue s' = []" "el_params s' = el_params s @ flush_messages (el_queue s)"
    "el_array s' = el_array s"
    using s'(2,3) by (auto simp: eloop_inv_def same_rest_def)
  then have "\<exists>s2. wifi_eloop_destroy ?s1 = Some s2 \<and> el_blocks s2 = [] \<and> \<not> el_fault s2 \<and> el_queue s2 = [] \<and>
      el_params s2 = el_params s @ filter (\<lambda>p. p \<noteq> NULL) (map em_param (el_queue s))"
    using s'(1) a by (auto simp: wifi_eloop_destroy_def Let_def fl split: option.split)
  with d run show ?thesis
    by (auto simp: eloop_timeout_register_def eloop_event_register_def eloop_message_send_def eloop_event_send_def)
qed

theorem eloop_shutdown_releases_witness:
  "\<exists>s1 s2. eloop_event_dispatch (\<lambda>_ _ _ t. t) (\<lambda>_ t. t)
       \<lparr>em_event_id = ELOOP_EVENT_ID 0 ELOOP_EVENT_TERMINATE, em_reason = 0, em_param = 0, em_param_len = 0\<rparr> example_eloop = Some s1 \<and>
     wifi_eloop_destroy s1 = Some s2 \<and> el_blocks s2 = [] \<and> \<not> el_fault s2"
proof -
  let ?m = "\<lparr>em_event_id = ELOOP_EVENT_ID 0 ELOOP_EVENT_TERMINATE, em_reason = 0, em_param = 0, em_param_len = 0\<rparr>"
  have "ELOOP_EVENT_GET_EV (em_event_id ?m) = ELOOP_EVENT_TERMINATE"
    by (simp add: ELOOP_EVENT_GET_EV_def ELOOP_EVENT_ID_def ELOOP_EVENT_TERMINATE_def)
  moreover have "el_array example_eloop \<noteq> Some False" by (simp add: example_eloop_def)
  ultimately show ?thesis
    using eloop_shutdown_releases [OF example_eloop_inv(1), where msg = ?m and hs = "\<lambda>_ _ _ t. t" and rsm = "\<lambda>_ t. t"] by blast
qed

end
