(* ===== verification/Spec2Isabelle.thy ===== *)
theory Spec2Isabelle
  imports Ring_Buffer Cyclic_Buffer Tuya_Queue Hash_Map Ota Nvds_System Nvds_Purge Mem_Client Aes Tools Smart_Pointer Wifi_Eloop
begin

text \<open>
  Verification of the core of TuyaOpen-GigaDevice: the TuyaOS adapter for the GigaDevice
  GD32VW553 with the parts of the GigaDevice SDK that it rests on.

  \<^bold>\<open>The program.\<close> A device runs one of two firmware images in its flash. The main boot loader
  (\<open>MBL/mainboot\<close>) selects an image by the flags that the boot ROM keeps, has it validated, maps
  it to the address it is linked for and jumps to it; when the validation fails it resets and
  tries again. The running firmware updates itself through \<open>tkl_ota.c\<close>: the packets of a new
  image are written to the other slot through the raw flash driver (\<open>raw_flash_api.c\<close>), then the
  flags are changed so that the next boot selects it. Settings live in the NVDS storage
  (\<open>nvds_flash.c\<close>), a log of entries in flash sectors with namespaces and keys. Above the flash
  the adapter offers \<open>tkl_flash.c\<close>. The TuyaOS utilities are the containers and the allocator that
  the rest is written with: ring buffer, queue, list, hash list and hash map, memory heap; the
  SDK has its own cyclic buffer, lists and checksums.

  \<^bold>\<open>The theories.\<close>
  \<^item> \<open>Fw_Prelude\<close>: machine words, return codes, \<open>memcpy\<close> on byte lists, little-endian encoding,
    and the lemmas on them that all components share.
  \<^item> \<open>Byte_Fifo\<close>: the locale \<open>byte_fifo\<close>, the contract of a bounded queue of bytes, with what its
    clients may conclude; interpreted by \<open>Ring_Buffer\<close> (\<open>tuya_ringbuf.c\<close>) and \<open>Cyclic_Buffer\<close>
    (\<open>cyclic_buffer.c\<close>).
  \<^item> \<open>Link_List\<close>: the circular lists \<open>tuya_list.h\<close> and \<open>dlist.h\<close>, both interpretations of the
    locale \<open>circular_list\<close>; the links are maps from addresses to addresses.
  \<^item> \<open>Slist\<close>: the singly linked list \<open>slist.c\<close>, an interpretation of \<open>element_list\<close>.
  \<^item> \<open>Tuya_Queue\<close>: \<open>tuya_queue.c\<close> on the lists, an explicit heap and a mutex; a refinement of a
    bounded list, with the accounting of memory and locks.
  \<^item> \<open>Hlist\<close> and \<open>Hash_Map\<close>: \<open>tuya_hlist.c\<close> with its pointers to pointers (locale
    \<open>bucket_list\<close>) and \<open>tuya_hashmap.c\<close>, a refinement of a multimap.
  \<^item> \<open>Crc\<close>: the bytewise, bitwise and table routines, against division of polynomials over two
    elements (locale \<open>reflected_crc\<close>).
  \<^item> \<open>Aes\<close>: \<open>aes_ecb.c\<close>, the block cipher in software with its tables, and on \<open>mbedtls\<close>.
  \<^item> \<open>Tools\<close>: \<open>tuya_tools.c\<close> and the hexadecimal functions of \<open>util.c\<close>.
  \<^item> \<open>Smart_Pointer\<close>: \<open>tuya_smartpointer.c\<close>.
  \<^item> \<open>Wifi_Eloop\<close>: \<open>wifi_eloop.c\<close>, the event loop of the Wi-Fi manager with its list of timeouts.
  \<^item> \<open>Mem_Heap\<close>: \<open>tuya_mem_heap.c\<close> on a memory of bytes; \<open>Mem_Blocks\<close>, \<open>Mem_Alloc\<close>, \<open>Mem_Free\<close> and
    \<open>Mem_Inv\<close>: its blocks, allocation, release and invariant; \<open>Mem_Store\<close>, \<open>Mem_Refine\<close> and
    \<open>Mem_Client\<close>: the object store it implements (locale \<open>object_heap\<close>) and whole client runs.
  \<^item> \<open>Flash_Layout\<close>, \<open>Raw_Flash\<close>: the layout constants, \<open>raw_flash_api.c\<close> and \<open>tkl_flash.c\<close>; the
    locale \<open>nor_flash\<close> is what they require of the flash functions in ROM.
  \<^item> \<open>Secure_Boot\<close>: \<open>mbl.c\<close> and \<open>mbl_image_validate.c\<close>; the locale \<open>boot_rom\<close> is what they require
    of the ROM table.
  \<^item> \<open>Ota\<close>: \<open>tkl_ota.c\<close>.
  \<^item> \<open>Nvds_Entry\<close>, \<open>Nvds_Flash\<close>, \<open>Nvds_Put\<close>, \<open>Nvds_Api\<close>: \<open>nvds_flash.c\<close> from the encoding of an
    entry to the exported data operations; \<open>Nvds_Layout\<close>, \<open>Nvds_Alter\<close>, \<open>Nvds_Store\<close>,
    \<open>Nvds_Update\<close>, \<open>Nvds_Append\<close>, \<open>Nvds_Map\<close> and \<open>Nvds_Spaces\<close>: its invariant, what the flash holds,
    and single operations as changes of a finite map; \<open>Nvds_Pages\<close>: what the flash operations
    keep (locale \<open>page_view\<close>) and the lists of pages.
  \<^item> \<open>Simulation\<close>: sequences of operations and the locale \<open>budget_refinement\<close>, a simulation whose
    steps use up a budget. \<open>Nvds_Reload\<close>: loading rebuilds the storage from the flash alone;
    \<open>Nvds_Format\<close>: formatting, and elements by namespace number across resets; \<open>Nvds_Named\<close>: the
    same by namespace name. Both are sublocales of \<open>nor_flash\<close> into \<open>budget_refinement\<close>.
  \<^item> \<open>Nvds_Purge\<close>: the deletion of a namespace. \<open>Nvds_System\<close>: the list of storages and the
    functions that open, close and clean them, as a step relation.
  \<^item> \<open>Spec2Isabelle\<close>: properties over several components.

  \<^bold>\<open>State and effects.\<close> Structures are records, and functions that change them return the new
  one. Where pointers matter (lists, queue, hash map, heap) an explicit store maps addresses to
  fields or bytes and the null pointer is \<open>0\<close>. Return codes are words or integers as in the code;
  output parameters are results. Words keep their width, and arithmetic on them wraps as in the
  code. A call of the system allocator gets the address it returns as an argument, with \<open>0\<close> for
  failure; the hypotheses of the theorems say that the address is not in use. Taking a mutex
  is a change of its state, so that a missing release shows. Where C leaves a result undefined (the
  overflow of a signed difference of times) the model has no result.

  \<^bold>\<open>Loops.\<close> A loop over a linked structure is a \<open>partial_function\<close> with result \<open>None\<close> when it does
  not end, and the theorems state \<open>Some\<close>: on a well-formed structure it returns. Loops with a
  counter have a termination proof. The boot loader resets itself; \<open>boot\<close> counts the attempts, and
  \<open>boot_terminates\<close> shows that three are always enough.

  \<^bold>\<open>What is shown.\<close> Secure boot and update: an update, whatever the size of its packets, installs the
  image in the other slot, leaves the running one alone, and the next boot runs the new image
  if the boot loader accepts it and the old one if it accepts only that; where the boot options ask
  for a check, only images that passed it in the ROM run.
  NVDS: writes, deletions and resets behave as on a finite map that a reset does not change,
  with the return codes of the code; formatting gives the empty map and deleting a namespace
  removes its keys and nothing else; no page gets lost; different storages of a device do not
  share flash as long as the calls are careful. Allocator: objects are aligned, disjoint
  and keep their bytes, calls return, free blocks are merged. Containers: each refines a list,
  bounded list, byte stream or multimap. Checksums: the routines agree with polynomial
  division and detect bursts. AES: the rounds of decryption invert those of encryption, and the
  optimised steps are those of the standard. Tools: round trips of hexadecimal text, sorting, string
  order, bit counts. Event loop: the list of timeouts stays sorted, expired timeouts are served once
  each and in order while clock and times are on the same side of half the range of the clock,
  and shutting down releases everything. Several theorems state what the code does where it does not do what it means
  to: sizes that wrap, a partition that overlaps another, an update whose length is a multiple of
  the block size, a cipher block of which half is lost, copied data that is freed as if it were a
  block, equal strings that compare as different, storages that are forgotten when another one is
  cleaned, a timeout that a later one holds up when the clock wraps, a boot option that is cut to
  its lowest byte, an insertion whose comment swaps its arguments.

  \<^bold>\<open>Bounds.\<close> The NVDS refinement covers elements of up to 256 bytes (the code's small and middle
  elements) while they fit into the open page, which is the budget of \<open>budget_refinement\<close>; larger
  elements and the recycling of pages are modelled, and of them it is proved that pages are
  conserved. A reset loses the memory and keeps the flash; a reset in the middle of a write is
  not part of the theorems. The deletion of a namespace has the counter of its keys as a
  hypothesis, because the code counts large elements once and takes them off for every fragment.
  The storage is built without encryption. A hash map has a bucket array of
  less than \<open>2 ^ 32\<close> bytes. The allocator theorems are about one heap and its
  handle; the search over all heaps with a null handle is modelled.

  \<^bold>\<open>Not modelled.\<close> Of the modelled files: serial download in the boot loader (\<open>xmodem\<close> is a
  function of the ROM), the encrypted flash functions, and output for debugging. Of the
  repository: vendored projects (mbedtls, lwip, FatFS, FreeRTOS, RT-Thread, wpa_supplicant, cJSON,
  the Bluetooth stacks), libraries without source (MAC, ROM), the drivers of the peripherals, which
  write registers, the state machine of the Wi-Fi manager, which the MAC library drives, and the remaining \<open>tkl_\<close> adapters, which pass their arguments on to them.
\<close>

section \<open>Properties that span components\<close>

text \<open>
  Property C1: a complete firmware update, from the start notification over the packets and
  the end notification to the next boot. The new image is longer than a block of 512 bytes and
  its length is no multiple of it, and the running image was verified when it was booted. Then
  the new image is at the start of the other slot afterwards, and the next boot runs it if the
  boot loader accepts it; if the boot loader does not, but still accepts the image that was
  running, it falls back to that one. The slot of the running image is not touched at any
  time. \<open>s0\<close> is the state of the chip when the update starts, \<open>s\<close> when all packets are written,
  so that the verdict of the ROM is the one on the written flash.
\<close>

theorem ota_update_then_boot:
  assumes rom: "boot_rom rom img running core" and fl: "nor_flash fl" and d: "\<not> fd_unlocked d"
    and r: "r \<in> {IMAGE_0, IMAGE_1}" "running s0 = Some (ucast r)"
    and f: "img r s = Some f" "f AND IMG_FLAG_VERIFY_MASK = IMG_FLAG_VERIFY_OK"
    and start: "tkl_ota_start_notify rom s0 ok (of_nat (length new)) ug0 = (OPRT_OK, Some u)"
    and len: "512 < length new" "\<not> 512 dvd length new" "length new < 2 ^ 32"
    and cs: "concat cs = new" "[] \<notin> set cs"
  defines "other \<equiv> (if r = IMAGE_0 then IMAGE_1 else IMAGE_0)"
    and "slot \<equiv> (\<lambda>i :: u32. if i = IMAGE_0 then 0xA000 else 0x1EA000 :: nat)"
  shows "\<exists>u' d' s'. ota_feed fl (length new) [] cs (Some u) d = (OPRT_OK, [], Some u', d') \<and>
    (\<forall>i < length new. fd_mem d' (slot other + i) = new ! i) \<and>
    (\<forall>i < 0x1E0000. fd_mem d' (slot r + i) = fd_mem d (slot r + i)) \<and>
    tkl_ota_end_notify rom reset (Some u') s = Some (OPRT_OK, reset, s') \<and>
    (accepted rom ibl v s other \<longrightarrow>
       (\<exists>a t. boot 2 rom ibl v s' = Some (Jump other a (image_map other), t) \<and> running t = Some (ucast other))) \<and>
    (\<not> accepted rom ibl v s other \<and> accepted rom ibl v s r \<longrightarrow>
       (\<exists>a t. boot 2 rom ibl v s' = Some (Jump r a (image_map r), t) \<and> running t = Some (ucast r)))"
proof -
  have "snd (sys_status_get rom SYS_RUNNING_IMG 0 s0) = ucast r"
    using boot_rom.get_running [OF rom] r(2) by simp
  then have u: "runing_image_idx u = r" "unat (ug_start_addr u) = slot other" "unat (image_max_size u) = 0x1E0000"
    using start r(1) by (auto elim!: ota_start_slot simp: other_def slot_def)
  obtain u' d' where feed: "ota_feed fl (length new) [] cs (Some u) d = (OPRT_OK, [], Some u', d')"
      "ota_inv new (fd_mem d) (slot other) 0x1E0000 r (length new) u' d'"
    using ota_feed_from_start [OF fl d start _ len(3) cs] len u by auto
  have u': "runing_image_idx u' = r" and mem: "\<forall>i < length new. fd_mem d' (slot other + i) = new ! i"
      "\<forall>a. a < slot other \<or> slot other + 0x1E0000 \<le> a \<longrightarrow> fd_mem d' a = fd_mem d a"
    using feed(2) by (auto simp: ota_inv_def)
  have keep: "\<forall>i < 0x1E0000. fd_mem d' (slot r + i) = fd_mem d (slot r + i)"
    using mem(2) r(1) by (auto simp: other_def slot_def)
  obtain s' where e: "tkl_ota_end_notify rom reset (Some u') s = Some (OPRT_OK, reset, s')"
    using boot_rom.ota_end_flags [OF rom, of u' reset s] u' r(1) by auto
  note next_boot = boot_rom.ota_next_boot [OF rom r(1) u' f e, of ibl v, folded other_def]
  show ?thesis
    by (intro exI [of _ u'] exI [of _ d'] exI [of _ s'])
      (use feed(1) mem(1) keep e next_boot in blast)
qed

theorem ota_update_then_boot_witness:
  "\<exists>u' d' s' a t. ota_feed ideal_flash 700 [] [replicate 300 7, replicate 400 7] (Some ota_example_ug)
       flash_example = (OPRT_OK, [], Some u', d') \<and>
     fd_mem d' (0x1EA000 + 5) = 7 \<and>
     tkl_ota_end_notify chip_rom False (Some u') chip_example = Some (OPRT_OK, False, s') \<and>
     boot 2 chip_rom rom_boot_example 0 s' = Some (Jump IMAGE_0 a (image_map IMAGE_0), t)"
proof -
  let ?new = "ota_example_image" and ?cs = "[replicate 300 7, replicate 400 (7 :: u8)]"
  have len: "length ?new = 700"
    by (simp add: ota_example_image_def)
  have cs: "concat ?cs = ?new"
    by (simp add: ota_example_image_def flip: replicate_add)
  have start: "tkl_ota_start_notify chip_rom chip_example True (of_nat (length ?new)) None =
      (OPRT_OK, Some ota_example_ug)"
    by (rule ota_example_start [OF len]) simp_all
  have nd: "\<not> 512 dvd length ?new"
    unfolding len by presburger
  have d: "\<not> fd_unlocked flash_example"
    by (simp add: flash_example_def)
  have f: "IMAGE_0 \<in> {IMAGE_0, IMAGE_1}" "ch_running chip_example = Some (ucast IMAGE_0)"
      "ch_img chip_example IMAGE_0 = Some 0x0A" "0x0A AND IMG_FLAG_VERIFY_MASK = IMG_FLAG_VERIFY_OK"
    by (simp_all add: chip_example_def img_flag_defs)
  have acc: "\<not> accepted chip_rom rom_boot_example 0 chip_example IMAGE_1"
      "accepted chip_rom rom_boot_example 0 chip_example IMAGE_0"
    by code_simp+
  have l: "512 < length ?new" "length ?new < 2 ^ 32" "[] \<notin> set ?cs"
    by (simp_all add: len)
  obtain u' d' s' where r: "ota_feed ideal_flash (length ?new) [] ?cs (Some ota_example_ug) flash_example =
        (OPRT_OK, [], Some u', d')"
      "\<forall>i < length ?new. fd_mem d' (0x1EA000 + i) = ?new ! i"
      "tkl_ota_end_notify chip_rom False (Some u') chip_example = Some (OPRT_OK, False, s')"
      "\<exists>a t. boot 2 chip_rom rom_boot_example 0 s' = Some (Jump IMAGE_0 a (image_map IMAGE_0), t)"
    using ota_update_then_boot [OF chip.boot_rom_axioms ideal.nor_flash_axioms d f start l(1) nd l(2) cs l(3),
        of False rom_boot_example 0] acc by auto
  have "fd_mem d' (0x1EA000 + 5) = 7"
    using r(2) [unfolded len, rule_format, of 5] by (simp add: ota_example_image_def)
  with r(1,3,4) show ?thesis
    unfolding len by blast
qed

end
